(* ===== verification/Hft_Prelude.thy ===== *)
theory Hft_Prelude
  imports Main "HOL-Library.Word"
begin

text \<open>
  Shared vocabulary of the development: the machine integer types of the C++ sources, the
  two's-complement wrap-around of signed arithmetic, decimal rendering, the power-of-two index
  masks that every ring buffer of the engine uses, and ring-slot lemmas on lists.
\<close>

unbundle bit_operations_syntax

named_theorems ring_simps "index arithmetic of power-of-two rings"
named_theorems abs_simps "abstraction functions of the components"

subsection \<open>Machine integers\<close>

type_synonym u8 = "8 word"
type_synonym u16 = "16 word"
type_synonym u32 = "32 word"
type_synonym u64 = "64 word"

text \<open>
  Signed C++ integers (\<open>int\<close>, \<open>int64_t\<close>) are HOL integers with the wrap-around of the target
  written out wherever an operation can leave the range.
\<close>

definition wrap_i32 :: "int \<Rightarrow> int" where
  "wrap_i32 x = signed_take_bit 31 x"

definition wrap_i64 :: "int \<Rightarrow> int" where
  "wrap_i64 x = signed_take_bit 63 x"

definition in_i32 :: "int \<Rightarrow> bool" where
  "in_i32 x \<longleftrightarrow> - (2 ^ 31) \<le> x \<and> x < 2 ^ 31"

definition in_i64 :: "int \<Rightarrow> bool" where
  "in_i64 x \<longleftrightarrow> - (2 ^ 63) \<le> x \<and> x < 2 ^ 63"

lemma wrap_i32_id [simp]: "in_i32 x \<Longrightarrow> wrap_i32 x = x"
  by (simp add: wrap_i32_def in_i32_def signed_take_bit_int_eq_self)

lemma wrap_i64_id [simp]: "in_i64 x \<Longrightarrow> wrap_i64 x = x"
  by (simp add: wrap_i64_def in_i64_def signed_take_bit_int_eq_self)

lemma in_i32_wrap [simp]: "in_i32 (wrap_i32 x)"
  unfolding wrap_i32_def in_i32_def
  by (intro conjI signed_take_bit_int_greater_eq_minus_exp signed_take_bit_int_less_exp)

lemma in_i64_wrap [simp]: "in_i64 (wrap_i64 x)"
  unfolding wrap_i64_def in_i64_def
  by (intro conjI signed_take_bit_int_greater_eq_minus_exp signed_take_bit_int_less_exp)

subsection \<open>Power-of-two capacities\<close>

text \<open>
  The two static assertions of \<open>SPSCQueue\<close>, \<open>SequenceReorderBuffer\<close> and \<open>FeedArbitrator\<close>:
  \<open>(Capacity & (Capacity - 1)) == 0\<close>, with \<open>Capacity > 1\<close> where the class asks for it.
\<close>

definition pow2_capacity :: "nat \<Rightarrow> bool" where
  "pow2_capacity c \<longleftrightarrow> c AND (c - 1) = 0 \<and> c > 0"

lemma pow2_capacity_exp: "pow2_capacity (2 ^ k)"
proof -
  have "(2 ^ k :: nat) AND (2 ^ k - 1) = take_bit k (2 ^ k)"
    by (simp add: take_bit_eq_mask mask_eq_exp_minus_1)
  then show ?thesis
    by (simp add: pow2_capacity_def)
qed

lemma pow2_capacityE:
  assumes "pow2_capacity c"
  obtains k where "c = 2 ^ k"
proof -
  from assms have "\<exists>k. c = 2 ^ k"
  proof (induction c rule: less_induct)
    case (less c)
    show ?case
    proof (cases "even c")
      case True
      then obtain d where d: "c = 2 * d" by blast
      with less.prems have "d > 0"
        by (simp add: pow2_capacity_def)
      have c1: "c - 1 = 2 * (d - 1) + 1"
        using d \<open>d > 0\<close> by simp
      have "c AND (c - 1) = 2 * (d AND (d - 1))"
        unfolding c1 unfolding d by (simp add: and_rec [of "2 * d"] split: if_splits)
      with less.prems \<open>d > 0\<close> have "pow2_capacity d"
        by (simp add: pow2_capacity_def)
      with less.IH [of d] d \<open>d > 0\<close> obtain k where "d = 2 ^ k"
        by auto
      with d have "c = 2 ^ Suc k" by simp
      then show ?thesis by blast
    next
      case False
      then obtain d where d: "c = 2 * d + 1" by (meson oddE)
      have "c AND (c - 1) = 2 * d"
        unfolding d by (simp add: and_rec [of "Suc (2 * d)"] split: if_splits)
      with less.prems have "d = 0"
        by (simp add: pow2_capacity_def)
      with d have "c = 2 ^ 0" by simp
      then show ?thesis by blast
    qed
  qed
  with that show thesis by blast
qed

lemma pow2_mask [ring_simps]:
  assumes "pow2_capacity c"
  shows "n AND (c - 1) = n mod c"
proof -
  from assms obtain k where "c = 2 ^ k" by (rule pow2_capacityE)
  then have "n AND (c - 1) = n AND mask k"
    by (simp only: mask_eq_exp_minus_1)
  also have "\<dots> = n mod c"
    using \<open>c = 2 ^ k\<close> by (simp only: take_bit_eq_mask [symmetric] take_bit_eq_mod)
  finally show ?thesis .
qed

lemma pow2_mask_Suc [ring_simps]: "pow2_capacity c \<Longrightarrow> n AND (c - Suc 0) = n mod c"
  using pow2_mask by simp

lemma pow2_capacity_pos [dest]: "pow2_capacity c \<Longrightarrow> 0 < c"
  by (simp add: pow2_capacity_def)

subsection \<open>Decimal text\<close>

text \<open>
  The character tests \<open>*ptr >= '0' && *ptr <= '9'\<close> and values \<open>*ptr - '0'\<close> of the parsers, the
  value of a digit string, and the decimal rendering that \<open>std::to_chars\<close>, \<open>{}\<close> and \<open>%llu\<close> give.
\<close>

definition is_digit :: "char \<Rightarrow> bool" where
  "is_digit c \<longleftrightarrow> 48 \<le> (of_char c :: nat) \<and> (of_char c :: nat) \<le> 57"

definition digit_val :: "char \<Rightarrow> nat" where
  "digit_val c = of_char c - 48"

definition dec_value :: "string \<Rightarrow> nat" where
  "dec_value s = foldl (\<lambda>acc c. acc * 10 + digit_val c) 0 s"

definition digit_char :: "nat \<Rightarrow> char" where
  "digit_char d = char_of (48 + d)"

fun dec_string :: "nat \<Rightarrow> string" where
  "dec_string n = (if n < 10 then [digit_char n] else dec_string (n div 10) @ [digit_char (n mod 10)])"

declare dec_string.simps [simp del]

lemma digit_char_literals [simp]:
  "digit_char 0 = CHR ''0''" "digit_char (Suc 0) = CHR ''1''" "digit_char 1 = CHR ''1''"
  "digit_char 2 = CHR ''2''" "digit_char 3 = CHR ''3''" "digit_char 4 = CHR ''4''"
  "digit_char 5 = CHR ''5''" "digit_char 6 = CHR ''6''" "digit_char 7 = CHR ''7''"
  "digit_char 8 = CHR ''8''" "digit_char 9 = CHR ''9''"
  by code_simp+

lemma of_char_digit_char: "d < 10 \<Longrightarrow> (of_char (digit_char d) :: nat) = 48 + d"
  by (simp add: digit_char_def of_char_of take_bit_eq_mod)

lemma is_digit_digit_char [simp]: "d < 10 \<Longrightarrow> is_digit (digit_char d)"
  by (simp add: is_digit_def of_char_digit_char)

lemma digit_val_digit_char [simp]: "d < 10 \<Longrightarrow> digit_val (digit_char d) = d"
  by (simp add: digit_val_def of_char_digit_char)

lemma digit_val_less [simp]: "is_digit c \<Longrightarrow> digit_val c < 10"
  by (auto simp: is_digit_def digit_val_def)

lemma dec_value_Nil [simp]: "dec_value [] = 0"
  by (simp add: dec_value_def)

lemma dec_value_snoc [simp]: "dec_value (s @ [c]) = dec_value s * 10 + digit_val c"
  by (simp add: dec_value_def)

lemma dec_value_append: "dec_value (s @ t) = dec_value s * 10 ^ length t + dec_value t"
  by (induction t rule: rev_induct)
    (simp_all add: algebra_simps flip: append_assoc)

lemma dec_value_Cons: "dec_value (c # s) = digit_val c * 10 ^ length s + dec_value s"
  using dec_value_append [of "[c]" s] by (simp add: dec_value_def)

lemma dec_value_bound: "list_all is_digit s \<Longrightarrow> dec_value s < 10 ^ length s"
proof (induction s rule: rev_induct)
  case (snoc c s)
  then have "dec_value s + 1 \<le> 10 ^ length s" "digit_val c < 10" by auto
  then have "(dec_value s + 1) * 10 \<le> 10 ^ length s * 10" by (intro mult_right_mono) simp_all
  with \<open>digit_val c < 10\<close> show ?case by simp
qed simp

lemma dec_string_digits [simp]: "list_all is_digit (dec_string n)"
proof (induction n rule: dec_string.induct)
  case (1 n)
  then show ?case by (subst dec_string.simps) simp
qed

lemma dec_string_nonempty [simp]: "dec_string n \<noteq> []"
  by (subst dec_string.simps) simp

lemma dec_value_dec_string [simp]: "dec_value (dec_string n) = n"
proof (induction n rule: dec_string.induct)
  case (1 n)
  then show ?case
    by (subst dec_string.simps) (simp add: dec_value_def [of "[digit_char n]"])
qed

lemma dec_string_length_bound: "0 < k \<Longrightarrow> n < 10 ^ k \<Longrightarrow> length (dec_string n) \<le> k"
proof (induction k arbitrary: n)
  case (Suc k)
  show ?case
  proof (cases "n < 10")
    case True
    then show ?thesis by (subst dec_string.simps) simp
  next
    case False
    then have "0 < k" using Suc.prems(2) by (cases k) auto
    moreover have "n div 10 < 10 ^ k" using Suc.prems(2) by (simp add: less_mult_imp_div_less)
    ultimately have "length (dec_string (n div 10)) \<le> k" by (rule Suc.IH)
    with False show ?thesis by (subst dec_string.simps) simp
  qed
qed simp

lemma takeWhile_all: "list_all P xs \<Longrightarrow> takeWhile P xs = xs"
  by (simp add: list_all_iff)

lemma takeWhile_digits_append:
  "list_all P xs \<Longrightarrow> takeWhile P (xs @ ys) = xs @ takeWhile P ys"
  by (induction xs) auto

lemma dropWhile_digits_append:
  "list_all P xs \<Longrightarrow> dropWhile P (xs @ ys) = dropWhile P ys"
  by (induction xs) auto

subsection \<open>Intervals of sequence numbers\<close>

lemma unat_succ: "(s :: 'a::len word) \<noteq> -1 \<Longrightarrow> unat (s + 1) = Suc (unat s)"
  using unatSuc [of s] by (metis add.commute add_eq_0_iff)

lemma unat_succ_less: "unat (s :: 'a::len word) + 1 < 2 ^ LENGTH('a) \<Longrightarrow> unat (s + 1) = Suc (unat s)"
  using unat_add_lem [of s 1] by simp

lemma word_less_succ: "(s :: 'a::len word) \<noteq> -1 \<Longrightarrow> x < s + 1 \<longleftrightarrow> x \<le> s"
  by (simp add: unat_succ word_less_nat_alt word_le_nat_alt less_Suc_eq_le)

lemma word_succ_le: "(s :: 'a::len word) \<noteq> -1 \<Longrightarrow> s + 1 \<le> x \<longleftrightarrow> s < x"
  using word_less_succ [of s x] by (simp add: linorder_not_less [symmetric])

lemma word_le_pred: "(e :: 'a::len word) < s \<Longrightarrow> x \<le> s - 1 \<longleftrightarrow> x < s"
  using word_less_succ [of "s - 1" x] by (metis diff_add_cancel diff_0 eq_diff_eq word_not_simps(1))

lemma word_interval_pred: "(e :: 'a::len word) < s \<Longrightarrow> {e .. s - 1} = {e ..< s}"
  by (simp only: set_eq_iff atLeastAtMost_iff atLeastLessThan_iff word_le_pred simp_thms)

lemma unat_image_interval: "unat ` {a ..< b :: 'a::len word} = {unat a ..< unat b}"
proof (intro equalityI subsetI)
  fix n assume n: "n \<in> {unat a ..< unat b}"
  then have "n < 2 ^ LENGTH('a)" using unsigned_less [of b] by (metis atLeastLessThan_iff order_less_trans)
  then have "unat (of_nat n :: 'a word) = n" by (simp add: unat_of_nat take_bit_nat_eq_self)
  with n show "n \<in> unat ` {a ..< b}"
    by (intro image_eqI [of _ _ "of_nat n"]) (simp_all add: word_le_nat_alt word_less_nat_alt)
qed (auto simp: word_le_nat_alt word_less_nat_alt)

lemma card_word_interval: "card {a ..< b :: 'a::len word} = unat b - unat a"
proof -
  have "card {a ..< b} = card (unat ` {a ..< b})"
    by (rule card_image [symmetric]) (auto intro: inj_onI simp: word_unat_eq_iff)
  then show ?thesis by (simp add: unat_image_interval)
qed

lemma of_nat_card_word_interval: "a \<le> b \<Longrightarrow> of_nat (card {a ..< b :: 'a::len word}) = b - a"
  by (simp add: card_word_interval word_le_nat_alt of_nat_diff)

lemma u64_digits: "length (dec_string (unat (x :: u64))) \<le> 20"
proof (rule dec_string_length_bound)
  have "unat x < 2 ^ 64" using unsigned_less [of x] by simp
  also have "(2 :: nat) ^ 64 < 10 ^ 20" by simp
  finally show "unat x < 10 ^ 20" .
qed simp

lemma mod_window_inj:
  fixes x y lo w :: nat
  assumes "x mod w = y mod w" "x < lo + w" "y < lo + w" "lo \<le> x" "lo \<le> y"
  shows "x = y"
proof -
  have aux: "a = b" if "a mod w = b mod w" "a \<le> b" "b < a + w" for a b :: nat
  proof -
    have "w dvd b - a" using that(1,2) by (metis mod_eq_dvd_iff_nat)
    moreover have "b - a < w" using that by simp
    ultimately have "b - a = 0" using dvd_imp_le by fastforce
    with that show ?thesis by simp
  qed
  show ?thesis
  proof (cases "x \<le> y")
    case True
    then show ?thesis using aux [of x y] assms by linarith
  next
    case False
    then show ?thesis using aux [of y x] assms by linarith
  qed
qed

subsection \<open>Slots of sequence numbers\<close>

text \<open>
  The slot \<open>seq & (Size - 1)\<close> of a sequence number in the power-of-two arrays of the reorder buffer
  and the feed arbitrator.
\<close>

definition window_index :: "nat \<Rightarrow> u64 \<Rightarrow> nat" where
  "window_index WindowSize seq = unat seq AND (WindowSize - 1)"

text \<open>
  A window of sequence numbers: fewer than \<open>WindowSize\<close> apart, so that no two share a slot.
\<close>

definition seq_window :: "nat \<Rightarrow> u64 \<Rightarrow> u64 set" where
  "seq_window WindowSize lo = {s. unat lo \<le> unat s \<and> unat s < unat lo + WindowSize}"

lemma window_index_less: "pow2_capacity W \<Longrightarrow> window_index W s < W"
  by (simp add: window_index_def ring_simps pow2_capacity_pos)

lemma window_index_inj:
  assumes "pow2_capacity W" "s \<in> seq_window W lo" "t \<in> seq_window W lo"
    "window_index W s = window_index W t"
  shows "s = t"
proof -
  have "unat s mod W = unat t mod W"
    using assms(1,4) by (simp add: window_index_def ring_simps)
  moreover have "unat s < unat lo + W" "unat t < unat lo + W" "unat lo \<le> unat s" "unat lo \<le> unat t"
    using assms(2,3) by (simp_all add: seq_window_def)
  ultimately have "unat s = unat t" by (rule mod_window_inj)
  then show ?thesis by (simp add: word_unat_eq_iff)
qed

subsection \<open>Formatted text\<close>

text \<open>
  \<open>snprintf\<close> into a buffer: at most \<open>sizeof - 1\<close> characters and a NUL are stored, the rest of the
  buffer keeps its bytes, and the length of the untruncated text is returned.
\<close>

definition snprintf :: "string \<Rightarrow> string \<Rightarrow> string \<times> nat" where
  "snprintf buf txt =
     (let stored = take (length buf - 1) txt
      in (stored @ CHR 0x00 # drop (length stored + 1) buf, length txt))"

text \<open>Decimal rendering of a signed integer, as \<open>%d\<close> gives it.\<close>

definition dec_string_int :: "int \<Rightarrow> string" where
  "dec_string_int i = (if i < 0 then CHR ''-'' # dec_string (nat (- i)) else dec_string (nat i))"

lemma snprintf_fits:
  assumes "length txt < length buf"
  shows "take (length txt) (fst (snprintf buf txt)) = txt \<and> snd (snprintf buf txt) = length txt"
  using assms by (simp add: snprintf_def Let_def)

text \<open>A C string in a character array: the bytes before the first NUL.\<close>

definition cstr :: "string \<Rightarrow> string" where
  "cstr s = takeWhile (\<lambda>c. c \<noteq> CHR 0x00) s"

lemma cstr_NUL: "cstr (xs @ CHR 0x00 # ys) = cstr xs"
  by (induction xs) (simp_all add: cstr_def)

subsection \<open>Price priority\<close>

text \<open>
  Strictly better on one side of a book: a higher bid, a lower ask. This is the \<open>place_here\<close> test of
  \<open>FlatOrderBook\<close>, the \<open>is_better\<close> test and the comparators of the matching books and, for the
  opposite side, the test that stops matching at an order's limit.
\<close>

definition place_before :: "bool \<Rightarrow> int \<Rightarrow> int \<Rightarrow> bool" where
  "place_before IsBid p q = (if IsBid then p > q else p < q)"

lemma place_before_trans: "place_before s a b \<Longrightarrow> place_before s b c \<Longrightarrow> place_before s a c"
  by (auto simp: place_before_def split: if_splits)

lemma place_before_total: "a \<noteq> b \<Longrightarrow> \<not> place_before s a b \<Longrightarrow> place_before s b a"
  by (auto simp: place_before_def split: if_splits)

lemma place_before_asym: "place_before s a b \<Longrightarrow> \<not> place_before s b a"
  by (auto simp: place_before_def split: if_splits)

lemma place_before_irrefl [simp]: "\<not> place_before s a a"
  by (simp add: place_before_def)

subsection \<open>Shifting loops\<close>

text \<open>\<open>for (j = n; j > i; --j) a[j] = a[j - 1]\<close>, the insertion shift of the level arrays.\<close>

fun shift_up :: "'a list \<Rightarrow> nat \<Rightarrow> nat \<Rightarrow> 'a list" where
  "shift_up ls j i = (if i < j then shift_up (ls[j := ls ! (j - 1)]) (j - 1) i else ls)"

text \<open>\<open>for (j = i; j < n - 1; ++j) a[j] = a[j + 1]\<close>, the removal shift.\<close>

function shift_down :: "'a list \<Rightarrow> nat \<Rightarrow> nat \<Rightarrow> 'a list" where
  "shift_down ls j n = (if j < n - 1 then shift_down (ls[j := ls ! (j + 1)]) (j + 1) n else ls)"
  by pat_completeness auto
termination by (relation "measure (\<lambda>(ls, j, n). n - j)") auto

declare shift_up.simps [simp del] shift_down.simps [simp del]

lemma length_shift_up [simp]: "length (shift_up ls j i) = length ls"
  by (induction ls j i rule: shift_up.induct) (subst shift_up.simps, simp)

lemma length_shift_down [simp]: "length (shift_down ls j n) = length ls"
  by (induction ls j n rule: shift_down.induct) (subst shift_down.simps, simp)

lemma nth_shift_up:
  "j < length ls \<Longrightarrow> i \<le> j \<Longrightarrow> k < length ls \<Longrightarrow>
     shift_up ls j i ! k = (if i < k \<and> k \<le> j then ls ! (k - 1) else ls ! k)"
proof (induction ls j i rule: shift_up.induct)
  case (1 ls j i)
  show ?case
    by (subst shift_up.simps) (use 1 in \<open>auto simp: nth_list_update\<close>)
qed

lemma nth_shift_down:
  "n \<le> length ls \<Longrightarrow> j < n \<Longrightarrow> k < length ls \<Longrightarrow>
     shift_down ls j n ! k = (if j \<le> k \<and> k < n - 1 then ls ! (k + 1) else ls ! k)"
proof (induction ls j n rule: shift_down.induct)
  case (1 ls j n)
  show ?case
    by (subst shift_down.simps) (use 1 in \<open>auto simp: nth_list_update\<close>)
qed

lemma take_shift_up_insert:
  assumes "i \<le> n" "n < length ls"
  shows "take (n + 1) ((shift_up ls n i)[i := x]) = take i ls @ x # drop i (take n ls)"
  by (rule nth_equalityI)
    (use assms in \<open>auto simp: nth_append nth_shift_up nth_list_update nth_Cons split: nat.splits
      intro!: arg_cong [where f = "nth ls"]\<close>)

lemma take_shift_down:
  assumes "i < n" "n \<le> length ls"
  shows "take (n - 1) (shift_down ls i n) = take i ls @ drop (Suc i) (take n ls)"
  by (rule nth_equalityI) (use assms in \<open>auto simp: nth_append nth_shift_down\<close>)

end
