(* ===== verification/Spsc_Queue.thy ===== *)
theory Spsc_Queue
  imports Hft_Prelude
begin

text \<open>
  The single-producer single-consumer ring of \<open>include/hft/common/SPSCQueue.hpp\<close>, with its cached
  indices and its two-segment batch operations, as a function on an explicit state; the abstraction
  to a bounded FIFO; and the interface \<open>bounded_fifo\<close> the workers rely on, with what a run of
  pushes and pops delivers proved once inside it. The template parameter \<open>Capacity\<close> is the
  argument \<open>cap\<close>. The interleaved execution of the two threads is in \<open>Spsc_Concurrent\<close>.
\<close>

subsection \<open>State and operations\<close>

record 'a spsc =
  m_write_pos :: nat
  m_cached_read_pos :: nat
  m_buffer :: "'a list"
  m_read_pos :: nat
  m_cached_write_pos :: nat

definition spsc_static_assert :: "nat \<Rightarrow> bool" where
  "spsc_static_assert cap \<longleftrightarrow> cap AND (cap - 1) = 0 \<and> cap > 1"

text \<open>The constructor zeroes the indices; \<open>buf\<close> is the initial content of \<open>m_buffer\<close>.\<close>

definition spsc_init :: "'a list \<Rightarrow> 'a spsc" where
  "spsc_init buf = \<lparr>m_write_pos = 0, m_cached_read_pos = 0, m_buffer = buf,
                    m_read_pos = 0, m_cached_write_pos = 0\<rparr>"

definition spsc_push :: "nat \<Rightarrow> 'a \<Rightarrow> 'a spsc \<Rightarrow> bool \<times> 'a spsc" where
  "spsc_push cap item q =
     (let current_write = m_write_pos q;
          next_write = (current_write + 1) AND (cap - 1);
          q1 = (if next_write = m_cached_read_pos q
                then q\<lparr>m_cached_read_pos := m_read_pos q\<rparr> else q)
      in if next_write = m_cached_read_pos q1 then (False, q1)
         else (True, q1\<lparr>m_buffer := (m_buffer q1)[current_write := item],
                        m_write_pos := next_write\<rparr>))"

definition spsc_pop :: "nat \<Rightarrow> 'a spsc \<Rightarrow> 'a option \<times> 'a spsc" where
  "spsc_pop cap q =
     (let current_read = m_read_pos q;
          q1 = (if current_read = m_cached_write_pos q
                then q\<lparr>m_cached_write_pos := m_write_pos q\<rparr> else q)
      in if current_read = m_cached_write_pos q1 then (None, q1)
         else (Some (m_buffer q1 ! current_read),
               q1\<lparr>m_read_pos := (current_read + 1) AND (cap - 1)\<rparr>))"

text \<open>\<open>std::copy\<close> of \<open>xs\<close> onto the buffer starting at \<open>pos\<close>.\<close>

definition blit :: "'a list \<Rightarrow> nat \<Rightarrow> 'a list \<Rightarrow> 'a list" where
  "blit buf pos xs = take pos buf @ xs @ drop (pos + length xs) buf"

definition spsc_pop_batch :: "nat \<Rightarrow> nat \<Rightarrow> 'a spsc \<Rightarrow> 'a list \<times> 'a spsc" where
  "spsc_pop_batch cap max_items q =
     (let current_read = m_read_pos q;
          q1 = (if current_read = m_cached_write_pos q
                then q\<lparr>m_cached_write_pos := m_write_pos q\<rparr> else q);
          write_pos = m_cached_write_pos q1
      in if current_read = write_pos then ([], q1)
         else
           let available = (if write_pos \<ge> current_read then write_pos - current_read
                            else cap - current_read + write_pos);
               count = min available max_items;
               tail_len = cap - current_read;
               first_chunk = min count tail_len;
               out1 = take first_chunk (drop current_read (m_buffer q1));
               output_items = (if count > first_chunk
                               then out1 @ take (count - first_chunk) (m_buffer q1) else out1)
           in (output_items, q1\<lparr>m_read_pos := (current_read + count) AND (cap - 1)\<rparr>))"

definition spsc_free_slots :: "nat \<Rightarrow> nat \<Rightarrow> nat \<Rightarrow> nat" where
  "spsc_free_slots cap read_pos current_write =
     (if read_pos > current_write then read_pos - current_write - 1
      else cap - current_write + read_pos - 1)"

definition spsc_push_batch :: "nat \<Rightarrow> 'a list \<Rightarrow> 'a spsc \<Rightarrow> nat \<times> 'a spsc" where
  "spsc_push_batch cap items q =
     (let current_write = m_write_pos q;
          count = length items;
          q1 = (if spsc_free_slots cap (m_cached_read_pos q) current_write < count
                then q\<lparr>m_cached_read_pos := m_read_pos q\<rparr> else q);
          free_slots = spsc_free_slots cap (m_cached_read_pos q1) current_write;
          to_push = min free_slots count;
          tail_len = cap - current_write;
          first_chunk = min to_push tail_len;
          buf1 = blit (m_buffer q1) current_write (take first_chunk items);
          buf2 = (if to_push > first_chunk
                  then blit buf1 0 (drop first_chunk (take to_push items)) else buf1)
      in (to_push, q1\<lparr>m_buffer := buf2, m_write_pos := (current_write + to_push) AND (cap - 1)\<rparr>))"

definition spsc_empty :: "'a spsc \<Rightarrow> bool" where
  "spsc_empty q \<longleftrightarrow> m_read_pos q = m_write_pos q"

definition spsc_can_push :: "nat \<Rightarrow> 'a spsc \<Rightarrow> bool" where
  "spsc_can_push cap q \<longleftrightarrow> (m_write_pos q + 1) AND (cap - 1) \<noteq> m_read_pos q"

definition spsc_size :: "nat \<Rightarrow> 'a spsc \<Rightarrow> nat" where
  "spsc_size cap q =
     (if m_write_pos q \<ge> m_read_pos q then m_write_pos q - m_read_pos q
      else cap - m_read_pos q + m_write_pos q)"

definition spsc_capacity :: "nat \<Rightarrow> nat" where
  "spsc_capacity cap = cap - 1"

subsection \<open>Abstraction and invariant\<close>

text \<open>The slots from the read index up to the write index, oldest first.\<close>

definition spsc_contents :: "nat \<Rightarrow> 'a spsc \<Rightarrow> 'a list" where
  "spsc_contents cap q =
     map (\<lambda>i. m_buffer q ! ((m_read_pos q + i) mod cap)) [0..<spsc_size cap q]"

text \<open>
  The indices are the residues of four absolute positions: what the producer last saw of the
  reader lags the reader, what the consumer last saw of the writer lags the writer, and the writer
  is less than a whole ring ahead of the slowest of them.
\<close>

definition spsc_at :: "nat \<Rightarrow> nat \<Rightarrow> nat \<Rightarrow> nat \<Rightarrow> nat \<Rightarrow> 'a spsc \<Rightarrow> bool" where
  "spsc_at cap CR R CW W q \<longleftrightarrow>
     spsc_static_assert cap \<and> length (m_buffer q) = cap \<and>
     CR \<le> R \<and> R \<le> CW \<and> CW \<le> W \<and> W < CR + cap \<and>
     m_cached_read_pos q = CR mod cap \<and> m_read_pos q = R mod cap \<and>
     m_cached_write_pos q = CW mod cap \<and> m_write_pos q = W mod cap"

definition spsc_inv :: "nat \<Rightarrow> 'a spsc \<Rightarrow> bool" where
  "spsc_inv cap q \<longleftrightarrow> (\<exists>CR R CW W. spsc_at cap CR R CW W q)"

lemma static_assert_pow2: "spsc_static_assert cap \<Longrightarrow> pow2_capacity cap"
  by (simp add: spsc_static_assert_def pow2_capacity_def)

lemma static_assert_gt1: "spsc_static_assert cap \<Longrightarrow> 1 < cap"
  by (simp add: spsc_static_assert_def)

subsection \<open>Arithmetic of ring positions\<close>

lemma mod_ring_dist:
  fixes R W cap :: nat
  assumes "R \<le> W" "W < R + cap"
  shows "(if W mod cap \<ge> R mod cap then W mod cap - R mod cap
          else cap - R mod cap + W mod cap) = W - R"
proof -
  define d where "d = W - R"
  have W: "W = R + d" and d: "d < cap" using assms by (simp_all add: d_def)
  define r where "r = R mod cap"
  have r: "r < cap" using d by (simp add: r_def)
  have Wm: "W mod cap = (r + d) mod cap" by (simp add: W r_def mod_add_left_eq)
  have "(r + d) mod cap = (if r + d < cap then r + d else r + d - cap)"
    using r d by (simp add: mod_if [of "r + d"])
  with r d have "(if (r + d) mod cap \<ge> r then (r + d) mod cap - r
                  else cap - r + (r + d) mod cap) = d"
    by (auto split: if_splits)
  then show ?thesis
    by (simp only: Wm r_def [symmetric] d_def [symmetric])
qed

lemma mod_ring_eq_iff:
  fixes R W cap :: nat
  assumes "R \<le> W" "W < R + cap"
  shows "W mod cap = R mod cap \<longleftrightarrow> W = R"
  using mod_ring_dist [OF assms] assms(1) by (auto split: if_splits)

lemma mod_ring_free:
  fixes R W cap :: nat
  assumes "R \<le> W" "W < R + cap"
  shows "(if R mod cap > W mod cap then R mod cap - W mod cap - 1
          else cap - W mod cap + R mod cap - 1) = cap - 1 - (W - R)"
proof -
  define w r where "w = W mod cap" and "r = R mod cap"
  have lt: "w < cap" "r < cap" using assms by (simp_all add: w_def r_def)
  have "(if r \<le> w then w - r else cap - r + w) = W - R"
    unfolding w_def r_def by (rule mod_ring_dist [OF assms])
  then have "(if r > w then r - w - 1 else cap - w + r - 1) = cap - 1 - (W - R)"
    using lt by (cases "r \<le> w") auto
  then show ?thesis by (simp only: w_def r_def)
qed

lemma spsc_at_size: "spsc_at cap CR R CW W q \<Longrightarrow> spsc_size cap q = W - R"
  unfolding spsc_at_def spsc_size_def by (elim conjE) (simp only:, rule mod_ring_dist, simp_all)

lemma spsc_at_contents:
  assumes "spsc_at cap CR R CW W q"
  shows "spsc_contents cap q = map (\<lambda>i. m_buffer q ! (i mod cap)) [R..<W]"
proof (rule nth_equalityI)
  show "length (spsc_contents cap q) = length (map (\<lambda>i. m_buffer q ! (i mod cap)) [R..<W])"
    using spsc_at_size [OF assms] by (simp add: spsc_contents_def)
next
  fix i assume "i < length (spsc_contents cap q)"
  then have "i < W - R" using spsc_at_size [OF assms] by (simp add: spsc_contents_def)
  moreover have "m_read_pos q = R mod cap" using assms by (simp add: spsc_at_def)
  ultimately show "spsc_contents cap q ! i = map (\<lambda>i. m_buffer q ! (i mod cap)) [R..<W] ! i"
    using spsc_at_size [OF assms] by (simp add: spsc_contents_def mod_add_left_eq)
qed

lemma spsc_size_contents: "spsc_size cap q = length (spsc_contents cap q)"
  by (simp add: spsc_contents_def)

lemma spsc_inv_length: "spsc_inv cap q \<Longrightarrow> length (spsc_contents cap q) < cap"
  unfolding spsc_inv_def
  by (auto simp flip: spsc_size_contents simp: spsc_at_size) (auto simp: spsc_at_def)

subsection \<open>Single-element operations\<close>

lemma spsc_at_slot_other:
  assumes "spsc_at cap CR R CW W q" "R \<le> i" "i < W"
  shows "(m_buffer q)[W mod cap := x] ! (i mod cap) = m_buffer q ! (i mod cap)"
proof -
  have "W mod cap \<noteq> i mod cap"
    using mod_ring_eq_iff [of i W cap] assms by (auto simp: spsc_at_def)
  then show ?thesis by simp
qed

lemma spsc_push_at_ok:
  assumes at: "spsc_at cap CR R CW W q" and room: "W - R < cap - 1"
  obtains CR' q' where "spsc_push cap x q = (True, q')" "spsc_at cap CR' R CW (Suc W) q'"
    "m_buffer q' = (m_buffer q)[W mod cap := x]"
proof -
  note d = at [unfolded spsc_at_def]
  have nw: "(m_write_pos q + 1) AND (cap - 1) = Suc W mod cap"
    using d by (simp add: ring_simps static_assert_pow2 mod_Suc_eq)
  show thesis
  proof (cases "Suc W mod cap = CR mod cap")
    case True
    have "Suc W mod cap \<noteq> R mod cap"
      using mod_ring_eq_iff [of R "Suc W" cap] d room by auto
    with True nw d show thesis
      by (intro that [of "q\<lparr>m_cached_read_pos := m_read_pos q,
              m_buffer := (m_buffer q)[m_write_pos q := x], m_write_pos := Suc W mod cap\<rparr>" R])
        (use room in \<open>auto simp: spsc_push_def Let_def spsc_at_def\<close>)
  next
    case False
    have "Suc W \<noteq> CR + cap"
      using False by (metis mod_add_self2)
    with False nw d show thesis
      by (intro that [of "q\<lparr>m_buffer := (m_buffer q)[m_write_pos q := x],
              m_write_pos := Suc W mod cap\<rparr>" CR])
        (auto simp: spsc_push_def Let_def spsc_at_def)
  qed
qed

lemma spsc_push_at_full:
  assumes at: "spsc_at cap CR R CW W q" and full: "\<not> W - R < cap - 1"
  obtains q' where "spsc_push cap x q = (False, q')" "spsc_at cap R R CW W q'"
    "m_buffer q' = m_buffer q"
proof -
  note d = at [unfolded spsc_at_def]
  have gt: "1 < cap" using d static_assert_gt1 by blast
  have nw: "(m_write_pos q + 1) AND (cap - 1) = Suc W mod cap"
    using d by (simp add: ring_simps static_assert_pow2 mod_Suc_eq)
  have "Suc W = CR + cap" "R = CR" using d full gt by auto
  then have "Suc W mod cap = CR mod cap" by simp
  with nw d \<open>R = CR\<close> show thesis
    by (intro that [of "q\<lparr>m_cached_read_pos := m_read_pos q\<rparr>"])
      (auto simp: spsc_push_def Let_def spsc_at_def)
qed

lemma spsc_pop_at:
  assumes at: "spsc_at cap CR R CW W q"
  obtains (item) CW' q' where "R < W" "spsc_pop cap q = (Some (m_buffer q ! (R mod cap)), q')"
      "spsc_at cap CR (Suc R) CW' W q'" "m_buffer q' = m_buffer q"
    | (none) q' where "R = W" "spsc_pop cap q = (None, q')" "spsc_at cap CR R W W q'"
      "m_buffer q' = m_buffer q"
proof -
  note d = at [unfolded spsc_at_def]
  have nr: "(m_read_pos q + 1) AND (cap - 1) = Suc R mod cap"
    using d by (simp add: ring_simps static_assert_pow2 mod_Suc_eq)
  have cw: "CW mod cap = R mod cap \<longleftrightarrow> CW = R"
    using mod_ring_eq_iff [of R CW cap] d by auto
  have w: "W mod cap = R mod cap \<longleftrightarrow> W = R"
    using mod_ring_eq_iff [of R W cap] d by auto
  consider "CW \<noteq> R" | "CW = R" "W \<noteq> R" | "CW = R" "W = R" by blast
  then show thesis
  proof cases
    case 1
    with nr d cw show thesis
      by (intro item [of "q\<lparr>m_read_pos := Suc R mod cap\<rparr>" CW])
        (auto simp: spsc_pop_def Let_def spsc_at_def)
  next
    case 2
    with nr d cw w show thesis
      by (intro item [of "q\<lparr>m_cached_write_pos := m_write_pos q, m_read_pos := Suc R mod cap\<rparr>" W])
        (auto simp: spsc_pop_def Let_def spsc_at_def)
  next
    case 3
    with d show thesis
      by (intro none [of "q\<lparr>m_cached_write_pos := m_write_pos q\<rparr>"])
        (auto simp: spsc_pop_def Let_def spsc_at_def)
  qed
qed

lemma spsc_push_inv:
  assumes "spsc_inv cap q"
  shows "spsc_inv cap (snd (spsc_push cap x q))"
proof -
  from assms obtain CR R CW W where at: "spsc_at cap CR R CW W q" by (auto simp: spsc_inv_def)
  show ?thesis
  proof (cases "W - R < cap - 1")
    case True
    from spsc_push_at_ok [OF at this, of x] show ?thesis
      by (metis snd_conv spsc_inv_def)
  next
    case False
    from spsc_push_at_full [OF at this, of x] show ?thesis
      by (metis snd_conv spsc_inv_def)
  qed
qed

lemma spsc_push_spec:
  assumes "spsc_inv cap q"
  shows "fst (spsc_push cap x q) \<longleftrightarrow> length (spsc_contents cap q) < cap - 1"
    and "spsc_contents cap (snd (spsc_push cap x q)) =
      (if length (spsc_contents cap q) < cap - 1 then spsc_contents cap q @ [x]
       else spsc_contents cap q)"
proof -
  from assms obtain CR R CW W where at: "spsc_at cap CR R CW W q" by (auto simp: spsc_inv_def)
  have len: "length (spsc_contents cap q) = W - R"
    using spsc_at_size [OF at] by (simp add: spsc_size_contents)
  have "fst (spsc_push cap x q) = (W - R < cap - 1) \<and>
    spsc_contents cap (snd (spsc_push cap x q)) =
      (if W - R < cap - 1 then spsc_contents cap q @ [x] else spsc_contents cap q)"
  proof (cases "W - R < cap - 1")
    case True
    obtain CR' q' where q': "spsc_push cap x q = (True, q')" "spsc_at cap CR' R CW (Suc W) q'"
      "m_buffer q' = (m_buffer q)[W mod cap := x]"
      by (rule spsc_push_at_ok [OF at True])
    have "length (m_buffer q) = cap" "R \<le> W" "1 < cap"
      using at static_assert_gt1 by (auto simp: spsc_at_def)
    then have "spsc_contents cap q' = spsc_contents cap q @ [x]"
      unfolding spsc_at_contents [OF q'(2)] spsc_at_contents [OF at] q'(3)
      using spsc_at_slot_other [OF at] by simp
    with True q' show ?thesis by simp
  next
    case False
    obtain q' where q': "spsc_push cap x q = (False, q')" "spsc_at cap R R CW W q'"
      "m_buffer q' = m_buffer q"
      by (rule spsc_push_at_full [OF at False])
    then have "spsc_contents cap q' = spsc_contents cap q"
      unfolding spsc_at_contents [OF q'(2)] spsc_at_contents [OF at] by simp
    with False q' show ?thesis by simp
  qed
  with len show "fst (spsc_push cap x q) \<longleftrightarrow> length (spsc_contents cap q) < cap - 1"
    and "spsc_contents cap (snd (spsc_push cap x q)) =
      (if length (spsc_contents cap q) < cap - 1 then spsc_contents cap q @ [x]
       else spsc_contents cap q)" by simp_all
qed

lemma spsc_pop_refines:
  assumes "spsc_inv cap q"
  shows "spsc_inv cap (snd (spsc_pop cap q)) \<and>
    (case spsc_contents cap q of
       [] \<Rightarrow> fst (spsc_pop cap q) = None \<and> spsc_contents cap (snd (spsc_pop cap q)) = []
     | x # xs \<Rightarrow> fst (spsc_pop cap q) = Some x \<and> spsc_contents cap (snd (spsc_pop cap q)) = xs)"
proof -
  from assms obtain CR R CW W where at: "spsc_at cap CR R CW W q" by (auto simp: spsc_inv_def)
  from at show ?thesis
  proof (cases rule: spsc_pop_at)
    case (item CW' q')
    moreover have "spsc_contents cap q = m_buffer q ! (R mod cap) # spsc_contents cap q'"
      unfolding spsc_at_contents [OF item(3)] spsc_at_contents [OF at] item(4)
      using \<open>R < W\<close> by (simp add: upt_conv_Cons)
    ultimately show ?thesis by (auto simp: spsc_inv_def)
  next
    case (none q')
    moreover have "spsc_contents cap q = []" "spsc_contents cap q' = []"
      unfolding spsc_at_contents [OF none(3)] spsc_at_contents [OF at] using none(1) by simp_all
    ultimately show ?thesis by (auto simp: spsc_inv_def)
  qed
qed

lemma spsc_init_inv:
  assumes "spsc_static_assert cap" "length buf = cap"
  shows "spsc_inv cap (spsc_init buf)"
    and "spsc_contents cap (spsc_init buf) = []"
proof -
  from assms have "spsc_at cap 0 0 0 0 (spsc_init buf)"
    using static_assert_gt1 [OF assms(1)] by (auto simp: spsc_at_def spsc_init_def)
  then show "spsc_inv cap (spsc_init buf)"
    by (auto simp: spsc_inv_def)
  show "spsc_contents cap (spsc_init buf) = []"
    by (simp add: spsc_contents_def spsc_size_def spsc_init_def)
qed

subsection \<open>Batch operations\<close>

lemma blit_length [simp]: "pos + length xs \<le> length buf \<Longrightarrow> length (blit buf pos xs) = length buf"
  by (simp add: blit_def)

lemma blit_nth:
  assumes "pos + length xs \<le> length buf" "j < length buf"
  shows "blit buf pos xs ! j = (if pos \<le> j \<and> j < pos + length xs then xs ! (j - pos) else buf ! j)"
  using assms by (auto simp: blit_def nth_append min_def)

text \<open>The one or two contiguous copies of \<open>push_batch\<close> write item \<open>k\<close> to ring slot \<open>w + k\<close>.\<close>

definition ring_blit :: "nat \<Rightarrow> 'a list \<Rightarrow> nat \<Rightarrow> 'a list \<Rightarrow> 'a list" where
  "ring_blit cap buf w xs =
     (let first_chunk = min (length xs) (cap - w);
          buf1 = blit buf w (take first_chunk xs)
      in if length xs > first_chunk then blit buf1 0 (drop first_chunk xs) else buf1)"

lemma ring_blit_length:
  assumes "length buf = cap" "w < cap" "length xs < cap"
  shows "length (ring_blit cap buf w xs) = cap"
  using assms by (auto simp: ring_blit_def Let_def min_def)

lemma ring_blit_nth_new:
  assumes "length buf = cap" "w < cap" "length xs < cap" "k < length xs"
  shows "ring_blit cap buf w xs ! ((w + k) mod cap) = xs ! k"
proof (cases "w + k < cap")
  case True
  with assms show ?thesis by (auto simp: ring_blit_def Let_def min_def blit_nth)
next
  case False
  with assms have "(w + k) mod cap = w + k - cap" by (simp add: mod_if [of "w + k"])
  with False assms show ?thesis by (auto simp: ring_blit_def Let_def min_def blit_nth)
qed

lemma ring_blit_nth_old:
  assumes "length buf = cap" "w < cap" "length xs < cap" "j < cap"
    and "\<And>k. k < length xs \<Longrightarrow> (w + k) mod cap \<noteq> j"
  shows "ring_blit cap buf w xs ! j = buf ! j"
proof -
  have n1: "\<not> (w \<le> j \<and> j < w + length xs)"
    using assms(5) [of "j - w"] assms(2,4) by (auto simp: less_diff_conv2)
  have n2: "\<not> (j + cap < w + length xs)"
    using assms(5) [of "j + cap - w"] assms(2-4) by (auto simp: less_diff_conv2)
  from n1 n2 assms(1-4) show ?thesis by (auto simp: ring_blit_def Let_def min_def blit_nth)
qed

lemma spsc_at_extend:
  assumes at: "spsc_at cap CR R CW W q" and room: "W + length xs < CR + cap"
  defines "q' \<equiv> q\<lparr>m_buffer := ring_blit cap (m_buffer q) (W mod cap) xs,
                   m_write_pos := (W + length xs) mod cap\<rparr>"
  shows "spsc_at cap CR R CW (W + length xs) q'"
    and "spsc_contents cap q' = spsc_contents cap q @ xs"
proof -
  note d = at [unfolded spsc_at_def]
  have c: "length (m_buffer q) = cap" "W mod cap < cap" "length xs < cap"
    using d room static_assert_gt1 by (auto intro: mod_less_divisor)
  show at': "spsc_at cap CR R CW (W + length xs) q'"
    using d room c by (auto simp: q'_def spsc_at_def ring_blit_length)
  have new: "m_buffer q' ! ((W + k) mod cap) = xs ! k" if "k < length xs" for k
    using ring_blit_nth_new [OF c that] by (simp add: q'_def mod_add_left_eq)
  have old: "m_buffer q' ! (i mod cap) = m_buffer q ! (i mod cap)" if "R \<le> i" "i < W" for i
  proof -
    have "(W mod cap + k) mod cap \<noteq> i mod cap" if "k < length xs" for k
      using mod_ring_eq_iff [of i "W + k" cap] \<open>R \<le> i\<close> \<open>i < W\<close> that d room
      by (auto simp: mod_add_left_eq)
    then show ?thesis
      using ring_blit_nth_old [OF c, of "i mod cap"] c by (simp add: q'_def)
  qed
  have "map (\<lambda>i. m_buffer q' ! (i mod cap)) [W..<W + length xs] = xs"
    by (rule nth_equalityI) (simp_all add: new)
  moreover have "[R..<W + length xs] = [R..<W] @ [W..<W + length xs]"
    using d upt_add_eq_append [of R W "length xs"] by simp
  ultimately show "spsc_contents cap q' = spsc_contents cap q @ xs"
    unfolding spsc_at_contents [OF at'] spsc_at_contents [OF at] by (simp add: old)
qed

lemma spsc_push_batch_spec:
  fixes items :: "'a list"
  assumes "spsc_inv cap q"
  defines "n \<equiv> min (cap - 1 - length (spsc_contents cap q)) (length items)"
  shows "spsc_inv cap (snd (spsc_push_batch cap items q))"
    and "fst (spsc_push_batch cap items q) = n"
    and "spsc_contents cap (snd (spsc_push_batch cap items q)) = spsc_contents cap q @ take n items"
proof -
  from assms obtain CR R CW W where at: "spsc_at cap CR R CW W q" by (auto simp: spsc_inv_def)
  note d = at [unfolded spsc_at_def]
  have len: "length (spsc_contents cap q) = W - R"
    using spsc_at_size [OF at] by (simp add: spsc_size_contents)
  define CR' where "CR' = (if cap - 1 - (W - CR) < length items then R else CR)"
  define q1 where "q1 = q\<lparr>m_cached_read_pos := CR' mod cap\<rparr>"
  have at1: "spsc_at cap CR' R CW W q1"
    using d by (auto simp: q1_def CR'_def spsc_at_def)
  have c1: "spsc_contents cap q1 = spsc_contents cap q"
    by (simp add: q1_def spsc_contents_def spsc_size_def)
  have fr: "spsc_free_slots cap (m_cached_read_pos q) (m_write_pos q) = cap - 1 - (W - CR)"
    using mod_ring_free [of CR W cap] d by (auto simp: spsc_free_slots_def)
  have fr1: "spsc_free_slots cap (CR' mod cap) (W mod cap) = cap - 1 - (W - CR')"
    using mod_ring_free [of CR' W cap] at1 by (auto simp: spsc_free_slots_def spsc_at_def)
  have n: "min (cap - 1 - (W - CR')) (length items) = n"
    using d by (auto simp: n_def len CR'_def)
  have fn: "min (spsc_free_slots cap (CR' mod cap) (W mod cap)) (length items) = n"
    unfolding fr1 by (rule n)
  from n have room: "W + length (take n items) < CR' + cap" and lt: "n \<le> length items"
    using at1 static_assert_gt1 [of cap] by (auto simp: spsc_at_def n_def)
  have fc: "min n (cap - W mod cap) \<le> n" by simp
  have if1: "(if spsc_free_slots cap (m_cached_read_pos q) (m_write_pos q) < length items
              then q\<lparr>m_cached_read_pos := m_read_pos q\<rparr> else q) = q1"
    unfolding fr q1_def CR'_def using d by simp
  have eq: "spsc_push_batch cap items q =
    (n, q1\<lparr>m_buffer := ring_blit cap (m_buffer q1) (W mod cap) (take n items),
           m_write_pos := (W + length (take n items)) mod cap\<rparr>)"
    unfolding spsc_push_batch_def Let_def if1
    using d lt fc by (simp add: q1_def fn ring_blit_def Let_def min_absorb1
        ring_simps static_assert_pow2 mod_add_left_eq)
  show "spsc_inv cap (snd (spsc_push_batch cap items q))"
    using spsc_at_extend(1) [OF at1 room] by (auto simp: eq spsc_inv_def)
  show "fst (spsc_push_batch cap items q) = n"
    by (simp add: eq)
  show "spsc_contents cap (snd (spsc_push_batch cap items q)) = spsc_contents cap q @ take n items"
    using spsc_at_extend(2) [OF at1 room] by (simp add: eq c1)
qed

text \<open>The one or two contiguous moves of \<open>pop_batch\<close> read ring slots \<open>r\<close>, \<open>r + 1\<close>, \dots\<close>

definition ring_slice :: "nat \<Rightarrow> 'a list \<Rightarrow> nat \<Rightarrow> nat \<Rightarrow> 'a list" where
  "ring_slice cap buf r n =
     (let first_chunk = min n (cap - r);
          out1 = take first_chunk (drop r buf)
      in if n > first_chunk then out1 @ take (n - first_chunk) buf else out1)"

lemma ring_slice_map:
  assumes "length buf = cap" "r < cap" "n < cap"
  shows "ring_slice cap buf r n = map (\<lambda>i. buf ! ((r + i) mod cap)) [0..<n]"
proof (rule nth_equalityI)
  show len: "length (ring_slice cap buf r n) = length (map (\<lambda>i. buf ! ((r + i) mod cap)) [0..<n])"
    using assms by (auto simp: ring_slice_def Let_def min_def)
  fix i assume "i < length (ring_slice cap buf r n)"
  with len have i: "i < n" by simp
  show "ring_slice cap buf r n ! i = map (\<lambda>i. buf ! ((r + i) mod cap)) [0..<n] ! i"
  proof (cases "r + i < cap")
    case True
    with i assms show ?thesis by (auto simp: ring_slice_def Let_def nth_append min_def)
  next
    case False
    then have "(r + i) mod cap = i + r - cap"
      using i assms(2,3) by (simp add: mod_if [of "r + i"])
    with False i assms show ?thesis by (auto simp: ring_slice_def Let_def nth_append min_def)
  qed
qed

lemma spsc_pop_batch_at:
  fixes max_items :: nat
  assumes at: "spsc_at cap CR R CW W q"
  defines "CW' \<equiv> (if CW = R then W else CW)"
  defines "n \<equiv> min (CW' - R) max_items"
  obtains q' where
    "spsc_pop_batch cap max_items q = (map (\<lambda>i. m_buffer q ! (i mod cap)) [R..<R + n], q')"
    "spsc_at cap CR (R + n) CW' W q'" "m_buffer q' = m_buffer q"
proof -
  note d = at [unfolded spsc_at_def]
  define q1 where "q1 = q\<lparr>m_cached_write_pos := CW' mod cap\<rparr>"
  have cw: "CW mod cap = R mod cap \<longleftrightarrow> CW = R"
    using mod_ring_eq_iff [of R CW cap] d by auto
  have if1: "(if m_read_pos q = m_cached_write_pos q
              then q\<lparr>m_cached_write_pos := m_write_pos q\<rparr> else q) = q1"
    unfolding q1_def CW'_def using d cw by (cases "CW = R") simp_all
  have bounds: "R \<le> CW'" "CW' \<le> W" "CW' < R + cap"
    using d by (auto simp: CW'_def)
  then have "R + n \<le> CW'" "n < cap"
    by (auto simp: n_def min_def)
  have at1: "spsc_at cap CR R CW' W q1"
    using d bounds by (auto simp: q1_def spsc_at_def)
  have dist: "(if CW' mod cap \<ge> R mod cap then CW' mod cap - R mod cap
               else cap - R mod cap + CW' mod cap) = CW' - R"
    using mod_ring_dist bounds by blast
  have eq0: "CW' mod cap = R mod cap \<longleftrightarrow> CW' = R"
    using mod_ring_eq_iff bounds by blast
  have rd: "map (\<lambda>i. m_buffer q ! ((R mod cap + i) mod cap)) [0..<n] =
            map (\<lambda>i. m_buffer q ! (i mod cap)) [R..<R + n]"
    by (rule nth_equalityI) (simp_all add: mod_add_left_eq)
  have gt: "R mod cap < cap" using bounds by simp
  show thesis
  proof (cases "CW' = R")
    case True
    then have "spsc_pop_batch cap max_items q = ([], q1)"
      unfolding spsc_pop_batch_def Let_def if1 using d by (simp add: q1_def)
    with True at1 show thesis
      by (intro that [of q1]) (simp_all add: n_def q1_def)
  next
    case False
    then have "R mod cap \<noteq> CW' mod cap" using eq0 by simp
    moreover have flds: "m_read_pos q = R mod cap" "m_cached_write_pos q1 = CW' mod cap"
      "m_buffer q1 = m_buffer q"
      using d by (simp_all add: q1_def)
    ultimately have slice: "spsc_pop_batch cap max_items q =
        (ring_slice cap (m_buffer q) (R mod cap) n,
         q1\<lparr>m_read_pos := (R mod cap + n) AND (cap - 1)\<rparr>)"
      unfolding spsc_pop_batch_def ring_slice_def Let_def if1
      unfolding flds unfolding dist n_def [symmetric] by (simp only: if_False)
    have "ring_slice cap (m_buffer q) (R mod cap) n =
        map (\<lambda>i. m_buffer q ! (i mod cap)) [R..<R + n]"
      unfolding rd [symmetric] using d gt \<open>n < cap\<close> by (intro ring_slice_map) simp_all
    moreover have "(R mod cap + n) AND (cap - 1) = (R + n) mod cap"
      using d by (simp add: ring_simps static_assert_pow2 mod_add_left_eq)
    ultimately have "spsc_pop_batch cap max_items q =
        (map (\<lambda>i. m_buffer q ! (i mod cap)) [R..<R + n], q1\<lparr>m_read_pos := (R + n) mod cap\<rparr>)"
      by (simp add: slice)
    moreover have "spsc_at cap CR (R + n) CW' W (q1\<lparr>m_read_pos := (R + n) mod cap\<rparr>)"
      using at1 \<open>R + n \<le> CW'\<close> by (simp add: spsc_at_def)
    ultimately show thesis
      by (rule that) (simp add: q1_def)
  qed
qed

lemma spsc_pop_batch_spec:
  assumes "spsc_inv cap q"
  obtains xs q' where "spsc_pop_batch cap max_items q = (xs, q')" "spsc_inv cap q'"
    "spsc_contents cap q = xs @ spsc_contents cap q'" "length xs \<le> max_items"
    "xs = [] \<Longrightarrow> max_items = 0 \<or> spsc_contents cap q = []"
proof -
  from assms obtain CR R CW W where at: "spsc_at cap CR R CW W q" by (auto simp: spsc_inv_def)
  define CW' where "CW' = (if CW = R then W else CW)"
  define n where "n = min (CW' - R) max_items"
  obtain q' where q': "spsc_pop_batch cap max_items q =
      (map (\<lambda>i. m_buffer q ! (i mod cap)) [R..<R + n], q')"
    "spsc_at cap CR (R + n) CW' W q'" "m_buffer q' = m_buffer q"
    unfolding n_def CW'_def by (rule spsc_pop_batch_at [OF at])
  have le: "R + n \<le> W" "R \<le> R + n" using q'(2) by (auto simp: spsc_at_def)
  then have split: "[R..<W] = [R..<R + n] @ [R + n..<W]"
    using upt_add_eq_append [of R "R + n" "W - (R + n)"] by simp
  show thesis
  proof (rule that [OF q'(1)])
    show "spsc_inv cap q'" using q'(2) by (auto simp: spsc_inv_def)
    show "spsc_contents cap q = map (\<lambda>i. m_buffer q ! (i mod cap)) [R..<R + n] @ spsc_contents cap q'"
      unfolding spsc_at_contents [OF at] spsc_at_contents [OF q'(2)] q'(3) by (simp add: split)
    show "length (map (\<lambda>i. m_buffer q ! (i mod cap)) [R..<R + n]) \<le> max_items"
      by (simp add: n_def)
    assume "map (\<lambda>i. m_buffer q ! (i mod cap)) [R..<R + n] = []"
    then have "n = 0" by (cases n) simp_all
    then show "max_items = 0 \<or> spsc_contents cap q = []"
      using at unfolding spsc_at_contents [OF at]
      by (auto simp: n_def CW'_def spsc_at_def min_def split: if_splits)
  qed
qed

subsection \<open>The queue interface\<close>

text \<open>
  What the producers (\<open>UdpFixProducer\<close>, the receivers) and the workers rely on: a bounded FIFO
  with a single push, a single pop, a batch push and a batch pop.
\<close>

datatype 'a queue_op = OpPush 'a | OpPushBatch "'a list" | OpPop | OpPopBatch nat

text \<open>
  A run of operations, with the items the queue accepted and the items it delivered, in order.
\<close>

fun fifo_run ::
  "('a \<Rightarrow> 'q \<Rightarrow> bool \<times> 'q) \<Rightarrow> ('a list \<Rightarrow> 'q \<Rightarrow> nat \<times> 'q) \<Rightarrow>
   ('q \<Rightarrow> 'a option \<times> 'q) \<Rightarrow> (nat \<Rightarrow> 'q \<Rightarrow> 'a list \<times> 'q) \<Rightarrow>
   'a queue_op list \<Rightarrow> 'q \<Rightarrow> 'a list \<times> 'a list \<times> 'q" where
  "fifo_run psh pshb pp ppb [] q = ([], [], q)"
| "fifo_run psh pshb pp ppb (OpPush x # ops) q =
     (let (ok, q1) = psh x q; (ins, outs, q2) = fifo_run psh pshb pp ppb ops q1
      in ((if ok then x # ins else ins), outs, q2))"
| "fifo_run psh pshb pp ppb (OpPushBatch xs # ops) q =
     (let (n, q1) = pshb xs q; (ins, outs, q2) = fifo_run psh pshb pp ppb ops q1
      in (take n xs @ ins, outs, q2))"
| "fifo_run psh pshb pp ppb (OpPop # ops) q =
     (let (r, q1) = pp q; (ins, outs, q2) = fifo_run psh pshb pp ppb ops q1
      in (ins, (case r of None \<Rightarrow> outs | Some x \<Rightarrow> x # outs), q2))"
| "fifo_run psh pshb pp ppb (OpPopBatch m # ops) q =
     (let (xs, q1) = ppb m q; (ins, outs, q2) = fifo_run psh pshb pp ppb ops q1
      in (ins, xs @ outs, q2))"

locale bounded_fifo =
  fixes push :: "'a \<Rightarrow> 'q \<Rightarrow> bool \<times> 'q"
    and push_batch :: "'a list \<Rightarrow> 'q \<Rightarrow> nat \<times> 'q"
    and pop :: "'q \<Rightarrow> 'a option \<times> 'q"
    and pop_batch :: "nat \<Rightarrow> 'q \<Rightarrow> 'a list \<times> 'q"
    and contents :: "'q \<Rightarrow> 'a list"
    and invar :: "'q \<Rightarrow> bool"
    and limit :: nat
  assumes push_invar: "invar q \<Longrightarrow> invar (snd (push x q))"
    and push_ok: "invar q \<Longrightarrow> fst (push x q) \<longleftrightarrow> length (contents q) < limit"
    and push_contents: "invar q \<Longrightarrow> contents (snd (push x q)) =
          (if length (contents q) < limit then contents q @ [x] else contents q)"
    and push_batch_invar: "invar q \<Longrightarrow> invar (snd (push_batch xs q))"
    and push_batch_count: "invar q \<Longrightarrow>
          fst (push_batch xs q) = min (limit - length (contents q)) (length xs)"
    and push_batch_contents: "invar q \<Longrightarrow> contents (snd (push_batch xs q)) =
          contents q @ take (fst (push_batch xs q)) xs"
    and pop_invar: "invar q \<Longrightarrow> invar (snd (pop q))"
    and pop_result: "invar q \<Longrightarrow> fst (pop q) = (case contents q of [] \<Rightarrow> None | x # xs \<Rightarrow> Some x)"
    and pop_contents: "invar q \<Longrightarrow> contents (snd (pop q)) = tl (contents q)"
    and pop_batch_invar: "invar q \<Longrightarrow> invar (snd (pop_batch m q))"
    and pop_batch_contents: "invar q \<Longrightarrow>
          contents q = fst (pop_batch m q) @ contents (snd (pop_batch m q))"
    and pop_batch_limit: "invar q \<Longrightarrow> length (fst (pop_batch m q)) \<le> m"
    and pop_batch_progress: "invar q \<Longrightarrow> 0 < m \<Longrightarrow> contents q \<noteq> [] \<Longrightarrow> fst (pop_batch m q) \<noteq> []"
    and bounded: "invar q \<Longrightarrow> length (contents q) \<le> limit"
begin

lemma run_conserves:
  assumes "invar q"
  shows "case fifo_run push push_batch pop pop_batch ops q of (ins, outs, q') \<Rightarrow>
           invar q' \<and> contents q @ ins = outs @ contents q'"
  using assms
proof (induction ops arbitrary: q)
  case Nil
  then show ?case by simp
next
  case (Cons op ops)
  note facts = push_invar push_contents push_batch_invar push_batch_contents
    pop_invar pop_contents pop_batch_invar
  show ?case
  proof (cases op)
    case (OpPush x)
    with Cons.IH [of "snd (push x q)"] push_ok [OF Cons.prems, of x] Cons.prems show ?thesis
      by (auto simp: facts split: prod.splits if_splits)
  next
    case (OpPushBatch xs)
    with Cons.IH [of "snd (push_batch xs q)"] Cons.prems show ?thesis
      by (auto simp: facts split: prod.splits)
  next
    case OpPop
    with Cons.IH [of "snd (pop q)"] pop_result [OF Cons.prems] Cons.prems show ?thesis
      by (cases "contents q") (auto simp: facts split: prod.splits)
  next
    case (OpPopBatch m)
    with Cons.IH [of "snd (pop_batch m q)"] Cons.prems pop_batch_contents [of q m] show ?thesis
      by (auto simp: facts split: prod.splits)
  qed
qed

text \<open>The worker's drain loop empties the queue: each non-empty batch shortens it.\<close>

lemma pop_batch_shrinks:
  assumes "invar q" "0 < m" "contents q \<noteq> []"
  shows "length (contents (snd (pop_batch m q))) < length (contents q)"
proof -
  have "length (contents q) =
      length (fst (pop_batch m q)) + length (contents (snd (pop_batch m q)))"
    using arg_cong [OF pop_batch_contents [OF assms(1), of m], of length] by simp
  with pop_batch_progress [OF assms] show ?thesis by simp
qed

end

interpretation spsc: bounded_fifo "spsc_push cap" "spsc_push_batch cap" "spsc_pop cap"
  "spsc_pop_batch cap" "spsc_contents cap" "spsc_inv cap" "cap - 1" for cap
proof (unfold_locales, goal_cases)
  case (1 q x) then show ?case by (rule spsc_push_inv)
next
  case (2 q x) then show ?case by (rule spsc_push_spec(1))
next
  case (3 q x) then show ?case by (rule spsc_push_spec(2))
next
  case (4 q xs) then show ?case by (rule spsc_push_batch_spec(1))
next
  case (5 q xs) then show ?case by (rule spsc_push_batch_spec(2))
next
  case (6 q xs) then show ?case by (simp add: spsc_push_batch_spec)
next
  case (7 q) then show ?case using spsc_pop_refines by blast
next
  case (8 q) then show ?case using spsc_pop_refines [of cap q] by (auto split: list.splits)
next
  case (9 q) then show ?case using spsc_pop_refines [of cap q] by (auto split: list.splits)
next
  case (10 q m) then show ?case by (rule spsc_pop_batch_spec [of cap q m]) simp
next
  case (11 q m) then show ?case by (rule spsc_pop_batch_spec [of cap q m]) simp
next
  case (12 q m) then show ?case by (rule spsc_pop_batch_spec [of cap q m]) simp
next
  case (13 q m)
  from 13(1) show ?case by (rule spsc_pop_batch_spec [of cap q m]) (use 13 in auto)
next
  case (14 q) then show ?case using spsc_inv_length [of cap q] by linarith
qed

lemma spsc_can_push_at:
  assumes "spsc_at cap CR R CW W q"
  shows "spsc_can_push cap q \<longleftrightarrow> W - R < cap - 1"
proof -
  note d = assms [unfolded spsc_at_def]
  have gt: "1 < cap" using d static_assert_gt1 by blast
  have "spsc_can_push cap q \<longleftrightarrow> Suc W mod cap \<noteq> R mod cap"
    using d by (simp add: spsc_can_push_def ring_simps static_assert_pow2 mod_Suc_eq)
  also have "\<dots> \<longleftrightarrow> W - R < cap - 1"
  proof (cases "Suc W < R + cap")
    case True
    with mod_ring_eq_iff [of R "Suc W" cap] d gt show ?thesis by auto
  next
    case False
    then have "Suc W = R + cap" using d by auto
    then show ?thesis using gt by auto
  qed
  finally show ?thesis .
qed

subsection \<open>Properties of the queue\<close>

text \<open>
  C14. Over any sequence of single and batch pushes and pops, the SPSC ring neither loses, invents,
  duplicates nor reorders items: what it held, followed by what it accepted, is what it delivered,
  followed by what it still holds; the ring invariant is kept.
\<close>

theorem spsc_run_fifo:
  assumes "spsc_inv cap q"
    and "fifo_run (spsc_push cap) (spsc_push_batch cap) (spsc_pop cap) (spsc_pop_batch cap) ops q =
         (ins, outs, q')"
  shows "spsc_inv cap q' \<and> spsc_contents cap q @ ins = outs @ spsc_contents cap q'"
  using spsc.run_conserves [OF assms(1), of ops] assms(2) by simp

theorem spsc_run_fifo_witness:
  "spsc_contents 2 (spsc_init [0, 0::nat]) @ [5] =
     [5] @ spsc_contents 2 \<lparr>m_write_pos = 1, m_cached_read_pos = 0, m_buffer = [5, 0],
                            m_read_pos = 1, m_cached_write_pos = 1\<rparr>"
proof -
  have inv: "spsc_inv 2 (spsc_init [0, 0::nat])"
    by (rule spsc_init_inv) (simp_all add: spsc_static_assert_def)
  have run: "fifo_run (spsc_push 2) (spsc_push_batch 2) (spsc_pop 2) (spsc_pop_batch 2)
      [OpPush 5, OpPush 6, OpPopBatch 9] (spsc_init [0, 0::nat]) =
    ([5], [5], \<lparr>m_write_pos = 1, m_cached_read_pos = 0, m_buffer = [5, 0],
                m_read_pos = 1, m_cached_write_pos = 1\<rparr>)"
    by code_simp
  from spsc_run_fifo [OF inv run] show ?thesis by simp
qed

lemma spsc_empty_contents:
  assumes "spsc_inv cap q"
  shows "spsc_empty q \<longleftrightarrow> spsc_contents cap q = []"
proof -
  from assms obtain CR R CW W where at: "spsc_at cap CR R CW W q" by (auto simp: spsc_inv_def)
  have "length (spsc_contents cap q) = W - R"
    using spsc_at_size [OF at] by (simp add: spsc_size_contents)
  moreover have "spsc_empty q \<longleftrightarrow> W = R"
    using at mod_ring_eq_iff [of R W cap] by (auto simp: spsc_at_def spsc_empty_def)
  ultimately show ?thesis using at by (auto simp: spsc_at_def simp flip: length_0_conv)
qed

text \<open>
  The observers agree with the queue: \<open>size\<close> counts the queued items, \<open>empty\<close> holds exactly
  when nothing is queued, \<open>can_push\<close> holds exactly when the next \<open>push\<close> succeeds, and no more than
  \<open>capacity()\<close> items are ever queued.
\<close>

theorem spsc_observers:
  assumes "spsc_inv cap q"
  shows "spsc_size cap q = length (spsc_contents cap q) \<and>
    (spsc_empty q \<longleftrightarrow> spsc_contents cap q = []) \<and>
    (spsc_can_push cap q \<longleftrightarrow> fst (spsc_push cap x q)) \<and>
    length (spsc_contents cap q) \<le> spsc_capacity cap"
proof -
  from assms obtain CR R CW W where at: "spsc_at cap CR R CW W q" by (auto simp: spsc_inv_def)
  have len: "length (spsc_contents cap q) = W - R"
    using spsc_at_size [OF at] by (simp add: spsc_size_contents)
  have "spsc_empty q \<longleftrightarrow> spsc_contents cap q = []"
    by (rule spsc_empty_contents [OF assms])
  moreover have "spsc_can_push cap q \<longleftrightarrow> fst (spsc_push cap x q)"
    using spsc_can_push_at [OF at] spsc.push_ok [OF assms] len by simp
  moreover have "length (spsc_contents cap q) \<le> spsc_capacity cap"
    using spsc.bounded [OF assms] by (simp add: spsc_capacity_def)
  ultimately show ?thesis by (simp add: spsc_size_contents)
qed

theorem spsc_observers_witness:
  "spsc_inv 2 (spsc_init [0, 0::nat]) \<and>
   (spsc_can_push 2 (spsc_init [0, 0::nat]) \<longleftrightarrow> fst (spsc_push 2 7 (spsc_init [0, 0::nat])))"
proof -
  have inv: "spsc_inv 2 (spsc_init [0, 0::nat])"
    by (rule spsc_init_inv) (simp_all add: spsc_static_assert_def)
  with spsc_observers [OF inv, of 7] show ?thesis by simp
qed

text \<open>Pushing the items of a batch one at a time, counting the successes.\<close>

fun spsc_push_each :: "nat \<Rightarrow> 'a list \<Rightarrow> 'a spsc \<Rightarrow> nat \<times> 'a spsc" where
  "spsc_push_each cap [] q = (0, q)"
| "spsc_push_each cap (x # xs) q =
     (let (ok, q1) = spsc_push cap x q; (n, q2) = spsc_push_each cap xs q1
      in ((if ok then Suc n else n), q2))"

lemma spsc_push_each_spec:
  assumes "spsc_inv cap q"
  shows "fst (spsc_push_each cap xs q) = min (cap - 1 - length (spsc_contents cap q)) (length xs) \<and>
    spsc_contents cap (snd (spsc_push_each cap xs q)) =
      spsc_contents cap q @ take (cap - 1 - length (spsc_contents cap q)) xs"
  using assms
proof (induction xs arbitrary: q)
  case Nil
  then show ?case by simp
next
  case (Cons x xs)
  note IH = Cons.IH [OF spsc.push_invar [OF Cons.prems, of x]]
  show ?case
  proof (cases "length (spsc_contents cap q) < cap - 1")
    case True
    then have "cap - 1 - length (spsc_contents cap q) =
        Suc (cap - 1 - Suc (length (spsc_contents cap q)))" by simp
    with True IH spsc.push_ok [OF Cons.prems, of x] spsc.push_contents [OF Cons.prems, of x]
    show ?thesis by (auto split: prod.splits)
  next
    case False
    with IH spsc.push_ok [OF Cons.prems, of x] spsc.push_contents [OF Cons.prems, of x]
    show ?thesis by (auto split: prod.splits)
  qed
qed

text \<open>
  The two-segment \<open>push_batch\<close> is equivalent to pushing its items one at a time: it reports the
  same number of accepted items and leaves the same queue contents.
\<close>

theorem spsc_push_batch_equiv:
  assumes "spsc_inv cap q"
  shows "fst (spsc_push_batch cap xs q) = fst (spsc_push_each cap xs q) \<and>
    spsc_contents cap (snd (spsc_push_batch cap xs q)) =
      spsc_contents cap (snd (spsc_push_each cap xs q))"
  using spsc_push_each_spec [OF assms, of xs] spsc.push_batch_count [OF assms, of xs]
    spsc.push_batch_contents [OF assms, of xs]
  by (simp add: min_def)

theorem spsc_push_batch_equiv_witness:
  "fst (spsc_push_batch 4 [1, 2, 3, 4] (spsc_init [0, 0, 0, 0::nat])) = 3 \<and>
   fst (spsc_push_each 4 [1, 2, 3, 4] (spsc_init [0, 0, 0, 0::nat])) = 3"
proof -
  have inv: "spsc_inv 4 (spsc_init [0, 0, 0, 0::nat])"
    by (rule spsc_init_inv) (simp_all add: spsc_static_assert_def)
  have "fst (spsc_push_batch 4 [1, 2, 3, 4] (spsc_init [0, 0, 0, 0::nat])) = 3"
    by (simp add: spsc_push_batch_def spsc_init_def spsc_free_slots_def Let_def)
  with spsc_push_batch_equiv [OF inv, of "[1, 2, 3, 4]"] show ?thesis by simp
qed

end
