(* ===== verification/Spsc_Concurrent.thy ===== *)
theory Spsc_Concurrent
  imports Spsc_Queue
begin

text \<open>
  \<open>push\<close> and \<open>pop\<close> of \<open>SPSCQueue.hpp\<close> as two threads: each load, buffer access and store of a
  shared field is one step, and the steps of the producer and of the consumer interleave freely.
  The index loads marked \<open>acquire\<close> and the stores marked \<open>release\<close> are the only synchronisation;
  the race-freedom theorem below shows that the plain buffer accesses never touch one slot at the
  same time, so the interleaving semantics is the one the C++ memory model gives this code.
  \<open>pushed\<close> and \<open>popped\<close> are history variables: the items published by the producer and the items
  released by the consumer.
\<close>

datatype 'a prod_pc = PIdle | PRefresh 'a | PWrite 'a | PPublish 'a

datatype 'a cons_pc = CIdle | CRefresh | CRead | CPublish 'a

record 'a spsc_sys =
  ring :: "'a spsc"
  ppc :: "'a prod_pc"
  cpc :: "'a cons_pc"
  pushed :: "'a list"
  popped :: "'a list"

definition spsc_sys_init :: "'a list \<Rightarrow> 'a spsc_sys" where
  "spsc_sys_init buf = \<lparr>ring = spsc_init buf, ppc = PIdle, cpc = CIdle, pushed = [], popped = []\<rparr>"

abbreviation next_write :: "nat \<Rightarrow> 'a spsc_sys \<Rightarrow> nat" where
  "next_write cap s \<equiv> (m_write_pos (ring s) + 1) AND (cap - 1)"

abbreviation next_read :: "nat \<Rightarrow> 'a spsc_sys \<Rightarrow> nat" where
  "next_read cap s \<equiv> (m_read_pos (ring s) + 1) AND (cap - 1)"

inductive prod_step :: "nat \<Rightarrow> 'a spsc_sys \<Rightarrow> 'a spsc_sys \<Rightarrow> bool" for cap where
  p_fast: "ppc s = PIdle \<Longrightarrow> next_write cap s \<noteq> m_cached_read_pos (ring s) \<Longrightarrow>
     prod_step cap s (s\<lparr>ppc := PWrite x\<rparr>)"
| p_slow: "ppc s = PIdle \<Longrightarrow> next_write cap s = m_cached_read_pos (ring s) \<Longrightarrow>
     prod_step cap s (s\<lparr>ppc := PRefresh x\<rparr>)"
| p_refresh_ok: "ppc s = PRefresh x \<Longrightarrow> next_write cap s \<noteq> m_read_pos (ring s) \<Longrightarrow>
     prod_step cap s (s\<lparr>ring := (ring s)\<lparr>m_cached_read_pos := m_read_pos (ring s)\<rparr>,
                        ppc := PWrite x\<rparr>)"
| p_refresh_full: "ppc s = PRefresh x \<Longrightarrow> next_write cap s = m_read_pos (ring s) \<Longrightarrow>
     prod_step cap s (s\<lparr>ring := (ring s)\<lparr>m_cached_read_pos := m_read_pos (ring s)\<rparr>,
                        ppc := PIdle\<rparr>)"
| p_write: "ppc s = PWrite x \<Longrightarrow>
     prod_step cap s (s\<lparr>ring := (ring s)\<lparr>m_buffer := (m_buffer (ring s))[m_write_pos (ring s) := x]\<rparr>,
                        ppc := PPublish x\<rparr>)"
| p_publish: "ppc s = PPublish x \<Longrightarrow>
     prod_step cap s (s\<lparr>ring := (ring s)\<lparr>m_write_pos := next_write cap s\<rparr>,
                        ppc := PIdle, pushed := pushed s @ [x]\<rparr>)"

inductive cons_step :: "nat \<Rightarrow> 'a spsc_sys \<Rightarrow> 'a spsc_sys \<Rightarrow> bool" for cap where
  c_fast: "cpc s = CIdle \<Longrightarrow> m_read_pos (ring s) \<noteq> m_cached_write_pos (ring s) \<Longrightarrow>
     cons_step cap s (s\<lparr>cpc := CRead\<rparr>)"
| c_slow: "cpc s = CIdle \<Longrightarrow> m_read_pos (ring s) = m_cached_write_pos (ring s) \<Longrightarrow>
     cons_step cap s (s\<lparr>cpc := CRefresh\<rparr>)"
| c_refresh_ok: "cpc s = CRefresh \<Longrightarrow> m_read_pos (ring s) \<noteq> m_write_pos (ring s) \<Longrightarrow>
     cons_step cap s (s\<lparr>ring := (ring s)\<lparr>m_cached_write_pos := m_write_pos (ring s)\<rparr>,
                        cpc := CRead\<rparr>)"
| c_refresh_empty: "cpc s = CRefresh \<Longrightarrow> m_read_pos (ring s) = m_write_pos (ring s) \<Longrightarrow>
     cons_step cap s (s\<lparr>ring := (ring s)\<lparr>m_cached_write_pos := m_write_pos (ring s)\<rparr>,
                        cpc := CIdle\<rparr>)"
| c_read: "cpc s = CRead \<Longrightarrow>
     cons_step cap s (s\<lparr>cpc := CPublish (m_buffer (ring s) ! m_read_pos (ring s))\<rparr>)"
| c_publish: "cpc s = CPublish x \<Longrightarrow>
     cons_step cap s (s\<lparr>ring := (ring s)\<lparr>m_read_pos := next_read cap s\<rparr>,
                        cpc := CIdle, popped := popped s @ [x]\<rparr>)"

definition spsc_step :: "nat \<Rightarrow> 'a spsc_sys \<Rightarrow> 'a spsc_sys \<Rightarrow> bool" where
  "spsc_step cap s t \<longleftrightarrow> prod_step cap s t \<or> cons_step cap s t"

inductive spsc_reachable :: "nat \<Rightarrow> 'a list \<Rightarrow> 'a spsc_sys \<Rightarrow> bool" for cap buf where
  init: "spsc_reachable cap buf (spsc_sys_init buf)"
| step: "spsc_reachable cap buf s \<Longrightarrow> spsc_step cap s t \<Longrightarrow> spsc_reachable cap buf t"

subsection \<open>The invariant of the interleaving\<close>

text \<open>
  With \<open>R\<close> items released and \<open>W\<close> items published: the ring slots between them hold the published
  items, the producer between its check and its publication knows a free slot, and the consumer
  between its check and its release knows a published one.
\<close>

definition sys_at :: "nat \<Rightarrow> nat \<Rightarrow> nat \<Rightarrow> 'a spsc_sys \<Rightarrow> bool" where
  "sys_at cap CR CW s \<longleftrightarrow>
     (let R = length (popped s); W = length (pushed s); buf = m_buffer (ring s)
      in spsc_at cap CR R CW W (ring s) \<and> popped s = take R (pushed s) \<and>
         (\<forall>i. R \<le> i \<longrightarrow> i < W \<longrightarrow> buf ! (i mod cap) = pushed s ! i) \<and>
         (case ppc s of PWrite x \<Rightarrow> Suc W < CR + cap
          | PPublish x \<Rightarrow> Suc W < CR + cap \<and> buf ! (W mod cap) = x | _ \<Rightarrow> True) \<and>
         (case cpc s of CRead \<Rightarrow> R < CW
          | CPublish y \<Rightarrow> R < CW \<and> y = pushed s ! R | _ \<Rightarrow> True))"

definition sys_inv :: "nat \<Rightarrow> 'a spsc_sys \<Rightarrow> bool" where
  "sys_inv cap s \<longleftrightarrow> (\<exists>CR CW. sys_at cap CR CW s)"

lemma sys_at_next_write:
  assumes "sys_at cap CR CW s"
  shows "next_write cap s = Suc (length (pushed s)) mod cap"
  using assms by (simp add: sys_at_def Let_def spsc_at_def ring_simps static_assert_pow2 mod_Suc_eq)

lemma sys_at_next_read:
  assumes "sys_at cap CR CW s"
  shows "next_read cap s = Suc (length (popped s)) mod cap"
  using assms by (simp add: sys_at_def Let_def spsc_at_def ring_simps static_assert_pow2 mod_Suc_eq)

lemma not_full_room:
  assumes "W < CR + cap" "Suc W mod cap \<noteq> CR mod cap"
  shows "Suc W < CR + cap"
proof -
  have "Suc W \<noteq> CR + cap" using assms(2) by (metis mod_add_self2)
  with assms(1) show ?thesis by simp
qed

lemma mod_neq_less:
  fixes a b c :: nat
  assumes "a mod c \<noteq> b mod c" "a \<le> b"
  shows "a < b"
  using assms by (cases "a = b") simp_all

lemma prod_step_inv:
  assumes "prod_step cap s t" "sys_at cap CR CW s"
  shows "sys_inv cap t"
  using assms
proof (cases rule: prod_step.cases)
  case (p_fast x)
  then have "sys_at cap CR CW t"
    using assms(2) sys_at_next_write [OF assms(2)] not_full_room [of "length (pushed s)" CR cap]
    by (auto simp: sys_at_def Let_def spsc_at_def split: prod_pc.splits cons_pc.splits)
  then show ?thesis by (auto simp: sys_inv_def)
next
  case (p_slow x)
  then have "sys_at cap CR CW t"
    using assms(2) by (auto simp: sys_at_def Let_def split: prod_pc.splits cons_pc.splits)
  then show ?thesis by (auto simp: sys_inv_def)
next
  case (p_refresh_ok x)
  then have "sys_at cap (length (popped s)) CW t"
    using assms(2) sys_at_next_write [OF assms(2)]
      not_full_room [of "length (pushed s)" "length (popped s)" cap]
    by (auto simp: sys_at_def Let_def spsc_at_def split: prod_pc.splits cons_pc.splits)
  then show ?thesis by (auto simp: sys_inv_def)
next
  case (p_refresh_full x)
  then have "sys_at cap (length (popped s)) CW t"
    using assms(2) by (auto simp: sys_at_def Let_def spsc_at_def split: prod_pc.splits cons_pc.splits)
  then show ?thesis by (auto simp: sys_inv_def)
next
  case (p_write x)
  have other: "(m_buffer (ring s))[length (pushed s) mod cap := x] ! (i mod cap) =
      m_buffer (ring s) ! (i mod cap)"
    if "length (popped s) \<le> i" "i < length (pushed s)" for i
    using spsc_at_slot_other that assms(2) by (metis (no_types, lifting) sys_at_def)
  have "length (pushed s) mod cap < cap"
    using assms(2) static_assert_gt1 by (fastforce simp: sys_at_def Let_def spsc_at_def)
  with p_write have "sys_at cap CR CW t"
    using assms(2) other by (auto simp: sys_at_def Let_def spsc_at_def split: prod_pc.splits cons_pc.splits)
  then show ?thesis by (auto simp: sys_inv_def)
next
  case (p_publish x)
  then have "sys_at cap CR CW t"
    using assms(2) sys_at_next_write [OF assms(2)]
    by (auto simp: sys_at_def Let_def spsc_at_def nth_append less_Suc_eq split: prod_pc.splits cons_pc.splits)
  then show ?thesis by (auto simp: sys_inv_def)
qed

lemma cons_step_inv:
  assumes "cons_step cap s t" "sys_at cap CR CW s"
  shows "sys_inv cap t"
  using assms
proof (cases rule: cons_step.cases)
  case c_fast
  then have "sys_at cap CR CW t"
    using assms(2) by (auto simp: sys_at_def Let_def spsc_at_def intro: mod_neq_less
        split: prod_pc.splits cons_pc.splits)
  then show ?thesis by (auto simp: sys_inv_def)
next
  case c_slow
  then have "sys_at cap CR CW t"
    using assms(2) by (auto simp: sys_at_def Let_def split: prod_pc.splits cons_pc.splits)
  then show ?thesis by (auto simp: sys_inv_def)
next
  case c_refresh_ok
  then have "sys_at cap CR (length (pushed s)) t"
    using assms(2) by (auto simp: sys_at_def Let_def spsc_at_def intro: mod_neq_less
        split: prod_pc.splits cons_pc.splits)
  then show ?thesis by (auto simp: sys_inv_def)
next
  case c_refresh_empty
  then have "sys_at cap CR (length (pushed s)) t"
    using assms(2) by (auto simp: sys_at_def Let_def spsc_at_def split: prod_pc.splits cons_pc.splits)
  then show ?thesis by (auto simp: sys_inv_def)
next
  case c_read
  then have "sys_at cap CR CW t"
    using assms(2) by (auto simp: sys_at_def Let_def spsc_at_def split: prod_pc.splits cons_pc.splits)
  then show ?thesis by (auto simp: sys_inv_def)
next
  case (c_publish x)
  then have "sys_at cap CR CW t"
    using assms(2) sys_at_next_read [OF assms(2)]
    by (auto simp: sys_at_def Let_def spsc_at_def take_Suc_conv_app_nth
        split: prod_pc.splits cons_pc.splits)
  then show ?thesis by (auto simp: sys_inv_def)
qed

lemma reachable_inv:
  assumes "spsc_static_assert cap" "length buf = cap" "spsc_reachable cap buf s"
  shows "sys_inv cap s"
  using assms(3)
proof induction
  case init
  have "sys_at cap 0 0 (spsc_sys_init buf)"
    using assms(1,2) static_assert_gt1 [OF assms(1)]
    by (auto simp: sys_at_def spsc_at_def spsc_sys_init_def spsc_init_def)
  then show ?case by (auto simp: sys_inv_def)
next
  case (step s t)
  then show ?case by (auto simp: sys_inv_def spsc_step_def dest: prod_step_inv cons_step_inv)
qed

inductive_simps prod_step_iff: "prod_step cap s t"
inductive_simps cons_step_iff: "cons_step cap s t"

subsection \<open>Properties of the interleaving\<close>

text \<open>
  C6. Under every interleaving of the producer's and the consumer's steps the ring is a FIFO
  channel: the items published are exactly the items released so far followed by the current
  contents of the ring, in order, and at most \<open>Capacity - 1\<close> items are in flight.
\<close>

theorem spsc_concurrent_fifo:
  assumes "spsc_static_assert cap" "length buf = cap" "spsc_reachable cap buf s"
  shows "pushed s = popped s @ spsc_contents cap (ring s) \<and>
    length (spsc_contents cap (ring s)) \<le> cap - 1"
proof -
  obtain CR CW where at: "sys_at cap CR CW s"
    using reachable_inv [OF assms] by (auto simp: sys_inv_def)
  define R where "R = length (popped s)"
  define W where "W = length (pushed s)"
  have sp: "spsc_at cap CR R CW W (ring s)" and pp: "popped s = take R (pushed s)"
    and slots: "\<And>i. R \<le> i \<Longrightarrow> i < W \<Longrightarrow> m_buffer (ring s) ! (i mod cap) = pushed s ! i"
    using at by (auto simp: sys_at_def Let_def R_def W_def)
  have "spsc_contents cap (ring s) = map (\<lambda>i. pushed s ! i) [R..<W]"
    unfolding spsc_at_contents [OF sp] using slots by simp
  also have "\<dots> = drop R (pushed s)"
    by (rule nth_equalityI) (simp_all add: W_def)
  finally have "pushed s = popped s @ spsc_contents cap (ring s)"
    using pp by (metis append_take_drop_id)
  moreover have "spsc_inv cap (ring s)" using sp by (auto simp: spsc_inv_def)
  ultimately show ?thesis using spsc.bounded by blast
qed

theorem spsc_concurrent_fifo_witness:
  "pushed ((spsc_sys_init [0, 0::nat])\<lparr>ppc := PWrite 7\<rparr>) =
     popped ((spsc_sys_init [0, 0::nat])\<lparr>ppc := PWrite 7\<rparr>) @
     spsc_contents 2 (ring ((spsc_sys_init [0, 0::nat])\<lparr>ppc := PWrite 7\<rparr>))"
proof -
  have "prod_step 2 (spsc_sys_init [0, 0::nat]) ((spsc_sys_init [0, 0::nat])\<lparr>ppc := PWrite 7\<rparr>)"
    by (rule p_fast) (simp_all add: spsc_sys_init_def spsc_init_def)
  then have "spsc_reachable 2 [0, 0] ((spsc_sys_init [0, 0::nat])\<lparr>ppc := PWrite 7\<rparr>)"
    by (intro spsc_reachable.step [OF spsc_reachable.init]) (simp add: spsc_step_def)
  from spsc_concurrent_fifo [OF _ _ this] show ?thesis by (simp add: spsc_static_assert_def)
qed

text \<open>
  C37. Data-race freedom of the buffer: in no reachable state is the producer about to write the
  slot the consumer is about to read.
\<close>

theorem spsc_race_free:
  assumes "spsc_static_assert cap" "length buf = cap" "spsc_reachable cap buf s"
    and "ppc s = PWrite x" "cpc s = CRead"
  shows "m_write_pos (ring s) \<noteq> m_read_pos (ring s)"
proof -
  obtain CR CW where at: "sys_at cap CR CW s"
    using reachable_inv [OF assms(1-3)] by (auto simp: sys_inv_def)
  then have "length (popped s) < length (pushed s)"
    "length (pushed s) < length (popped s) + cap"
    "m_write_pos (ring s) = length (pushed s) mod cap"
    "m_read_pos (ring s) = length (popped s) mod cap"
    using assms(4,5) by (auto simp: sys_at_def Let_def spsc_at_def)
  then show ?thesis
    using mod_ring_eq_iff [of "length (popped s)" "length (pushed s)" cap] by simp
qed

text \<open>A reachable state in which both threads stand before their buffer access.\<close>

definition racing_state :: "nat spsc_sys" where
  "racing_state =
     \<lparr>ring = \<lparr>m_write_pos = 1, m_cached_read_pos = 0, m_buffer = [7, 0, 0, 0],
              m_read_pos = 0, m_cached_write_pos = 1\<rparr>,
      ppc = PWrite 8, cpc = CRead, pushed = [7], popped = []\<rparr>"

lemma racing_state_reachable: "spsc_reachable 4 [0, 0, 0, 0] racing_state"
proof -
  let ?s0 = "spsc_sys_init [0, 0, 0, 0::nat]"
  let ?b1 = "\<lparr>m_write_pos = 0, m_cached_read_pos = 0, m_buffer = [7, 0, 0, 0::nat],
              m_read_pos = 0, m_cached_write_pos = 0\<rparr>"
  let ?b2 = "?b1\<lparr>m_write_pos := 1\<rparr>"
  let ?s3 = "\<lparr>ring = ?b2, ppc = PIdle, cpc = CIdle, pushed = [7], popped = []\<rparr>"
  have 1: "prod_step 4 ?s0 (?s0\<lparr>ppc := PWrite 7\<rparr>)"
    by (rule p_fast) (simp_all add: spsc_sys_init_def spsc_init_def)
  have 2: "prod_step 4 (?s0\<lparr>ppc := PWrite 7\<rparr>) (?s0\<lparr>ppc := PPublish 7, ring := ?b1\<rparr>)"
    by (simp add: prod_step_iff spsc_sys_init_def spsc_init_def)
  have 3: "prod_step 4 (?s0\<lparr>ppc := PPublish 7, ring := ?b1\<rparr>) ?s3"
    by (simp add: prod_step_iff spsc_sys_init_def spsc_init_def)
  have 4: "prod_step 4 ?s3 (?s3\<lparr>ppc := PWrite 8\<rparr>)"
    by (rule p_fast) (simp_all del: One_nat_def)
  have 5: "cons_step 4 (?s3\<lparr>ppc := PWrite 8\<rparr>) (?s3\<lparr>ppc := PWrite 8, cpc := CRefresh\<rparr>)"
    by (simp add: cons_step_iff)
  have 6: "cons_step 4 (?s3\<lparr>ppc := PWrite 8, cpc := CRefresh\<rparr>) racing_state"
    by (simp add: cons_step_iff racing_state_def)
  note go = spsc_reachable.step [rotated, OF disjI1 [THEN spsc_step_def [THEN iffD2]]]
    spsc_reachable.step [rotated, OF disjI2 [THEN spsc_step_def [THEN iffD2]]]
  show ?thesis
    by (rule go(2) [OF 6 go(2) [OF 5 go(1) [OF 4 go(1) [OF 3 go(1) [OF 2 go(1) [OF 1]]]]]])
      (rule spsc_reachable.init)
qed

theorem spsc_race_free_witness:
  "m_write_pos (ring racing_state) \<noteq> m_read_pos (ring racing_state)"
  by (rule spsc_race_free [OF _ _ racing_state_reachable])
    (simp_all add: spsc_static_assert_def racing_state_def)

text \<open>Own steps left before the call in progress returns.\<close>

fun prod_rank :: "'a prod_pc \<Rightarrow> nat" where
  "prod_rank PIdle = 0"
| "prod_rank (PPublish x) = 1"
| "prod_rank (PWrite x) = 2"
| "prod_rank (PRefresh x) = 3"

fun cons_rank :: "'a cons_pc \<Rightarrow> nat" where
  "cons_rank CIdle = 0"
| "cons_rank (CPublish x) = 1"
| "cons_rank CRead = 2"
| "cons_rank CRefresh = 3"

text \<open>
  Wait-freedom, as the file's header promises: a thread in the middle of \<open>push\<close> or \<open>pop\<close> always
  has a step, each of its own steps brings the call closer to its return (at most three remain),
  and no step of the other thread changes its progress.
\<close>

theorem spsc_wait_free:
  "(ppc s \<noteq> PIdle \<longrightarrow> (\<exists>t. prod_step cap s t) \<and>
      (\<forall>t. prod_step cap s t \<longrightarrow> prod_rank (ppc t) < prod_rank (ppc s))) \<and>
   (cpc s \<noteq> CIdle \<longrightarrow> (\<exists>t. cons_step cap s t) \<and>
      (\<forall>t. cons_step cap s t \<longrightarrow> cons_rank (cpc t) < cons_rank (cpc s))) \<and>
   (\<forall>t. cons_step cap s t \<longrightarrow> ppc t = ppc s) \<and> (\<forall>t. prod_step cap s t \<longrightarrow> cpc t = cpc s)"
proof (intro conjI impI allI)
  assume "ppc s \<noteq> PIdle"
  then show "\<exists>t. prod_step cap s t"
    by (cases "ppc s"; cases "next_write cap s = m_read_pos (ring s)")
      (blast intro: prod_step.intros)+
next
  fix t assume "ppc s \<noteq> PIdle" "prod_step cap s t"
  then show "prod_rank (ppc t) < prod_rank (ppc s)"
    by (auto elim!: prod_step.cases)
next
  assume "cpc s \<noteq> CIdle"
  then show "\<exists>t. cons_step cap s t"
    by (cases "cpc s"; cases "m_read_pos (ring s) = m_write_pos (ring s)")
      (blast intro: cons_step.intros)+
next
  fix t assume "cpc s \<noteq> CIdle" "cons_step cap s t"
  then show "cons_rank (cpc t) < cons_rank (cpc s)"
    by (auto elim!: cons_step.cases)
next
  fix t assume "cons_step cap s t"
  then show "ppc t = ppc s" by (auto elim!: cons_step.cases)
next
  fix t assume "prod_step cap s t"
  then show "cpc t = cpc s" by (auto elim!: prod_step.cases)
qed

theorem spsc_wait_free_witness:
  "\<exists>t. prod_step 4 racing_state t \<and> prod_rank (ppc t) < prod_rank (ppc racing_state)"
proof -
  have "ppc racing_state \<noteq> PIdle" by (simp add: racing_state_def)
  with spsc_wait_free [of racing_state 4] show ?thesis by blast
qed

text \<open>The uninterrupted steps of one \<open>push\<close> compute the function \<open>spsc_push\<close>.\<close>

lemma push_steps:
  assumes "ppc s = PIdle"
  shows "rtranclp (prod_step cap) s
    (s\<lparr>ring := snd (spsc_push cap x (ring s)), ppc := PIdle,
       pushed := (if fst (spsc_push cap x (ring s)) then pushed s @ [x] else pushed s)\<rparr>)"
proof -
  note r = converse_rtranclp_into_rtranclp [of "prod_step cap"]
  let ?q = "ring s"
  consider (fast) "next_write cap s \<noteq> m_cached_read_pos ?q"
    | (ok) "next_write cap s = m_cached_read_pos ?q" "next_write cap s \<noteq> m_read_pos ?q"
    | (full) "next_write cap s = m_cached_read_pos ?q" "next_write cap s = m_read_pos ?q" by blast
  then show ?thesis
  proof cases
    case fast
    show ?thesis
      by (rule r [OF p_fast [of s cap x]], fact assms, fact fast)
        (rule r [OF p_write], simp, rule r [OF p_publish], simp,
          use fast assms in \<open>simp add: spsc_push_def Let_def\<close>)
  next
    case ok
    show ?thesis
      by (rule r [OF p_slow [of s cap x]], fact assms, fact ok(1))
        (rule r [OF p_refresh_ok [of _ x]], simp, use ok in simp,
          rule r [OF p_write], simp, rule r [OF p_publish], simp,
          use ok assms in \<open>simp add: spsc_push_def Let_def\<close>)
  next
    case full
    show ?thesis
      by (rule r [OF p_slow [of s cap x]], fact assms, fact full(1))
        (rule r [OF p_refresh_full [of _ x]], simp, use full in simp,
          use full assms in \<open>simp add: spsc_push_def Let_def\<close>)
  qed
qed

lemma pop_steps:
  assumes "cpc s = CIdle"
  shows "rtranclp (cons_step cap) s
    (s\<lparr>ring := snd (spsc_pop cap (ring s)), cpc := CIdle,
       popped := (case fst (spsc_pop cap (ring s)) of None \<Rightarrow> popped s | Some x \<Rightarrow> popped s @ [x])\<rparr>)"
proof -
  note r = converse_rtranclp_into_rtranclp [of "cons_step cap"]
  let ?q = "ring s"
  consider (fast) "m_read_pos ?q \<noteq> m_cached_write_pos ?q"
    | (ok) "m_read_pos ?q = m_cached_write_pos ?q" "m_read_pos ?q \<noteq> m_write_pos ?q"
    | (none) "m_read_pos ?q = m_cached_write_pos ?q" "m_read_pos ?q = m_write_pos ?q" by blast
  then show ?thesis
  proof cases
    case fast
    show ?thesis
      by (rule r [OF c_fast [of s]], fact assms, fact fast)
        (rule r [OF c_read], simp, rule r [OF c_publish], simp,
          use fast assms in \<open>simp add: spsc_pop_def Let_def\<close>)
  next
    case ok
    show ?thesis
      by (rule r [OF c_slow [of s]], fact assms, fact ok(1))
        (rule r [OF c_refresh_ok], simp, use ok in simp,
          rule r [OF c_read], simp, rule r [OF c_publish], simp,
          use ok assms in \<open>simp add: spsc_pop_def Let_def\<close>)
  next
    case none
    show ?thesis
      by (rule r [OF c_slow [of s]], fact assms, fact none(1))
        (rule r [OF c_refresh_empty], simp, use none in simp,
          use none assms in \<open>simp add: spsc_pop_def Let_def\<close>)
  qed
qed

end
