(* ===== verification/Fix_Parser.thy ===== *)
theory Fix_Parser
  imports Hft_Prelude
begin

text \<open>
  The order record of \<open>include/hft/protocol/ParsedOrder.hpp\<close> and the FIX tag=value scanner of
  \<open>include/hft/protocol/FixParser.hpp\<close>, as values: a \<open>std::string_view\<close> is the string it shows; a pointer and
  a length are the option of the bytes in that range (\<open>None\<close> for \<open>nullptr\<close>). Theory \<open>Protocol_Parser\<close> has the same loops
  at the level of their memory accesses and shows that the values agree. Signed 64-bit
  accumulation wraps as on the target, so every input has a result; the accuracy theorem has the
  range condition under which nothing wraps.
\<close>

record ParsedOrder =
  msg_type :: string
  msg_type_char :: char
  cl_ord_id :: string
  symbol :: string
  side :: int
  quantity :: int
  price :: int
  seq_num :: u64
  latency_ns :: u64
  cl_ord_id_buf :: string

definition default_order :: ParsedOrder where
  "default_order = \<lparr>msg_type = '''', msg_type_char = CHR ''?'', cl_ord_id = '''', symbol = '''',
     side = 0, quantity = 0, price = 0, seq_num = 0, latency_ns = 0,
     cl_ord_id_buf = replicate 24 (CHR 0x00)\<rparr>"

subsection \<open>\<open>std::from_chars\<close>\<close>

text \<open>
  Decimal digits, after a minus sign for signed targets only; the target keeps its old value when
  nothing matches or when the value is out of range.
\<close>

definition from_chars_int :: "string \<Rightarrow> int \<Rightarrow> int" where
  "from_chars_int s old =
     (let neg = (case s of [] \<Rightarrow> False | c # _ \<Rightarrow> c = CHR ''-'');
          ds = takeWhile is_digit (if neg then tl s else s);
          v = (if neg then - int (dec_value ds) else int (dec_value ds))
      in if ds = [] then old else if in_i32 v then v else old)"

definition from_chars_u64 :: "string \<Rightarrow> u64 \<Rightarrow> u64" where
  "from_chars_u64 s old =
     (let ds = takeWhile is_digit s
      in if ds = [] then old else if dec_value ds < 2 ^ 64 then of_nat (dec_value ds) else old)"

subsection \<open>Fixed-point prices\<close>

text \<open>The integer-part loop: returns the accumulator and the unread characters.\<close>

fun price_integer_loop :: "string \<Rightarrow> int \<Rightarrow> int \<times> string" where
  "price_integer_loop [] ip = (ip, [])"
| "price_integer_loop (c # s) ip =
     (if is_digit c then price_integer_loop s (wrap_i64 (wrap_i64 (ip * 10) + int (digit_val c)))
      else (ip, c # s))"

text \<open>The fraction loop: stops at a non-digit or when the multiplier reaches zero.\<close>

fun price_fraction_loop :: "string \<Rightarrow> int \<Rightarrow> int \<Rightarrow> int" where
  "price_fraction_loop [] multiplier value = value"
| "price_fraction_loop (c # s) multiplier value =
     (if is_digit c \<and> multiplier > 0
      then price_fraction_loop s (multiplier div 10)
             (wrap_i64 (value + int (digit_val c) * multiplier))
      else value)"

definition parse_fixed_point_price :: "string \<Rightarrow> int" where
  "parse_fixed_point_price s =
     (let negative = (case s of [] \<Rightarrow> False | c # _ \<Rightarrow> c = CHR ''-'');
          s1 = (if negative then tl s else s);
          (integer_part, s2) = price_integer_loop s1 0;
          value0 = wrap_i64 (integer_part * 1000000);
          value1 = (case s2 of [] \<Rightarrow> value0
                    | c # s3 \<Rightarrow> if c = CHR ''.'' then price_fraction_loop s3 100000 value0 else value0)
      in if negative then wrap_i64 (- value1) else value1)"

subsection \<open>The tag=value scanner\<close>

definition is_delim :: "char \<Rightarrow> bool" where
  "is_delim c \<longleftrightarrow> c = CHR 0x01 \<or> c = CHR ''|''"

text \<open>The \<open>switch\<close> that maps a tag to a field of the order.\<close>

definition fix_assign :: "int \<Rightarrow> string \<Rightarrow> ParsedOrder \<Rightarrow> ParsedOrder" where
  "fix_assign tag val ord =
     (if tag = 35 then
        (case val of [] \<Rightarrow> ord\<lparr>msg_type := val\<rparr>
         | c # _ \<Rightarrow> ord\<lparr>msg_type := val, msg_type_char := c\<rparr>)
      else if tag = 11 then ord\<lparr>cl_ord_id := val\<rparr>
      else if tag = 55 then ord\<lparr>symbol := val\<rparr>
      else if tag = 54 then ord\<lparr>side := from_chars_int val (side ord)\<rparr>
      else if tag = 38 then ord\<lparr>quantity := from_chars_int val (quantity ord)\<rparr>
      else if tag = 44 then ord\<lparr>price := parse_fixed_point_price val\<rparr>
      else if tag = 34 then ord\<lparr>seq_num := from_chars_u64 val (seq_num ord)\<rparr>
      else ord)"

text \<open>One iteration reads a tag up to \<open>=\<close> and a value up to a delimiter.\<close>

function fix_scan :: "string \<Rightarrow> ParsedOrder \<Rightarrow> ParsedOrder" where
  "fix_scan s ord =
     (let tag_chars = takeWhile (\<lambda>c. c \<noteq> CHR ''='') s;
          rest = dropWhile (\<lambda>c. c \<noteq> CHR ''='') s
      in case rest of
           [] \<Rightarrow> ord
         | _ # s1 \<Rightarrow>
             let tag = from_chars_int tag_chars 0;
                 val = takeWhile (\<lambda>c. \<not> is_delim c) s1;
                 s2 = dropWhile (\<lambda>c. \<not> is_delim c) s1
             in fix_scan (drop 1 s2) (fix_assign tag val ord))"
  by pat_completeness auto
termination
proof (relation "measure (length \<circ> fst)", simp, goal_cases)
  case (1 s ord tag_chars rest eq s1 tag val s2)
  have "length s1 < length s"
    using 1(2,3) by (metis Suc_le_eq length_Cons length_dropWhile_le)
  moreover have "length s2 \<le> length s1"
    using 1(6) length_dropWhile_le by simp
  ultimately show ?case by simp
qed

declare fix_scan.simps [simp del]

definition fix_parse_in_place :: "string option \<Rightarrow> ParsedOrder" where
  "fix_parse_in_place buffer =
     (case buffer of None \<Rightarrow> default_order
      | Some s \<Rightarrow> if s = [] then default_order else fix_scan s default_order)"

subsection \<open>Printing FIX fields\<close>

text \<open>
  The text form the producers write (\<open>FixProducer.cpp\<close>, \<open>protocol_arena_main.cpp\<close>): tag, \<open>=\<close>,
  value, delimiter.
\<close>

definition fix_field :: "char \<Rightarrow> nat \<times> string \<Rightarrow> string" where
  "fix_field d tv = dec_string (fst tv) @ CHR ''='' # snd tv @ [d]"

definition fix_message :: "char \<Rightarrow> (nat \<times> string) list \<Rightarrow> string" where
  "fix_message d tvs = concat (map (fix_field d) tvs)"

lemma digit_not_eq: "is_digit c \<Longrightarrow> c \<noteq> CHR ''=''"
  by (auto simp: is_digit_def)

lemma digit_not_minus: "is_digit c \<Longrightarrow> c \<noteq> CHR ''-''"
  by (auto simp: is_digit_def)

lemma dec_string_head: "case dec_string n of [] \<Rightarrow> False | c # _ \<Rightarrow> c \<noteq> CHR ''-''"
  using dec_string_digits [of n] dec_string_nonempty [of n]
  by (cases "dec_string n") (auto dest: digit_not_minus)

lemma from_chars_int_dec_string [simp]:
  "n < 2 ^ 31 \<Longrightarrow> from_chars_int (dec_string n) old = int n"
  using dec_string_head [of n]
  by (auto simp: from_chars_int_def Let_def takeWhile_all in_i32_def split: list.splits)

lemma from_chars_u64_dec_string [simp]:
  "n < 2 ^ 64 \<Longrightarrow> from_chars_u64 (dec_string n) old = of_nat n"
  by (simp add: from_chars_u64_def Let_def takeWhile_all)

lemma fix_scan_Nil [simp]: "fix_scan [] ord = ord"
  by (subst fix_scan.simps) simp

lemma fix_scan_field:
  assumes "n < 2 ^ 31" "is_delim d" "list_all (\<lambda>c. \<not> is_delim c) v"
  shows "fix_scan (fix_field d (n, v) @ rest) ord = fix_scan rest (fix_assign (int n) v ord)"
proof -
  have ne: "list_all (\<lambda>c. c \<noteq> CHR ''='') (dec_string n)"
    using dec_string_digits [of n] by (auto simp: list_all_iff dest: digit_not_eq)
  show ?thesis
    by (subst fix_scan.simps)
      (use assms in \<open>simp add: fix_field_def takeWhile_digits_append dropWhile_digits_append ne\<close>)
qed

lemma fix_scan_message:
  assumes "is_delim d"
    and "list_all (\<lambda>(n, v). n < 2 ^ 31 \<and> list_all (\<lambda>c. \<not> is_delim c) v) tvs"
  shows "fix_scan (fix_message d tvs @ rest) ord =
    fix_scan rest (fold (\<lambda>(n, v). fix_assign (int n) v) tvs ord)"
  using assms(2)
proof (induction tvs arbitrary: ord)
  case Nil
  then show ?case by (simp add: fix_message_def)
next
  case (Cons nv tvs)
  obtain n v where nv: "nv = (n, v)" by (cases nv)
  have "fix_scan (fix_message d (nv # tvs) @ rest) ord =
      fix_scan (fix_field d (n, v) @ fix_message d tvs @ rest) ord"
    by (simp add: fix_message_def nv)
  also have "\<dots> = fix_scan (fix_message d tvs @ rest) (fix_assign (int n) v ord)"
    using Cons.prems assms(1) by (intro fix_scan_field) (simp_all add: nv)
  finally show ?case using Cons by (simp add: nv)
qed

subsection \<open>Accuracy of prices\<close>

lemma price_integer_loop_digits:
  assumes "list_all is_digit ds" "case s of [] \<Rightarrow> True | c # _ \<Rightarrow> \<not> is_digit c"
    and "0 \<le> ip" "ip * 10 ^ length ds + int (dec_value ds) < 2 ^ 63"
  shows "price_integer_loop (ds @ s) ip = (ip * 10 ^ length ds + int (dec_value ds), s)"
  using assms
proof (induction ds arbitrary: ip)
  case Nil
  then show ?case by (cases s) simp_all
next
  case (Cons c ds)
  let ?ip' = "ip * 10 + int (digit_val c)"
  have total: "?ip' * 10 ^ length ds + int (dec_value ds) =
      ip * 10 ^ length (c # ds) + int (dec_value (c # ds))"
    by (simp add: dec_value_Cons algebra_simps)
  have "?ip' * 1 \<le> ?ip' * 10 ^ length ds"
    using Cons.prems(3) by (intro mult_left_mono) simp_all
  then have "?ip' \<le> ?ip' * 10 ^ length ds + int (dec_value ds)" by simp
  then have lt: "?ip' < 2 ^ 63"
    using Cons.prems(4) unfolding total by (rule le_less_trans)
  then have "in_i64 (ip * 10)" "in_i64 ?ip'"
    using Cons.prems(3) by (simp_all add: in_i64_def)
  then have "price_integer_loop ((c # ds) @ s) ip = price_integer_loop (ds @ s) ?ip'"
    using Cons.prems(1) by simp
  also have "\<dots> = (?ip' * 10 ^ length ds + int (dec_value ds), s)"
    using Cons.prems total by (intro Cons.IH) auto
  finally show ?case using total by simp
qed

lemma price_fraction_loop_digits:
  assumes "list_all is_digit fs" "length fs \<le> n"
    and "length fs = n \<or> (case s of [] \<Rightarrow> True | c # _ \<Rightarrow> \<not> is_digit c)"
    and "0 \<le> v" "v + int (dec_value fs) * 10 ^ (n - length fs) < 2 ^ 63"
  shows "price_fraction_loop (fs @ s) (10 ^ n div 10) v = v + int (dec_value fs) * 10 ^ (n - length fs)"
  using assms
proof (induction fs arbitrary: n v)
  case Nil
  then show ?case by (cases s) auto
next
  case (Cons c fs)
  then obtain m where n: "n = Suc m" by (cases n) auto
  let ?v' = "v + int (digit_val c) * 10 ^ m"
  have total: "?v' + int (dec_value fs) * 10 ^ (m - length fs) = v + int (dec_value (c # fs)) * 10 ^ (n - length (c # fs))"
  proof -
    have "(10 ^ m :: int) = 10 ^ length fs * 10 ^ (m - length fs)"
      using Cons.prems(2) by (simp add: n flip: power_add)
    then show ?thesis by (simp add: n dec_value_Cons algebra_simps)
  qed
  have room: "?v' + int (dec_value fs) * 10 ^ (m - length fs) < 2 ^ 63" unfolding total by (rule Cons.prems(5))
  moreover have v': "0 \<le> ?v'" "0 \<le> int (dec_value fs) * 10 ^ (m - length fs)" using Cons.prems(4) by simp_all
  ultimately have "in_i64 ?v'" unfolding in_i64_def by linarith
  then have "price_fraction_loop ((c # fs) @ s) (10 ^ n div 10) v =
      price_fraction_loop (fs @ s) (10 ^ m div 10) ?v'"
    using Cons.prems(1) by (simp add: n)
  also have "\<dots> = ?v' + int (dec_value fs) * 10 ^ (m - length fs)"
    using Cons.prems(1-3) v'(1) room by (intro Cons.IH) (auto simp: n)
  finally show ?case unfolding total .
qed

lemma price_fraction_truncates:
  assumes "list_all is_digit fs" "0 \<le> v"
    and "v + int (dec_value (take 6 fs)) * 10 ^ (6 - length (take 6 fs)) < 2 ^ 63"
  shows "price_fraction_loop fs 100000 v =
    v + int (dec_value (take 6 fs)) * 10 ^ (6 - length (take 6 fs))"
proof -
  have "price_fraction_loop (take 6 fs @ drop 6 fs) (10 ^ 6 div 10) v =
      v + int (dec_value (take 6 fs)) * 10 ^ (6 - length (take 6 fs))"
    using assms by (intro price_fraction_loop_digits)
      (auto simp: list_all_iff dest: in_set_takeD split: list.splits)
  then show ?thesis by simp
qed

subsection \<open>Properties of the FIX parser\<close>

text \<open>
  C25. Prices are exact to the micro-dollar: a decimal with integer digits \<open>ds\<close> and fraction digits \<open>fs\<close>, or with integer
  digits only, each with or without a minus sign, parses to its value scaled by 1,000,000 with digits beyond the sixth place cut
  off, whenever the scaled magnitude is below \<open>2 ^ 63\<close>.
\<close>

theorem price_exact:
  assumes "list_all is_digit ds" "list_all is_digit fs"
  defines "v \<equiv> int (dec_value ds) * 1000000 +
               int (dec_value (take 6 fs)) * 10 ^ (6 - length (take 6 fs))"
  assumes "v < 2 ^ 63"
  shows "parse_fixed_point_price (ds @ CHR ''.'' # fs) = v \<and>
    parse_fixed_point_price (CHR ''-'' # ds @ CHR ''.'' # fs) = - v \<and>
    parse_fixed_point_price ds = int (dec_value ds) * 1000000 \<and>
    parse_fixed_point_price (CHR ''-'' # ds) = - (int (dec_value ds) * 1000000)"
proof -
  let ?i = "int (dec_value ds)"
  have fr: "price_fraction_loop fs 100000 (?i * 1000000) = v"
    using assms(2,4) unfolding v_def by (intro price_fraction_truncates) simp_all
  have "0 \<le> int (dec_value (take 6 fs)) * 10 ^ (6 - length (take 6 fs))" by simp
  then have iv: "?i * 1000000 \<le> v" by (simp add: v_def)
  then have lim: "?i * 1000000 < 2 ^ 63" "?i < 2 ^ 63" "0 \<le> v" using assms(4) by simp_all
  have nd: "\<not> is_digit (CHR ''.'')" by (simp add: is_digit_def)
  have loop: "price_integer_loop (ds @ s) 0 = (?i, s)"
    if "case s of [] \<Rightarrow> True | c # _ \<Rightarrow> \<not> is_digit c" for s
    using price_integer_loop_digits [OF assms(1) that, of 0] lim by simp
  have w: "wrap_i64 (?i * 1000000) = ?i * 1000000" "wrap_i64 (- v) = - v" "wrap_i64 (- (?i * 1000000)) = - (?i * 1000000)"
    using lim assms(4) by (simp_all add: in_i64_def)
  have neg: "\<not> (case ds @ s of [] \<Rightarrow> False | c # _ \<Rightarrow> c = CHR ''-'')"
    if "case s of [] \<Rightarrow> True | c # _ \<Rightarrow> c \<noteq> CHR ''-''" for s
    using assms(1) that by (cases ds) (auto dest: digit_not_minus split: list.splits)
  show ?thesis
  proof (intro conjI)
    show "parse_fixed_point_price (ds @ CHR ''.'' # fs) = v"
      using neg [of "CHR ''.'' # fs"] loop [of "CHR ''.'' # fs"] nd
      by (simp add: parse_fixed_point_price_def Let_def w fr)
    show "parse_fixed_point_price (CHR ''-'' # ds @ CHR ''.'' # fs) = - v"
      using loop [of "CHR ''.'' # fs"] nd
      by (simp add: parse_fixed_point_price_def Let_def w fr)
    show "parse_fixed_point_price ds = ?i * 1000000"
      using neg [of "[]"] loop [of "[]"]
      by (simp add: parse_fixed_point_price_def Let_def w)
    show "parse_fixed_point_price (CHR ''-'' # ds) = - (?i * 1000000)"
      using loop [of "[]"] by (simp add: parse_fixed_point_price_def Let_def w)
  qed
qed

theorem price_exact_witness:
  "parse_fixed_point_price (''9223372036854'' @ CHR ''.'' # ''775807'') = 9223372036854775807 \<and>
   parse_fixed_point_price (CHR ''-'' # ''35'') = -35000000"
  using price_exact [of "''9223372036854''" "''775807''"] price_exact [of "''35''" "''''"]
  by (simp add: is_digit_def dec_value_def digit_val_def)

text \<open>
  C26. Round trip of FIX messages: the text of any list of tag and value pairs (tags below 2 to the
  31, values without delimiters), delimited by SOH or by a bar, parses to the default order with
  exactly those fields assigned, in order.
\<close>

theorem fix_parse_message:
  assumes "is_delim d" "tvs \<noteq> []"
    and "list_all (\<lambda>(n, v). n < 2 ^ 31 \<and> list_all (\<lambda>c. \<not> is_delim c) v) tvs"
  shows "fix_parse_in_place (Some (fix_message d tvs)) =
    fold (\<lambda>(n, v). fix_assign (int n) v) tvs default_order"
proof -
  have "fix_message d tvs \<noteq> []"
    using assms(2) by (cases tvs) (simp_all add: fix_message_def fix_field_def)
  then show ?thesis
    using fix_scan_message [OF assms(1,3), of "[]" default_order]
    by (simp add: fix_parse_in_place_def)
qed

theorem fix_parse_message_witness:
  "symbol (fix_parse_in_place (Some (fix_message (CHR ''|'') [(35, ''D''), (55, ''PETR4''), (38, ''1000'')])))
     = ''PETR4'' \<and>
   quantity (fix_parse_in_place (Some (fix_message (CHR ''|'') [(35, ''D''), (55, ''PETR4''), (38, ''1000'')])))
     = 1000"
proof -
  have q: "from_chars_int ''1000'' 0 = 1000"
    by (simp add: from_chars_int_def is_digit_def dec_value_def digit_val_def in_i32_def)
  show ?thesis
    using fix_parse_message [of "CHR ''|''" "[(35, ''D''), (55, ''PETR4''), (38, ''1000'')]"]
    by (simp add: is_delim_def fix_assign_def default_order_def q)
qed

end
