(* ===== verification/Protocol_Parser.thy ===== *)
theory Protocol_Parser
  imports Fix_Parser "HOL-Library.Sublist" "HOL-Library.Monad_Syntax"
begin

text \<open>
  The multi-protocol front end of \<open>include/hft/protocol/ProtocolParser.hpp\<close>: protocol detection by
  case-insensitive search, the packed OUCH and SBE layouts (little-endian, as on the x86-64
  target, which is what the \<open>memcpy\<close> into the packed struct reads), right-trimming and the
  dispatching \<open>parse_in_place\<close>. The parsers are written over memory accesses that can fail, with string views as locations;
  the lemmas below show that no access fails and what the caller reads. The encoders are the layouts written the other way round; they
  state the round trips.
\<close>

datatype ProtocolType = FIX | OUCH | SBE

subsection \<open>Protocol detection\<close>

definition to_lower :: "char \<Rightarrow> char" where
  "to_lower c = (if 65 \<le> (of_char c :: nat) \<and> (of_char c :: nat) \<le> 90
                 then char_of ((of_char c :: nat) + 32) else c)"

text \<open>The inner loop compares \<open>needle\<close> with the characters at one offset of \<open>haystack\<close>.\<close>

fun ci_match :: "string \<Rightarrow> string \<Rightarrow> bool" where
  "ci_match h [] = True"
| "ci_match [] (n # ns) = False"
| "ci_match (h # hs) (n # ns) = (if to_lower h \<noteq> to_lower n then False else ci_match hs ns)"

function contains_ci_from :: "nat \<Rightarrow> string \<Rightarrow> string \<Rightarrow> bool" where
  "contains_ci_from i haystack needle =
     (if i \<le> length haystack - length needle
      then if ci_match (drop i haystack) needle then True
           else contains_ci_from (i + 1) haystack needle
      else False)"
  by pat_completeness auto
termination
  by (relation "measure (\<lambda>(i, h, n). Suc (length h) - i)") auto

declare contains_ci_from.simps [simp del]

definition contains_ci :: "string \<Rightarrow> string \<Rightarrow> bool" where
  "contains_ci haystack needle =
     (if needle = [] then True
      else if length haystack < length needle then False
      else contains_ci_from 0 haystack needle)"

definition parse_protocol_type :: "string \<Rightarrow> ProtocolType" where
  "parse_protocol_type name =
     (if contains_ci name ''ouch'' then OUCH
      else if contains_ci name ''sbe'' then SBE else FIX)"

fun protocol_type_to_string :: "ProtocolType \<Rightarrow> string" where
  "protocol_type_to_string OUCH = ''OUCH (Nasdaq Binary)''"
| "protocol_type_to_string SBE = ''SBE (CME iLink 3 Binary)''"
| "protocol_type_to_string FIX = ''FIX 4.2 (ASCII Tag=Value)''"

subsection \<open>Packed little-endian layouts\<close>

fun le_nat :: "string \<Rightarrow> nat" where
  "le_nat [] = 0"
| "le_nat (c # cs) = of_char c + 256 * le_nat cs"

fun le_bytes :: "nat \<Rightarrow> nat \<Rightarrow> string" where
  "le_bytes 0 x = []"
| "le_bytes (Suc n) x = char_of (x mod 256) # le_bytes n (x div 256)"

definition field_at :: "nat \<Rightarrow> nat \<Rightarrow> string \<Rightarrow> string" where
  "field_at off n s = take n (drop off s)"

record OuchEnterOrderPacket =
  o_packet_type :: char
  o_seq_num :: u64
  o_cl_ord_id :: string
  o_side :: char
  o_quantity :: u32
  o_price_scaled :: u32
  o_symbol :: string
  o_timestamp_ns :: u64

definition sizeof_ouch :: nat where
  "sizeof_ouch = 1 + 8 + 14 + 1 + 4 + 4 + 6 + 8"

definition ouch_decode :: "string \<Rightarrow> OuchEnterOrderPacket" where
  "ouch_decode s = \<lparr>o_packet_type = s ! 0, o_seq_num = of_nat (le_nat (field_at 1 8 s)),
     o_cl_ord_id = field_at 9 14 s, o_side = s ! 23,
     o_quantity = of_nat (le_nat (field_at 24 4 s)),
     o_price_scaled = of_nat (le_nat (field_at 28 4 s)),
     o_symbol = field_at 32 6 s, o_timestamp_ns = of_nat (le_nat (field_at 38 8 s))\<rparr>"

record SbeHeader =
  block_length :: u16
  template_id :: u16
  schema_id :: u16
  version :: u16

record SbeNewOrderSinglePacket =
  s_header :: SbeHeader
  s_seq_num :: u64
  s_cl_ord_id_num :: u64
  s_price_scaled :: u64
  s_quantity :: u32
  s_side :: u8
  s_symbol :: string
  s_time_in_force :: u8

definition sizeof_sbe :: nat where
  "sizeof_sbe = (2 + 2 + 2 + 2) + 8 + 8 + 8 + 4 + 1 + 8 + 1"

definition sbe_decode :: "string \<Rightarrow> SbeNewOrderSinglePacket" where
  "sbe_decode s = \<lparr>
     s_header = \<lparr>block_length = of_nat (le_nat (field_at 0 2 s)),
                 template_id = of_nat (le_nat (field_at 2 2 s)),
                 schema_id = of_nat (le_nat (field_at 4 2 s)),
                 version = of_nat (le_nat (field_at 6 2 s))\<rparr>,
     s_seq_num = of_nat (le_nat (field_at 8 8 s)),
     s_cl_ord_id_num = of_nat (le_nat (field_at 16 8 s)),
     s_price_scaled = of_nat (le_nat (field_at 24 8 s)),
     s_quantity = of_nat (le_nat (field_at 32 4 s)),
     s_side = of_nat (le_nat (field_at 36 1 s)),
     s_symbol = field_at 37 8 s,
     s_time_in_force = of_nat (le_nat (field_at 45 1 s))\<rparr>"

definition trim_right :: "string \<Rightarrow> string" where
  "trim_right sv = rev (dropWhile (\<lambda>c. c = CHR '' '' \<or> c = CHR 0x00) (rev sv))"

subsection \<open>Orders in memory\<close>

text \<open>
  What a \<open>std::string_view\<close> of an order shows: nothing, a literal, a range of the payload, or the first bytes of the inline
  buffer of the object with the given identity. A \<open>ParsedOrder\<close> in memory is the record with these views; the buffer is part
  of the object, and copying the object copies its bytes but leaves the views as they are.
\<close>

datatype view = No_View | Literal string | Payload_View nat nat | Buffer_View nat nat

record raw_order =
  ro_object :: nat
  ro_msg_type :: view
  ro_msg_type_char :: char
  ro_cl_ord_id :: view
  ro_symbol :: view
  ro_side :: int
  ro_quantity :: int
  ro_price :: int
  ro_seq_num :: u64
  ro_latency_ns :: u64
  ro_cl_ord_id_buf :: string

definition raw_default :: raw_order where
  "raw_default = \<lparr>ro_object = 0, ro_msg_type = No_View, ro_msg_type_char = CHR ''?'', ro_cl_ord_id = No_View, ro_symbol = No_View,
     ro_side = 0, ro_quantity = 0, ro_price = 0, ro_seq_num = 0, ro_latency_ns = 0,
     ro_cl_ord_id_buf = replicate 24 (CHR 0x00)\<rparr>"

definition copy_order :: "nat \<Rightarrow> raw_order \<Rightarrow> raw_order" where
  "copy_order dst r = r\<lparr>ro_object := dst\<rparr>"

text \<open>
  Accesses: \<open>None\<close> is an access outside the range it is made to. The payload is the memory \<open>s\<close> behind the pointer.
\<close>

definition char_at :: "string \<Rightarrow> nat \<Rightarrow> char option" where
  "char_at s i = (if i < length s then Some (s ! i) else None)"

definition peek :: "nat \<Rightarrow> nat \<Rightarrow> string \<Rightarrow> string option" where
  "peek off n s = (if off + n \<le> length s then Some (field_at off n s) else None)"

definition poke :: "nat \<Rightarrow> string \<Rightarrow> string \<Rightarrow> string option" where
  "poke off xs buf =
     (if off + length xs \<le> length buf then Some (take off buf @ xs @ drop (off + length xs) buf) else None)"

text \<open>A view can be read while the payload and the order itself are alive when it stays inside them.\<close>

definition view_ok :: "string \<Rightarrow> raw_order \<Rightarrow> view \<Rightarrow> bool" where
  "view_ok s r v = (case v of No_View \<Rightarrow> True | Literal _ \<Rightarrow> True | Payload_View off n \<Rightarrow> off + n \<le> length s
     | Buffer_View obj n \<Rightarrow> obj = ro_object r \<and> n \<le> length (ro_cl_ord_id_buf r))"

definition raw_ok :: "string \<Rightarrow> raw_order \<Rightarrow> bool" where
  "raw_ok s r \<longleftrightarrow> view_ok s r (ro_msg_type r) \<and> view_ok s r (ro_cl_ord_id r) \<and> view_ok s r (ro_symbol r) \<and>
     length (ro_cl_ord_id_buf r) = 24"

text \<open>The characters a view shows, and the order as its reader sees it.\<close>

definition view_chars :: "string \<Rightarrow> raw_order \<Rightarrow> view \<Rightarrow> string" where
  "view_chars s r v = (case v of No_View \<Rightarrow> [] | Literal t \<Rightarrow> t | Payload_View off n \<Rightarrow> field_at off n s
     | Buffer_View obj n \<Rightarrow> if obj = ro_object r then take n (ro_cl_ord_id_buf r) else undefined)"

definition order_of :: "string \<Rightarrow> raw_order \<Rightarrow> ParsedOrder" where
  "order_of s r = \<lparr>msg_type = view_chars s r (ro_msg_type r), msg_type_char = ro_msg_type_char r,
     cl_ord_id = view_chars s r (ro_cl_ord_id r), symbol = view_chars s r (ro_symbol r), side = ro_side r,
     quantity = ro_quantity r, price = ro_price r, seq_num = ro_seq_num r, latency_ns = ro_latency_ns r,
     cl_ord_id_buf = ro_cl_ord_id_buf r\<rparr>"

subsection \<open>The parsers at the level of accesses\<close>

text \<open>\<open>trim_right\<close> on the view of \<open>len\<close> bytes at \<open>off\<close>: the length that is left.\<close>

fun trim_view :: "string \<Rightarrow> nat \<Rightarrow> nat \<Rightarrow> nat option" where
  "trim_view s off 0 = Some 0"
| "trim_view s off (Suc len) =
     (case char_at s (off + len) of
        None \<Rightarrow> None
      | Some c \<Rightarrow> if c = CHR '' '' \<or> c = CHR 0x00 then trim_view s off len else Some (Suc len))"

text \<open>The OUCH case: the length guard, the copy of the packed struct, and the two views into the payload.\<close>

definition parse_ouch :: "string \<Rightarrow> raw_order option" where
  "parse_ouch payload =
     (if length payload < sizeof_ouch then Some raw_default
      else do {
        copied \<leftarrow> peek 0 sizeof_ouch payload;
        let packet = ouch_decode copied;
        id_len \<leftarrow> trim_view payload 9 14;
        symbol_len \<leftarrow> trim_view payload 32 6;
        Some (raw_default\<lparr>ro_msg_type := Literal ''D'', ro_msg_type_char := CHR ''D'',
          ro_seq_num := o_seq_num packet,
          ro_cl_ord_id := Payload_View 9 id_len,
          ro_symbol := Payload_View 32 symbol_len,
          ro_side := (if o_side packet = CHR ''B'' \<or> o_side packet = CHR ''1'' then 1 else 2),
          ro_quantity := wrap_i32 (uint (o_quantity packet)),
          ro_price := uint (o_price_scaled packet)\<rparr>)
      })"

text \<open>
  \<open>std::to_chars\<close> into the first 23 bytes of \<open>cl_ord_id_buf\<close>: on success the digits, a NUL behind them and the
  view into the order's own buffer; with too little room nothing is assigned.
\<close>

definition sbe_format_id :: "u64 \<Rightarrow> raw_order \<Rightarrow> raw_order option" where
  "sbe_format_id num r =
     (let ds = dec_string (unat num)
      in if length ds \<le> length (ro_cl_ord_id_buf r) - 1
         then do {
           written \<leftarrow> poke 0 ds (ro_cl_ord_id_buf r);
           ended \<leftarrow> poke (length ds) [CHR 0x00] written;
           Some (r\<lparr>ro_cl_ord_id_buf := ended, ro_cl_ord_id := Buffer_View (ro_object r) (length ds)\<rparr>)
         }
         else Some r)"

definition parse_sbe :: "string \<Rightarrow> raw_order option" where
  "parse_sbe payload =
     (if length payload < sizeof_sbe then Some raw_default
      else do {
        copied \<leftarrow> peek 0 sizeof_sbe payload;
        let packet = sbe_decode copied;
        r \<leftarrow> sbe_format_id (s_cl_ord_id_num packet)
          (raw_default\<lparr>ro_msg_type := Literal ''D'', ro_msg_type_char := CHR ''D'', ro_seq_num := s_seq_num packet\<rparr>);
        symbol_len \<leftarrow> trim_view payload 37 8;
        Some (r\<lparr>ro_symbol := Payload_View 37 symbol_len,
          ro_side := uint (s_side packet),
          ro_quantity := wrap_i32 (uint (s_quantity packet)),
          ro_price := wrap_i64 (uint (s_price_scaled packet))\<rparr>)
      })"

text \<open>
  The FIX case: the loops of \<open>FixParser::parse_in_place\<close> over positions, where \<open>e\<close> is the position of \<open>end\<close>. The value a tag
  is assigned is the range of \<open>n\<close> bytes at \<open>off\<close>.
\<close>

function scan_to :: "(char \<Rightarrow> bool) \<Rightarrow> string \<Rightarrow> nat \<Rightarrow> nat \<Rightarrow> nat option" where
  "scan_to stop s e ptr =
     (if ptr < e
      then case char_at s ptr of
             None \<Rightarrow> None
           | Some c \<Rightarrow> if stop c then Some ptr else scan_to stop s e (ptr + 1)
      else Some ptr)"
  by pat_completeness auto
termination by (relation "measure (\<lambda>(stop, s, e, ptr). e - ptr)") auto

declare scan_to.simps [simp del]

definition assign_tag :: "string \<Rightarrow> int \<Rightarrow> nat \<Rightarrow> nat \<Rightarrow> raw_order \<Rightarrow> raw_order option" where
  "assign_tag s tag off n r =
     (if tag = 35 then
        (if 0 < n
         then map_option (\<lambda>c. r\<lparr>ro_msg_type := Payload_View off n, ro_msg_type_char := c\<rparr>) (char_at s off)
         else Some (r\<lparr>ro_msg_type := Payload_View off n\<rparr>))
      else if tag = 11 then Some (r\<lparr>ro_cl_ord_id := Payload_View off n\<rparr>)
      else if tag = 55 then Some (r\<lparr>ro_symbol := Payload_View off n\<rparr>)
      else if tag = 54 then map_option (\<lambda>v. r\<lparr>ro_side := from_chars_int v (ro_side r)\<rparr>) (peek off n s)
      else if tag = 38 then map_option (\<lambda>v. r\<lparr>ro_quantity := from_chars_int v (ro_quantity r)\<rparr>) (peek off n s)
      else if tag = 44 then map_option (\<lambda>v. r\<lparr>ro_price := parse_fixed_point_price v\<rparr>) (peek off n s)
      else if tag = 34 then map_option (\<lambda>v. r\<lparr>ro_seq_num := from_chars_u64 v (ro_seq_num r)\<rparr>) (peek off n s)
      else Some r)"

lemma scan_to_ge: "scan_to stop s e ptr = Some p \<Longrightarrow> ptr \<le> p"
proof (induction stop s e ptr rule: scan_to.induct)
  case (1 stop s e ptr)
  show ?case
    using 1(2) 1(1)
    by (subst (asm) (1) scan_to.simps) (fastforce split: if_splits option.splits)
qed

function fix_loop :: "string \<Rightarrow> nat \<Rightarrow> nat \<Rightarrow> raw_order \<Rightarrow> raw_order option" where
  "fix_loop s e ptr r =
     (if ptr < e
      then case scan_to (\<lambda>c. c = CHR ''='') s e ptr of
             None \<Rightarrow> None
           | Some eq \<Rightarrow>
               if eq \<ge> e then Some r
               else case peek ptr (eq - ptr) s of
                      None \<Rightarrow> None
                    | Some tag_chars \<Rightarrow>
                        (case scan_to is_delim s e (eq + 1) of
                           None \<Rightarrow> None
                         | Some val_end \<Rightarrow>
                             (case assign_tag s (from_chars_int tag_chars 0) (eq + 1) (val_end - (eq + 1)) r of
                                None \<Rightarrow> None
                              | Some r' \<Rightarrow> fix_loop s e (if val_end < e then val_end + 1 else val_end) r'))
      else Some r)"
  by pat_completeness auto
termination
proof (relation "measure (\<lambda>(s, e, ptr, r). e - ptr)", simp, goal_cases)
  case (1 s e ptr r eq tag_chars val_end r')
  show ?case using scan_to_ge [OF 1(2)] scan_to_ge [OF 1(5)] 1(1,3) by auto
qed

declare fix_loop.simps [simp del]

definition parse_fix :: "string \<Rightarrow> nat \<Rightarrow> raw_order option" where
  "parse_fix buffer len = (if len = 0 then Some raw_default else fix_loop buffer len 0 raw_default)"

definition parse_raw :: "ProtocolType \<Rightarrow> string option \<Rightarrow> raw_order option" where
  "parse_raw type payload =
     (case payload of None \<Rightarrow> Some raw_default
      | Some s \<Rightarrow>
          if s = [] then Some raw_default
          else case type of
                 OUCH \<Rightarrow> parse_ouch s
               | SBE \<Rightarrow> parse_sbe s
               | FIX \<Rightarrow> parse_fix s (length s mod 2 ^ 32))"

subsection \<open>\<open>ProtocolParser::parse_in_place\<close>\<close>

text \<open>
  The order the caller sees, read while the payload is alive and with the copy of the returned object elided. An access
  outside its range would have no specified result; theorem \<open>parse_memory_safe\<close> shows that there is none.
\<close>

definition parse_in_place :: "ProtocolType \<Rightarrow> string option \<Rightarrow> ParsedOrder" where
  "parse_in_place type payload =
     order_of (case payload of None \<Rightarrow> [] | Some s \<Rightarrow> s) (the (parse_raw type payload))"

subsection \<open>Encoders\<close>

definition ouch_encode :: "OuchEnterOrderPacket \<Rightarrow> string" where
  "ouch_encode p = [o_packet_type p] @ le_bytes 8 (unat (o_seq_num p)) @ o_cl_ord_id p @ [o_side p] @
     le_bytes 4 (unat (o_quantity p)) @ le_bytes 4 (unat (o_price_scaled p)) @ o_symbol p @
     le_bytes 8 (unat (o_timestamp_ns p))"

definition sbe_encode :: "SbeNewOrderSinglePacket \<Rightarrow> string" where
  "sbe_encode p =
     le_bytes 2 (unat (block_length (s_header p))) @ le_bytes 2 (unat (template_id (s_header p))) @
     le_bytes 2 (unat (schema_id (s_header p))) @ le_bytes 2 (unat (version (s_header p))) @
     le_bytes 8 (unat (s_seq_num p)) @ le_bytes 8 (unat (s_cl_ord_id_num p)) @
     le_bytes 8 (unat (s_price_scaled p)) @ le_bytes 4 (unat (s_quantity p)) @
     le_bytes 1 (unat (s_side p)) @ s_symbol p @ le_bytes 1 (unat (s_time_in_force p))"

definition ouch_wf :: "OuchEnterOrderPacket \<Rightarrow> bool" where
  "ouch_wf p \<longleftrightarrow> length (o_cl_ord_id p) = 14 \<and> length (o_symbol p) = 6"

definition sbe_wf :: "SbeNewOrderSinglePacket \<Rightarrow> bool" where
  "sbe_wf p \<longleftrightarrow> length (s_symbol p) = 8"

lemma length_le_bytes [simp]: "length (le_bytes n x) = n"
  by (induction n arbitrary: x) simp_all

lemma le_nat_le_bytes [simp]: "le_nat (le_bytes n x) = x mod 256 ^ n"
proof (induction n arbitrary: x)
  case (Suc n)
  have "(of_char (char_of (x mod 256) :: char) :: nat) = x mod 256"
    by (simp add: of_char_of take_bit_eq_mod)
  with Suc show ?case by (simp add: mod_mult2_eq)
qed simp

text \<open>A word of \<open>8 * n\<close> bits survives its \<open>n\<close>-byte encoding.\<close>

lemma word_of_le_bytes:
  fixes w :: "'a::len word"
  assumes "256 ^ n = (2::nat) ^ LENGTH('a)"
  shows "of_nat (le_nat (le_bytes n (unat w))) = w"
proof -
  have "unat w < 2 ^ LENGTH('a)" by (rule unsigned_less)
  then show ?thesis by (simp add: assms)
qed

lemma field_at_append:
  "off = length a \<Longrightarrow> n = length b \<Longrightarrow> field_at off n (a @ b @ c) = b"
  by (simp add: field_at_def)

lemmas word_of_le_bytes_widths [simp] =
  word_of_le_bytes [where 'a = 64 and n = 8, simplified]
  word_of_le_bytes [where 'a = 32 and n = 4, simplified]
  word_of_le_bytes [where 'a = 16 and n = 2, simplified]
  word_of_le_bytes [where 'a = 8 and n = 1, simplified]

lemma ouch_decode_encode:
  assumes "ouch_wf p"
  shows "ouch_decode (ouch_encode p @ rest) = p"
proof -
  have l: "length (o_cl_ord_id p) = 14" "length (o_symbol p) = 6"
    using assms by (simp_all add: ouch_wf_def)
  show ?thesis
    by (cases p) (use l in \<open>simp add: ouch_decode_def ouch_encode_def field_at_def nth_append\<close>)
qed

lemma sbe_decode_encode:
  assumes "sbe_wf p"
  shows "sbe_decode (sbe_encode p @ rest) = p"
proof -
  have l: "length (s_symbol p) = 8" using assms by (simp add: sbe_wf_def)
  show ?thesis
    by (cases p; cases "s_header p") (use l in \<open>simp add: sbe_decode_def sbe_encode_def field_at_def\<close>)
qed

lemma length_ouch_encode: "ouch_wf p \<Longrightarrow> length (ouch_encode p) = sizeof_ouch"
  by (simp add: ouch_encode_def ouch_wf_def sizeof_ouch_def)

lemma length_sbe_encode: "sbe_wf p \<Longrightarrow> length (sbe_encode p) = sizeof_sbe"
  by (simp add: sbe_encode_def sbe_wf_def sizeof_sbe_def)

text \<open>Decoding reads the copied bytes only, and the views into the payload are the array members of the copied struct.\<close>

lemma field_at_take: "off + n \<le> m \<Longrightarrow> field_at off n (take m s) = field_at off n s"
  by (simp add: field_at_def drop_take min_absorb1)

lemma ouch_decode_copied: "ouch_decode (take sizeof_ouch s) = ouch_decode s"
  by (simp add: ouch_decode_def sizeof_ouch_def field_at_take)

lemma sbe_decode_copied: "sbe_decode (take sizeof_sbe s) = sbe_decode s"
  by (simp add: sbe_decode_def sizeof_sbe_def field_at_take)

lemma ouch_views:
  "field_at 9 14 s = o_cl_ord_id (ouch_decode s)" "field_at 32 6 s = o_symbol (ouch_decode s)"
  by (simp_all add: ouch_decode_def)

lemma sbe_view: "field_at 37 8 s = s_symbol (sbe_decode s)"
  by (simp add: sbe_decode_def)

subsection \<open>No access outside its range\<close>

lemma peek_inside: "off + n \<le> length s \<Longrightarrow> peek off n s = Some (field_at off n s)"
  by (simp add: peek_def)

lemma trim_view_inside:
  assumes "off + n \<le> length s"
  shows "\<exists>k \<le> n. trim_view s off n = Some k \<and> field_at off k s = trim_right (field_at off n s)"
  using assms
proof (induction n)
  case (Suc n)
  have last: "field_at off (Suc n) s = field_at off n s @ [s ! (off + n)]"
    using Suc.prems by (simp add: field_at_def take_Suc_conv_app_nth)
  show ?case
  proof (cases "s ! (off + n) = CHR '' '' \<or> s ! (off + n) = CHR 0x00")
    case True
    from Suc.IH Suc.prems obtain k where "k \<le> n" "trim_view s off n = Some k"
      "field_at off k s = trim_right (field_at off n s)" by auto
    with True Suc.prems last show ?thesis
      by (intro exI [of _ k]) (auto simp: char_at_def trim_right_def)
  next
    case False
    with Suc.prems last show ?thesis
      by (intro exI [of _ "Suc n"]) (simp add: char_at_def trim_right_def)
  qed
qed (simp add: trim_right_def field_at_def)

text \<open>Writing behind what is written is writing once.\<close>

lemma poke_twice:
  assumes "length xs < length buf"
  shows "poke 0 xs buf = Some (xs @ drop (length xs) buf)"
    "poke (length xs) [c] (xs @ drop (length xs) buf) = Some (xs @ c # drop (Suc (length xs)) buf)"
  using assms by (simp_all add: poke_def)

lemma sbe_format_id_total:
  assumes "length (ro_cl_ord_id_buf r) = 24"
  shows "sbe_format_id num r = Some (let ds = dec_string (unat num) in
    r\<lparr>ro_cl_ord_id_buf := ds @ CHR 0x00 # drop (Suc (length ds)) (ro_cl_ord_id_buf r),
      ro_cl_ord_id := Buffer_View (ro_object r) (length ds)\<rparr>)"
proof -
  have "length (dec_string (unat num)) \<le> 23" using u64_digits [of num] by simp
  with assms poke_twice [of "dec_string (unat num)" "ro_cl_ord_id_buf r"] show ?thesis
    by (simp add: sbe_format_id_def Let_def)
qed

text \<open>The order each packet stands for.\<close>

definition ouch_order :: "OuchEnterOrderPacket \<Rightarrow> ParsedOrder" where
  "ouch_order p = default_order\<lparr>msg_type := ''D'', msg_type_char := CHR ''D'', seq_num := o_seq_num p,
     cl_ord_id := trim_right (o_cl_ord_id p), symbol := trim_right (o_symbol p),
     side := (if o_side p = CHR ''B'' \<or> o_side p = CHR ''1'' then 1 else 2),
     quantity := sint (o_quantity p), price := uint (o_price_scaled p)\<rparr>"

definition sbe_order :: "SbeNewOrderSinglePacket \<Rightarrow> ParsedOrder" where
  "sbe_order p = (let ds = dec_string (unat (s_cl_ord_id_num p)) in
     default_order\<lparr>msg_type := ''D'', msg_type_char := CHR ''D'', seq_num := s_seq_num p,
       cl_ord_id := ds, cl_ord_id_buf := ds @ replicate (24 - length ds) (CHR 0x00),
       symbol := trim_right (s_symbol p), side := uint (s_side p),
       quantity := sint (s_quantity p), price := sint (s_price_scaled p)\<rparr>)"

lemma wrap_i32_uint [simp]: "wrap_i32 (uint (x :: u32)) = sint x"
  by (simp add: wrap_i32_def sint_uint)

lemma wrap_i64_uint [simp]: "wrap_i64 (uint (x :: u64)) = sint x"
  by (simp add: wrap_i64_def sint_uint)

lemma raw_default_order: "order_of s raw_default = default_order" "raw_ok s raw_default"
  by (simp_all add: order_of_def raw_default_def default_order_def view_chars_def raw_ok_def view_ok_def)

lemma parse_ouch_total:
  assumes "sizeof_ouch \<le> length s"
  shows "\<exists>r. parse_ouch s = Some r \<and> raw_ok s r \<and> order_of s r = ouch_order (ouch_decode s)"
proof -
  have len: "9 + 14 \<le> length s" "32 + 6 \<le> length s" using assms by (simp_all add: sizeof_ouch_def)
  obtain k m where k: "k \<le> 14" "trim_view s 9 14 = Some k" "field_at 9 k s = trim_right (field_at 9 14 s)"
    and m: "m \<le> 6" "trim_view s 32 6 = Some m" "field_at 32 m s = trim_right (field_at 32 6 s)"
    using trim_view_inside [OF len(1)] trim_view_inside [OF len(2)] by auto
  have "peek 0 sizeof_ouch s = Some (take sizeof_ouch s)" using assms by (simp add: peek_def field_at_def)
  with assms k m len show ?thesis
    by (simp add: parse_ouch_def ouch_decode_copied raw_ok_def view_ok_def order_of_def view_chars_def ouch_order_def ouch_views
        raw_default_def default_order_def Let_def)
qed

lemma replicate_NUL: "n < 24 \<Longrightarrow> CHR 0x00 # replicate (23 - n) (CHR 0x00) = replicate (24 - n) (CHR 0x00)"
  by (simp flip: replicate_Suc add: Suc_diff_Suc)

lemma parse_sbe_total:
  assumes "sizeof_sbe \<le> length s"
  shows "\<exists>r. parse_sbe s = Some r \<and> raw_ok s r \<and> order_of s r = sbe_order (sbe_decode s) \<and>
    ro_object r = 0 \<and> (\<exists>n. ro_cl_ord_id r = Buffer_View 0 n)"
proof -
  have len: "37 + 8 \<le> length s" using assms by (simp add: sizeof_sbe_def)
  obtain m where m: "m \<le> 8" "trim_view s 37 8 = Some m" "field_at 37 m s = trim_right (field_at 37 8 s)"
    using trim_view_inside [OF len] by auto
  have copy: "peek 0 sizeof_sbe s = Some (take sizeof_sbe s)" using assms by (simp add: peek_def field_at_def)
  define ds where "ds = dec_string (unat (s_cl_ord_id_num (sbe_decode s)))"
  have ds: "length ds \<le> 23" using u64_digits [of "s_cl_ord_id_num (sbe_decode s)"] by (simp add: ds_def)
  show ?thesis
    using assms copy m len ds replicate_NUL [of "length ds"]
    by (simp add: parse_sbe_def sbe_format_id_total sbe_decode_copied raw_ok_def view_ok_def order_of_def view_chars_def sbe_order_def sbe_view
        raw_default_def default_order_def ds_def [symmetric] Let_def)
qed

lemma parse_in_place_OUCH:
  "parse_in_place OUCH (Some s) = (if length s < sizeof_ouch then default_order else ouch_order (ouch_decode s))"
proof (cases "length s < sizeof_ouch")
  case True
  then show ?thesis by (simp add: parse_in_place_def parse_raw_def parse_ouch_def raw_default_order)
next
  case False
  then have "s \<noteq> []" by (auto simp: sizeof_ouch_def)
  with False parse_ouch_total [of s] show ?thesis by (auto simp: parse_in_place_def parse_raw_def)
qed

lemma parse_in_place_SBE:
  "parse_in_place SBE (Some s) = (if length s < sizeof_sbe then default_order else sbe_order (sbe_decode s))"
proof (cases "length s < sizeof_sbe")
  case True
  then show ?thesis by (simp add: parse_in_place_def parse_raw_def parse_sbe_def raw_default_order)
next
  case False
  then have "s \<noteq> []" by (auto simp: sizeof_sbe_def)
  with False parse_sbe_total [of s] show ?thesis by (auto simp: parse_in_place_def parse_raw_def)
qed

lemma parse_in_place_ouch_encode: "ouch_wf p \<Longrightarrow> parse_in_place OUCH (Some (ouch_encode p @ rest)) = ouch_order p"
  by (simp add: parse_in_place_OUCH length_ouch_encode ouch_decode_encode)

lemma parse_in_place_sbe_encode: "sbe_wf p \<Longrightarrow> parse_in_place SBE (Some (sbe_encode p @ rest)) = sbe_order p"
  by (simp add: parse_in_place_SBE length_sbe_encode sbe_decode_encode)

subsection \<open>Search\<close>

lemma ci_match_prefix: "ci_match h n \<longleftrightarrow> prefix (map to_lower n) (map to_lower h)"
  by (induction h n rule: ci_match.induct) auto

lemma contains_ci_from_iff:
  "contains_ci_from i h n \<longleftrightarrow> (\<exists>j \<ge> i. j \<le> length h - length n \<and> ci_match (drop j h) n)"
proof (induction i h n rule: contains_ci_from.induct)
  case (1 i h n)
  let ?P = "\<lambda>j. j \<le> length h - length n \<and> ci_match (drop j h) n"
  have "(\<exists>j \<ge> i. ?P j) \<longleftrightarrow> ?P i \<or> (\<exists>j \<ge> i + 1. ?P j)"
    by (metis Suc_eq_plus1 Suc_leD Suc_leI le_eq_less_or_eq order_refl)
  with 1 show ?case
    by (subst contains_ci_from.simps) auto
qed

lemma sublist_iff_drop_prefix:
  "sublist n h \<longleftrightarrow> (\<exists>j \<le> length h - length n. length n \<le> length h \<and> prefix n (drop j h))"
proof
  assume "sublist n h"
  then obtain a b where "h = a @ n @ b" by (auto simp: sublist_def)
  then show "\<exists>j \<le> length h - length n. length n \<le> length h \<and> prefix n (drop j h)"
    by (intro exI [of _ "length a"]) simp
next
  assume "\<exists>j \<le> length h - length n. length n \<le> length h \<and> prefix n (drop j h)"
  then obtain j where "prefix n (drop j h)" by blast
  then show "sublist n h"
    by (metis append_take_drop_id prefix_def sublist_def)
qed

text \<open>
  Protocol detection searches correctly: \<open>contains_ci\<close> holds exactly when the needle occurs in
  the haystack as a contiguous block, both read in lower case.
\<close>

theorem contains_ci_sublist:
  "contains_ci haystack needle \<longleftrightarrow> sublist (map to_lower needle) (map to_lower haystack)"
proof (cases "needle = [] \<or> length haystack < length needle")
  case True
  then show ?thesis
    by (auto simp: contains_ci_def dest: sublist_length_le)
next
  case False
  then show ?thesis
    by (simp add: contains_ci_def contains_ci_from_iff ci_match_prefix sublist_iff_drop_prefix
        drop_map)
qed

text \<open>
  C27. Binary round trips: a well-formed OUCH or SBE packet, written in its packed little-endian
  layout and followed by any trailing bytes, parses to the order with the packet's fields; the
  32-bit and 64-bit fields are read as the signed integers of the order record, and the numeric
  client id always fits the inline buffer.
\<close>

theorem binary_roundtrip:
  assumes "ouch_wf p" "sbe_wf q"
  shows "parse_in_place OUCH (Some (ouch_encode p @ rest)) = ouch_order p \<and>
    parse_in_place SBE (Some (sbe_encode q @ rest)) = sbe_order q \<and>
    length (cl_ord_id_buf (sbe_order q)) = 24"
  using assms u64_digits [of "s_cl_ord_id_num q"]
  by (simp add: parse_in_place_ouch_encode parse_in_place_sbe_encode sbe_order_def default_order_def Let_def)

definition sample_ouch :: OuchEnterOrderPacket where
  "sample_ouch = \<lparr>o_packet_type = CHR ''O'', o_seq_num = 7, o_cl_ord_id = ''ORD00007      '',
     o_side = CHR ''B'', o_quantity = 1000, o_price_scaled = 35850000, o_symbol = ''PETR4 '',
     o_timestamp_ns = 0\<rparr>"

definition sample_sbe :: SbeNewOrderSinglePacket where
  "sample_sbe = \<lparr>s_header = \<lparr>block_length = 36, template_id = 514, schema_id = 8, version = 1\<rparr>,
     s_seq_num = 7, s_cl_ord_id_num = 1007, s_price_scaled = 35850000, s_quantity = 1000, s_side = 1,
     s_symbol = ''PETR4   '', s_time_in_force = 0\<rparr>"

theorem binary_roundtrip_witness:
  "quantity (parse_in_place OUCH (Some (ouch_encode sample_ouch @ []))) = 1000 \<and>
   price (parse_in_place SBE (Some (sbe_encode sample_sbe @ []))) = 35850000"
  using binary_roundtrip [of sample_ouch sample_sbe "[]"]
  by (simp add: ouch_wf_def sbe_wf_def sample_ouch_def sample_sbe_def ouch_order_def sbe_order_def
      default_order_def Let_def sint_uint)

text \<open>
  A binary payload shorter than its packed struct is rejected as the empty order, and every
  payload at least that long is accepted as a new-order message: the limits are 46 bytes for OUCH
  and 46 (not 44) bytes for SBE.
\<close>

theorem binary_length_gate:
  "(msg_type_char (parse_in_place OUCH (Some s)) = CHR ''D'' \<longleftrightarrow> 46 \<le> length s) \<and>
   (msg_type_char (parse_in_place SBE (Some s)) = CHR ''D'' \<longleftrightarrow> 46 \<le> length s) \<and>
   (length s < 46 \<longrightarrow> parse_in_place OUCH (Some s) = default_order \<and>
                      parse_in_place SBE (Some s) = default_order)"
  by (auto simp: parse_in_place_OUCH parse_in_place_SBE sizeof_ouch_def sizeof_sbe_def ouch_order_def sbe_order_def
      default_order_def Let_def)

theorem binary_length_gate_witness:
  "parse_in_place SBE (Some (replicate 44 (CHR ''x''))) = default_order"
  using binary_length_gate [of "replicate 44 (CHR ''x'')"] by simp


subsection \<open>The FIX loops stay inside the payload\<close>

lemma scan_to_inside:
  assumes "e \<le> length s" "ptr \<le> e"
  shows "scan_to stop s e ptr = Some (ptr + length (takeWhile (\<lambda>c. \<not> stop c) (drop ptr (take e s))))"
  using assms
proof (induction stop s e ptr rule: scan_to.induct)
  case (1 stop s e ptr)
  show ?case
  proof (cases "ptr < e")
    case True
    then have "drop ptr (take e s) = s ! ptr # drop (Suc ptr) (take e s)"
      using 1(2) Cons_nth_drop_Suc [of ptr "take e s"] by simp
    with True 1 show ?thesis by (subst scan_to.simps) (simp add: char_at_def)
  next
    case False
    with 1(3) show ?thesis by (subst scan_to.simps) simp
  qed
qed

lemma view_frame [simp]:
  "view_chars s (r\<lparr>ro_msg_type := x1\<rparr>) v = view_chars s r v" "view_ok s (r\<lparr>ro_msg_type := x1\<rparr>) v = view_ok s r v"
  "view_chars s (r\<lparr>ro_msg_type_char := x2\<rparr>) v = view_chars s r v" "view_ok s (r\<lparr>ro_msg_type_char := x2\<rparr>) v = view_ok s r v"
  "view_chars s (r\<lparr>ro_cl_ord_id := x3\<rparr>) v = view_chars s r v" "view_ok s (r\<lparr>ro_cl_ord_id := x3\<rparr>) v = view_ok s r v"
  "view_chars s (r\<lparr>ro_symbol := x4\<rparr>) v = view_chars s r v" "view_ok s (r\<lparr>ro_symbol := x4\<rparr>) v = view_ok s r v"
  "view_chars s (r\<lparr>ro_side := x5\<rparr>) v = view_chars s r v" "view_ok s (r\<lparr>ro_side := x5\<rparr>) v = view_ok s r v"
  "view_chars s (r\<lparr>ro_quantity := x6\<rparr>) v = view_chars s r v" "view_ok s (r\<lparr>ro_quantity := x6\<rparr>) v = view_ok s r v"
  "view_chars s (r\<lparr>ro_price := x7\<rparr>) v = view_chars s r v" "view_ok s (r\<lparr>ro_price := x7\<rparr>) v = view_ok s r v"
  "view_chars s (r\<lparr>ro_seq_num := x8\<rparr>) v = view_chars s r v" "view_ok s (r\<lparr>ro_seq_num := x8\<rparr>) v = view_ok s r v"
  by (simp_all add: view_chars_def view_ok_def split: view.split)

lemma assign_tag_inside:
  assumes "off + n \<le> length s" "raw_ok s r"
  shows "\<exists>r'. assign_tag s tag off n r = Some r' \<and> raw_ok s r' \<and> ro_object r' = ro_object r \<and>
    order_of s r' = fix_assign tag (field_at off n s) (order_of s r)"
proof -
  have view: "view_chars s r' (Payload_View off n) = field_at off n s" "view_ok s r' (Payload_View off n)" for r'
    using assms(1) by (simp_all add: view_chars_def view_ok_def)
  have head: "\<exists>cs. field_at off n s = s ! off # cs \<and> char_at s off = Some (s ! off)" if "0 < n"
  proof -
    have off: "off < length s" using that assms(1) by simp
    note d = Cons_nth_drop_Suc [OF off, symmetric]
    show ?thesis using that off by (cases n) (simp_all add: field_at_def char_at_def d)
  qed
  have empty: "n = 0 \<Longrightarrow> field_at off n s = []" by (simp add: field_at_def)
  show ?thesis
    using assms head empty view
    by (cases "0 < n") (auto simp: assign_tag_def fix_assign_def order_of_def raw_ok_def peek_inside)
qed

text \<open>A scanned range is readable, and it holds the characters passed over.\<close>

lemma peek_scanned:
  assumes "e \<le> length s" "ptr \<le> e"
  shows "peek ptr (length (takeWhile P (drop ptr (take e s)))) s = Some (takeWhile P (drop ptr (take e s)))"
    and "ptr + length (takeWhile P (drop ptr (take e s))) \<le> e"
    and "drop (ptr + length (takeWhile P (drop ptr (take e s)))) (take e s) = dropWhile P (drop ptr (take e s))"
proof -
  define t where "t = drop ptr (take e s)"
  have len: "length (takeWhile P t) \<le> e - ptr" using length_takeWhile_le [of P t] assms(1) by (simp add: t_def)
  then show "ptr + length (takeWhile P (drop ptr (take e s))) \<le> e" using assms(2) unfolding t_def by linarith
  have "take (length (takeWhile P t)) (drop ptr s) = take (length (takeWhile P t)) t"
    using len by (simp add: t_def drop_take)
  also have "\<dots> = takeWhile P t" by (rule takeWhile_eq_take [symmetric])
  finally show "peek ptr (length (takeWhile P (drop ptr (take e s)))) s = Some (takeWhile P (drop ptr (take e s)))"
    using len assms unfolding t_def [symmetric] by (simp add: peek_def field_at_def)
  show "drop (ptr + length (takeWhile P (drop ptr (take e s)))) (take e s) = dropWhile P (drop ptr (take e s))"
    using dropWhile_eq_drop [of P t] by (simp add: t_def add.commute)
qed

lemma fix_loop_inside:
  assumes "e \<le> length s" "raw_ok s r" "ptr \<le> e"
  shows "\<exists>r'. fix_loop s e ptr r = Some r' \<and> raw_ok s r' \<and> ro_object r' = ro_object r \<and>
    order_of s r' = fix_scan (drop ptr (take e s)) (order_of s r)"
  using assms
proof (induction s e ptr r rule: fix_loop.induct)
  case (1 s e ptr r)
  let ?t = "drop ptr (take e s)" and ?P = "\<lambda>c. c \<noteq> CHR ''=''" and ?D = "\<lambda>c. \<not> is_delim c"
  define eq where "eq = ptr + length (takeWhile ?P ?t)"
  have scan: "scan_to (\<lambda>c. c = CHR ''='') s e ptr = Some eq"
    using scan_to_inside [OF 1(2,4), of "\<lambda>c. c = CHR ''=''"] by (simp add: eq_def)
  have tag: "peek ptr (eq - ptr) s = Some (takeWhile ?P ?t)" and eq_e: "eq \<le> e"
    and rest: "drop eq (take e s) = dropWhile ?P ?t"
    using peek_scanned [OF 1(2,4), of ?P] by (simp_all add: eq_def)
  show ?case
  proof (cases "eq < e")
    case False
    with rest eq_e have "dropWhile ?P ?t = []" by simp
    then have "fix_scan ?t (order_of s r) = order_of s r" by (subst fix_scan.simps) (simp only: Let_def list.case)
    with scan False 1(3) show ?thesis by (subst fix_loop.simps) simp
  next
    case True
    let ?t1 = "drop (eq + 1) (take e s)"
    define val_end where "val_end = eq + 1 + length (takeWhile ?D ?t1)"
    have t1: "dropWhile ?P ?t = take e s ! eq # ?t1"
      using True 1(2) Cons_nth_drop_Suc [of eq "take e s"] by (simp add: rest [symmetric])
    have le: "eq + 1 \<le> e" using True by simp
    have scan2: "scan_to is_delim s e (eq + 1) = Some val_end"
      using scan_to_inside [OF 1(2) le, of is_delim] by (simp add: val_end_def)
    have val: "peek (eq + 1) (val_end - (eq + 1)) s = Some (takeWhile ?D ?t1)" and v_e: "val_end \<le> e"
      and rest2: "drop val_end (take e s) = dropWhile ?D ?t1"
      using peek_scanned [OF 1(2) le, of ?D] by (simp_all add: val_end_def)
    then have fld: "field_at (eq + 1) (val_end - (eq + 1)) s = takeWhile ?D ?t1"
      and room: "eq + 1 + (val_end - (eq + 1)) \<le> length s"
      by (simp_all only: peek_def option.inject option.distinct split: if_splits)
    obtain r' where r': "assign_tag s (from_chars_int (takeWhile ?P ?t) 0) (eq + 1) (val_end - (eq + 1)) r = Some r'"
      "raw_ok s r'" "ro_object r' = ro_object r"
      "order_of s r' = fix_assign (from_chars_int (takeWhile ?P ?t) 0) (takeWhile ?D ?t1) (order_of s r)"
      using assign_tag_inside [OF room 1(3), of "from_chars_int (takeWhile ?P ?t) 0"] unfolding fld by blast
    have step: "drop (val_end + 1) (take e s) = drop 1 (dropWhile ?D ?t1)" unfolding rest2 [symmetric] by simp
    define ptr' where "ptr' = (if val_end < e then val_end + 1 else val_end)"
    have ptr': "ptr' \<le> e" "drop ptr' (take e s) = drop 1 (dropWhile ?D ?t1)"
      using v_e rest2 step by (auto simp: ptr'_def)
    have "ptr < e" using True by (simp add: eq_def)
    then have "fix_loop s e ptr r = fix_loop s e ptr' r'"
      using scan True tag scan2 r'(1) by (subst fix_loop.simps) (simp add: ptr'_def)
    moreover have "fix_scan ?t (order_of s r) = fix_scan (drop ptr' (take e s)) (order_of s r')"
      unfolding ptr'(2) r'(4) by (subst fix_scan.simps) (simp only: t1 Let_def list.case)
    moreover have "\<exists>r''. fix_loop s e ptr' r' = Some r'' \<and> raw_ok s r'' \<and> ro_object r'' = ro_object r' \<and>
        order_of s r'' = fix_scan (drop ptr' (take e s)) (order_of s r')"
      using 1(1) [OF \<open>ptr < e\<close> scan _ tag scan2 r'(1)] True 1(2) r'(2) ptr'(1) by (simp add: ptr'_def)
    ultimately show ?thesis using r'(3) by simp
  qed
qed

text \<open>The FIX branch is the value-level scanner on the bytes up to the length, cut to 32 bits.\<close>

lemma parse_fix_total:
  assumes "e \<le> length s"
  shows "\<exists>r. parse_fix s e = Some r \<and> raw_ok s r \<and> ro_object r = 0 \<and> order_of s r = fix_parse_in_place (Some (take e s))"
proof (cases "e = 0")
  case False
  then have "take e s \<noteq> []" using assms by auto
  with False fix_loop_inside [OF assms raw_default_order(2), of 0] show ?thesis
    by (auto simp: parse_fix_def fix_parse_in_place_def raw_default_order raw_default_def [THEN arg_cong [of _ _ ro_object]])
qed (simp add: parse_fix_def fix_parse_in_place_def raw_default_order, simp add: raw_default_def)

lemma parse_in_place_FIX:
  "parse_in_place FIX (Some s) = fix_parse_in_place (Some (take (length s mod 2 ^ 32) s))"
proof (cases "s = []")
  case True
  then show ?thesis by (simp add: parse_in_place_def parse_raw_def raw_default_order fix_parse_in_place_def)
next
  case False
  then show ?thesis
    using parse_fix_total [of "length s mod 2 ^ 32" s] by (auto simp: parse_in_place_def parse_raw_def)
qed

lemma parse_in_place_None [simp]: "parse_in_place ty None = default_order"
  by (simp add: parse_in_place_def parse_raw_def raw_default_order)

subsection \<open>Well-typed orders\<close>

text \<open>The integer fields are in the range of their C types and the inline buffer has its size.\<close>

definition order_typed :: "ParsedOrder \<Rightarrow> bool" where
  "order_typed ord \<longleftrightarrow> in_i32 (side ord) \<and> in_i32 (quantity ord) \<and> in_i64 (price ord) \<and>
     length (cl_ord_id_buf ord) = 24"

lemma default_order_typed: "order_typed default_order"
  by (simp add: order_typed_def default_order_def in_i32_def in_i64_def)

lemma from_chars_int_range: "in_i32 old \<Longrightarrow> in_i32 (from_chars_int s old)"
  by (simp add: from_chars_int_def Let_def)

lemma price_integer_loop_range: "in_i64 ip \<Longrightarrow> in_i64 (fst (price_integer_loop s ip))"
  by (induction s ip rule: price_integer_loop.induct) simp_all

lemma price_fraction_loop_range: "in_i64 v \<Longrightarrow> in_i64 (price_fraction_loop s k v)"
  by (induction s k v rule: price_fraction_loop.induct) simp_all

lemma parse_fixed_point_price_range: "in_i64 (parse_fixed_point_price s)"
  by (simp add: parse_fixed_point_price_def Let_def price_fraction_loop_range split: prod.split list.split)

lemma fix_assign_typed: "order_typed ord \<Longrightarrow> order_typed (fix_assign n v ord)"
  using parse_fixed_point_price_range
  by (auto simp: fix_assign_def order_typed_def from_chars_int_range split: list.split)

lemma fix_scan_typed: "order_typed ord \<Longrightarrow> order_typed (fix_scan s ord)"
proof (induction s ord rule: fix_scan.induct)
  case (1 s ord)
  show ?case
  proof (cases "dropWhile (\<lambda>c. c \<noteq> CHR ''='') s")
    case Nil
    with 1(2) show ?thesis by (subst fix_scan.simps) (simp only: Let_def list.case)
  next
    case (Cons c s1)
    from 1(1) [OF refl refl Cons refl refl refl fix_assign_typed [OF 1(2)]] Cons show ?thesis
      by (subst fix_scan.simps) (simp add: Let_def)
  qed
qed

lemma binary_orders_typed: "order_typed (ouch_order p)" "order_typed (sbe_order q)"
proof -
  have px: "in_i64 (uint (x :: u32))" "in_i32 (uint (y :: u8))" for x y
  proof -
    define m n where "m = uint x" and "n = uint y"
    have "0 \<le> m" "m < 2 ^ 32" "0 \<le> n" "n < 2 ^ 8"
      using uint_bounded [of x] uint_bounded [of y] by (simp_all add: m_def n_def)
    then show "in_i64 (uint x)" "in_i32 (uint y)" by (simp_all add: in_i64_def in_i32_def flip: m_def n_def)
  qed
  have lit: "in_i32 1" "in_i32 2" "in_i32 (sint (w :: u32))" "in_i64 (sint (z :: u64))" for w z
    using in_i32_wrap [of "uint w"] in_i64_wrap [of "uint z"] by (simp_all add: in_i32_def)
  show "order_typed (ouch_order p)" using px lit by (simp add: order_typed_def ouch_order_def default_order_def)
  have "length (dec_string (unat (s_cl_ord_id_num q))) \<le> 24" using u64_digits [of "s_cl_ord_id_num q"] by simp
  then show "order_typed (sbe_order q)" using px lit by (simp add: order_typed_def sbe_order_def default_order_def Let_def)
qed

lemma parse_in_place_ok: "order_typed (parse_in_place ty p)"
proof (cases p)
  case (Some s)
  show ?thesis
    unfolding Some by (cases ty)
      (simp_all add: parse_in_place_FIX parse_in_place_OUCH parse_in_place_SBE fix_parse_in_place_def binary_orders_typed
        default_order_typed fix_scan_typed)
qed (simp add: default_order_typed)

text \<open>Every payload and protocol: all accesses of the parser stay in their ranges.\<close>

lemma parse_raw_total:
  "\<exists>r. parse_raw ty (Some s) = Some r \<and> raw_ok s r \<and> order_of s r = parse_in_place ty (Some s)"
proof (cases "s = []")
  case True
  then show ?thesis by (simp add: parse_raw_def parse_in_place_def raw_default_order)
next
  case False
  have "\<exists>r. parse_raw ty (Some s) = Some r \<and> raw_ok s r"
  proof (cases ty)
    case FIX
    with False parse_fix_total [of "length s mod 2 ^ 32" s] show ?thesis by (auto simp: parse_raw_def)
  next
    case OUCH
    with False parse_ouch_total [of s] raw_default_order show ?thesis
      by (cases "length s < sizeof_ouch") (auto simp: parse_raw_def, simp add: parse_ouch_def)
  next
    case SBE
    with False parse_sbe_total [of s] raw_default_order show ?thesis
      by (cases "length s < sizeof_sbe") (auto simp: parse_raw_def, simp add: parse_sbe_def)
  qed
  then show ?thesis by (auto simp: parse_in_place_def)
qed

text \<open>
  C22. Parsing makes no access outside the payload or the order's buffer, for every protocol and every byte string: none of the
  reads of the packed structs, of the scanning loops, of the trimmed views and of the values of the tags, and neither
  of the writes into the inline buffer, is out of range; the string views of the order it returns stay inside the payload or
  inside the order's own 24-byte buffer; and its integer fields are within their C types.
\<close>

theorem parse_memory_safe:
  "\<exists>r. parse_raw ty (Some s) = Some r \<and> raw_ok s r \<and> order_of s r = parse_in_place ty (Some s) \<and>
    in_i32 (ro_side r) \<and> in_i32 (ro_quantity r) \<and> in_i64 (ro_price r)"
proof -
  obtain r where r: "parse_raw ty (Some s) = Some r" "raw_ok s r" "order_of s r = parse_in_place ty (Some s)"
    using parse_raw_total [of ty s] by blast
  have "order_typed (order_of s r)" unfolding r(3) by (rule parse_in_place_ok)
  then have "in_i32 (ro_side r) \<and> in_i32 (ro_quantity r) \<and> in_i64 (ro_price r)" by (simp add: order_typed_def order_of_def)
  with r show ?thesis by blast
qed

text \<open>The views of FIX and OUCH orders show the payload only.\<close>

definition own_views :: "raw_order \<Rightarrow> bool" where
  "own_views r \<longleftrightarrow> (\<exists>obj n. Buffer_View obj n \<in> {ro_msg_type r, ro_cl_ord_id r, ro_symbol r})"

lemma assign_tag_views: "assign_tag s tag off n r = Some r' \<Longrightarrow> \<not> own_views r \<Longrightarrow> \<not> own_views r'"
  by (auto simp: assign_tag_def own_views_def split: if_splits)

lemma fix_loop_views: "fix_loop s e ptr r = Some r' \<Longrightarrow> \<not> own_views r \<Longrightarrow> \<not> own_views r'"
proof (induction s e ptr r rule: fix_loop.induct)
  case (1 s e ptr r)
  from 1(2) show ?case
    by (subst (asm) fix_loop.simps) (use 1(1,3) assign_tag_views in \<open>fastforce split: if_splits option.splits\<close>)
qed

lemma raw_default_views: "\<not> own_views raw_default"
  by (simp add: own_views_def raw_default_def)

lemma parse_raw_views:
  assumes "parse_raw ty (Some s) = Some r" "ty \<noteq> SBE \<or> length s < sizeof_sbe"
  shows "\<not> own_views r"
proof (cases "s = [] \<or> length s < sizeof_ouch \<and> ty = OUCH \<or> length s < sizeof_sbe \<and> ty = SBE")
  case True
  with assms(1) have "r = raw_default" by (auto simp: parse_raw_def parse_ouch_def parse_sbe_def split: if_splits)
  with raw_default_views show ?thesis by simp
next
  case False
  show ?thesis
  proof (cases ty)
    case FIX
    with False assms(1) raw_default_views fix_loop_views [of s "length s mod 2 ^ 32" 0 raw_default r] show ?thesis
      by (auto simp: parse_raw_def parse_fix_def split: if_splits)
  next
    case OUCH
    with False assms(1) show ?thesis
      by (auto simp: parse_raw_def parse_ouch_def Let_def own_views_def bind_eq_Some_conv)
  qed (use False assms(2) in simp)
qed

text \<open>
  C40. Copying a parsed order. An order of the FIX or OUCH parser can be copied to another object and all its views stay
  readable with the payload and the copy alone; an order of the SBE parser from a payload of full length cannot, because its
  client id shows the inline buffer of the object it was parsed into: after the copy the view hangs on the life of the
  original object.
\<close>

theorem order_copy_views:
  assumes "parse_raw ty (Some s) = Some r" "dst \<noteq> ro_object r"
  shows "raw_ok s (copy_order dst r) \<longleftrightarrow> \<not> (ty = SBE \<and> sizeof_sbe \<le> length s)"
proof (cases "ty = SBE \<and> sizeof_sbe \<le> length s")
  case True
  then have "s \<noteq> []" by (auto simp: sizeof_sbe_def)
  with True parse_sbe_total [of s] assms show ?thesis
    by (auto simp: parse_raw_def raw_ok_def copy_order_def view_ok_def)
next
  case False
  then have "\<not> own_views r" using parse_raw_views [OF assms(1)] by auto
  moreover have "raw_ok s r" using parse_raw_total [of ty s] assms(1) by auto
  ultimately show ?thesis
    using False by (auto simp: raw_ok_def own_views_def copy_order_def view_ok_def split: view.splits)
qed

theorem order_copy_views_witness:
  "\<exists>r. parse_raw SBE (Some (sbe_encode sample_sbe)) = Some r \<and> raw_ok (sbe_encode sample_sbe) r \<and>
     \<not> raw_ok (sbe_encode sample_sbe) (copy_order 1 r)"
proof -
  have len: "length (sbe_encode sample_sbe) = sizeof_sbe" by (rule length_sbe_encode) (simp add: sbe_wf_def sample_sbe_def)
  then have "sbe_encode sample_sbe \<noteq> []" by (auto simp: sizeof_sbe_def)
  with parse_sbe_total [of "sbe_encode sample_sbe"] len obtain r where
    r: "parse_raw SBE (Some (sbe_encode sample_sbe)) = Some r" "raw_ok (sbe_encode sample_sbe) r" "ro_object r = 0"
    by (auto simp: parse_raw_def)
  with order_copy_views [OF r(1), of 1] len show ?thesis by auto
qed

end
