(* ===== verification/Dedup_Filter.thy ===== *)
theory Dedup_Filter
  imports Hft_Prelude
begin

text \<open>
  The contract that the workers rely on when they drop packets by sequence number: a filter step
  that accepts a packet or refuses it by its key (the sequence number), with a notion of \<open>seen\<close>
  that acceptance establishes and that nothing takes back while the keys stay in an admissible set.
  \<open>SequenceGapDetector\<close> and \<open>FeedArbitrator\<close> provide it.
\<close>

text \<open>Running a filter over a packet sequence: the packets let through, in order, and the state.\<close>

fun filter_run :: "('s \<Rightarrow> 'p \<Rightarrow> bool \<times> 's) \<Rightarrow> 's \<Rightarrow> 'p list \<Rightarrow> 'p list \<times> 's" where
  "filter_run step st [] = ([], st)"
| "filter_run step st (x # xs) =
     (let (acc, st') = step st x; (ys, st'') = filter_run step st' xs
      in (if acc then x # ys else ys, st''))"

locale dedup_filter =
  fixes step :: "'s \<Rightarrow> 'p \<Rightarrow> bool \<times> 's"
    and key :: "'p \<Rightarrow> u64"
    and seen :: "'s \<Rightarrow> u64 \<Rightarrow> bool"
    and inv :: "'s \<Rightarrow> bool"
    and adm :: "u64 set"
  assumes step_inv: "inv st \<Longrightarrow> key x \<in> adm \<Longrightarrow> inv (snd (step st x))"
    and accept_iff: "inv st \<Longrightarrow> key x \<in> adm \<Longrightarrow> fst (step st x) \<longleftrightarrow> \<not> seen st (key x)"
    and now_seen: "inv st \<Longrightarrow> key x \<in> adm \<Longrightarrow> seen (snd (step st x)) (key x)"
    and stays_seen: "inv st \<Longrightarrow> key x \<in> adm \<Longrightarrow> k \<in> adm \<Longrightarrow> seen st k \<Longrightarrow> seen (snd (step st x)) k"
begin

lemma run_inv: "inv st \<Longrightarrow> key ` set xs \<subseteq> adm \<Longrightarrow> inv (snd (filter_run step st xs))"
  by (induction xs arbitrary: st) (auto simp: split_beta Let_def step_inv)

lemma run_subset: "set (fst (filter_run step st xs)) \<subseteq> set xs"
  by (induction xs arbitrary: st) (auto simp: split_beta Let_def)

lemma run_refuses_seen:
  "inv st \<Longrightarrow> key ` set xs \<subseteq> adm \<Longrightarrow> k \<in> adm \<Longrightarrow> seen st k \<Longrightarrow>
     k \<notin> key ` set (fst (filter_run step st xs)) \<and> seen (snd (filter_run step st xs)) k"
proof (induction xs arbitrary: st)
  case (Cons x xs)
  then have "inv (snd (step st x))" "seen (snd (step st x)) k"
    by (simp_all add: step_inv stays_seen)
  with Cons.IH [of "snd (step st x)"] Cons.prems show ?case
    by (auto simp: split_beta Let_def accept_iff)
qed simp

lemma run_at_most_once:
  "inv st \<Longrightarrow> key ` set xs \<subseteq> adm \<Longrightarrow> distinct (map key (fst (filter_run step st xs)))"
proof (induction xs arbitrary: st)
  case (Cons x xs)
  then have "inv (snd (step st x))" "seen (snd (step st x)) (key x)"
    by (simp_all add: step_inv now_seen)
  with Cons.IH [of "snd (step st x)"] run_refuses_seen [of "snd (step st x)" xs "key x"] Cons.prems
  show ?case by (simp add: split_beta Let_def)
qed simp

end

text \<open>A filter that marks nothing but the number it is given loses no packet either.\<close>

locale complete_filter = dedup_filter +
  assumes only_seen:
    "inv st \<Longrightarrow> key x \<in> adm \<Longrightarrow> k \<in> adm \<Longrightarrow> seen (snd (step st x)) k \<Longrightarrow> seen st k \<or> k = key x"
begin

lemma run_complete:
  "inv st \<Longrightarrow> key ` set xs \<subseteq> adm \<Longrightarrow> k \<in> key ` set xs \<Longrightarrow> \<not> seen st k \<Longrightarrow>
     k \<in> key ` set (fst (filter_run step st xs))"
proof (induction xs arbitrary: st)
  case (Cons x xs)
  show ?case
  proof (cases "k = key x")
    case True
    with Cons.prems show ?thesis by (simp add: split_beta Let_def accept_iff)
  next
    case False
    with Cons.prems have "k \<in> key ` set xs" "\<not> seen (snd (step st x)) k"
      using only_seen [of st x k] by auto
    with Cons.IH [of "snd (step st x)"] Cons.prems show ?thesis
      by (auto simp: split_beta Let_def step_inv)
  qed
qed simp

lemma run_exactly_once:
  assumes "inv st" "key ` set xs \<subseteq> adm" "\<forall>k \<in> key ` set xs. \<not> seen st k"
  shows "distinct (map key (fst (filter_run step st xs))) \<and>
    key ` set (fst (filter_run step st xs)) = key ` set xs"
proof (intro conjI equalityI subsetI)
  show "distinct (map key (fst (filter_run step st xs)))"
    using assms(1,2) by (rule run_at_most_once)
  show "k \<in> key ` set xs" if "k \<in> key ` set (fst (filter_run step st xs))" for k
    using that run_subset [of st xs] by auto
  show "k \<in> key ` set (fst (filter_run step st xs))" if "k \<in> key ` set xs" for k
    using that assms by (intro run_complete) auto
qed

end

end
