(* ===== verification/Gap_Detector.thy ===== *)
theory Gap_Detector
  imports Dedup_Filter Fix_Parser
begin

text \<open>
  \<open>SequenceGapDetector\<close> of \<open>include/hft/protocol/SequenceGapDetector.hpp\<close>: the expected-sequence
  state machine with its 64-bit counters, and the FIX 35=2 resend request it formats for a gap.
\<close>

record SequenceGap =
  begin_seq :: u64
  end_seq :: u64
  missing_count :: u64

datatype GapStatus = IN_SEQUENCE | GAP_DETECTED | DUPLICATE

record GapCheckResult =
  gap_status :: GapStatus
  gap :: SequenceGap
  resend_request_msg :: string
  resend_request_len :: nat

record SequenceGapDetector =
  m_expected_seq :: u64
  m_gaps_detected :: u64
  m_packets_lost :: u64
  m_duplicates_count :: u64

definition gap_detector_init :: "u64 \<Rightarrow> SequenceGapDetector" where
  "gap_detector_init initial_expected =
     \<lparr>m_expected_seq = initial_expected, m_gaps_detected = 0, m_packets_lost = 0,
      m_duplicates_count = 0\<rparr>"

definition gap_result_init :: GapCheckResult where
  "gap_result_init = \<lparr>gap_status = IN_SEQUENCE,
     gap = \<lparr>begin_seq = 0, end_seq = 0, missing_count = 0\<rparr>,
     resend_request_msg = replicate 256 (CHR 0x00), resend_request_len = 0\<rparr>"

definition SOH :: char where "SOH = CHR 0x01"

definition resend_request_text :: "u64 \<Rightarrow> u64 \<Rightarrow> string" where
  "resend_request_text b e =
     ''8=FIX.4.2'' @ [SOH] @ ''9=78'' @ [SOH] @ ''35=2'' @ [SOH] @ ''49=HFT_ENGINE'' @ [SOH] @
     ''56=EXCHANGE'' @ [SOH] @ ''7='' @ dec_string (unat b) @ [SOH] @ ''16='' @ dec_string (unat e) @ [SOH] @
     ''10=128'' @ [SOH]"

definition process_sequence ::
  "SequenceGapDetector \<Rightarrow> u64 \<Rightarrow> GapCheckResult \<times> SequenceGapDetector" where
  "process_sequence d incoming_seq =
     (let result = gap_result_init; expected = m_expected_seq d
      in if incoming_seq = expected
         then (result\<lparr>gap_status := IN_SEQUENCE\<rparr>, d\<lparr>m_expected_seq := expected + 1\<rparr>)
         else if incoming_seq > expected
         then let g = \<lparr>begin_seq = expected, end_seq = incoming_seq - 1,
                       missing_count = incoming_seq - expected\<rparr>;
                  (msg, len) = snprintf (resend_request_msg result)
                                 (resend_request_text (begin_seq g) (end_seq g))
              in (result\<lparr>gap_status := GAP_DETECTED, gap := g, resend_request_msg := msg,
                    resend_request_len := (if len > 0 then len else 0)\<rparr>,
                  d\<lparr>m_gaps_detected := m_gaps_detected d + 1,
                     m_packets_lost := m_packets_lost d + missing_count g,
                     m_expected_seq := incoming_seq + 1\<rparr>)
         else (result\<lparr>gap_status := DUPLICATE\<rparr>,
               d\<lparr>m_duplicates_count := m_duplicates_count d + 1\<rparr>))"

definition gap_detector_reset :: "u64 \<Rightarrow> SequenceGapDetector \<Rightarrow> SequenceGapDetector" where
  "gap_detector_reset next_expected d =
     d\<lparr>m_expected_seq := next_expected, m_gaps_detected := 0, m_packets_lost := 0,
       m_duplicates_count := 0\<rparr>"

subsection \<open>Runs\<close>

fun gap_run :: "SequenceGapDetector \<Rightarrow> u64 list \<Rightarrow> (u64 \<times> GapCheckResult) list \<times> SequenceGapDetector" where
  "gap_run d [] = ([], d)"
| "gap_run d (s # ss) =
     (let (r, d') = process_sequence d s; (rs, d'') = gap_run d' ss in ((s, r) # rs, d''))"

definition accepted_seqs :: "(u64 \<times> GapCheckResult) list \<Rightarrow> u64 set" where
  "accepted_seqs rs = {s. \<exists>r. (s, r) \<in> set rs \<and> gap_status r \<noteq> DUPLICATE}"

definition reported_missing :: "(u64 \<times> GapCheckResult) list \<Rightarrow> u64 set" where
  "reported_missing rs =
     (\<Union>(s, r) \<in> {(s, r). (s, r) \<in> set rs \<and> gap_status r = GAP_DETECTED}. {begin_seq (gap r) .. end_seq (gap r)})"

lemma accepted_seqs_simps [simp]:
  "accepted_seqs [] = {}"
  "accepted_seqs ((s, r) # rs) = (if gap_status r = DUPLICATE then {} else {s}) \<union> accepted_seqs rs"
  by (auto simp: accepted_seqs_def)

lemma reported_missing_simps [simp]:
  "reported_missing [] = {}"
  "reported_missing ((s, r) # rs) =
     (if gap_status r = GAP_DETECTED then {begin_seq (gap r) .. end_seq (gap r)} else {}) \<union> reported_missing rs"
  by (auto simp: reported_missing_def)

lemma status_simps:
  "gap_status (fst (process_sequence d s)) =
     (if s = m_expected_seq d then IN_SEQUENCE else if s > m_expected_seq d then GAP_DETECTED else DUPLICATE)"
  "m_expected_seq (snd (process_sequence d s)) = (if s < m_expected_seq d then m_expected_seq d else s + 1)"
  "s > m_expected_seq d \<Longrightarrow> begin_seq (gap (fst (process_sequence d s))) = m_expected_seq d \<and>
     end_seq (gap (fst (process_sequence d s))) = s - 1"
  by (auto simp: process_sequence_def Let_def split_beta)

lemma lost_step:
  "m_packets_lost (snd (process_sequence d s)) =
     (if s > m_expected_seq d then m_packets_lost d + (s - m_expected_seq d) else m_packets_lost d)"
  by (simp add: process_sequence_def Let_def split_beta)

lemma gap_run_sets:
  assumes "\<forall>s \<in> set ss. s \<noteq> -1"
  shows "m_expected_seq d \<le> m_expected_seq (snd (gap_run d ss)) \<and>
    accepted_seqs (fst (gap_run d ss)) \<union> reported_missing (fst (gap_run d ss)) =
      {m_expected_seq d ..< m_expected_seq (snd (gap_run d ss))} \<and>
    accepted_seqs (fst (gap_run d ss)) \<inter> reported_missing (fst (gap_run d ss)) = {} \<and>
    m_packets_lost (snd (gap_run d ss)) =
      m_packets_lost d + of_nat (card (reported_missing (fst (gap_run d ss))))"
  using assms
proof (induction ss arbitrary: d)
  case (Cons s ss)
  obtain r d' where ps: "process_sequence d s = (r, d')" by fastforce
  obtain rs d'' where run: "gap_run d' ss = (rs, d'')" by fastforce
  have IH: "m_expected_seq d' \<le> m_expected_seq d''"
    "accepted_seqs rs \<union> reported_missing rs = {m_expected_seq d' ..< m_expected_seq d''}"
    "accepted_seqs rs \<inter> reported_missing rs = {}"
    "m_packets_lost d'' = m_packets_lost d' + of_nat (card (reported_missing rs))"
    using Cons.IH [of d'] Cons.prems by (simp_all add: run)
  have st: "gap_status r = (if s = m_expected_seq d then IN_SEQUENCE
      else if s > m_expected_seq d then GAP_DETECTED else DUPLICATE)"
    "m_expected_seq d' = (if s < m_expected_seq d then m_expected_seq d else s + 1)"
    "s > m_expected_seq d \<Longrightarrow> begin_seq (gap r) = m_expected_seq d \<and> end_seq (gap r) = s - 1"
    "m_packets_lost d' = (if s > m_expected_seq d then m_packets_lost d + (s - m_expected_seq d)
      else m_packets_lost d)"
    using status_simps [of d s] lost_step [of d s] by (simp_all add: ps)
  show ?case
  proof (cases "s < m_expected_seq d")
    case True
    then have "\<not> m_expected_seq d < s" "s \<noteq> m_expected_seq d" by auto
    with IH st True show ?thesis by (simp add: ps run)
  next
    case False
    have s1: "s \<noteq> -1" using Cons.prems by simp
    let ?G = "{m_expected_seq d ..< s}"
    have e1: "m_expected_seq d' = s + 1" using False st(2) by simp
    have e2: "s < m_expected_seq d''" using IH(1) by (simp only: e1 word_succ_le [OF s1])
    have e3: "m_expected_seq d \<le> s" using False by simp
    note ex = e1 e2 e3
    have A: "accepted_seqs ((s, r) # rs) = insert s (accepted_seqs rs)"
      using False st(1) by simp
    have M: "reported_missing ((s, r) # rs) = ?G \<union> reported_missing rs"
    proof (cases "s = m_expected_seq d")
      case f: False
      with ex have lt: "m_expected_seq d < s" by simp
      have "{m_expected_seq d .. s - 1} = ?G" by (rule word_interval_pred [OF lt])
      with lt st show ?thesis by simp
    qed (use st in simp)
    have up: "accepted_seqs rs \<union> reported_missing rs = {s <..< m_expected_seq d''}"
      by (simp only: IH(2) e1 set_eq_iff atLeastLessThan_iff greaterThanLessThan_iff
          word_succ_le [OF s1] simp_thms)
    have sub: "accepted_seqs rs \<subseteq> {s <..}" "reported_missing rs \<subseteq> {s <..}"
      using up by (blast intro: greaterThan_iff [THEN iffD2] dest: greaterThanLessThan_iff [THEN iffD1])+
    have disj: "?G \<inter> reported_missing rs = {}" using sub by fastforce
    have "card (?G \<union> reported_missing rs) = card ?G + card (reported_missing rs)"
      using disj by (intro card_Un_disjoint) simp_all
    then have lost: "m_packets_lost d'' =
        m_packets_lost d + of_nat (card (reported_missing ((s, r) # rs)))"
      using ex(3) st(4) unfolding M by (auto simp: IH(4) of_nat_card_word_interval)
    have "insert s (accepted_seqs rs) \<union> (?G \<union> reported_missing rs) =
        ?G \<union> ({s} \<union> {s <..< m_expected_seq d''})"
      using up by blast
    also have "\<dots> = {m_expected_seq d ..< m_expected_seq d''}"
      using e2 e3 by (auto intro: order.strict_trans order.strict_trans1)
    finally have cover: "insert s (accepted_seqs rs) \<union> (?G \<union> reported_missing rs) =
        {m_expected_seq d ..< m_expected_seq d''}" .
    have "insert s (accepted_seqs rs) \<inter> (?G \<union> reported_missing rs) = {}"
      using sub IH(3) by fastforce
    with lost cover ex show ?thesis
      by (simp add: ps run A M del: accepted_seqs_simps reported_missing_simps)
  qed
qed simp

subsection \<open>The detector as a duplicate filter\<close>

definition gap_accepts :: "SequenceGapDetector \<Rightarrow> u64 \<Rightarrow> bool \<times> SequenceGapDetector" where
  "gap_accepts d s = (let (r, d') = process_sequence d s in (gap_status r \<noteq> DUPLICATE, d'))"

lemma gap_accepts_simps:
  "fst (gap_accepts d s) \<longleftrightarrow> m_expected_seq d \<le> s"
  "m_expected_seq (snd (gap_accepts d s)) = (if s < m_expected_seq d then m_expected_seq d else s + 1)"
  using status_simps(1,2) [of d s] by (auto simp: gap_accepts_def split_beta Let_def)

interpretation gap: dedup_filter gap_accepts "\<lambda>s. s" "\<lambda>d s. s < m_expected_seq d" "\<lambda>_. True" "- {-1}"
proof
  fix d and x y :: u64
  assume x: "x \<in> - {-1}" and y: "y \<in> - {-1}"
  have x1: "x \<noteq> -1" using x by simp
  show "x < m_expected_seq (snd (gap_accepts d x))"
    by (simp only: gap_accepts_simps word_less_succ [OF x1] order_refl if_True if_False split: if_splits)
      simp
  assume lt: "y < m_expected_seq d"
  show "y < m_expected_seq (snd (gap_accepts d x))"
  proof (cases "x < m_expected_seq d")
    case False
    with lt have "y \<le> x" by (meson linorder_not_le order.strict_trans1 order_less_imp_le)
    with False show ?thesis by (simp only: gap_accepts_simps word_less_succ [OF x1] if_False)
  qed (use lt in \<open>simp add: gap_accepts_simps\<close>)
qed (simp_all add: gap_accepts_simps linorder_not_less)

subsection \<open>Properties of the gap detector\<close>

text \<open>
  C23. Gap accounting is exact: over any run of sequence numbers (none the 64-bit maximum), the
  numbers accepted and the numbers reported missing partition the interval from the first to the
  final expected number, and the lost-packet counter is the number of reported missing ones.
\<close>

theorem gap_run_exact:
  assumes "\<forall>s \<in> set ss. s \<noteq> -1"
    and "gap_run (gap_detector_init e) ss = (rs, d)"
  shows "accepted_seqs rs \<union> reported_missing rs = {e ..< m_expected_seq d} \<and>
    accepted_seqs rs \<inter> reported_missing rs = {} \<and>
    m_packets_lost d = of_nat (card (reported_missing rs))"
  using gap_run_sets [OF assms(1), of "gap_detector_init e"] assms(2)
  by (simp add: gap_detector_init_def)

theorem gap_run_exact_witness:
  "m_packets_lost (snd (gap_run (gap_detector_init 1) [1, 2, 5, 3])) =
     of_nat (card (reported_missing (fst (gap_run (gap_detector_init 1) [1, 2, 5, 3])))) \<and>
   m_packets_lost (snd (gap_run (gap_detector_init 1) [1, 2, 5, 3])) = 2"
proof
  show "m_packets_lost (snd (gap_run (gap_detector_init 1) [1, 2, 5, 3])) =
     of_nat (card (reported_missing (fst (gap_run (gap_detector_init 1) [1, 2, 5, 3]))))"
    using gap_run_exact [of "[1, 2, 5, 3]" 1, OF _ prod.collapse [symmetric]] by simp
  show "m_packets_lost (snd (gap_run (gap_detector_init 1) [1, 2, 5, 3])) = 2"
    by (simp add: gap_detector_init_def lost_step status_simps split_beta Let_def)
qed

text \<open>
  No sequence number passes the gap detector twice, whatever the arrival order, and one below
  the expected number never passes.
\<close>

theorem gap_filter_at_most_once:
  assumes "set xs \<subseteq> - {-1}"
  shows "distinct (fst (filter_run gap_accepts d xs)) \<and>
    (\<forall>y. y < m_expected_seq d \<longrightarrow> y \<notin> set (fst (filter_run gap_accepts d xs)))"
proof -
  have "y \<noteq> -1" if "y < m_expected_seq d" for y
    using that by (metis max_word_max linorder_not_le)
  with gap.run_at_most_once [of xs d] gap.run_refuses_seen [of xs _ d] assms show ?thesis by auto
qed

theorem gap_filter_at_most_once_witness:
  "distinct (fst (filter_run gap_accepts (gap_detector_init 1) [1, 3, 2, 3]))"
  using gap_filter_at_most_once [of "[1, 3, 2, 3]" "gap_detector_init 1"] by simp

lemma resend_request_length:
  "length (resend_request_text b e) = 60 + length (dec_string (unat b)) + length (dec_string (unat e))"
  by (simp add: resend_request_text_def)

definition resend_request_fields :: "u64 \<Rightarrow> u64 \<Rightarrow> (nat \<times> string) list" where
  "resend_request_fields b e = [(8, ''FIX.4.2''), (9, ''78''), (35, ''2''), (49, ''HFT_ENGINE''),
     (56, ''EXCHANGE''), (7, dec_string (unat b)), (16, dec_string (unat e)), (10, ''128'')]"

lemma resend_tags:
  "dec_string 8 = ''8''" "dec_string 9 = ''9''" "dec_string 35 = ''35''" "dec_string 49 = ''49''"
  "dec_string 56 = ''56''" "dec_string 7 = ''7''" "dec_string 16 = ''16''" "dec_string 10 = ''10''"
  by (simp_all add: dec_string.simps)

lemma resend_request_is_fix: "resend_request_text b e = fix_message SOH (resend_request_fields b e)"
  by (simp add: resend_request_text_def resend_request_fields_def fix_message_def fix_field_def
      resend_tags)

text \<open>
  The resend request of a gap is complete: the 256-byte buffer holds the whole message, whose
  fields are the fixed header, BeginSeqNo 7 = the first missing number and EndSeqNo 16 = the number
  before the arrival, and the gap record agrees with them. The bytes after the BodyLength field up
  to the trailer are 38 plus the digits of the two numbers, so the constant 78 that tag 9 carries is
  right only when both numbers have 20 digits.
\<close>

theorem resend_request_complete:
  assumes "m_expected_seq d < s"
  shows "let r = fst (process_sequence d s) in
    take (resend_request_len r) (resend_request_msg r) =
      fix_message SOH (resend_request_fields (m_expected_seq d) (s - 1)) \<and>
    resend_request_len r < 256 \<and>
    gap r = \<lparr>begin_seq = m_expected_seq d, end_seq = s - 1, missing_count = s - m_expected_seq d\<rparr> \<and>
    (let body = fix_message SOH (drop 2 (take 7 (resend_request_fields (m_expected_seq d) (s - 1))))
     in length body = 78 \<longleftrightarrow>
          length (dec_string (unat (m_expected_seq d))) = 20 \<and> length (dec_string (unat (s - 1))) = 20)"
proof -
  let ?t = "resend_request_text (m_expected_seq d) (s - 1)"
  have short: "length ?t \<le> 100"
    using u64_digits [of "m_expected_seq d"] u64_digits [of "s - 1"]
    by (simp add: resend_request_length)
  then have sp: "take (length ?t) (fst (snprintf (resend_request_msg gap_result_init) ?t)) = ?t"
    "snd (snprintf (resend_request_msg gap_result_init) ?t) = length ?t"
    using snprintf_fits [of ?t "resend_request_msg gap_result_init"] by (simp_all add: gap_result_init_def)
  have body: "length (fix_message SOH (drop 2 (take 7 (resend_request_fields b e)))) =
      38 + length (dec_string (unat b)) + length (dec_string (unat e))" for b e
    by (simp add: resend_request_fields_def fix_message_def fix_field_def resend_tags)
  have ne: "s \<noteq> m_expected_seq d" using assms by auto
  have "length ?t \<noteq> 0" by (simp add: resend_request_text_def)
  then have r: "resend_request_len (fst (process_sequence d s)) = length ?t"
    "resend_request_msg (fst (process_sequence d s)) =
       fst (snprintf (resend_request_msg gap_result_init) ?t)"
    "gap (fst (process_sequence d s)) = \<lparr>begin_seq = m_expected_seq d, end_seq = s - 1,
       missing_count = s - m_expected_seq d\<rparr>"
    using assms ne sp(2) by (simp_all add: process_sequence_def Let_def split_beta)
  have "38 + a + c = 78 \<longleftrightarrow> a = 20 \<and> c = 20" if "a \<le> 20" "c \<le> 20" for a c :: nat
    using that by auto
  with short sp(1) show ?thesis
    by (simp add: Let_def r body u64_digits flip: resend_request_is_fix)
qed

theorem resend_request_complete_witness:
  "resend_request_len (fst (process_sequence (gap_detector_init 1) 5)) < 256"
  using resend_request_complete [of "gap_detector_init 1" 5]
  by (simp add: gap_detector_init_def Let_def)

end
