(* ===== verification/Feed_Arbitrator.thy ===== *)
theory Feed_Arbitrator
  imports Dedup_Filter
begin

text \<open>
  \<open>FeedArbitrator\<close> of \<open>include/hft/networking/FeedArbitrator.hpp\<close>: first arrival of a sequence
  number on line A or line B wins, the other is suppressed. The two arrays are lists of
  \<open>WindowSize\<close> entries.
\<close>

datatype FeedLine = LINE_A | LINE_B

record ArbitrationResult =
  is_duplicate :: bool
  winner_line :: FeedLine
  arb_seq_num :: u64

record FeedArbitrator =
  m_seen_sequences :: "u64 list"
  m_winner_lines :: "FeedLine list"
  m_unique_processed :: u64
  m_duplicates_suppressed :: u64
  m_line_a_wins :: u64
  m_line_b_wins :: u64

definition arbitrator_init :: "nat \<Rightarrow> FeedArbitrator" where
  "arbitrator_init WindowSize =
     \<lparr>m_seen_sequences = replicate WindowSize 0, m_winner_lines = replicate WindowSize LINE_A,
      m_unique_processed = 0, m_duplicates_suppressed = 0, m_line_a_wins = 0, m_line_b_wins = 0\<rparr>"

definition process_packet ::
  "nat \<Rightarrow> FeedArbitrator \<Rightarrow> FeedLine \<Rightarrow> u64 \<Rightarrow> ArbitrationResult \<times> FeedArbitrator" where
  "process_packet WindowSize a line seq =
     (let idx = window_index WindowSize seq; seen_seq = m_seen_sequences a ! idx
      in if seen_seq = seq
         then (\<lparr>is_duplicate = True, winner_line = m_winner_lines a ! idx, arb_seq_num = seq\<rparr>,
               a\<lparr>m_duplicates_suppressed := m_duplicates_suppressed a + 1\<rparr>)
         else let a1 = a\<lparr>m_seen_sequences := (m_seen_sequences a)[idx := seq],
                         m_winner_lines := (m_winner_lines a)[idx := line]\<rparr>;
                  a2 = (if line = LINE_A then a1\<lparr>m_line_a_wins := m_line_a_wins a1 + 1\<rparr>
                        else a1\<lparr>m_line_b_wins := m_line_b_wins a1 + 1\<rparr>)
              in (\<lparr>is_duplicate = False, winner_line = line, arb_seq_num = seq\<rparr>,
                  a2\<lparr>m_unique_processed := m_unique_processed a2 + 1\<rparr>))"

definition arbitrator_reset :: "nat \<Rightarrow> FeedArbitrator \<Rightarrow> FeedArbitrator" where
  "arbitrator_reset WindowSize a =
     a\<lparr>m_seen_sequences := replicate WindowSize 0, m_winner_lines := replicate WindowSize LINE_A,
       m_unique_processed := 0, m_duplicates_suppressed := 0, m_line_a_wins := 0, m_line_b_wins := 0\<rparr>"

definition arb_step :: "nat \<Rightarrow> FeedArbitrator \<Rightarrow> FeedLine \<times> u64 \<Rightarrow> bool \<times> FeedArbitrator" where
  "arb_step WindowSize a pkt =
     (let (r, a') = process_packet WindowSize a (fst pkt) (snd pkt) in (\<not> is_duplicate r, a'))"

subsection \<open>The arbitrator as an exactly-once filter\<close>

definition arb_wf :: "nat \<Rightarrow> FeedArbitrator \<Rightarrow> bool" where
  "arb_wf WindowSize a \<longleftrightarrow> length (m_seen_sequences a) = WindowSize \<and> length (m_winner_lines a) = WindowSize"

definition arb_seen :: "nat \<Rightarrow> FeedArbitrator \<Rightarrow> u64 \<Rightarrow> bool" where
  "arb_seen WindowSize a seq \<longleftrightarrow> m_seen_sequences a ! window_index WindowSize seq = seq"

lemma arb_step_simps:
  assumes "arb_wf W a" "pow2_capacity W"
  shows "fst (arb_step W a p) \<longleftrightarrow> \<not> arb_seen W a (snd p)"
    and "arb_wf W (snd (arb_step W a p))"
    and "m_seen_sequences (snd (arb_step W a p)) =
           (m_seen_sequences a)[window_index W (snd p) := snd p]"
proof -
  have "(m_seen_sequences a)[window_index W (snd p) := snd p] = m_seen_sequences a"
    if "m_seen_sequences a ! window_index W (snd p) = snd p"
    using that by (metis list_update_id)
  then show "fst (arb_step W a p) \<longleftrightarrow> \<not> arb_seen W a (snd p)" "arb_wf W (snd (arb_step W a p))"
    "m_seen_sequences (snd (arb_step W a p)) = (m_seen_sequences a)[window_index W (snd p) := snd p]"
    using assms(1) by (auto simp: arb_step_def process_packet_def arb_seen_def arb_wf_def Let_def)
qed

lemma arb_seen_step:
  assumes "arb_wf W a" "pow2_capacity W"
  shows "arb_seen W (snd (arb_step W a p)) k \<longleftrightarrow>
    (if window_index W k = window_index W (snd p) then k = snd p else arb_seen W a k)"
  using assms window_index_less [OF assms(2)]
  by (auto simp: arb_seen_def arb_step_simps arb_wf_def)

interpretation arb: complete_filter "arb_step W" snd "arb_seen W"
  "\<lambda>a. arb_wf W a \<and> pow2_capacity W" "seq_window W lo" for W lo
proof (unfold_locales, goal_cases)
  case (4 st x k)
  then show ?case
    using window_index_inj [of W k lo "snd x"] by (auto simp: arb_seen_step)
qed (auto simp: arb_step_simps arb_seen_step split: if_splits)

subsection \<open>Properties of the arbitrator\<close>

lemma arb_counters:
  "(let a' = snd (arb_step W a p) in
     m_unique_processed a' - (m_line_a_wins a' + m_line_b_wins a') =
       m_unique_processed a - (m_line_a_wins a + m_line_b_wins a) \<and>
     m_unique_processed a' + m_duplicates_suppressed a' =
       m_unique_processed a + m_duplicates_suppressed a + 1)"
  by (simp add: arb_step_def process_packet_def Let_def)

lemma arb_run_counters:
  "(let a' = snd (filter_run (arb_step W) a ps) in
     m_unique_processed a' - (m_line_a_wins a' + m_line_b_wins a') =
       m_unique_processed a - (m_line_a_wins a + m_line_b_wins a) \<and>
     m_unique_processed a' + m_duplicates_suppressed a' =
       m_unique_processed a + m_duplicates_suppressed a + of_nat (length ps))"
proof (induction ps arbitrary: a)
  case (Cons p ps)
  show ?case
    using Cons.IH [of "snd (arb_step W a p)"] arb_counters [of W a p]
    by (simp add: Let_def split_beta ac_simps)
qed simp

lemma arb_init_unseen: "pow2_capacity W \<Longrightarrow> s \<noteq> 0 \<Longrightarrow> \<not> arb_seen W (arbitrator_init W) s"
  using window_index_less [of W s] by (simp add: arb_seen_def arbitrator_init_def)

text \<open>
  C24. Redundant feeds merge exactly once: for any interleaving of the two lines whose sequence
  numbers are non-zero and lie within one window, a fresh arbitrator lets every number through
  exactly once, and its counters account for every packet and every win.
\<close>

theorem arbitrator_exactly_once:
  assumes "pow2_capacity W" "snd ` set ps \<subseteq> seq_window W lo" "0 \<notin> snd ` set ps"
  defines "run \<equiv> filter_run (arb_step W) (arbitrator_init W) ps"
  shows "distinct (map snd (fst run)) \<and> snd ` set (fst run) = snd ` set ps \<and>
    m_unique_processed (snd run) = m_line_a_wins (snd run) + m_line_b_wins (snd run) \<and>
    m_unique_processed (snd run) + m_duplicates_suppressed (snd run) = of_nat (length ps)"
proof -
  have wf: "arb_wf W (arbitrator_init W) \<and> pow2_capacity W"
    using assms(1) by (simp add: arb_wf_def arbitrator_init_def)
  have new: "\<forall>k \<in> snd ` set ps. \<not> arb_seen W (arbitrator_init W) k"
    using arb_init_unseen [OF assms(1)] assms(3) by metis
  have init0: "m_unique_processed (arbitrator_init W) = 0" "m_line_a_wins (arbitrator_init W) = 0"
    "m_line_b_wins (arbitrator_init W) = 0" "m_duplicates_suppressed (arbitrator_init W) = 0"
    by (simp_all add: arbitrator_init_def)
  have cnt: "m_unique_processed (snd run) - (m_line_a_wins (snd run) + m_line_b_wins (snd run)) = 0"
    "m_unique_processed (snd run) + m_duplicates_suppressed (snd run) = of_nat (length ps)"
    using arb_run_counters [of W "arbitrator_init W" ps] init0 unfolding run_def Let_def
    by (metis (no_types, lifting) add_0 diff_self)+
  show ?thesis
    using arb.run_exactly_once [OF wf assms(2) new] cnt by (simp add: run_def)
qed

theorem arbitrator_exactly_once_witness:
  "distinct (map snd (fst (filter_run (arb_step 4) (arbitrator_init 4)
     [(LINE_A, 1), (LINE_B, 1), (LINE_B, 2), (LINE_A, 2), (LINE_A, 3)])))"
  using arbitrator_exactly_once [of 4 "[(LINE_A, 1), (LINE_B, 1), (LINE_B, 2), (LINE_A, 2), (LINE_A, 3)]" 1]
    pow2_capacity_exp [of 2]
  by (simp add: seq_window_def)

text \<open>
  The winner is remembered: a copy of an accepted packet that arrives while no other number of
  its slot has been accepted is refused and reports the line of the first arrival.
\<close>

theorem arbitrator_reports_winner:
  fixes l l' l'' :: FeedLine
  assumes "pow2_capacity W" "arb_wf W a" "\<not> is_duplicate (fst (process_packet W a l s))"
    and "window_index W t \<noteq> window_index W s"
  defines "a1 \<equiv> snd (process_packet W a l s)"
  defines "a2 \<equiv> snd (process_packet W a1 l' t)"
  shows "fst (process_packet W a2 l'' s) = \<lparr>is_duplicate = True, winner_line = l, arb_seq_num = s\<rparr>"
proof -
  have i: "window_index W s < W" using assms(1) by (rule window_index_less)
  have "m_seen_sequences a1 ! window_index W s = s" "m_winner_lines a1 ! window_index W s = l"
    using assms(2,3) i by (auto simp: a1_def process_packet_def arb_wf_def Let_def split: if_splits)
  then have "m_seen_sequences a2 ! window_index W s = s" "m_winner_lines a2 ! window_index W s = l"
    using assms(4) by (auto simp: a2_def process_packet_def Let_def)
  then show ?thesis by (simp add: process_packet_def Let_def)
qed

theorem arbitrator_reports_winner_witness:
  "winner_line (fst (process_packet 4 (snd (process_packet 4 (snd (process_packet 4 (arbitrator_init 4) LINE_B 1))
     LINE_A 2)) LINE_A 1)) = LINE_B"
proof -
  have "window_index 4 2 \<noteq> window_index 4 1" "\<not> is_duplicate (fst (process_packet 4 (arbitrator_init 4) LINE_B 1))"
    by code_simp+
  then show ?thesis
    using arbitrator_reports_winner [of 4 "arbitrator_init 4" LINE_B 1 2 LINE_A LINE_A]
      pow2_capacity_exp [of 2]
    by (simp add: arb_wf_def arbitrator_init_def)
qed

end
