(* ===== verification/Reorder_Buffer.thy ===== *)
theory Reorder_Buffer
  imports Hft_Prelude
begin

text \<open>
  \<open>SequenceReorderBuffer\<close> of \<open>include/hft/protocol/SequenceReorderBuffer.hpp\<close>. Slots keep their
  bytes when they are released, as in the code. A payload pointer is an option and comes with its
  32-bit length; the vector \<open>out_emitted\<close> is threaded as a list. In \<open>ReorderSlot\<close> the byte after
  \<open>payload[511]\<close> is \<open>occupied\<close>, which is assigned right after the terminating NUL, so a NUL written
  at index 512 has no other effect than the update of \<open>payload\<close> it does not make.
\<close>

record ReorderSlot =
  slot_seq_num :: u64
  payload_len :: nat
  slot_payload :: string
  occupied :: bool

record ReorderBuffer =
  rb_expected_seq :: u64
  rb_out_of_order_buffered_count :: u64
  rb_duplicates_count :: u64
  rb_overflow_count :: u64
  m_ring :: "ReorderSlot list"

definition empty_slot :: ReorderSlot where
  "empty_slot = \<lparr>slot_seq_num = 0, payload_len = 0, slot_payload = replicate 512 (CHR 0x00),
     occupied = False\<rparr>"

definition reorder_init :: "nat \<Rightarrow> u64 \<Rightarrow> ReorderBuffer" where
  "reorder_init Capacity initial_expected =
     \<lparr>rb_expected_seq = initial_expected, rb_out_of_order_buffered_count = 0,
      rb_duplicates_count = 0, rb_overflow_count = 0, m_ring = replicate Capacity empty_slot\<rparr>"

definition occupied_count :: "ReorderBuffer \<Rightarrow> nat" where
  "occupied_count b = length (filter occupied (m_ring b))"

lemma occupied_count_release:
  assumes "i < length (m_ring b)" "occupied (m_ring b ! i)"
  shows "occupied_count (b\<lparr>rb_expected_seq := e, m_ring := (m_ring b)[i := (m_ring b ! i)\<lparr>occupied := False\<rparr>]\<rparr>)
    < occupied_count b"
proof -
  have "m_ring b = take i (m_ring b) @ m_ring b ! i # drop (Suc i) (m_ring b)"
    using assms(1) by (simp add: id_take_nth_drop)
  then have "filter occupied (m_ring b) =
      filter occupied (take i (m_ring b)) @ m_ring b ! i # filter occupied (drop (Suc i) (m_ring b))"
    using assms(2) by (metis filter.simps(2) filter_append)
  moreover have "filter occupied ((m_ring b)[i := (m_ring b ! i)\<lparr>occupied := False\<rparr>]) =
      filter occupied (take i (m_ring b)) @ filter occupied (drop (Suc i) (m_ring b))"
    using assms(1) by (simp add: upd_conv_take_nth_drop)
  ultimately show ?thesis by (simp add: occupied_count_def)
qed

text \<open>
  The drain loop; the index is always inside the ring when \<open>Capacity\<close> is positive, which the
  termination argument needs to know.
\<close>

function drain_buffered :: "nat \<Rightarrow> ReorderBuffer \<Rightarrow> string list \<Rightarrow> nat \<times> ReorderBuffer \<times> string list" where
  "drain_buffered Capacity b out_emitted =
     (let index = window_index Capacity (rb_expected_seq b); slot = m_ring b ! index
      in if index < length (m_ring b) \<and> occupied slot \<and> slot_seq_num slot = rb_expected_seq b
         then let b1 = b\<lparr>rb_expected_seq := rb_expected_seq b + 1,
                         m_ring := (m_ring b)[index := slot\<lparr>occupied := False\<rparr>]\<rparr>;
                  (drained, b', out') = drain_buffered Capacity b1
                    (out_emitted @ [take (payload_len slot) (slot_payload slot)])
              in (drained + 1, b', out')
         else (0, b, out_emitted))"
  by pat_completeness auto
termination
  by (relation "measure (\<lambda>(c, b, out). occupied_count b)") (auto intro: occupied_count_release)

declare drain_buffered.simps [simp del]

text \<open>Filling a slot with an out-of-order packet.\<close>

definition fill_slot :: "u64 \<Rightarrow> string option \<Rightarrow> nat \<Rightarrow> ReorderSlot \<Rightarrow> ReorderSlot" where
  "fill_slot seq payload len slot =
     (let n = min len 512;
          slot1 = slot\<lparr>slot_seq_num := seq, payload_len := n\<rparr>;
          slot2 = (case payload of
                     Some p \<Rightarrow> if n > 0
                               then slot1\<lparr>slot_payload :=
                                      (take n p @ drop n (slot_payload slot1))[n := CHR 0x00]\<rparr>
                               else slot1
                   | None \<Rightarrow> slot1)
      in slot2\<lparr>occupied := True\<rparr>)"

definition reorder_push ::
  "nat \<Rightarrow> ReorderBuffer \<Rightarrow> u64 \<Rightarrow> string option \<Rightarrow> nat \<Rightarrow> string list \<Rightarrow> nat \<times> ReorderBuffer \<times> string list" where
  "reorder_push Capacity b seq payload len out_emitted =
     (if seq = rb_expected_seq b
      then let (emitted, out1) =
                 (case payload of
                    Some p \<Rightarrow> if len > 0 then (1, out_emitted @ [take len p]) else (0, out_emitted)
                  | None \<Rightarrow> (0, out_emitted));
               (drained, b', out') =
                 drain_buffered Capacity (b\<lparr>rb_expected_seq := rb_expected_seq b + 1\<rparr>) out1
           in (emitted + drained, b', out')
      else if seq > rb_expected_seq b
      then if seq < rb_expected_seq b + of_nat Capacity
           then let index = window_index Capacity seq
                in (0, b\<lparr>m_ring := (m_ring b)[index := fill_slot seq payload len (m_ring b ! index)],
                         rb_out_of_order_buffered_count := rb_out_of_order_buffered_count b + 1\<rparr>,
                    out_emitted)
           else (0, b\<lparr>rb_overflow_count := rb_overflow_count b + 1\<rparr>, out_emitted)
      else (0, b\<lparr>rb_duplicates_count := rb_duplicates_count b + 1\<rparr>, out_emitted))"

definition reorder_reset :: "u64 \<Rightarrow> ReorderBuffer \<Rightarrow> ReorderBuffer" where
  "reorder_reset initial_expected b =
     b\<lparr>rb_expected_seq := initial_expected, rb_out_of_order_buffered_count := 0,
       rb_duplicates_count := 0, rb_overflow_count := 0,
       m_ring := map (\<lambda>slot. slot\<lparr>occupied := False, slot_seq_num := 0\<rparr>) (m_ring b)\<rparr>"

subsection \<open>Invariant\<close>

text \<open>
  A payload function \<open>f\<close> names the bytes of each sequence number, \<open>A\<close> is the set of numbers that
  have arrived and \<open>N\<close> bounds them, with a window of room below \<open>2 ^ 64\<close>. An occupied slot holds a
  number that arrived, in its own slot, inside the lookahead window, with its bytes.
\<close>

definition slot_ok :: "nat \<Rightarrow> (u64 \<Rightarrow> string) \<Rightarrow> u64 set \<Rightarrow> u64 \<Rightarrow> nat \<Rightarrow> ReorderSlot \<Rightarrow> bool" where
  "slot_ok Capacity f A e i slot \<longleftrightarrow> length (slot_payload slot) = 512 \<and>
     (occupied slot \<longrightarrow> window_index Capacity (slot_seq_num slot) = i \<and> slot_seq_num slot \<in> A \<and>
        slot_seq_num slot \<in> seq_window Capacity e \<and>
        take (payload_len slot) (slot_payload slot) = f (slot_seq_num slot))"

definition rb_inv :: "nat \<Rightarrow> nat \<Rightarrow> (u64 \<Rightarrow> string) \<Rightarrow> u64 set \<Rightarrow> ReorderBuffer \<Rightarrow> bool" where
  "rb_inv Capacity N f A b \<longleftrightarrow> pow2_capacity Capacity \<and> length (m_ring b) = Capacity \<and>
     (\<forall>i < Capacity. slot_ok Capacity f A (rb_expected_seq b) i (m_ring b ! i)) \<and>
     unat (rb_expected_seq b) \<le> N \<and> N + Capacity < 2 ^ 64 \<and> (\<forall>a \<in> A. unat a < N)"

definition pending :: "nat \<Rightarrow> ReorderBuffer \<Rightarrow> u64 \<Rightarrow> bool" where
  "pending Capacity b s \<longleftrightarrow>
     occupied (m_ring b ! window_index Capacity s) \<and> slot_seq_num (m_ring b ! window_index Capacity s) = s"

lemma rb_inv_index: "rb_inv C N f A b \<Longrightarrow> window_index C s < length (m_ring b)"
  by (simp add: rb_inv_def window_index_less)

lemma rb_inv_pending:
  assumes "rb_inv C N f A b" "pending C b s"
  shows "s \<in> A" "s \<in> seq_window C (rb_expected_seq b)"
    "take (payload_len (m_ring b ! window_index C s)) (slot_payload (m_ring b ! window_index C s)) = f s"
proof -
  have "slot_ok C f A (rb_expected_seq b) (window_index C s) (m_ring b ! window_index C s)"
    using assms(1) window_index_less [of C s] by (simp add: rb_inv_def)
  with assms(2) show "s \<in> A" "s \<in> seq_window C (rb_expected_seq b)"
    "take (payload_len (m_ring b ! window_index C s)) (slot_payload (m_ring b ! window_index C s)) = f s"
    by (auto simp: slot_ok_def pending_def)
qed

lemma rb_inv_unat_succ:
  assumes "rb_inv C N f A b" "unat (rb_expected_seq b) < N"
  shows "unat (rb_expected_seq b + 1) = Suc (unat (rb_expected_seq b))"
  using assms pow2_capacity_pos [of C] by (intro unat_succ_less) (simp add: rb_inv_def)

text \<open>Moving past the expected number keeps the slots whose number is not the expected one.\<close>

lemma slot_ok_advance:
  assumes "slot_ok C f A e i slot" "occupied slot \<longrightarrow> slot_seq_num slot \<noteq> e" "unat e' = Suc (unat e)"
  shows "slot_ok C f A e' i slot"
proof -
  have "unat (slot_seq_num slot) \<noteq> unat e" if "occupied slot"
    using assms(2) that by (simp add: word_unat_eq_iff)
  with assms show ?thesis by (auto simp: slot_ok_def seq_window_def)
qed

lemma rb_inv_release:
  assumes inv: "rb_inv C N f A b" and pend: "pending C b (rb_expected_seq b)"
  defines "i \<equiv> window_index C (rb_expected_seq b)"
  shows "rb_inv C N f A (b\<lparr>rb_expected_seq := rb_expected_seq b + 1,
      m_ring := (m_ring b)[i := (m_ring b ! i)\<lparr>occupied := False\<rparr>]\<rparr>)"
proof -
  let ?e = "rb_expected_seq b"
  have "unat ?e < N" using rb_inv_pending(1) [OF inv pend] inv by (simp add: rb_inv_def)
  with inv have succ: "unat (?e + 1) = Suc (unat ?e)" by (intro rb_inv_unat_succ)
  have C: "pow2_capacity C" "length (m_ring b) = C" using inv by (simp_all add: rb_inv_def)
  have slots: "slot_ok C f A (?e + 1) j ((m_ring b)[i := (m_ring b ! i)\<lparr>occupied := False\<rparr>] ! j)"
    if j: "j < C" for j
  proof (cases "j = i")
    case True
    with inv j C show ?thesis by (simp add: rb_inv_def slot_ok_def)
  next
    case False
    have ok: "slot_ok C f A ?e j (m_ring b ! j)" using inv j by (simp add: rb_inv_def)
    then have "occupied (m_ring b ! j) \<longrightarrow> window_index C (slot_seq_num (m_ring b ! j)) = j"
      unfolding slot_ok_def by blast
    then have "occupied (m_ring b ! j) \<longrightarrow> slot_seq_num (m_ring b ! j) \<noteq> ?e"
      using False unfolding i_def by metis
    with ok have "slot_ok C f A (?e + 1) j (m_ring b ! j)" using succ by (rule slot_ok_advance)
    with False show ?thesis by simp
  qed
  have "unat (?e + 1) \<le> N" using succ \<open>unat ?e < N\<close> by simp
  then show ?thesis
    using inv slots by (simp add: rb_inv_def)
qed

lemma pending_release:
  assumes "rb_inv C N f A b" "s \<noteq> rb_expected_seq b" "pending C b s" "pending C b (rb_expected_seq b)"
  defines "i \<equiv> window_index C (rb_expected_seq b)"
  shows "pending C (b\<lparr>rb_expected_seq := e, m_ring := (m_ring b)[i := (m_ring b ! i)\<lparr>occupied := False\<rparr>]\<rparr>) s"
proof -
  have "window_index C s \<noteq> i" using assms(2-4) by (auto simp: pending_def i_def)
  with assms(3) show ?thesis by (simp add: pending_def)
qed

subsection \<open>Draining and pushing\<close>

text \<open>The bytes of an interval of sequence numbers, in order.\<close>

definition payloads :: "(u64 \<Rightarrow> string) \<Rightarrow> u64 \<Rightarrow> u64 \<Rightarrow> string list" where
  "payloads f a b = map (\<lambda>k. f (of_nat k)) [unat a ..< unat b]"

lemma payloads_same [simp]: "payloads f a a = []"
  by (simp add: payloads_def)

lemma payloads_head:
  "unat a' = Suc (unat a) \<Longrightarrow> unat a' \<le> unat b \<Longrightarrow> payloads f a b = f a # payloads f a' b"
  by (simp add: payloads_def upt_conv_Cons)

lemma payloads_append:
  "unat a \<le> unat b \<Longrightarrow> unat b \<le> unat c \<Longrightarrow> payloads f a b @ payloads f b c = payloads f a c"
proof -
  assume le: "unat a \<le> unat b" "unat b \<le> unat c"
  then obtain k where k: "unat c = unat b + k" using le_Suc_ex by blast
  show ?thesis using upt_add_eq_append [OF le(1), of k] by (simp add: payloads_def k)
qed

lemma drain_spec:
  assumes "rb_inv C N f A b" "drain_buffered C b out = (n, b', out')"
  shows "rb_inv C N f A b' \<and> \<not> pending C b' (rb_expected_seq b') \<and>
    unat (rb_expected_seq b') = unat (rb_expected_seq b) + n \<and>
    out' = out @ payloads f (rb_expected_seq b) (rb_expected_seq b') \<and>
    (\<forall>s. pending C b s \<longrightarrow> unat s < unat (rb_expected_seq b') \<or> pending C b' s) \<and>
    (\<forall>s. unat (rb_expected_seq b) \<le> unat s \<and> unat s < unat (rb_expected_seq b') \<longrightarrow> s \<in> A)"
  using assms
proof (induction C b out arbitrary: n b' out' rule: drain_buffered.induct)
  case (1 C b out)
  let ?e = "rb_expected_seq b"
  let ?i = "window_index C ?e"
  let ?b1 = "b\<lparr>rb_expected_seq := ?e + 1, m_ring := (m_ring b)[?i := (m_ring b ! ?i)\<lparr>occupied := False\<rparr>]\<rparr>"
  have idx: "?i < length (m_ring b)" using 1(2) by (rule rb_inv_index)
  show ?case
  proof (cases "pending C b ?e")
    case False
    then have "n = 0" "b' = b" "out' = out"
      using 1(3) by (subst (asm) drain_buffered.simps, auto simp: pending_def Let_def)+
    with 1(2) False show ?thesis by auto
  next
    case True
    let ?txt = "take (payload_len (m_ring b ! ?i)) (slot_payload (m_ring b ! ?i))"
    obtain m b2 out2 where rec: "drain_buffered C ?b1 (out @ [?txt]) = (m, b2, out2)"
      by (metis prod_cases3)
    have res: "n = m + 1" "b' = b2" "out' = out2"
      using 1(3) rec True idx by (subst (asm) drain_buffered.simps, simp add: pending_def Let_def)+
    have pend: "?e \<in> A" "?txt = f ?e" using rb_inv_pending [OF 1(2) True] by simp_all
    have inv1: "rb_inv C N f A ?b1" using 1(2) True by (rule rb_inv_release)
    have succ: "unat (?e + 1) = Suc (unat ?e)"
      using 1(2) pend(1) by (intro rb_inv_unat_succ) (auto simp: rb_inv_def)
    have occ: "?i < length (m_ring b) \<and> occupied (m_ring b ! ?i) \<and> slot_seq_num (m_ring b ! ?i) = ?e"
      using True idx by (simp add: pending_def)
    have ex1: "rb_expected_seq ?b1 = ?e + 1" by simp
    have IH: "rb_inv C N f A b2" "\<not> pending C b2 (rb_expected_seq b2)"
      "unat (rb_expected_seq b2) = unat (?e + 1) + m"
      "out2 = (out @ [?txt]) @ payloads f (?e + 1) (rb_expected_seq b2)"
      "\<And>s. pending C ?b1 s \<Longrightarrow> unat s < unat (rb_expected_seq b2) \<or> pending C b2 s"
      "\<And>s. unat (?e + 1) \<le> unat s \<Longrightarrow> unat s < unat (rb_expected_seq b2) \<Longrightarrow> s \<in> A"
      using 1(1) [OF refl refl occ refl inv1 rec, unfolded ex1] by blast+
    have out: "out2 = out @ payloads f ?e (rb_expected_seq b2)"
      using payloads_head [OF succ, of "rb_expected_seq b2" f] IH(3,4) pend(2) by simp
    have keep: "unat s < unat (rb_expected_seq b2) \<or> pending C b2 s" if "pending C b s" for s
    proof (cases "s = ?e")
      case True
      then show ?thesis using IH(3) succ by simp
    next
      case False
      with 1(2) that True have "pending C ?b1 s" by (intro pending_release)
      then show ?thesis by (rule IH(5))
    qed
    have got: "s \<in> A" if "unat ?e \<le> unat s" "unat s < unat (rb_expected_seq b2)" for s
    proof (cases "s = ?e")
      case False
      then have "unat s \<noteq> unat ?e" by (simp add: word_unat_eq_iff)
      with that succ show ?thesis by (intro IH(6)) simp_all
    qed (use pend in simp)
    from IH(1-3) succ out keep got show ?thesis by (simp add: res)
  qed
qed

lemma rb_inv_arrive: "rb_inv C N f A b \<Longrightarrow> unat s < N \<Longrightarrow> rb_inv C N f (insert s A) b"
  by (auto simp: rb_inv_def slot_ok_def)

lemma rb_inv_next:
  assumes "rb_inv C N f A b" "\<not> pending C b (rb_expected_seq b)" "unat (rb_expected_seq b) < N"
  shows "rb_inv C N f A (b\<lparr>rb_expected_seq := rb_expected_seq b + 1\<rparr>)"
proof -
  let ?e = "rb_expected_seq b"
  have succ: "unat (?e + 1) = Suc (unat ?e)" using assms(1,3) by (rule rb_inv_unat_succ)
  have "slot_ok C f A (?e + 1) i (m_ring b ! i)" if i: "i < C" for i
  proof -
    have ok: "slot_ok C f A ?e i (m_ring b ! i)" using assms(1) i by (simp add: rb_inv_def)
    then have "occupied (m_ring b ! i) \<longrightarrow> window_index C (slot_seq_num (m_ring b ! i)) = i"
      unfolding slot_ok_def by blast
    then have "occupied (m_ring b ! i) \<longrightarrow> slot_seq_num (m_ring b ! i) \<noteq> ?e"
      using assms(2) unfolding pending_def by metis
    with ok show ?thesis using succ by (rule slot_ok_advance)
  qed
  moreover have "unat (?e + 1) \<le> N" using succ assms(3) by simp
  ultimately show ?thesis using assms(1) by (simp add: rb_inv_def)
qed

lemma fill_slot_ok:
  assumes "slot_ok C f A e i slot" "length (f s) \<le> 512" "0 < length (f s)"
    and "window_index C s = i" "s \<in> A" "s \<in> seq_window C e"
  shows "slot_ok C f A e i (fill_slot s (Some (f s)) (length (f s)) slot)"
  using assms by (simp add: fill_slot_def slot_ok_def Let_def)

lemma rb_inv_fill:
  assumes "rb_inv C N f A b" "s \<in> A" "s \<in> seq_window C (rb_expected_seq b)"
    and "0 < length (f s)" "length (f s) \<le> 512"
  defines "i \<equiv> window_index C s"
  shows "rb_inv C N f A (b\<lparr>m_ring := (m_ring b)[i := fill_slot s (Some (f s)) (length (f s)) (m_ring b ! i)],
      rb_out_of_order_buffered_count := k\<rparr>)"
proof -
  have "slot_ok C f A (rb_expected_seq b) j
      ((m_ring b)[i := fill_slot s (Some (f s)) (length (f s)) (m_ring b ! i)] ! j)" if "j < C" for j
  proof (cases "j = i")
    case True
    have "slot_ok C f A (rb_expected_seq b) i (fill_slot s (Some (f s)) (length (f s)) (m_ring b ! i))"
      using assms that True by (intro fill_slot_ok) (simp_all add: rb_inv_def)
    with True that assms(1) show ?thesis by (simp add: rb_inv_def)
  qed (use assms(1) that in \<open>simp add: rb_inv_def\<close>)
  with assms(1) show ?thesis by (simp add: rb_inv_def)
qed

text \<open>A slot is only ever overwritten by the same sequence number.\<close>

lemma pending_fill:
  fixes k :: u64
  assumes "rb_inv C N f A b" "s \<in> seq_window C (rb_expected_seq b)"
  defines "b' \<equiv> b\<lparr>m_ring := (m_ring b)[window_index C s :=
      fill_slot s (Some (f s)) (length (f s)) (m_ring b ! window_index C s)],
      rb_out_of_order_buffered_count := k\<rparr>"
  shows "pending C b' t \<longleftrightarrow> t = s \<or> pending C b t"
proof (cases "window_index C t = window_index C s")
  case True
  have i: "window_index C s < length (m_ring b)" using assms(1) by (rule rb_inv_index)
  have new: "pending C b' t \<longleftrightarrow> t = s"
    using True i by (auto simp: b'_def pending_def fill_slot_def Let_def)
  have "t = s" if "pending C b t"
    using rb_inv_pending(2) [OF assms(1) that] assms(1,2) True
    by (intro window_index_inj [of C t "rb_expected_seq b" s]) (simp_all add: rb_inv_def)
  with new show ?thesis by blast
next
  case False
  then show ?thesis by (auto simp: b'_def pending_def)
qed

subsection \<open>Runs\<close>

text \<open>Pushing the packets of a list of sequence numbers, each with its own payload.\<close>

fun reorder_run :: "nat \<Rightarrow> (u64 \<Rightarrow> string) \<Rightarrow> ReorderBuffer \<Rightarrow> u64 list \<Rightarrow> string list \<Rightarrow> ReorderBuffer \<times> string list" where
  "reorder_run Capacity f b [] out_emitted = (b, out_emitted)"
| "reorder_run Capacity f b (s # ss) out_emitted =
     (let (_, b', out') = reorder_push Capacity b s (Some (f s)) (length (f s)) out_emitted
      in reorder_run Capacity f b' ss out')"

text \<open>No arrival is beyond the lookahead window when it comes (the overflow branch is not taken).\<close>

fun within_lookahead :: "nat \<Rightarrow> (u64 \<Rightarrow> string) \<Rightarrow> ReorderBuffer \<Rightarrow> u64 list \<Rightarrow> bool" where
  "within_lookahead Capacity f b [] = True"
| "within_lookahead Capacity f b (s # ss) =
     (unat s < unat (rb_expected_seq b) + Capacity \<and>
      within_lookahead Capacity f (fst (snd (reorder_push Capacity b s (Some (f s)) (length (f s)) []))) ss)"

text \<open>
  \<open>A\<close> has every arrival, \<open>K\<close> those that came inside the window: the output is the contiguous
  prefix from \<open>e0\<close>, everything in it arrived, and nothing of \<open>K\<close> is lost.
\<close>

definition rb_good :: "nat \<Rightarrow> nat \<Rightarrow> (u64 \<Rightarrow> string) \<Rightarrow> u64 \<Rightarrow> u64 set \<Rightarrow> u64 set \<Rightarrow> ReorderBuffer \<Rightarrow> string list \<Rightarrow> bool" where
  "rb_good C N f e0 A K b out \<longleftrightarrow> rb_inv C N f A b \<and> \<not> pending C b (rb_expected_seq b) \<and>
     unat e0 \<le> unat (rb_expected_seq b) \<and> out = payloads f e0 (rb_expected_seq b) \<and>
     (\<forall>s. unat e0 \<le> unat s \<and> unat s < unat (rb_expected_seq b) \<longrightarrow> s \<in> A) \<and>
     (\<forall>s \<in> K. unat s < unat (rb_expected_seq b) \<or> pending C b s)"

lemma rb_good_in_order:
  assumes g: "rb_good C N f e0 A K b out" and s: "s = rb_expected_seq b" "unat s < N" "0 < length (f s)"
    and push: "reorder_push C b s (Some (f s)) (length (f s)) out = (n, b', out')"
  shows "rb_good C N f e0 (insert s A) (insert s K) b' out'"
proof -
  let ?e = "rb_expected_seq b" and ?b1 = "b\<lparr>rb_expected_seq := rb_expected_seq b + 1\<rparr>"
  have inv: "rb_inv C N f (insert s A) b" "\<not> pending C b ?e"
    using g s by (auto simp: rb_good_def intro: rb_inv_arrive)
  then have inv1: "rb_inv C N f (insert s A) ?b1" using s(1,2) by (intro rb_inv_next) auto
  have succ: "unat (?e + 1) = Suc (unat ?e)" using inv(1) s(1,2) by (intro rb_inv_unat_succ) auto
  obtain m where dr: "drain_buffered C ?b1 (out @ [f s]) = (m, b', out')"
    using push s by (auto simp: reorder_push_def Let_def split: prod.splits)
  have ex1: "rb_expected_seq ?b1 = ?e + 1" by simp
  from drain_spec [OF inv1 dr, unfolded ex1] have D: "rb_inv C N f (insert s A) b'" "\<not> pending C b' (rb_expected_seq b')"
    "unat (rb_expected_seq b') = unat (?e + 1) + m"
    "out' = (out @ [f s]) @ payloads f (?e + 1) (rb_expected_seq b')"
    "\<And>t. pending C ?b1 t \<Longrightarrow> unat t < unat (rb_expected_seq b') \<or> pending C b' t"
    "\<And>t. unat (?e + 1) \<le> unat t \<Longrightarrow> unat t < unat (rb_expected_seq b') \<Longrightarrow> t \<in> insert s A"
    by blast+
  have g': "unat e0 \<le> unat ?e" "out = payloads f e0 ?e"
    "\<And>t. unat e0 \<le> unat t \<Longrightarrow> unat t < unat ?e \<Longrightarrow> t \<in> A"
    "\<And>t. t \<in> K \<Longrightarrow> unat t < unat ?e \<or> pending C ?b1 t"
    using g by (auto simp: rb_good_def pending_def)
  have "out' = payloads f e0 ?e @ payloads f ?e (rb_expected_seq b')"
    using payloads_head [OF succ, of "rb_expected_seq b'" f] D(3,4) g'(2) s(1) by simp
  also have "\<dots> = payloads f e0 (rb_expected_seq b')"
    using g'(1) D(3) succ by (intro payloads_append) simp_all
  finally have out: "out' = payloads f e0 (rb_expected_seq b')" .
  have got: "t \<in> insert s A" if "unat e0 \<le> unat t" "unat t < unat (rb_expected_seq b')" for t
  proof (cases "unat t" "unat ?e" rule: linorder_cases)
    case equal
    then show ?thesis using s(1) by (simp add: word_unat_eq_iff)
  qed (use that g'(3) D(6) succ in auto)
  have kept: "unat t < unat (rb_expected_seq b') \<or> pending C b' t" if "t \<in> insert s K" for t
    using that g'(4) D(3,5) succ s(1) by fastforce
  from D(1-3) g'(1) succ out got kept show ?thesis by (simp add: rb_good_def)
qed

lemma rb_good_push:
  assumes g: "rb_good C N f e0 A K b out" and s: "unat s < N" "0 < length (f s)" "length (f s) \<le> 512"
    and push: "reorder_push C b s (Some (f s)) (length (f s)) out = (n, b', out')"
  shows "rb_good C N f e0 (insert s A) (if unat s < unat (rb_expected_seq b) + C then insert s K else K) b' out'"
proof -
  let ?e = "rb_expected_seq b"
  have inv: "rb_inv C N f (insert s A) b" using g s(1) by (auto simp: rb_good_def intro: rb_inv_arrive)
  have lim: "unat ?e + C < 2 ^ 64" using inv by (simp add: rb_inv_def)
  have lt: "s < ?e + of_nat C \<longleftrightarrow> unat s < unat ?e + C"
  proof -
    have "unat (of_nat C :: u64) = C" using lim by (simp add: unat_of_nat take_bit_nat_eq_self)
    then have "unat (?e + of_nat C) = unat ?e + C" using lim unat_add_lem [of ?e "of_nat C"] by simp
    then show ?thesis by (simp add: word_less_nat_alt)
  qed
  consider (now) "s = ?e" | (late) "s < ?e" | (ahead) "s > ?e" by fastforce
  then show ?thesis
  proof cases
    case now
    have "0 < C" using inv by (auto simp: rb_inv_def)
    with rb_good_in_order [OF g now s(1,2) push] now show ?thesis by simp
  next
    case late
    then have "s \<noteq> ?e" "\<not> s > ?e" by auto
    then have "b' = b\<lparr>rb_duplicates_count := rb_duplicates_count b + 1\<rparr>" "out' = out"
      using push by (auto simp: reorder_push_def)
    moreover have "unat s < unat ?e" using late by (simp add: word_less_nat_alt)
    ultimately show ?thesis using g inv by (auto simp: rb_good_def rb_inv_def pending_def)
  next
    case ahead
    then have "unat ?e < unat s" and ne: "s \<noteq> ?e" by (auto simp: word_less_nat_alt)
    show ?thesis
    proof (cases "unat s < unat ?e + C")
      case True
      then have w: "s \<in> seq_window C ?e" using \<open>unat ?e < unat s\<close> by (simp add: seq_window_def)
      have b': "b' = b\<lparr>m_ring := (m_ring b)[window_index C s := fill_slot s (Some (f s)) (length (f s))
            (m_ring b ! window_index C s)],
          rb_out_of_order_buffered_count := rb_out_of_order_buffered_count b + 1\<rparr>" "out' = out"
        using push ahead ne True lt by (auto simp: reorder_push_def Let_def)
      have "rb_inv C N f (insert s A) b'" unfolding b' using inv w s by (intro rb_inv_fill) simp_all
      moreover have "pending C b' t \<longleftrightarrow> t = s \<or> pending C b t" for t
        unfolding b' using inv w by (rule pending_fill)
      moreover have "rb_expected_seq b' = ?e" by (simp add: b')
      ultimately show ?thesis using g True ahead by (auto simp: rb_good_def b'(2))
    next
      case False
      then have "b' = b\<lparr>rb_overflow_count := rb_overflow_count b + 1\<rparr>" "out' = out"
        using push ahead ne False lt by (auto simp: reorder_push_def)
      with g inv False show ?thesis by (auto simp: rb_good_def rb_inv_def pending_def)
    qed
  qed
qed

text \<open>The emitted list is only appended to, so the state does not depend on it.\<close>

lemma drain_out:
  "drain_buffered C b (out @ x) = (let (n, b', o') = drain_buffered C b x in (n, b', out @ o'))"
proof (induction C b x rule: drain_buffered.induct)
  case (1 C b x)
  show ?case
    by (subst (1 2) drain_buffered.simps) (use 1 in \<open>simp add: Let_def split_beta\<close>)
qed

lemma push_state: "fst (snd (reorder_push C b s p n out)) = fst (snd (reorder_push C b s p n []))"
  using drain_out [of C "b\<lparr>rb_expected_seq := rb_expected_seq b + 1\<rparr>" out]
    drain_out [of C "b\<lparr>rb_expected_seq := rb_expected_seq b + 1\<rparr>" out "[]"]
  by (auto simp: reorder_push_def Let_def split_beta split: option.split)

lemma rb_good_run:
  assumes "rb_good C N f e0 A K b out"
    and "\<forall>s \<in> set ss. unat s < N \<and> 0 < length (f s) \<and> length (f s) \<le> 512"
    and "reorder_run C f b ss out = (b', out')"
  shows "\<exists>A' K'. rb_good C N f e0 A' K' b' out' \<and> A' = A \<union> set ss \<and> K \<subseteq> K' \<and>
    (within_lookahead C f b ss \<longrightarrow> K' = K \<union> set ss)"
  using assms
proof (induction ss arbitrary: A K b out)
  case (Cons s ss)
  obtain n b1 out1 where push: "reorder_push C b s (Some (f s)) (length (f s)) out = (n, b1, out1)"
    by (metis prod_cases3)
  let ?K = "if unat s < unat (rb_expected_seq b) + C then insert s K else K"
  have "rb_good C N f e0 (insert s A) ?K b1 out1"
    using rb_good_push [of C N f e0 A K b out s n b1 out1] Cons.prems push by simp
  from Cons.IH [OF this] Cons.prems push obtain A' K' where
    "rb_good C N f e0 A' K' b' out'" "A' = insert s A \<union> set ss" "?K \<subseteq> K'"
    "within_lookahead C f b1 ss \<longrightarrow> K' = ?K \<union> set ss"
    by auto
  moreover have "fst (snd (reorder_push C b s (Some (f s)) (length (f s)) [])) = b1"
    using push_state [of C b s "Some (f s)" "length (f s)" out] push by simp
  ultimately show ?case by (intro exI [of _ A'] exI [of _ K']) (auto split: if_splits)
qed auto

lemma rb_good_init:
  assumes "pow2_capacity C" "unat e0 \<le> N" "N + C < 2 ^ 64"
  shows "rb_good C N f e0 {} {} (reorder_init C e0) []"
  using assms window_index_less [OF assms(1)]
  by (simp add: rb_good_def rb_inv_def slot_ok_def reorder_init_def empty_slot_def pending_def)

subsection \<open>Properties of the reorder buffer\<close>

text \<open>
  C13. Whatever order packets arrive in (duplicates, late packets and window overflows included),
  the buffer emits exactly the payloads of the contiguous block of sequence numbers from the
  initial one up to the expected one, in order, once each, with their bytes unchanged; and every
  number of that block did arrive. Payloads are between 1 and 512 bytes and numbers stay a window
  below \<open>2 ^ 64\<close>.
\<close>

theorem reorder_emits_in_order:
  assumes "pow2_capacity C" "unat e0 \<le> N" "N + C < 2 ^ 64"
    and "\<forall>s \<in> set ss. unat s < N \<and> 0 < length (f s) \<and> length (f s) \<le> 512"
    and "reorder_run C f (reorder_init C e0) ss [] = (b, out)"
  shows "out = map (\<lambda>k. f (of_nat k)) [unat e0 ..< unat (rb_expected_seq b)] \<and>
    (\<forall>s. e0 \<le> s \<and> s < rb_expected_seq b \<longrightarrow> s \<in> set ss)"
  using rb_good_run [OF rb_good_init [OF assms(1-3)] assms(4,5)]
  by (auto simp: rb_good_def payloads_def word_le_nat_alt word_less_nat_alt)

theorem reorder_emits_in_order_witness:
  "let r = reorder_run 4 (\<lambda>s. dec_string (unat s)) (reorder_init 4 1) [2, 1, 3] []
   in snd r = map (\<lambda>k. dec_string (unat (of_nat k :: u64))) [1 ..< unat (rb_expected_seq (fst r))]"
  using reorder_emits_in_order [of 4 1 100 "[2, 1, 3]" "\<lambda>s. dec_string (unat s)", OF _ _ _ _ prod.collapse [symmetric]]
    pow2_capacity_exp [of 2]
  by (simp add: Let_def dec_string.simps)

text \<open>
  Nothing is lost inside the lookahead window: if no arrival is more than \<open>Capacity\<close> ahead of
  the expected number when it comes, the run stops exactly at the first sequence number that never
  arrived, and everything below it has been emitted in order.
\<close>

theorem reorder_complete:
  assumes "pow2_capacity C" "unat e0 \<le> N" "N + C < 2 ^ 64"
    and "\<forall>s \<in> set ss. unat s < N \<and> 0 < length (f s) \<and> length (f s) \<le> 512"
    and "within_lookahead C f (reorder_init C e0) ss"
    and "reorder_run C f (reorder_init C e0) ss [] = (b, out)"
  shows "rb_expected_seq b \<notin> set ss \<and> (\<forall>s. e0 \<le> s \<and> s < rb_expected_seq b \<longrightarrow> s \<in> set ss) \<and>
    length out = unat (rb_expected_seq b) - unat e0"
  using rb_good_run [OF rb_good_init [OF assms(1-3)] assms(4,6)] assms(5)
  by (auto simp: rb_good_def payloads_def word_le_nat_alt word_less_nat_alt)

theorem reorder_complete_witness:
  "length (snd (reorder_run 4 (\<lambda>s. ''m'') (reorder_init 4 1) [3, 2, 1, 2] [])) = 3 \<and>
   rb_expected_seq (fst (reorder_run 4 (\<lambda>s. ''m'') (reorder_init 4 1) [3, 2, 1, 2] [])) \<notin> set [3, 2, 1, 2]"
proof -
  have w: "within_lookahead 4 (\<lambda>s. ''m'') (reorder_init 4 1) [3, 2, 1, 2]"
    and e: "unat (rb_expected_seq (fst (reorder_run 4 (\<lambda>s. ''m'') (reorder_init 4 1) [3, 2, 1, 2] []))) = 4"
    by code_simp+
  show ?thesis
    using reorder_complete [of 4 1 100 "[3, 2, 1, 2]" "\<lambda>s. ''m''", OF _ _ _ _ w prod.collapse [symmetric]]
      pow2_capacity_exp [of 2] e
    by simp
qed

subsection \<open>Counters of a run\<close>

lemma drain_counts:
  "rb_out_of_order_buffered_count (fst (snd (drain_buffered C b out))) = rb_out_of_order_buffered_count b \<and>
   rb_duplicates_count (fst (snd (drain_buffered C b out))) = rb_duplicates_count b \<and>
   rb_overflow_count (fst (snd (drain_buffered C b out))) = rb_overflow_count b"
proof (induction C b out rule: drain_buffered.induct)
  case (1 C b out)
  show ?case
    by (subst (1 2 3) drain_buffered.simps) (use 1 in \<open>simp add: Let_def split_beta\<close>)
qed

lemma push_counts:
  assumes "reorder_push C b s p n out = (m, b', out')"
  shows "rb_out_of_order_buffered_count b' = rb_out_of_order_buffered_count b +
           (if s > rb_expected_seq b \<and> s < rb_expected_seq b + of_nat C then 1 else 0)"
    and "rb_duplicates_count b' = rb_duplicates_count b + (if s < rb_expected_seq b then 1 else 0)"
    and "rb_overflow_count b' = rb_overflow_count b +
           (if s > rb_expected_seq b \<and> \<not> s < rb_expected_seq b + of_nat C then 1 else 0)"
proof -
  have dr: "rb_out_of_order_buffered_count b2 = rb_out_of_order_buffered_count b1 \<and>
      rb_duplicates_count b2 = rb_duplicates_count b1 \<and> rb_overflow_count b2 = rb_overflow_count b1"
    if "drain_buffered C b1 o1 = (k, b2, o2)" for b1 o1 k b2 o2
    using drain_counts [of C b1 o1] that by simp
  show "rb_out_of_order_buffered_count b' = rb_out_of_order_buffered_count b +
           (if s > rb_expected_seq b \<and> s < rb_expected_seq b + of_nat C then 1 else 0)"
    and "rb_duplicates_count b' = rb_duplicates_count b + (if s < rb_expected_seq b then 1 else 0)"
    and "rb_overflow_count b' = rb_overflow_count b +
           (if s > rb_expected_seq b \<and> \<not> s < rb_expected_seq b + of_nat C then 1 else 0)"
    using assms
    by (auto simp: reorder_push_def Let_def dest!: dr split: if_splits option.splits prod.splits)
qed

text \<open>Arrivals that come while a smaller number, from \<open>e0\<close> on, is still missing.\<close>

fun early_arrivals :: "u64 \<Rightarrow> u64 list \<Rightarrow> u64 list \<Rightarrow> nat" where
  "early_arrivals e0 seen [] = 0"
| "early_arrivals e0 seen (s # ss) =
     (if \<exists>t \<in> set [unat e0 ..< unat s]. of_nat t \<notin> set seen then 1 else 0) + early_arrivals e0 (s # seen) ss"

lemma rb_good_expected:
  assumes "rb_good C N f e0 (set seen) (set seen) b out" "s \<notin> set seen" "e0 \<le> s"
  shows "\<not> s < rb_expected_seq b"
    and "(\<exists>t \<in> set [unat e0 ..< unat s]. of_nat t \<notin> set seen) \<longleftrightarrow> rb_expected_seq b < s"
proof -
  let ?e = "rb_expected_seq b"
  have e: "?e \<notin> set seen" "unat e0 \<le> unat ?e" and below: "\<And>t. unat e0 \<le> unat t \<Longrightarrow> unat t < unat ?e \<Longrightarrow> t \<in> set seen"
    using assms(1) by (auto simp: rb_good_def)
  show "\<not> s < ?e" using below [of s] assms(2,3) by (auto simp: word_less_nat_alt word_le_nat_alt)
  show "(\<exists>t \<in> set [unat e0 ..< unat s]. of_nat t \<notin> set seen) \<longleftrightarrow> ?e < s"
  proof
    assume "\<exists>t \<in> set [unat e0 ..< unat s]. of_nat t \<notin> set seen"
    then obtain t where t: "unat e0 \<le> t" "t < unat s" "of_nat t \<notin> set seen" by auto
    then have "t < 2 ^ 64" using unsigned_less [of s, where ?'a = nat] by simp
    then have "unat (of_nat t :: u64) = t" by (simp add: unat_of_nat)
    with below [of "of_nat t"] t have "unat ?e \<le> t" by (metis not_less)
    with t(2) show "?e < s" by (simp add: word_less_nat_alt)
  next
    assume "?e < s"
    with e show "\<exists>t \<in> set [unat e0 ..< unat s]. of_nat t \<notin> set seen"
      by (intro bexI [of _ "unat ?e"]) (simp_all add: word_less_nat_alt)
  qed
qed

lemma reorder_run_counts:
  assumes "rb_good C N f e0 (set seen) (set seen) b out" "distinct ss" "set ss \<inter> set seen = {}"
    and "\<forall>s \<in> set ss. unat s < N \<and> 0 < length (f s) \<and> length (f s) \<le> 512 \<and> e0 \<le> s \<and> unat s < unat e0 + C"
    and "reorder_run C f b ss out = (b', out')"
  shows "rb_good C N f e0 (set seen \<union> set ss) (set seen \<union> set ss) b' out' \<and>
    rb_duplicates_count b' = rb_duplicates_count b \<and> rb_overflow_count b' = rb_overflow_count b \<and>
    rb_out_of_order_buffered_count b' = rb_out_of_order_buffered_count b + of_nat (early_arrivals e0 seen ss)"
  using assms
proof (induction ss arbitrary: seen b out)
  case (Cons s ss)
  let ?e = "rb_expected_seq b"
  obtain n b1 out1 where push: "reorder_push C b s (Some (f s)) (length (f s)) out = (n, b1, out1)"
    by (metis prod_cases3)
  have good: "unat e0 \<le> unat ?e" "unat ?e + C < 2 ^ 64" using Cons.prems(1) by (auto simp: rb_good_def rb_inv_def)
  have "unat (of_nat C :: u64) = C" using good(2) by (simp add: unat_of_nat)
  then have "unat (?e + of_nat C) = unat ?e + C" using good(2) unat_add_lem [of ?e "of_nat C"] by simp
  then have win: "s < ?e + of_nat C" "unat s < unat ?e + C"
    using Cons.prems(4) good(1) by (auto simp: word_less_nat_alt)
  have s: "s \<notin> set seen" "e0 \<le> s" using Cons.prems(3,4) by auto
  note E = rb_good_expected [OF Cons.prems(1) s]
  have "rb_good C N f e0 (insert s (set seen)) (insert s (set seen)) b1 out1"
    using rb_good_push [OF Cons.prems(1) _ _ _ push] Cons.prems(4) win(2) by simp
  then have "rb_good C N f e0 (set (s # seen)) (set (s # seen)) b1 out1" by simp
  from Cons.IH [OF this] Cons.prems(2-5) push have
    "rb_good C N f e0 (set (s # seen) \<union> set ss) (set (s # seen) \<union> set ss) b' out' \<and>
      rb_duplicates_count b' = rb_duplicates_count b1 \<and> rb_overflow_count b' = rb_overflow_count b1 \<and>
      rb_out_of_order_buffered_count b' = rb_out_of_order_buffered_count b1 + of_nat (early_arrivals e0 (s # seen) ss)"
    by auto
  with push_counts [OF push] E win show ?case by simp
qed simp

text \<open>
  A shuffled block: if the numbers of a block no longer than the window arrive in any order, once
  each, then all of them are emitted, in order and unchanged, none is counted as a duplicate or as an
  overflow, and the buffered count is the number of arrivals that came before a smaller one.
\<close>

theorem reorder_shuffled_block:
  assumes "pow2_capacity C" "unat e0 + n + C < 2 ^ 64" "n \<le> C"
    and "distinct ss" "set ss = (\<lambda>k. e0 + of_nat k) ` {..<n}"
    and "\<forall>s \<in> set ss. 0 < length (f s) \<and> length (f s) \<le> 512"
    and "reorder_run C f (reorder_init C e0) ss [] = (b, out)"
  shows "out = map (\<lambda>k. f (e0 + of_nat k)) [0 ..< n] \<and> rb_duplicates_count b = 0 \<and> rb_overflow_count b = 0 \<and>
    rb_out_of_order_buffered_count b = of_nat (early_arrivals e0 [] ss)"
proof -
  have u: "unat (e0 + of_nat k) = unat e0 + k" if "k < n" for k
    using that assms(2) by (simp add: unat_word_ariths(1) unat_of_nat)
  have rng: "unat s < unat e0 + n \<and> e0 \<le> s" if "s \<in> set ss" for s
    using that assms(5) u by (auto simp: word_le_nat_alt)
  have "rb_good C (unat e0 + n) f e0 (set []) (set []) (reorder_init C e0) []"
    using rb_good_init [of C e0 "unat e0 + n" f] assms(1,2) by simp
  from reorder_run_counts [OF this assms(4) _ _ assms(7)] rng assms(3,6)
  have R: "rb_good C (unat e0 + n) f e0 (set ss) (set ss) b out" "rb_duplicates_count b = 0" "rb_overflow_count b = 0"
    "rb_out_of_order_buffered_count b = of_nat (early_arrivals e0 [] ss)"
    by (fastforce simp: reorder_init_def)+
  let ?e = "rb_expected_seq b"
  have e: "?e \<notin> set ss" "unat e0 \<le> unat ?e" "unat ?e \<le> unat e0 + n" "out = payloads f e0 ?e"
    using R(1) by (auto simp: rb_good_def rb_inv_def)
  have "unat ?e = unat e0 + n"
  proof (rule ccontr)
    assume "unat ?e \<noteq> unat e0 + n"
    then have k: "unat ?e - unat e0 < n" using e(2,3) by simp
    with u [OF k] e(2) have "?e = e0 + of_nat (unat ?e - unat e0)" by (simp add: word_unat_eq_iff)
    with k assms(5) e(1) show False by blast
  qed
  with e(4) have "out = map (\<lambda>k. f (of_nat k)) [unat e0 ..< unat e0 + n]" by (simp add: payloads_def)
  also have "\<dots> = map (\<lambda>k. f (e0 + of_nat k)) [0 ..< n]"
    by (simp add: map_add_upt [symmetric] comp_def add.commute)
  finally show ?thesis using R(2-4) by simp
qed

theorem reorder_shuffled_block_witness:
  "snd (reorder_run 4 (\<lambda>s. dec_string (unat s)) (reorder_init 4 1) [3, 1, 2] []) = map (\<lambda>k. dec_string (unat (1 + of_nat k :: u64))) [0, 1, 2]"
  using reorder_shuffled_block [of 4 1 3 "[3, 1, 2]" "\<lambda>s. dec_string (unat s)", OF _ _ _ _ _ _ prod.collapse [symmetric]]
    pow2_capacity_exp [of 2]
  by (auto simp: dec_string.simps lessThan_nat_numeral lessThan_Suc upt_rec)

end
