(* ===== verification/Risk_Manager.thy ===== *)
theory Risk_Manager
  imports Fix_Parser
begin

text \<open>
  \<open>PreTradeRiskManager\<close> of \<open>include/hft/protocol/PreTradeRiskManager.hpp\<close>: the four checks before
  an order may execute, with 64-bit signed deviation and unsigned notional arithmetic as the code
  has them. The only part that is a parameter is \<open>fmt2\<close>, the \<open>%.2f\<close> rendering of a price divided
  by a million in the text of a collar rejection.
\<close>

datatype RiskCheckStatus =
    APPROVED | REJECTED_MAX_QTY | REJECTED_PRICE_COLLAR | REJECTED_MAX_NOTIONAL
  | REJECTED_KILL_SWITCH | REJECTED_TRADING_HALT

record RiskCheckResult =
  risk_status :: RiskCheckStatus
  rejection_reason :: string

record RiskLimits =
  max_order_qty :: u32
  max_price_deviation_scaled :: int
  max_notional_value_usd :: u64
  kill_switch_active :: bool

definition default_limits :: RiskLimits where
  "default_limits = \<lparr>max_order_qty = 50000, max_price_deviation_scaled = 5000000,
     max_notional_value_usd = 2000000, kill_switch_active = False\<rparr>"

record PreTradeRiskManager =
  m_limits :: RiskLimits
  m_approved_count :: u64
  m_rejected_count :: u64

definition risk_manager_init :: "RiskLimits \<Rightarrow> PreTradeRiskManager" where
  "risk_manager_init limits = \<lparr>m_limits = limits, m_approved_count = 0, m_rejected_count = 0\<rparr>"

definition risk_reject ::
  "RiskCheckStatus \<Rightarrow> string \<Rightarrow> PreTradeRiskManager \<Rightarrow> RiskCheckResult \<times> PreTradeRiskManager" where
  "risk_reject st txt m =
     (\<lparr>risk_status = st, rejection_reason = fst (snprintf (replicate 128 (CHR 0x00)) txt)\<rparr>,
      m\<lparr>m_rejected_count := m_rejected_count m + 1\<rparr>)"

definition price_deviation :: "int \<Rightarrow> int \<Rightarrow> int" where
  "price_deviation p ref = (if p > ref then wrap_i64 (p - ref) else wrap_i64 (ref - p))"

definition notional_usd :: "int \<Rightarrow> int \<Rightarrow> u64" where
  "notional_usd q p = (of_int q * of_int p) div 1000000"

definition evaluate_order ::
  "(int \<Rightarrow> string) \<Rightarrow> PreTradeRiskManager \<Rightarrow> ParsedOrder \<Rightarrow> int \<Rightarrow> RiskCheckResult \<times> PreTradeRiskManager" where
  "evaluate_order fmt2 m ord ref =
     (let limits = m_limits m
      in if kill_switch_active limits
         then risk_reject REJECTED_KILL_SWITCH
                ''REJECTED: Global Emergency Kill Switch is ACTIVE'' m
         else if quantity ord > 0 \<and> (of_int (quantity ord) :: u32) > max_order_qty limits
         then risk_reject REJECTED_MAX_QTY
                (''REJECTED: Qty '' @ dec_string_int (quantity ord) @ '' exceeds max allowed limit '' @
                 dec_string (unat (max_order_qty limits))) m
         else if ref > 0 \<and> price_deviation (price ord) ref > max_price_deviation_scaled limits
         then risk_reject REJECTED_PRICE_COLLAR
                (''REJECTED: Price $'' @ fmt2 (price ord) @ '' deviates beyond collar limit $'' @
                 fmt2 (max_price_deviation_scaled limits) @ '' from ref $'' @ fmt2 ref) m
         else if notional_usd (quantity ord) (price ord) > max_notional_value_usd limits
         then risk_reject REJECTED_MAX_NOTIONAL
                (''REJECTED: Order notional value $'' @ dec_string (unat (notional_usd (quantity ord) (price ord))) @
                 '' exceeds max cap $'' @ dec_string (unat (max_notional_value_usd limits))) m
         else (\<lparr>risk_status = APPROVED, rejection_reason = replicate 128 (CHR 0x00)\<rparr>,
               m\<lparr>m_approved_count := m_approved_count m + 1\<rparr>))"

definition set_kill_switch :: "bool \<Rightarrow> PreTradeRiskManager \<Rightarrow> PreTradeRiskManager" where
  "set_kill_switch active m = m\<lparr>m_limits := (m_limits m)\<lparr>kill_switch_active := active\<rparr>\<rparr>"

definition set_limits :: "RiskLimits \<Rightarrow> PreTradeRiskManager \<Rightarrow> PreTradeRiskManager" where
  "set_limits limits m = m\<lparr>m_limits := limits\<rparr>"

subsection \<open>Exactness of the gate\<close>

text \<open>
  Limits whose products cannot reach \<open>2 ^ 64\<close> for a 32-bit quantity and a price inside the collar
  around a positive reference.
\<close>

definition risk_config_ok :: "RiskLimits \<Rightarrow> int \<Rightarrow> bool" where
  "risk_config_ok l ref \<longleftrightarrow> 0 \<le> max_price_deviation_scaled l \<and> max_price_deviation_scaled l < ref \<and>
     ref + max_price_deviation_scaled l < 2 ^ 62 \<and>
     2 ^ 31 * (ref + max_price_deviation_scaled l) +
       (uint (max_notional_value_usd l) + 1) * 1000000 \<le> 2 ^ 64"

lemma uint_of_int_u64: "0 \<le> x \<Longrightarrow> x < 2 ^ 64 \<Longrightarrow> uint (of_int x :: u64) = x"
  by (simp add: uint_word_of_int take_bit_int_eq_self)

lemma notional_nonneg:
  assumes "0 \<le> q" "0 \<le> p" "q * p < 2 ^ 64"
  shows "uint (notional_usd q p) = q * p div 1000000"
proof -
  have "uint (of_int (q * p) :: u64) = q * p" using assms by (intro uint_of_int_u64) simp_all
  then show ?thesis by (simp add: notional_usd_def uint_div)
qed

lemma notional_neg:
  assumes "q < 0" "0 < p" "- q * p \<le> 2 ^ 64"
  shows "uint (notional_usd q p) = (2 ^ 64 + q * p) div 1000000"
proof -
  have "q * p < 0" using assms(1,2) by (simp add: mult_neg_pos)
  then have "uint (of_int (2 ^ 64 + q * p) :: u64) = 2 ^ 64 + q * p"
    using assms(3) by (intro uint_of_int_u64) simp_all
  moreover have "of_int (2 ^ 64 + q * p) = (of_int q * of_int p :: u64)"
    by simp
  ultimately have "uint (of_int q * of_int p :: u64) = 2 ^ 64 + q * p" by (simp only:)
  then show ?thesis by (simp add: notional_usd_def uint_div)
qed

lemma qty_check:
  assumes "in_i32 q"
  shows "q > 0 \<and> (of_int q :: u32) > lim \<longleftrightarrow> q > 0 \<and> q > uint lim"
proof (cases "q > 0")
  case True
  then have "uint (of_int q :: u32) = q"
    using assms by (simp add: in_i32_def uint_word_of_int take_bit_int_eq_self)
  then show ?thesis by (simp add: word_less_def)
qed simp

lemma deviation_exact:
  assumes "0 < ref" "in_i64 p" "in_i64 ref" "ref - p < 2 ^ 63"
  shows "price_deviation p ref = \<bar>p - ref\<bar>"
proof -
  have "in_i64 (p - ref)" if "p > ref" using that assms by (simp add: in_i64_def)
  moreover have "in_i64 (ref - p)" if "\<not> p > ref" using that assms(4) by (simp add: in_i64_def)
  ultimately show ?thesis by (simp add: price_deviation_def)
qed

lemma approved_iff:
  "risk_status (fst (evaluate_order fmt2 m ord ref)) = APPROVED \<longleftrightarrow>
     \<not> kill_switch_active (m_limits m) \<and>
     \<not> (quantity ord > 0 \<and> (of_int (quantity ord) :: u32) > max_order_qty (m_limits m)) \<and>
     \<not> (ref > 0 \<and> price_deviation (price ord) ref > max_price_deviation_scaled (m_limits m)) \<and>
     \<not> notional_usd (quantity ord) (price ord) > max_notional_value_usd (m_limits m)"
  by (simp add: evaluate_order_def risk_reject_def Let_def)

lemma collar_notional:
  assumes "risk_config_ok l ref" "in_i32 q" "\<bar>p - ref\<bar> \<le> max_price_deviation_scaled l"
  shows "notional_usd q p \<le> max_notional_value_usd l \<longleftrightarrow>
    0 \<le> q \<and> q * p div 1000000 \<le> uint (max_notional_value_usd l)"
proof -
  let ?hi = "ref + max_price_deviation_scaled l" 
  define n where "n = uint (max_notional_value_usd l)"
  have n0: "0 \<le> n" by (simp add: n_def)
  have p: "0 < p" "p \<le> ?hi" using assms(1,3) by (auto simp: risk_config_ok_def)
  have room: "2 ^ 31 * ?hi + (n + 1) * 1000000 \<le> 2 ^ 64" using assms(1) by (simp add: risk_config_ok_def n_def)
  have q: "q < 2 ^ 31" "- q \<le> 2 ^ 31" using assms(2) by (simp_all add: in_i32_def)
  show ?thesis
  proof (cases "0 \<le> q")
    case True
    have "q * p \<le> 2 ^ 31 * ?hi" using True q(1) p by (intro mult_mono) simp_all
    also have "\<dots> < 2 ^ 31 * ?hi + (n + 1) * 1000000" using n0 by simp
    also note room
    finally have "q * p < 2 ^ 64" .
    with True p(1) have "uint (notional_usd q p) = q * p div 1000000" by (intro notional_nonneg) simp_all
    with True show ?thesis by (simp add: word_le_def n_def)
  next
    case False
    have "- q * p \<le> 2 ^ 31 * ?hi" using False q(2) p by (intro mult_mono) simp_all
    then have big: "(n + 1) * 1000000 \<le> 2 ^ 64 + q * p" and le: "- q * p \<le> 2 ^ 64"
      using room n0 by simp_all
    have "uint (notional_usd q p) = (2 ^ 64 + q * p) div 1000000"
      using False p(1) le by (intro notional_neg) simp_all
    moreover have "(n + 1) * 1000000 div 1000000 \<le> (2 ^ 64 + q * p) div 1000000"
      using big by (intro zdiv_mono1) simp_all
    ultimately show ?thesis using False by (simp add: word_le_def n_def)
  qed
qed

lemma approved_exact:
  assumes "risk_config_ok (m_limits m) ref" "in_i32 (quantity ord)" "in_i64 (price ord)"
    and "ref - price ord < 2 ^ 63"
  shows "risk_status (fst (evaluate_order fmt2 m ord ref)) = APPROVED \<longleftrightarrow>
    \<not> kill_switch_active (m_limits m) \<and>
    0 \<le> quantity ord \<and> quantity ord \<le> uint (max_order_qty (m_limits m)) \<and>
    \<bar>price ord - ref\<bar> \<le> max_price_deviation_scaled (m_limits m) \<and>
    quantity ord * price ord div 1000000 \<le> uint (max_notional_value_usd (m_limits m))"
proof -
  have r: "0 < ref" "in_i64 ref" using assms(1) by (auto simp: risk_config_ok_def in_i64_def)
  have "0 \<le> uint (max_order_qty (m_limits m))" by simp
  then show ?thesis
    using qty_check [OF assms(2), of "max_order_qty (m_limits m)"]
      collar_notional [OF assms(1,2), of "price ord"]
      deviation_exact [OF r(1) assms(3) r(2) assms(4)] r(1)
    by (auto simp: approved_iff not_less)
qed

subsection \<open>Properties of the risk gate\<close>

text \<open>
  C9. The gate is exact for a sane configuration: when the allowed price deviation is at least 0 and below the reference price,
  and the deviation, the reference and the notional cap are small enough for the products to fit in 64 bits
  (\<open>risk_config_ok\<close>, as the default limits with the engines' reference are), an order whose fields are within their C types and
  whose distance below the reference fits in 64 bits is approved if and only if the kill switch is off, its quantity is between
  0 and the limit, its price is inside the collar and its exact notional value is within the cap. Under these conditions
  negative quantities do not pass.
\<close>

theorem risk_gate_exact:
  assumes "risk_config_ok (m_limits m) ref" "in_i32 (quantity ord)" "in_i64 (price ord)"
    and "ref - price ord < 2 ^ 63"
  shows "risk_status (fst (evaluate_order fmt2 m ord ref)) = APPROVED \<longleftrightarrow>
    \<not> kill_switch_active (m_limits m) \<and>
    0 \<le> quantity ord \<and> quantity ord \<le> uint (max_order_qty (m_limits m)) \<and>
    \<bar>price ord - ref\<bar> \<le> max_price_deviation_scaled (m_limits m) \<and>
    quantity ord * price ord div 1000000 \<le> uint (max_notional_value_usd (m_limits m))"
  using assms by (rule approved_exact)

definition sample_order :: ParsedOrder where
  "sample_order = default_order\<lparr>side := 1, quantity := 1000, price := 35500000\<rparr>"

theorem risk_gate_exact_witness:
  "risk_status (fst (evaluate_order (\<lambda>_. '''') (risk_manager_init default_limits) sample_order 35000000)) = APPROVED"
  using risk_gate_exact [of "risk_manager_init default_limits" 35000000 sample_order "\<lambda>_. ''''"]
  by (simp add: risk_config_ok_def risk_manager_init_def default_limits_def sample_order_def
      default_order_def in_i32_def in_i64_def)

text \<open>
  Every evaluation is counted once and the kill switch is absolute: each call increments
  exactly one of the two counters, according to its verdict, keeps the limits, and with the switch
  on the verdict is a kill-switch rejection for every order and reference.
\<close>

theorem risk_accounting:
  "(let (r, m') = evaluate_order fmt2 m ord ref in
     m_limits m' = m_limits m \<and>
     (if risk_status r = APPROVED
      then m_approved_count m' = m_approved_count m + 1 \<and> m_rejected_count m' = m_rejected_count m
      else m_rejected_count m' = m_rejected_count m + 1 \<and> m_approved_count m' = m_approved_count m)) \<and>
   risk_status (fst (evaluate_order fmt2 (set_kill_switch True m) ord ref)) = REJECTED_KILL_SWITCH"
  by (simp add: evaluate_order_def risk_reject_def set_kill_switch_def Let_def)

text \<open>
  Where the gate is not exact: with the default limits and a reference of 35 dollars, the FIX
  price text \<open>-9223372036854.775808\<close> wraps to the smallest 64-bit integer, its distance from the
  reference wraps to a negative number that the collar accepts, the notional product wraps to zero,
  and an order for 100 at that price is approved. Without a reference price a quantity of 4 at
  \<open>2 ^ 62\<close> micro-dollars has notional zero and is approved too.
\<close>

theorem risk_gate_wraps:
  "parse_fixed_point_price ''-9223372036854.775808'' = - (2 ^ 63) \<and>
   risk_status (fst (evaluate_order fmt2 (risk_manager_init default_limits)
     (default_order\<lparr>quantity := 100, price := parse_fixed_point_price ''-9223372036854.775808''\<rparr>) 35000000)) = APPROVED \<and>
   risk_status (fst (evaluate_order fmt2 (risk_manager_init default_limits)
     (default_order\<lparr>quantity := 4, price := 2 ^ 62\<rparr>) 0)) = APPROVED"
proof -
  have p: "parse_fixed_point_price ''-9223372036854.775808'' = - (2 ^ 63)" by code_simp
  have d: "price_deviation (- (2 ^ 63)) 35000000 \<le> 5000000" by code_simp
  have n: "notional_usd 100 (- (2 ^ 63)) = 0" "notional_usd 4 (2 ^ 62) = 0" by code_simp+
  show ?thesis
    unfolding p approved_iff using d n
    by (simp add: risk_manager_init_def default_limits_def default_order_def)
qed

end
