(* ===== verification/Flat_Book.thy ===== *)
theory Flat_Book
  imports Hft_Prelude
begin

text \<open>
  \<open>FlatOrderBook\<close> of \<open>include/hft/protocol/OrderBookRecoveryManager.hpp\<close>: one side of a book as a
  fixed array of price levels of which the first \<open>m_count\<close> are in use, kept sorted by shifting. The
  shifting loops are modelled on the array; the refinement lemmas show that they implement the
  sorted-list operations, and the \<open>price_ladder\<close> locale states what clients may rely on: the book
  is a finite map from prices to quantities, in priority order.
\<close>

record PriceLevel =
  price_scaled :: int
  lvl_quantity :: u32

record FlatOrderBook =
  m_levels :: "PriceLevel list"
  m_count :: nat

definition flat_init :: "nat \<Rightarrow> FlatOrderBook" where
  "flat_init MaxLevels =
     \<lparr>m_levels = replicate MaxLevels \<lparr>price_scaled = 0, lvl_quantity = 0\<rparr>, m_count = 0\<rparr>"

definition flat_clear :: "FlatOrderBook \<Rightarrow> FlatOrderBook" where
  "flat_clear b = b\<lparr>m_count := 0\<rparr>"

definition flat_size :: "FlatOrderBook \<Rightarrow> nat" where
  "flat_size b = m_count b"

function insert_or_update_from :: "nat \<Rightarrow> bool \<Rightarrow> int \<Rightarrow> u32 \<Rightarrow> nat \<Rightarrow> FlatOrderBook \<Rightarrow> FlatOrderBook" where
  "insert_or_update_from MaxLevels IsBid p qty i b =
     (if i < m_count b
      then if price_scaled (m_levels b ! i) = p
           then b\<lparr>m_levels := (m_levels b)[i := (m_levels b ! i)\<lparr>lvl_quantity := qty\<rparr>]\<rparr>
           else if place_before IsBid p (price_scaled (m_levels b ! i))
           then if m_count b < MaxLevels
                then b\<lparr>m_levels := (shift_up (m_levels b) (m_count b) i)[i := \<lparr>price_scaled = p, lvl_quantity = qty\<rparr>],
                       m_count := m_count b + 1\<rparr>
                else b
           else insert_or_update_from MaxLevels IsBid p qty (i + 1) b
      else if m_count b < MaxLevels
      then b\<lparr>m_levels := (m_levels b)[m_count b := \<lparr>price_scaled = p, lvl_quantity = qty\<rparr>],
             m_count := m_count b + 1\<rparr>
      else b)"
  by pat_completeness auto
termination by (relation "measure (\<lambda>(m, s, p, q, i, b). m_count b - i)") auto

declare insert_or_update_from.simps [simp del]

definition insert_or_update :: "nat \<Rightarrow> bool \<Rightarrow> int \<Rightarrow> u32 \<Rightarrow> FlatOrderBook \<Rightarrow> FlatOrderBook" where
  "insert_or_update MaxLevels IsBid p qty b = insert_or_update_from MaxLevels IsBid p qty 0 b"

function erase_from :: "int \<Rightarrow> nat \<Rightarrow> FlatOrderBook \<Rightarrow> FlatOrderBook" where
  "erase_from p i b =
     (if i < m_count b
      then if price_scaled (m_levels b ! i) = p
           then b\<lparr>m_levels := shift_down (m_levels b) i (m_count b), m_count := m_count b - 1\<rparr>
           else erase_from p (i + 1) b
      else b)"
  by pat_completeness auto
termination by (relation "measure (\<lambda>(p, i, b). m_count b - i)") auto

declare erase_from.simps [simp del]

definition erase :: "int \<Rightarrow> FlatOrderBook \<Rightarrow> FlatOrderBook" where
  "erase p b = erase_from p 0 b"

subsection \<open>The array refines a sorted list\<close>

definition levels :: "FlatOrderBook \<Rightarrow> PriceLevel list" where
  "levels b = take (m_count b) (m_levels b)"

definition flat_wf :: "nat \<Rightarrow> FlatOrderBook \<Rightarrow> bool" where
  "flat_wf MaxLevels b \<longleftrightarrow> length (m_levels b) = MaxLevels \<and> m_count b \<le> MaxLevels"

fun ladder_put :: "nat \<Rightarrow> bool \<Rightarrow> int \<Rightarrow> u32 \<Rightarrow> PriceLevel list \<Rightarrow> PriceLevel list" where
  "ladder_put room IsBid p qty [] = (if 0 < room then [\<lparr>price_scaled = p, lvl_quantity = qty\<rparr>] else [])"
| "ladder_put room IsBid p qty (l # ls) =
     (if price_scaled l = p then l\<lparr>lvl_quantity := qty\<rparr> # ls
      else if place_before IsBid p (price_scaled l)
      then if 0 < room then \<lparr>price_scaled = p, lvl_quantity = qty\<rparr> # l # ls else l # ls
      else l # ladder_put room IsBid p qty ls)"

fun ladder_del :: "int \<Rightarrow> PriceLevel list \<Rightarrow> PriceLevel list" where
  "ladder_del p [] = []"
| "ladder_del p (l # ls) = (if price_scaled l = p then ls else l # ladder_del p ls)"

lemma insert_from_refines:
  assumes "flat_wf M b" "i \<le> m_count b"
  shows "flat_wf M (insert_or_update_from M s p q i b) \<and>
    levels (insert_or_update_from M s p q i b) =
      take i (levels b) @ ladder_put (M - m_count b) s p q (drop i (levels b))"
  using assms
proof (induction M s p q i b rule: insert_or_update_from.induct)
  case (1 M s p q i b)
  let ?L = "levels b"
  have wf: "length (m_levels b) = M" "m_count b \<le> M" using 1(2) by (simp_all add: flat_wf_def)
  show ?case
  proof (cases "i < m_count b")
    case False
    with 1(3) have "i = m_count b" by simp
    with wf show ?thesis
      by (subst (1 2) insert_or_update_from.simps)
        (auto simp: flat_wf_def levels_def take_Suc_conv_app_nth)
  next
    case lt: True
    then have split: "drop i ?L = m_levels b ! i # drop (Suc i) ?L"
      and hd: "?L ! i = m_levels b ! i" and len: "length ?L = m_count b"
      using wf by (simp_all add: levels_def Cons_nth_drop_Suc [symmetric])
    consider (eq) "price_scaled (m_levels b ! i) = p"
      | (here) "price_scaled (m_levels b ! i) \<noteq> p" "place_before s p (price_scaled (m_levels b ! i))"
      | (later) "price_scaled (m_levels b ! i) \<noteq> p" "\<not> place_before s p (price_scaled (m_levels b ! i))"
      by blast
    then show ?thesis
    proof cases
      case eq
      have "levels (b\<lparr>m_levels := (m_levels b)[i := x]\<rparr>) = take i ?L @ x # drop (Suc i) ?L" for x
        using lt wf by (simp add: levels_def take_update_swap upd_conv_take_nth_drop drop_take take_Cons')
      with eq lt split wf show ?thesis
        by (subst (1 2) insert_or_update_from.simps) (simp add: flat_wf_def)
    next
      case here
      then show ?thesis
        using lt wf split take_shift_up_insert [of i "m_count b" "m_levels b"] id_take_nth_drop [of i "m_levels b"]
        by (subst (1 2) insert_or_update_from.simps) (auto simp: flat_wf_def levels_def)
    next
      case later
      have "insert_or_update_from M s p q i b = insert_or_update_from M s p q (i + 1) b"
        using lt later by (subst insert_or_update_from.simps) simp
      moreover have "take (i + 1) ?L = take i ?L @ [m_levels b ! i]"
        using lt len hd by (simp add: take_Suc_conv_app_nth)
      ultimately show ?thesis using 1(1) [OF lt] later split 1(2) lt by simp
    qed
  qed
qed

lemma insert_or_update_refines:
  assumes "flat_wf M b"
  shows "flat_wf M (insert_or_update M s p q b) \<and>
    levels (insert_or_update M s p q b) = ladder_put (M - m_count b) s p q (levels b)"
  using insert_from_refines [OF assms, of 0] by (simp add: insert_or_update_def)

lemma erase_from_refines:
  assumes "flat_wf M b" "i \<le> m_count b"
  shows "flat_wf M (erase_from p i b) \<and>
    levels (erase_from p i b) = take i (levels b) @ ladder_del p (drop i (levels b))"
  using assms
proof (induction p i b rule: erase_from.induct)
  case (1 p i b)
  let ?L = "levels b"
  have wf: "length (m_levels b) = M" "m_count b \<le> M" using 1(2) by (simp_all add: flat_wf_def)
  show ?case
  proof (cases "i < m_count b")
    case False
    with 1(2,3) show ?thesis by (subst (1 2) erase_from.simps) (simp add: levels_def)
  next
    case lt: True
    then have split: "drop i ?L = m_levels b ! i # drop (Suc i) ?L"
      and hd: "?L ! i = m_levels b ! i" and len: "length ?L = m_count b"
      using wf by (simp_all add: levels_def Cons_nth_drop_Suc [symmetric])
    show ?thesis
    proof (cases "price_scaled (m_levels b ! i) = p")
      case True
      then show ?thesis
        using lt wf split take_shift_down [of i "m_count b" "m_levels b"]
        by (subst (1 2) erase_from.simps) (auto simp: flat_wf_def levels_def)
    next
      case False
      have "erase_from p i b = erase_from p (i + 1) b"
        using lt False by (subst erase_from.simps) simp
      moreover have "take (i + 1) ?L = take i ?L @ [m_levels b ! i]"
        using lt len hd by (simp add: take_Suc_conv_app_nth)
      ultimately show ?thesis using 1(1) [OF lt False] split 1(2) lt False by simp
    qed
  qed
qed

lemma erase_refines:
  assumes "flat_wf M b"
  shows "flat_wf M (erase p b) \<and> levels (erase p b) = ladder_del p (levels b)"
  using erase_from_refines [OF assms, of 0] by (simp add: erase_def)

subsection \<open>Sorted ladders as finite maps\<close>

definition ladder_sorted :: "bool \<Rightarrow> PriceLevel list \<Rightarrow> bool" where
  "ladder_sorted IsBid ls = sorted_wrt (\<lambda>a b. place_before IsBid (price_scaled a) (price_scaled b)) ls"

definition ladder_map :: "PriceLevel list \<Rightarrow> int \<rightharpoonup> u32" where
  "ladder_map ls = map_of (map (\<lambda>l. (price_scaled l, lvl_quantity l)) ls)"

lemma ladder_map_simps [simp]:
  "ladder_map [] = Map.empty"
  "ladder_map (l # ls) = (ladder_map ls)(price_scaled l \<mapsto> lvl_quantity l)"
  by (simp_all add: ladder_map_def)

lemma dom_ladder_map: "dom (ladder_map ls) = price_scaled ` set ls"
  by (simp add: ladder_map_def dom_map_of_conv_image_fst image_image)

lemma ladder_map_None: "p \<notin> price_scaled ` set ls \<Longrightarrow> ladder_map ls p = None"
  by (metis dom_ladder_map domIff)

lemma ladder_sorted_Cons [simp]:
  "ladder_sorted s [] = True"
  "ladder_sorted s (l # ls) \<longleftrightarrow>
     (\<forall>x \<in> set ls. place_before s (price_scaled l) (price_scaled x)) \<and> ladder_sorted s ls"
  by (simp_all add: ladder_sorted_def)

lemma ladder_put_prices:
  "price_scaled ` set (ladder_put r s p q ls) \<subseteq> insert p (price_scaled ` set ls)"
  by (induction ls) auto

lemma ladder_put_sorted: "ladder_sorted s ls \<Longrightarrow> ladder_sorted s (ladder_put r s p q ls)"
proof (induction ls)
  case (Cons l ls)
  have "place_before s (price_scaled l) (price_scaled x)"
    if "x \<in> set (ladder_put r s p q ls)" "price_scaled l \<noteq> p" "\<not> place_before s p (price_scaled l)" for x
    using that Cons.prems ladder_put_prices [of r s p q ls] place_before_total [of p "price_scaled l" s]
    by auto
  with Cons show ?case by (auto intro: place_before_trans)
qed simp

lemma ladder_put_map:
  assumes "ladder_sorted s ls" "0 < r \<or> p \<in> price_scaled ` set ls"
  shows "ladder_map (ladder_put r s p q ls) = (ladder_map ls)(p \<mapsto> q)"
  using assms
proof (induction ls)
  case (Cons l ls)
  have "p \<notin> price_scaled ` set ls" if "place_before s p (price_scaled l)"
    using that Cons.prems(1) place_before_trans by fastforce
  with Cons show ?case by (auto simp: fun_upd_twist)
qed simp

lemma ladder_put_full:
  assumes "ladder_sorted s ls" "p \<notin> price_scaled ` set ls"
  shows "ladder_put 0 s p q ls = ls"
  using assms by (induction ls) auto

lemma ladder_put_length:
  "ladder_sorted s ls \<Longrightarrow> length (ladder_put r s p q ls) =
     (if p \<in> price_scaled ` set ls \<or> r = 0 then length ls else length ls + 1)"
proof (induction ls)
  case (Cons l ls)
  have "p \<notin> price_scaled ` set ls" if "place_before s p (price_scaled l)"
    using that Cons.prems(1) place_before_trans by fastforce
  with Cons show ?case by auto
qed simp

lemma ladder_del_sorted:
  "ladder_sorted s ls \<Longrightarrow> ladder_sorted s (ladder_del p ls) \<and> set (ladder_del p ls) \<subseteq> set ls"
  by (induction ls) auto

lemma ladder_del_map:
  assumes "ladder_sorted s ls"
  shows "ladder_map (ladder_del p ls) = (ladder_map ls)(p := None)"
  using assms
proof (induction ls)
  case (Cons l ls)
  have "price_scaled l \<notin> price_scaled ` set ls" using Cons.prems by fastforce
  then have "ladder_map ls (price_scaled l) = None" by (rule ladder_map_None)
  with Cons show ?case by (auto simp: fun_upd_twist fun_upd_idem)
qed simp

lemma card_ladder_map: "ladder_sorted s ls \<Longrightarrow> card (dom (ladder_map ls)) = length ls"
  unfolding dom_ladder_map
proof (induction ls)
  case (Cons l ls)
  have "price_scaled l \<notin> price_scaled ` set ls" using Cons.prems by fastforce
  with Cons show ?case by simp
qed simp

subsection \<open>The contract of a price ladder\<close>

text \<open>A book update: \<open>Some q\<close> sets the quantity of a price, \<open>None\<close> removes it.\<close>

fun ladder_op :: "(int \<Rightarrow> u32 \<Rightarrow> 'b \<Rightarrow> 'b) \<Rightarrow> (int \<Rightarrow> 'b \<Rightarrow> 'b) \<Rightarrow> int \<times> u32 option \<Rightarrow> 'b \<Rightarrow> 'b" where
  "ladder_op put del (p, Some q) = put p q"
| "ladder_op put del (p, None) = del p"

locale price_ladder =
  fixes put :: "int \<Rightarrow> u32 \<Rightarrow> 'b \<Rightarrow> 'b"
    and del :: "int \<Rightarrow> 'b \<Rightarrow> 'b"
    and clear :: "'b \<Rightarrow> 'b"
    and rep :: "'b \<Rightarrow> int \<rightharpoonup> u32"
    and inv :: "'b \<Rightarrow> bool"
    and cap :: nat
  assumes put_inv: "inv b \<Longrightarrow> inv (put p q b)"
    and del_inv: "inv b \<Longrightarrow> inv (del p b)"
    and clear_inv: "inv b \<Longrightarrow> inv (clear b)"
    and clear_rep: "inv b \<Longrightarrow> rep (clear b) = Map.empty"
    and put_rep: "inv b \<Longrightarrow> p \<in> dom (rep b) \<or> card (dom (rep b)) < cap \<Longrightarrow> rep (put p q b) = (rep b)(p \<mapsto> q)"
    and put_full: "inv b \<Longrightarrow> p \<notin> dom (rep b) \<Longrightarrow> cap \<le> card (dom (rep b)) \<Longrightarrow> rep (put p q b) = rep b"
    and del_rep: "inv b \<Longrightarrow> rep (del p b) = (rep b)(p := None)"
    and finite_rep: "inv b \<Longrightarrow> finite (dom (rep b))"
begin

lemma op_inv: "inv b \<Longrightarrow> inv (ladder_op put del x b)"
  by (cases x; cases "snd x") (auto simp: put_inv del_inv)

lemma ops_inv: "inv b \<Longrightarrow> inv (fold (ladder_op put del) xs b)"
  by (induction xs arbitrary: b) (simp_all add: op_inv)

lemma op_rep:
  assumes "inv b" "card (insert (fst x) (dom (rep b))) \<le> cap"
  shows "rep (ladder_op put del x b) = (rep b)(fst x := snd x)"
proof -
  have "fst x \<in> dom (rep b) \<or> card (dom (rep b)) < cap"
    using assms finite_rep [OF assms(1)] by (auto simp: card_insert_if split: if_splits)
  with assms(1) show ?thesis
    by (cases x; cases "snd x") (auto simp: put_rep del_rep)
qed

lemma ops_rep:
  assumes "inv b" "card (dom (rep b) \<union> fst ` set xs) \<le> cap"
  shows "rep (fold (ladder_op put del) xs b) = fold (\<lambda>x m. m(fst x := snd x)) xs (rep b)"
  using assms
proof (induction xs arbitrary: b)
  case (Cons x xs)
  have fin: "finite (dom (rep b) \<union> fst ` set (x # xs))" using finite_rep [OF Cons.prems(1)] by simp
  have "card (insert (fst x) (dom (rep b))) \<le> card (dom (rep b) \<union> fst ` set (x # xs))"
    using fin by (intro card_mono) auto
  with Cons.prems have step: "rep (ladder_op put del x b) = (rep b)(fst x := snd x)"
    by (intro op_rep) simp_all
  have "card (dom ((rep b)(fst x := snd x)) \<union> fst ` set xs) \<le> card (dom (rep b) \<union> fst ` set (x # xs))"
    using fin by (intro card_mono) (auto split: if_splits)
  also have "\<dots> \<le> cap" by (rule Cons.prems(2))
  finally have "rep (fold (ladder_op put del) xs (ladder_op put del x b)) =
      fold (\<lambda>x m. m(fst x := snd x)) xs ((rep b)(fst x := snd x))"
    using Cons.IH [OF op_inv [OF Cons.prems(1)], of x] by (simp only: step)
  then show ?case by (simp only: fold_simps)
qed simp

end

definition flat_inv :: "nat \<Rightarrow> bool \<Rightarrow> FlatOrderBook \<Rightarrow> bool" where
  "flat_inv MaxLevels IsBid b \<longleftrightarrow> flat_wf MaxLevels b \<and> ladder_sorted IsBid (levels b)"

definition flat_map :: "FlatOrderBook \<Rightarrow> int \<rightharpoonup> u32" where
  "flat_map b = ladder_map (levels b)"

lemma length_levels: "flat_wf M b \<Longrightarrow> length (levels b) = m_count b"
  by (simp add: flat_wf_def levels_def)

lemma flat_inv_card: "flat_inv M s b \<Longrightarrow> card (dom (flat_map b)) = m_count b"
  using card_ladder_map [of s "levels b"] length_levels [of M b] by (simp add: flat_inv_def flat_map_def)

interpretation flat: price_ladder "insert_or_update M s" erase flat_clear flat_map "flat_inv M s" M for M s
proof (unfold_locales, goal_cases)
  case (1 b p q)
  then show ?case by (simp add: flat_inv_def insert_or_update_refines ladder_put_sorted)
next
  case (2 b p)
  then show ?case
    using erase_refines [of M b p] ladder_del_sorted [of s "levels b" p] by (simp add: flat_inv_def)
next
  case (3 b)
  then show ?case by (simp add: flat_inv_def flat_wf_def flat_clear_def levels_def)
next
  case (4 b)
  then show ?case by (simp add: flat_clear_def flat_map_def levels_def)
next
  case (5 b p q)
  then have "p \<in> price_scaled ` set (levels b) \<or> 0 < M - m_count b"
    using flat_inv_card [of M s b] by (auto simp: flat_map_def dom_ladder_map)
  with 5 show ?case
    by (auto simp: flat_inv_def flat_map_def insert_or_update_refines ladder_put_map)
next
  case (6 b p q)
  then have "M - m_count b = 0" using flat_inv_card [of M s b] by simp
  with 6 show ?case
    by (simp add: flat_inv_def flat_map_def insert_or_update_refines ladder_put_full dom_ladder_map)
next
  case (7 b p)
  then show ?case
    using erase_refines [of M b p] ladder_del_map [of s "levels b" p] by (simp add: flat_inv_def flat_map_def)
next
  case (8 b)
  then show ?case by (simp add: flat_map_def dom_ladder_map)
qed

lemma flat_init_inv: "flat_inv M s (flat_init M)" "flat_map (flat_init M) = Map.empty"
  by (simp_all add: flat_inv_def flat_wf_def flat_init_def levels_def flat_map_def)

subsection \<open>Properties of the flat book\<close>

text \<open>
  C29. A flat book is a finite map: any sequence of level updates and erasures that touches at most
  \<open>MaxLevels\<close> distinct prices leaves the array with exactly the map of the last writes.
\<close>

theorem flat_book_is_map:
  assumes "card (fst ` set xs) \<le> M"
  shows "flat_map (fold (ladder_op (insert_or_update M s) erase) xs (flat_init M)) =
    fold (\<lambda>x m. m(fst x := snd x)) xs Map.empty"
  using flat.ops_rep [OF flat_init_inv(1), where xs = xs] assms by (simp add: flat_init_inv(2))

theorem flat_book_is_map_witness:
  "flat_map (fold (ladder_op (insert_or_update 2 True) erase) [(5, Some 1), (7, Some 2), (5, Some 3)] (flat_init 2)) 5
     = Some 3"
  using flat_book_is_map [of "[(5, Some 1), (7, Some 2), (5, Some 3)]" 2 True]
  by (simp add: insert_commute)

text \<open>
  A flat book stays in priority order: after any sequence of operations, with no bound on the
  prices, the used prefix is strictly sorted (bids descending, asks ascending), within capacity,
  and its first level is the best price.
\<close>

theorem flat_book_sorted:
  "let b = fold (ladder_op (insert_or_update M s) erase) xs (flat_init M) in
     ladder_sorted s (levels b) \<and> length (levels b) = m_count b \<and> m_count b \<le> M \<and>
     (levels b \<noteq> [] \<longrightarrow>
        (\<forall>l \<in> set (tl (levels b)). place_before s (price_scaled (hd (levels b))) (price_scaled l)))"
proof -
  define b where "b = fold (ladder_op (insert_or_update M s) erase) xs (flat_init M)"
  have "flat_inv M s b" unfolding b_def by (rule flat.ops_inv [OF flat_init_inv(1)])
  then have "ladder_sorted s (levels b)" "length (levels b) = m_count b" "m_count b \<le> M"
    by (auto simp: flat_inv_def flat_wf_def length_levels)
  then show ?thesis
    unfolding b_def [symmetric] by (cases "levels b") auto
qed

theorem flat_book_sorted_witness:
  "ladder_sorted True (levels (fold (ladder_op (insert_or_update 2 True) erase) [(5, Some 1), (7, Some 2)] (flat_init 2)))"
  using flat_book_sorted [of 2 True "[(5, Some 1), (7, Some 2)]"] by (simp add: Let_def)

end
