(* ===== verification/Recovery_Manager.thy ===== *)
theory Recovery_Manager
  imports Flat_Book
begin

text \<open>
  \<open>OrderBookRecoveryManager\<close> of \<open>include/hft/protocol/OrderBookRecoveryManager.hpp\<close>: incremental
  updates are buffered until a snapshot arrives, then replayed over it.
\<close>

datatype RecoveryState = RECOVERING | SYNCHRONIZED

record IncrementalUpdate =
  inc_seq_num :: u64
  inc_symbol :: string
  inc_price_scaled :: int
  inc_quantity :: u32
  action :: char

record BookSnapshot =
  snapshot_last_seq :: u64
  snap_symbol :: string
  snap_bids :: "PriceLevel list"
  snap_asks :: "PriceLevel list"

record RecoveryManager =
  m_symbol :: string
  m_state :: RecoveryState
  m_last_applied_seq :: u64
  m_snapshot_applied :: bool
  rm_bids :: FlatOrderBook
  rm_asks :: FlatOrderBook
  m_buffered_incrementals :: "IncrementalUpdate list"
  m_incrementals_buffered_count :: nat
  m_incrementals_replayed_count :: nat
  m_incrementals_discarded_count :: nat

definition recovery_init :: "string \<Rightarrow> RecoveryManager" where
  "recovery_init symb = \<lparr>m_symbol = symb, m_state = RECOVERING, m_last_applied_seq = 0,
     m_snapshot_applied = False, rm_bids = flat_init 1024, rm_asks = flat_init 1024,
     m_buffered_incrementals = [], m_incrementals_buffered_count = 0,
     m_incrementals_replayed_count = 0, m_incrementals_discarded_count = 0\<rparr>"

definition apply_incremental :: "IncrementalUpdate \<Rightarrow> RecoveryManager \<Rightarrow> RecoveryManager" where
  "apply_incremental u m =
     (if action u = CHR ''0'' \<or> action u = CHR ''1''
      then m\<lparr>rm_bids := insert_or_update 1024 True (inc_price_scaled u) (inc_quantity u) (rm_bids m)\<rparr>
      else if action u = CHR ''2''
      then m\<lparr>rm_bids := erase (inc_price_scaled u) (rm_bids m)\<rparr>
      else m)"

definition process_incremental :: "IncrementalUpdate \<Rightarrow> RecoveryManager \<Rightarrow> bool \<times> RecoveryManager" where
  "process_incremental u m =
     (if m_state m = RECOVERING
      then (False, m\<lparr>m_buffered_incrementals := m_buffered_incrementals m @ [u],
                     m_incrementals_buffered_count := m_incrementals_buffered_count m + 1\<rparr>)
      else (True, (apply_incremental u m)\<lparr>m_last_applied_seq := inc_seq_num u\<rparr>))"

text \<open>One step of the replay loop, with its replayed and discarded counts.\<close>

definition replay_step ::
  "u64 \<Rightarrow> IncrementalUpdate \<Rightarrow> nat \<times> nat \<times> RecoveryManager \<Rightarrow> nat \<times> nat \<times> RecoveryManager" where
  "replay_step lastq inc st =
     (let (replayed, discarded, m) = st
      in if inc_seq_num inc \<le> lastq then (replayed, discarded + 1, m)
         else (replayed + 1, discarded, (apply_incremental inc m)\<lparr>m_last_applied_seq := inc_seq_num inc\<rparr>))"

definition load_levels :: "bool \<Rightarrow> PriceLevel list \<Rightarrow> FlatOrderBook \<Rightarrow> FlatOrderBook" where
  "load_levels IsBid ls b = fold (\<lambda>l. insert_or_update 1024 IsBid (price_scaled l) (lvl_quantity l)) ls b"

definition apply_snapshot :: "BookSnapshot \<Rightarrow> RecoveryManager \<Rightarrow> nat \<times> RecoveryManager" where
  "apply_snapshot snap m =
     (let m1 = m\<lparr>rm_bids := load_levels True (snap_bids snap) (flat_clear (rm_bids m)),
                 rm_asks := load_levels False (snap_asks snap) (flat_clear (rm_asks m)),
                 m_last_applied_seq := snapshot_last_seq snap, m_snapshot_applied := True\<rparr>;
          (replayed, discarded, m2) =
            fold (replay_step (snapshot_last_seq snap)) (m_buffered_incrementals m1) (0, 0, m1)
      in (replayed, m2\<lparr>m_incrementals_discarded_count := discarded,
                       m_incrementals_replayed_count := replayed,
                       m_buffered_incrementals := [], m_state := SYNCHRONIZED\<rparr>))"

definition trigger_recovery :: "RecoveryManager \<Rightarrow> RecoveryManager" where
  "trigger_recovery m = m\<lparr>m_state := RECOVERING, m_buffered_incrementals := []\<rparr>"

subsection \<open>Buffering and replay\<close>

definition fresh :: "u64 \<Rightarrow> IncrementalUpdate list \<Rightarrow> IncrementalUpdate list" where
  "fresh lastq us = filter (\<lambda>u. inc_seq_num u > lastq) us"

lemma replay_fold:
  "fold (replay_step lastq) us (r, d, m) =
     (r + length (fresh lastq us), d + length (filter (\<lambda>u. \<not> inc_seq_num u > lastq) us),
      fold (\<lambda>u m. (apply_incremental u m)\<lparr>m_last_applied_seq := inc_seq_num u\<rparr>) (fresh lastq us) m)"
proof (induction us arbitrary: r d m)
  case (Cons u us)
  show ?case
    by (cases "inc_seq_num u \<le> lastq") (use Cons in \<open>auto simp: replay_step_def fresh_def not_le\<close>)
qed (simp add: fresh_def)

lemma incrementals_buffer:
  "m_state m = RECOVERING \<Longrightarrow>
   fold (\<lambda>u m. snd (process_incremental u m)) us m =
     m\<lparr>m_buffered_incrementals := m_buffered_incrementals m @ us,
       m_incrementals_buffered_count := m_incrementals_buffered_count m + length us\<rparr>"
  by (induction us arbitrary: m) (simp_all add: process_incremental_def)

lemma apply_incremental_state [simp]:
  "m_state (apply_incremental u m) = m_state m" "rm_asks (apply_incremental u m) = rm_asks m"
  by (simp_all add: apply_incremental_def)

lemma incrementals_apply:
  "m_state m = SYNCHRONIZED \<Longrightarrow>
   fold (\<lambda>u m. snd (process_incremental u m)) us m =
     fold (\<lambda>u m. (apply_incremental u m)\<lparr>m_last_applied_seq := inc_seq_num u\<rparr>) us m"
  by (induction us arbitrary: m) (simp_all add: process_incremental_def)

subsection \<open>Content of the recovered book\<close>

definition level_op :: "PriceLevel \<Rightarrow> int \<times> u32 option" where
  "level_op l = (price_scaled l, Some (lvl_quantity l))"

definition inc_ops :: "IncrementalUpdate \<Rightarrow> (int \<times> u32 option) list" where
  "inc_ops u = (if action u = CHR ''0'' \<or> action u = CHR ''1''
     then [(inc_price_scaled u, Some (inc_quantity u))]
     else if action u = CHR ''2'' then [(inc_price_scaled u, None)] else [])"

lemma load_levels_ops:
  "load_levels s ls b = fold (ladder_op (insert_or_update 1024 s) erase) (map level_op ls) b"
  by (induction ls arbitrary: b) (simp_all add: load_levels_def level_op_def)

lemma apply_fold_books:
  "rm_bids (fold (\<lambda>u m. (apply_incremental u m)\<lparr>m_last_applied_seq := inc_seq_num u\<rparr>) us m) =
     fold (ladder_op (insert_or_update 1024 True) erase) (concat (map inc_ops us)) (rm_bids m) \<and>
   rm_asks (fold (\<lambda>u m. (apply_incremental u m)\<lparr>m_last_applied_seq := inc_seq_num u\<rparr>) us m) = rm_asks m \<and>
   m_last_applied_seq (fold (\<lambda>u m. (apply_incremental u m)\<lparr>m_last_applied_seq := inc_seq_num u\<rparr>) us m) =
     foldl (\<lambda>_ u. inc_seq_num u) (m_last_applied_seq m) us \<and>
   m_state (fold (\<lambda>u m. (apply_incremental u m)\<lparr>m_last_applied_seq := inc_seq_num u\<rparr>) us m) = m_state m"
  by (induction us arbitrary: m) (simp_all add: apply_incremental_def inc_ops_def)

lemma apply_snapshot_books:
  "rm_bids (snd (apply_snapshot snap m)) =
     fold (ladder_op (insert_or_update 1024 True) erase)
       (map level_op (snap_bids snap) @
        concat (map inc_ops (fresh (snapshot_last_seq snap) (m_buffered_incrementals m))))
       (flat_clear (rm_bids m)) \<and>
   rm_asks (snd (apply_snapshot snap m)) =
     fold (ladder_op (insert_or_update 1024 False) erase) (map level_op (snap_asks snap)) (flat_clear (rm_asks m))"
  by (simp add: apply_snapshot_def Let_def replay_fold apply_fold_books load_levels_ops split_beta)

definition recovery_inv :: "RecoveryManager \<Rightarrow> bool" where
  "recovery_inv m \<longleftrightarrow> flat_inv 1024 True (rm_bids m) \<and> flat_inv 1024 False (rm_asks m)"

lemma recovery_init_inv: "recovery_inv (recovery_init s)"
  by (simp add: recovery_inv_def recovery_init_def flat_init_inv)

subsection \<open>Properties of the recovery manager\<close>

text \<open>
  C28. Recovery loses nothing: buffering any updates after a recovery trigger and then applying a
  snapshot gives the same books and the same last sequence number as applying the snapshot first
  and then processing live exactly the updates that are newer than it; the counters split the
  buffered updates into replayed and discarded ones.
\<close>

theorem recovery_replay_equiv:
  "let m0 = trigger_recovery m; lastq = snapshot_last_seq snap;
       (replayed, m1) = apply_snapshot snap (fold (\<lambda>u m. snd (process_incremental u m)) us m0);
       m2 = fold (\<lambda>u m. snd (process_incremental u m)) (fresh lastq us) (snd (apply_snapshot snap m0))
   in rm_bids m1 = rm_bids m2 \<and> rm_asks m1 = rm_asks m2 \<and> m_state m1 = SYNCHRONIZED \<and>
      m_last_applied_seq m1 = m_last_applied_seq m2 \<and> replayed = length (fresh lastq us) \<and>
      m_incrementals_replayed_count m1 + m_incrementals_discarded_count m1 = length us"
  using sum_length_filter_compl [of "\<lambda>u. snapshot_last_seq snap < inc_seq_num u" us]
  by (simp add: trigger_recovery_def apply_snapshot_def Let_def split_beta incrementals_buffer
      incrementals_apply replay_fold apply_fold_books fresh_def)

text \<open>
  The recovered bids are the snapshot's bids overwritten by the newer buffered updates in
  arrival order, and the recovered asks are the snapshot's asks alone: while at most 1024 prices
  are involved per side, the arrays hold exactly those maps. No incremental update reaches the asks.
\<close>

theorem recovery_content:
  assumes "recovery_inv m"
    and "card (fst ` set (map level_op (snap_bids snap) @
           concat (map inc_ops (fresh (snapshot_last_seq snap) (m_buffered_incrementals m))))) \<le> 1024"
    and "card (price_scaled ` set (snap_asks snap)) \<le> 1024"
  shows "flat_map (rm_bids (snd (apply_snapshot snap m))) =
      fold (\<lambda>x f. f(fst x := snd x))
        (map level_op (snap_bids snap) @
         concat (map inc_ops (fresh (snapshot_last_seq snap) (m_buffered_incrementals m)))) Map.empty \<and>
    flat_map (rm_asks (snd (apply_snapshot snap m))) =
      fold (\<lambda>x f. f(fst x := snd x)) (map level_op (snap_asks snap)) Map.empty"
proof -
  have inv: "flat_inv 1024 True (flat_clear (rm_bids m))" "flat_inv 1024 False (flat_clear (rm_asks m))"
    and emp: "flat_map (flat_clear (rm_bids m)) = Map.empty" "flat_map (flat_clear (rm_asks m)) = Map.empty"
    using assms(1) flat.clear_inv flat.clear_rep [of 1024] unfolding recovery_inv_def by blast+
  have "fst ` set (map level_op ls) = price_scaled ` set ls" for ls
    by (auto simp: level_op_def image_image)
  then have "card (fst ` set (map level_op (snap_asks snap))) \<le> 1024" using assms(3) by simp
  then show ?thesis
    using flat.ops_rep [OF inv(2), of "map level_op (snap_asks snap)"] assms(2)
      flat.ops_rep [OF inv(1), of "map level_op (snap_bids snap) @
        concat (map inc_ops (fresh (snapshot_last_seq snap) (m_buffered_incrementals m)))"]
    by (simp only: apply_snapshot_books emp dom_empty Un_empty_left simp_thms)
qed

definition sample_snapshot :: BookSnapshot where
  "sample_snapshot = \<lparr>snapshot_last_seq = 100, snap_symbol = ''PETR4'',
     snap_bids = [\<lparr>price_scaled = 35000000, lvl_quantity = 500\<rparr>],
     snap_asks = [\<lparr>price_scaled = 35100000, lvl_quantity = 700\<rparr>]\<rparr>"

theorem recovery_content_witness:
  "flat_map (rm_bids (snd (apply_snapshot sample_snapshot (recovery_init ''PETR4'')))) 35000000 = Some 500"
  using recovery_content [OF recovery_init_inv, of sample_snapshot "''PETR4''"]
  by (simp add: sample_snapshot_def recovery_init_def level_op_def fresh_def)

end
