(* ===== verification/Limit_Book.thy ===== *)
theory Limit_Book
  imports Fix_Parser
begin

text \<open>
  The abstract price-time priority book that both matching engines implement: each side is a list
  of resting orders, best price first and oldest first within a price. The \<open>matching_book\<close> locale
  states the refinement contract; \<open>MatchingBook\<close> and \<open>ZeroAllocHftOrderBook\<close> provide it.
\<close>

record resting =
  r_price :: int
  r_id :: string
  r_qty :: u32

record fill =
  f_price :: int
  f_id :: string
  f_qty :: u32

record lob =
  lob_bids :: "resting list"
  lob_asks :: "resting list"

definition fill_of :: "resting \<Rightarrow> u32 \<Rightarrow> fill" where
  "fill_of r q = \<lparr>f_price = r_price r, f_id = r_id r, f_qty = q\<rparr>"

text \<open>
  Matching against the side \<open>rs\<close> (\<open>bid\<close> says whether \<open>rs\<close> are bids) with a limit \<open>p\<close>: consume from
  the front while the limit allows it.
\<close>

fun lob_match :: "bool \<Rightarrow> int \<Rightarrow> u32 \<Rightarrow> resting list \<Rightarrow> fill list \<times> u32 \<times> resting list" where
  "lob_match bid p rem [] = ([], rem, [])"
| "lob_match bid p rem (r # rs) =
     (if rem = 0 \<or> place_before bid p (r_price r) then ([], rem, r # rs)
      else if r_qty r \<le> rem
      then let (fs, rem', rs') = lob_match bid p (rem - r_qty r) rs in (fill_of r (r_qty r) # fs, rem', rs')
      else ([fill_of r rem], 0, r\<lparr>r_qty := r_qty r - rem\<rparr> # rs))"

text \<open>Resting a residual behind everything at least as good on its own side.\<close>

definition lob_rest :: "bool \<Rightarrow> resting \<Rightarrow> resting list \<Rightarrow> resting list" where
  "lob_rest bid r rs = takeWhile (\<lambda>x. \<not> place_before bid (r_price r) (r_price x)) rs @ r #
     dropWhile (\<lambda>x. \<not> place_before bid (r_price r) (r_price x)) rs"

definition lob_submit :: "int \<Rightarrow> int \<Rightarrow> u32 \<Rightarrow> string \<Rightarrow> lob \<Rightarrow> fill list \<times> lob" where
  "lob_submit sd p q i b =
     (if sd = 1
      then let (fs, rem, asks) = lob_match False p q (lob_asks b)
           in (fs, \<lparr>lob_bids = (if rem > 0 then lob_rest True \<lparr>r_price = p, r_id = i, r_qty = rem\<rparr> (lob_bids b)
                                else lob_bids b), lob_asks = asks\<rparr>)
      else if sd = 2
      then let (fs, rem, bids) = lob_match True p q (lob_bids b)
           in (fs, \<lparr>lob_bids = bids,
                    lob_asks = (if rem > 0 then lob_rest False \<lparr>r_price = p, r_id = i, r_qty = rem\<rparr> (lob_asks b)
                                else lob_asks b)\<rparr>)
      else ([], b))"

definition lob_empty :: lob where
  "lob_empty = \<lparr>lob_bids = [], lob_asks = []\<rparr>"

subsection \<open>Invariant\<close>

definition side_sorted :: "bool \<Rightarrow> resting list \<Rightarrow> bool" where
  "side_sorted bid rs = sorted_wrt (\<lambda>a b. \<not> place_before bid (r_price b) (r_price a)) rs"

definition side_pos :: "resting list \<Rightarrow> bool" where
  "side_pos rs = list_all (\<lambda>r. r_qty r > 0) rs"

definition uncrossed :: "lob \<Rightarrow> bool" where
  "uncrossed b \<longleftrightarrow> (\<forall>x \<in> set (lob_bids b). \<forall>y \<in> set (lob_asks b). r_price x < r_price y)"

definition lob_inv :: "lob \<Rightarrow> bool" where
  "lob_inv b \<longleftrightarrow> side_sorted True (lob_bids b) \<and> side_sorted False (lob_asks b) \<and>
     side_pos (lob_bids b) \<and> side_pos (lob_asks b) \<and> uncrossed b"

definition qty_sum :: "resting list \<Rightarrow> nat" where
  "qty_sum rs = sum_list (map (\<lambda>r. unat (r_qty r)) rs)"

definition fill_sum :: "fill list \<Rightarrow> nat" where
  "fill_sum fs = sum_list (map (\<lambda>f. unat (f_qty f)) fs)"

lemma qty_sum_simps [simp]:
  "qty_sum [] = 0" "qty_sum (r # rs) = unat (r_qty r) + qty_sum rs" "qty_sum (rs @ rs') = qty_sum rs + qty_sum rs'"
  by (simp_all add: qty_sum_def)

lemma fill_sum_simps [simp]: "fill_sum [] = 0" "fill_sum (f # fs) = unat (f_qty f) + fill_sum fs"
  by (simp_all add: fill_sum_def)

lemma side_sorted_Cons [simp]:
  "side_sorted bid []"
  "side_sorted bid (r # rs) \<longleftrightarrow> (\<forall>x \<in> set rs. \<not> place_before bid (r_price x) (r_price r)) \<and> side_sorted bid rs"
  by (simp_all add: side_sorted_def)

lemma side_pos_Cons [simp]: "side_pos []" "side_pos (r # rs) \<longleftrightarrow> r_qty r > 0 \<and> side_pos rs"
  by (simp_all add: side_pos_def)

lemma fill_of_simps [simp]: "f_price (fill_of r q) = r_price r" "f_id (fill_of r q) = r_id r" "f_qty (fill_of r q) = q"
  by (simp_all add: fill_of_def)

lemma unat_minus_le: "(a :: 'a::len word) \<le> b \<Longrightarrow> unat (b - a) = unat b - unat a"
  by (simp add: unat_sub)

lemma lob_match_conserves:
  assumes "lob_match bid p rem rs = (fs, rem', rs')"
  shows "unat rem = fill_sum fs + unat rem' \<and> qty_sum rs = fill_sum fs + qty_sum rs'"
  using assms
proof (induction bid p rem rs arbitrary: fs rem' rs' rule: lob_match.induct)
  case (2 bid p rem r rs)
  consider (stop) "rem = 0 \<or> place_before bid p (r_price r)"
    | (whole) "\<not> (rem = 0 \<or> place_before bid p (r_price r))" "r_qty r \<le> rem"
    | (part) "\<not> (rem = 0 \<or> place_before bid p (r_price r))" "\<not> r_qty r \<le> rem" by blast
  then show ?case
  proof cases
    case whole
    obtain fs1 where rec: "lob_match bid p (rem - r_qty r) rs = (fs1, rem', rs')" "fs = fill_of r (r_qty r) # fs1"
      using 2(2) whole by (auto split: prod.splits)
    from 2(1) [OF whole rec(1)] show ?thesis
      using whole(2) by (auto simp: rec unat_minus_le word_le_nat_alt)
  next
    case part
    then have "rem \<le> r_qty r" by simp
    with 2(2) part show ?thesis by (auto simp: unat_minus_le word_le_nat_alt)
  qed (use 2(2) in simp)
qed simp

lemma lob_match_stops:
  assumes "lob_match bid p rem rs = (fs, rem', rs')"
  shows "rem' = 0 \<or> rs' = [] \<or> place_before bid p (r_price (hd rs'))"
  using assms
proof (induction bid p rem rs arbitrary: fs rem' rs' rule: lob_match.induct)
  case (2 bid p rem r rs)
  then show ?case by (auto split: if_splits prod.splits)
qed simp

lemma lob_match_prices:
  assumes "lob_match bid p rem rs = (fs, rem', rs')"
  shows "(\<forall>f \<in> set fs. \<not> place_before bid p (f_price f)) \<and> r_price ` set rs' \<subseteq> r_price ` set rs"
  using assms
proof (induction bid p rem rs arbitrary: fs rem' rs' rule: lob_match.induct)
  case (2 bid p rem r rs)
  then show ?case by (fastforce split: if_splits prod.splits)
qed simp

lemma lob_match_sorted:
  assumes "lob_match bid p rem rs = (fs, rem', rs')" "side_sorted bid rs" "side_pos rs"
  shows "side_sorted bid rs' \<and> side_pos rs'"
  using assms
proof (induction bid p rem rs arbitrary: fs rem' rs' rule: lob_match.induct)
  case (2 bid p rem r rs)
  have "r_qty r - rem > 0" if "\<not> r_qty r \<le> rem"
    using that by (simp add: word_less_nat_alt word_le_nat_alt unat_sub)
  with 2 show ?case by (auto split: if_splits prod.splits)
qed simp

text \<open>
  Price-time priority: the fills are the front of the queue in order, every one but the last takes
  the whole resting order, and what is left is the rest of the queue, possibly with the last order
  reduced.
\<close>

lemma lob_match_priority:
  assumes "lob_match bid p rem rs = (fs, rem', rs')"
  shows "map (\<lambda>f. (f_price f, f_id f)) fs = map (\<lambda>r. (r_price r, r_id r)) (take (length fs) rs) \<and>
    (\<forall>i. Suc i < length fs \<longrightarrow> f_qty (fs ! i) = r_qty (rs ! i)) \<and>
    (rs' = drop (length fs) rs \<and> (fs \<noteq> [] \<longrightarrow> f_qty (List.last fs) = r_qty (rs ! (length fs - 1))) \<or>
     rem' = 0 \<and> fs \<noteq> [] \<and> (\<exists>q. rs' = (rs ! (length fs - 1))\<lparr>r_qty := q\<rparr> # drop (length fs) rs))"
  using assms
proof (induction bid p rem rs arbitrary: fs rem' rs' rule: lob_match.induct)
  case (2 bid p rem r rs)
  consider (stop) "rem = 0 \<or> place_before bid p (r_price r)"
    | (whole) "\<not> (rem = 0 \<or> place_before bid p (r_price r))" "r_qty r \<le> rem"
    | (part) "\<not> (rem = 0 \<or> place_before bid p (r_price r))" "\<not> r_qty r \<le> rem" by blast
  then show ?case
  proof cases
    case whole
    obtain fs1 where rec: "lob_match bid p (rem - r_qty r) rs = (fs1, rem', rs')" "fs = fill_of r (r_qty r) # fs1"
      using 2(2) whole by (auto split: prod.splits)
    note IH = 2(1) [OF whole rec(1)]
    have "f_qty (fs ! i) = r_qty ((r # rs) ! i)" if "Suc i < length fs" for i
      using that IH by (cases i) (auto simp: rec(2))
    with IH show ?thesis by (cases fs1) (auto simp: rec(2) nth_Cons')
  next
    case part
    with 2(2) have "fs = [fill_of r rem]" "rem' = 0" "rs' = r\<lparr>r_qty := r_qty r - rem\<rparr> # rs" by auto
    then show ?thesis by auto
  qed (use 2(2) in auto)
qed simp

text \<open>Every fill takes what is left of the order or of the resting order, whichever is less.\<close>

lemma lob_match_quantities:
  assumes "lob_match bid p rem rs = (fs, rem', rs')" "i < length fs"
  shows "unat (f_qty (fs ! i)) = min (unat rem - fill_sum (take i fs)) (unat (r_qty (rs ! i)))"
  using assms
proof (induction bid p rem rs arbitrary: fs rem' rs' i rule: lob_match.induct)
  case (2 bid p rem r rs)
  consider (stop) "rem = 0 \<or> place_before bid p (r_price r)"
    | (whole) "\<not> (rem = 0 \<or> place_before bid p (r_price r))" "r_qty r \<le> rem"
    | (part) "\<not> (rem = 0 \<or> place_before bid p (r_price r))" "\<not> r_qty r \<le> rem" by blast
  then show ?case
  proof cases
    case whole
    obtain fs1 where rec: "lob_match bid p (rem - r_qty r) rs = (fs1, rem', rs')" "fs = fill_of r (r_qty r) # fs1"
      using 2(2) whole by (auto split: prod.splits)
    have le: "unat (r_qty r) \<le> unat rem" using whole(2) by (simp add: word_le_nat_alt)
    then have "unat (rem - r_qty r) = unat rem - unat (r_qty r)" using whole(2) by (simp add: unat_sub)
    with 2(1) [OF whole rec(1)] 2(3) le show ?thesis by (cases i) (simp_all add: rec(2) fill_sum_def fill_of_def)
  next
    case part
    with 2(2) have "fs = [fill_of r rem]" by auto
    with part 2(3) show ?thesis by (simp add: fill_sum_def fill_of_def word_le_nat_alt)
  qed (use 2(2,3) in auto)
qed simp

lemma blocked_uncrossed:
  assumes "side_sorted bid rs" "rs = [] \<or> place_before bid p (r_price (hd rs))" "y \<in> set rs"
  shows "place_before bid p (r_price y)"
proof (cases rs)
  case (Cons z zs)
  then have "place_before bid p (r_price z)" using assms(2) by simp
  moreover have "y = z \<or> \<not> place_before bid (r_price y) (r_price z)" using assms Cons by auto
  ultimately show ?thesis by (metis place_before_total place_before_trans)
qed (use assms in simp)

lemma side_sorted_insert:
  assumes "side_sorted bid (xs @ ys)" "\<forall>x \<in> set xs. \<not> place_before bid (r_price r) (r_price x)"
    and "ys = [] \<or> place_before bid (r_price r) (r_price (hd ys))"
  shows "side_sorted bid (xs @ r # ys)"
proof -
  have "side_sorted bid ys" using assms(1) by (simp add: side_sorted_def sorted_wrt_append)
  then have "\<forall>y \<in> set ys. \<not> place_before bid (r_price y) (r_price r)"
    using blocked_uncrossed [OF _ assms(3)] place_before_asym by blast
  with assms(1,2) show ?thesis by (auto simp: side_sorted_def sorted_wrt_append)
qed

lemma lob_rest_props:
  assumes "side_sorted bid rs" "side_pos rs" "r_qty r > 0"
  shows "side_sorted bid (lob_rest bid r rs)" "side_pos (lob_rest bid r rs)"
    "set (lob_rest bid r rs) = insert r (set rs)" "qty_sum (lob_rest bid r rs) = unat (r_qty r) + qty_sum rs"
proof -
  let ?P = "\<lambda>x. \<not> place_before bid (r_price r) (r_price x)"
  define ts where "ts = takeWhile ?P rs"
  define ds where "ds = dropWhile ?P rs"
  have id: "rs = ts @ ds" and rest: "lob_rest bid r rs = ts @ r # ds"
    by (simp_all add: ts_def ds_def lob_rest_def)
  have front: "\<forall>x \<in> set ts. ?P x" unfolding ts_def by (blast dest: set_takeWhileD)
  have behind: "ds = [] \<or> place_before bid (r_price r) (r_price (hd ds))"
    unfolding ds_def by (metis hd_dropWhile)
  show "side_sorted bid (lob_rest bid r rs)"
    unfolding rest using assms(1) front behind by (intro side_sorted_insert) (simp_all flip: id)
  show "side_pos (lob_rest bid r rs)" "set (lob_rest bid r rs) = insert r (set rs)"
    "qty_sum (lob_rest bid r rs) = unat (r_qty r) + qty_sum rs"
    unfolding rest using assms(2,3) by (auto simp: side_pos_def id)
qed

lemma lob_submit_inv:
  assumes "lob_inv b"
  shows "lob_inv (snd (lob_submit sd p q i b))"
proof -
  have I: "side_sorted True (lob_bids b)" "side_sorted False (lob_asks b)" "side_pos (lob_bids b)"
    "side_pos (lob_asks b)" "uncrossed b" using assms by (simp_all add: lob_inv_def)
  obtain fs rem rs where ma: "lob_match False p q (lob_asks b) = (fs, rem, rs)" by (metis prod_cases3)
  obtain fs' rem' rs' where mb: "lob_match True p q (lob_bids b) = (fs', rem', rs')" by (metis prod_cases3)
  have a: "side_sorted False rs" "side_pos rs" using lob_match_sorted [OF ma I(2,4)] by simp_all
  have b: "side_sorted True rs'" "side_pos rs'" using lob_match_sorted [OF mb I(1,3)] by simp_all
  let ?r = "\<lparr>r_price = p, r_id = i, r_qty = rem\<rparr>" and ?r' = "\<lparr>r_price = p, r_id = i, r_qty = rem'\<rparr>"
  have ua: "r_price x < r_price y" if "x \<in> set (lob_bids b)" "y \<in> set rs" for x y
    using that I(5) lob_match_prices [OF ma] by (force simp: uncrossed_def)
  have ub: "r_price x < r_price y" if "x \<in> set rs'" "y \<in> set (lob_asks b)" for x y
    using that I(5) lob_match_prices [OF mb] by (force simp: uncrossed_def)
  have na: "p < r_price y" if "rem > 0" "y \<in> set rs" for y
    using blocked_uncrossed [OF a(1), of p y] lob_match_stops [OF ma] that by (auto simp: place_before_def)
  have nb: "r_price x < p" if "rem' > 0" "x \<in> set rs'" for x
    using blocked_uncrossed [OF b(1), of p x] lob_match_stops [OF mb] that by (auto simp: place_before_def)
  show ?thesis
    using I a b ua ub na nb lob_rest_props [OF I(1,3), of ?r] lob_rest_props [OF I(2,4), of ?r']
    by (auto simp: lob_submit_def ma mb lob_inv_def uncrossed_def)
qed

lemma lob_submit_conserves:
  assumes "lob_submit sd p q i b = (fs, b')" "sd = 1 \<or> sd = 2" "lob_inv b"
  shows "unat q + qty_sum (lob_bids b) + qty_sum (lob_asks b) =
    2 * fill_sum fs + qty_sum (lob_bids b') + qty_sum (lob_asks b')"
proof -
  have I: "side_sorted True (lob_bids b)" "side_sorted False (lob_asks b)" "side_pos (lob_bids b)"
    "side_pos (lob_asks b)" using assms(3) by (simp_all add: lob_inv_def)
  obtain f1 rem rs where ma: "lob_match False p q (lob_asks b) = (f1, rem, rs)" by (metis prod_cases3)
  obtain f2 rem' rs' where mb: "lob_match True p q (lob_bids b) = (f2, rem', rs')" by (metis prod_cases3)
  have "unat rem = 0" if "\<not> rem > 0" using that by (simp add: word_less_nat_alt)
  moreover have "unat rem' = 0" if "\<not> rem' > 0" using that by (simp add: word_less_nat_alt)
  ultimately show ?thesis
    using assms(1,2) lob_match_conserves [OF ma] lob_match_conserves [OF mb]
      lob_rest_props(4) [OF I(1,3), of "\<lparr>r_price = p, r_id = i, r_qty = rem\<rparr>"]
      lob_rest_props(4) [OF I(2,4), of "\<lparr>r_price = p, r_id = i, r_qty = rem'\<rparr>"]
    by (auto simp: lob_submit_def ma mb split: if_splits)
qed

subsection \<open>The contract of a matching book\<close>

text \<open>
  A book implements the specification: \<open>submit\<close> handles one order and reports fills, \<open>abs\<close> reads the
  resting orders, \<open>ident\<close> is how the book stores client ids and \<open>ok\<close> says when its capacity suffices
  for an order. The state invariant holds for every order, capacity or not.
\<close>

definition spec_submit :: "(string \<Rightarrow> string) \<Rightarrow> ParsedOrder \<Rightarrow> lob \<Rightarrow> fill list \<times> lob" where
  "spec_submit ident ord = lob_submit (side ord) (price ord) (of_int (quantity ord)) (ident (cl_ord_id ord))"

fun book_run :: "(ParsedOrder \<Rightarrow> 's \<Rightarrow> fill list \<times> 's) \<Rightarrow> ParsedOrder list \<Rightarrow> 's \<Rightarrow> fill list list \<times> 's" where
  "book_run submit [] s = ([], s)"
| "book_run submit (ord # ords) s =
     (let (fs, s') = submit ord s; (fss, s'') = book_run submit ords s' in (fs # fss, s''))"

fun run_ok :: "(ParsedOrder \<Rightarrow> 's \<Rightarrow> fill list \<times> 's) \<Rightarrow> (ParsedOrder \<Rightarrow> 's \<Rightarrow> bool) \<Rightarrow> ParsedOrder list \<Rightarrow> 's \<Rightarrow> bool" where
  "run_ok submit ok [] s = True"
| "run_ok submit ok (ord # ords) s = (ok ord s \<and> run_ok submit ok ords (snd (submit ord s)))"

definition ordered_qty :: "ParsedOrder list \<Rightarrow> nat" where
  "ordered_qty ords = sum_list (map (\<lambda>ord. if side ord = 1 \<or> side ord = 2
     then unat (of_int (quantity ord) :: u32) else 0) ords)"

definition lob_qty :: "lob \<Rightarrow> nat" where
  "lob_qty b = qty_sum (lob_bids b) + qty_sum (lob_asks b)"

lemma spec_submit_inv: "lob_inv b \<Longrightarrow> lob_inv (snd (spec_submit ident ord b))"
  by (simp add: spec_submit_def lob_submit_inv)

lemma spec_submit_conserves:
  assumes "lob_inv b"
  shows "ordered_qty [ord] + lob_qty b =
    2 * fill_sum (fst (spec_submit ident ord b)) + lob_qty (snd (spec_submit ident ord b))"
proof (cases "side ord = 1 \<or> side ord = 2")
  case True
  with lob_submit_conserves [OF prod.collapse [symmetric] True assms,
      of "of_int (quantity ord)" "price ord" "ident (cl_ord_id ord)"]
  show ?thesis by (simp add: spec_submit_def ordered_qty_def lob_qty_def)
qed (simp add: spec_submit_def lob_submit_def ordered_qty_def)

locale matching_book =
  fixes submit :: "ParsedOrder \<Rightarrow> 's \<Rightarrow> fill list \<times> 's"
    and abs :: "'s \<Rightarrow> lob"
    and inv :: "'s \<Rightarrow> bool"
    and ok :: "ParsedOrder \<Rightarrow> 's \<Rightarrow> bool"
    and ident :: "string \<Rightarrow> string"
  assumes inv_abs: "inv s \<Longrightarrow> lob_inv (abs s)"
    and submit_inv: "inv s \<Longrightarrow> inv (snd (submit ord s))"
    and submit_refines: "inv s \<Longrightarrow> ok ord s \<Longrightarrow>
      fst (submit ord s) = fst (spec_submit ident ord (abs s)) \<and>
      abs (snd (submit ord s)) = snd (spec_submit ident ord (abs s))"
begin

lemma run_inv: "inv s \<Longrightarrow> inv (snd (book_run submit ords s))"
  by (induction ords arbitrary: s) (auto simp: Let_def split_beta submit_inv)

lemma run_never_crossed: "inv s \<Longrightarrow> lob_inv (abs (snd (book_run submit ords s)))"
  by (intro inv_abs run_inv)

lemma run_refines:
  "inv s \<Longrightarrow> run_ok submit ok ords s \<Longrightarrow>
     fst (book_run submit ords s) = fst (book_run (spec_submit ident) ords (abs s)) \<and>
     abs (snd (book_run submit ords s)) = snd (book_run (spec_submit ident) ords (abs s))"
proof (induction ords arbitrary: s)
  case (Cons ord ords)
  have "inv (snd (submit ord s))" using Cons.prems by (simp add: submit_inv)
  with Cons.IH [of "snd (submit ord s)"] submit_refines [of s ord] Cons.prems show ?case
    by (simp add: Let_def split_beta)
qed simp

lemma run_conserves:
  "inv s \<Longrightarrow> run_ok submit ok ords s \<Longrightarrow>
     ordered_qty ords + lob_qty (abs s) =
       2 * sum_list (map fill_sum (fst (book_run submit ords s))) + lob_qty (abs (snd (book_run submit ords s)))"
proof (induction ords arbitrary: s)
  case (Cons ord ords)
  have "inv (snd (submit ord s))" using Cons.prems by (simp add: submit_inv)
  with Cons.IH [of "snd (submit ord s)"] submit_refines [of s ord] Cons.prems
    spec_submit_conserves [OF inv_abs [OF Cons.prems(1)], of ord ident]
  show ?case by (simp add: Let_def split_beta ordered_qty_def)
qed (simp add: ordered_qty_def)

end


subsection \<open>Bounds on what rests and trades\<close>

text \<open>Every resting order has an admissible price and at most \<open>mx\<close> of quantity.\<close>

definition side_within :: "(int \<Rightarrow> bool) \<Rightarrow> u32 \<Rightarrow> resting list \<Rightarrow> bool" where
  "side_within Q mx rs = list_all (\<lambda>r. Q (r_price r) \<and> r_qty r \<le> mx) rs"

definition fills_within :: "(int \<Rightarrow> bool) \<Rightarrow> u32 \<Rightarrow> fill list \<Rightarrow> bool" where
  "fills_within Q mx fs = list_all (\<lambda>f. Q (f_price f) \<and> f_qty f \<le> mx) fs"

definition lob_within :: "(int \<Rightarrow> bool) \<Rightarrow> u32 \<Rightarrow> lob \<Rightarrow> bool" where
  "lob_within Q mx b \<longleftrightarrow> side_within Q mx (lob_bids b) \<and> side_within Q mx (lob_asks b)"

lemma word_diff_le_self: "(a :: u32) \<le> b \<Longrightarrow> b - a \<le> b"
  by (simp add: word_le_nat_alt unat_minus_le)

lemma lob_match_within:
  assumes "lob_match bid p rem rs = (fs, rem', rs')" "side_within Q mx rs"
  shows "side_within Q mx rs' \<and> fills_within Q mx fs \<and> rem' \<le> rem"
  using assms
proof (induction bid p rem rs arbitrary: fs rem' rs' rule: lob_match.induct)
  case (2 bid p rem r rs)
  show ?case
  proof (cases "rem = 0 \<or> place_before bid p (r_price r)")
    case True
    with 2(2,3) show ?thesis by (auto simp: fills_within_def)
  next
    case False
    note r = 2(3) [unfolded side_within_def, simplified]
    show ?thesis
    proof (cases "r_qty r \<le> rem")
      case True
      obtain gs where m: "lob_match bid p (rem - r_qty r) rs = (gs, rem', rs')" "fs = fill_of r (r_qty r) # gs"
        using 2(2) False True by (auto split: prod.splits)
      have "side_within Q mx rs" using r by (simp add: side_within_def)
      from 2(1) [OF False True m(1) this] r m(2) word_diff_le_self [OF True] show ?thesis
        by (auto simp: fills_within_def)
    next
      case part: False
      then have "rem \<le> r_qty r" by simp
      with word_diff_le_self [OF this] r 2(2) False part show ?thesis
        by (auto simp: fills_within_def side_within_def)
    qed
  qed
qed (simp add: fills_within_def)

lemma lob_rest_within:
  assumes "side_within Q mx rs" "Q (r_price r)" "r_qty r \<le> mx"
  shows "side_within Q mx (lob_rest bid r rs)"
  using assms by (auto simp: side_within_def lob_rest_def list_all_iff dest: set_takeWhileD set_dropWhileD)

lemma spec_submit_within:
  assumes "lob_within Q mx b" "Q (price ord)" "(of_int (quantity ord) :: u32) \<le> mx"
    and "spec_submit ident ord b = (fs, b')"
  shows "lob_within Q mx b' \<and> fills_within Q mx fs"
proof -
  have w: "side_within Q mx (lob_bids b)" "side_within Q mx (lob_asks b)" using assms(1) by (simp_all add: lob_within_def)
  consider (buy) "side ord = 1" | (sell) "side ord = 2" | (other) "side ord \<noteq> 1" "side ord \<noteq> 2" by blast
  then show ?thesis
  proof cases
    case buy
    obtain rem rs where m: "lob_match False (price ord) (of_int (quantity ord)) (lob_asks b) = (fs, rem, rs)"
      using assms(4) buy by (auto simp: spec_submit_def lob_submit_def split: prod.splits)
    from lob_match_within [OF m w(2)] assms(2-4) buy w(1) show ?thesis
      by (auto simp: spec_submit_def lob_submit_def m lob_within_def intro!: lob_rest_within)
  next
    case sell
    obtain rem rs where m: "lob_match True (price ord) (of_int (quantity ord)) (lob_bids b) = (fs, rem, rs)"
      using assms(4) sell by (auto simp: spec_submit_def lob_submit_def split: prod.splits)
    from lob_match_within [OF m w(1)] assms(2-4) sell w(2) show ?thesis
      by (auto simp: spec_submit_def lob_submit_def m lob_within_def intro!: lob_rest_within)
  next
    case other
    with assms(1,4) show ?thesis by (auto simp: spec_submit_def lob_submit_def fills_within_def)
  qed
qed

end
