(* ===== verification/Matching_Engine.thy ===== *)
theory Matching_Engine
  imports Limit_Book
begin

text \<open>
  \<open>MatchingBook\<close> and \<open>MatchingEngine\<close> of \<open>include/hft/matching/MatchingEngine.hpp\<close>. The buy and the
  sell loop of \<open>submit_order\<close> are one function of the side they consume (\<open>bid\<close>); \<open>std::upper_bound\<close>
  on a sorted vector is the first position whose element compares greater. The map of books is an
  association list, since only lookups, insertions and sums over all books are made.
\<close>

record TradeExecution =
  trade_id :: u64
  t_symbol :: string
  buy_cl_ord_id :: string
  sell_cl_ord_id :: string
  match_price :: int
  match_qty :: u32
  execution_timestamp_ns :: u64

record LimitOrderEntry =
  e_cl_ord_id :: string
  e_side :: int
  e_price :: int
  e_remaining_qty :: u32
  e_seq_num :: u64

record MatchingBook =
  mb_symbol :: string
  mb_bids :: "LimitOrderEntry list"
  mb_asks :: "LimitOrderEntry list"
  mb_total_trades :: u64
  mb_total_volume :: u64

definition matching_book_init :: "string \<Rightarrow> MatchingBook" where
  "matching_book_init symb =
     \<lparr>mb_symbol = symb, mb_bids = [], mb_asks = [], mb_total_trades = 0, mb_total_volume = 0\<rparr>"

text \<open>What a matching loop reads and writes.\<close>

record match_state =
  ms_remaining :: u32
  ms_book :: "LimitOrderEntry list"
  ms_trades :: "TradeExecution list"
  ms_counter :: u64
  ms_total_trades :: u64
  ms_total_volume :: u64
  ms_matched :: bool

definition make_trade ::
  "bool \<Rightarrow> ParsedOrder \<Rightarrow> string \<Rightarrow> u64 \<Rightarrow> u64 \<Rightarrow> string \<Rightarrow> int \<Rightarrow> u32 \<Rightarrow> TradeExecution" where
  "make_trade bid ord symb ts tid passive_id p q =
     \<lparr>trade_id = tid, t_symbol = symb,
      buy_cl_ord_id = (if bid then passive_id else cl_ord_id ord),
      sell_cl_ord_id = (if bid then cl_ord_id ord else passive_id),
      match_price = p, match_qty = q, execution_timestamp_ns = ts\<rparr>"

definition match_step ::
  "bool \<Rightarrow> ParsedOrder \<Rightarrow> string \<Rightarrow> u64 \<Rightarrow> LimitOrderEntry \<Rightarrow> LimitOrderEntry list \<Rightarrow> match_state \<Rightarrow> match_state" where
  "match_step bid ord symb ts best others st =
     (let q = min (ms_remaining st) (e_remaining_qty best);
          tid = ms_counter st + 1;
          trade = make_trade bid ord symb ts tid (e_cl_ord_id best) (e_price best) q;
          best' = best\<lparr>e_remaining_qty := e_remaining_qty best - q\<rparr>
      in \<lparr>ms_remaining = ms_remaining st - q,
          ms_book = (if e_remaining_qty best' = 0 then others else best' # others),
          ms_trades = ms_trades st @ [trade], ms_counter = tid,
          ms_total_trades = ms_total_trades st + 1,
          ms_total_volume = ms_total_volume st + ucast q, ms_matched = True\<rparr>)"

lemma match_step_decreases:
  assumes "ms_book st = best # others" "ms_remaining st > 0"
  shows "unat (ms_remaining (match_step bid ord symb ts best others st)) +
      length (ms_book (match_step bid ord symb ts best others st))
    < Suc (unat (ms_remaining st) + length others)"
proof (cases "e_remaining_qty best \<le> ms_remaining st")
  case True
  then have "min (ms_remaining st) (e_remaining_qty best) = e_remaining_qty best" by (simp add: min_def)
  with True show ?thesis
    by (simp add: match_step_def Let_def assms unat_minus_le less_Suc_eq_le)
next
  case False
  then have "min (ms_remaining st) (e_remaining_qty best) = ms_remaining st" by (auto simp: min_def)
  moreover have "0 < unat (ms_remaining st)" using assms(2) by (simp add: word_less_nat_alt)
  ultimately show ?thesis by (simp add: match_step_def Let_def assms)
qed

function match_loop :: "bool \<Rightarrow> ParsedOrder \<Rightarrow> string \<Rightarrow> u64 \<Rightarrow> match_state \<Rightarrow> match_state" where
  "match_loop bid ord symb ts st =
     (case ms_book st of
        [] \<Rightarrow> st
      | best # others \<Rightarrow>
          if ms_remaining st > 0
          then if place_before bid (price ord) (e_price best) then st
               else match_loop bid ord symb ts (match_step bid ord symb ts best others st)
          else st)"
  by pat_completeness auto
termination
  by (relation "measure (\<lambda>(bid, ord, symb, ts, st). unat (ms_remaining st) + length (ms_book st))")
    (auto intro: match_step_decreases)

declare match_loop.simps [simp del]

definition upper_bound_insert :: "bool \<Rightarrow> LimitOrderEntry \<Rightarrow> LimitOrderEntry list \<Rightarrow> LimitOrderEntry list" where
  "upper_bound_insert bid entry es =
     takeWhile (\<lambda>x. \<not> place_before bid (e_price entry) (e_price x)) es @ entry #
     dropWhile (\<lambda>x. \<not> place_before bid (e_price entry) (e_price x)) es"

definition submit_order ::
  "ParsedOrder \<Rightarrow> u64 \<Rightarrow> MatchingBook \<Rightarrow> TradeExecution list \<Rightarrow> u64 \<Rightarrow>
     bool \<times> MatchingBook \<times> TradeExecution list \<times> u64" where
  "submit_order ord ts book trades trade_counter =
     (let start = (\<lambda>opp. \<lparr>ms_remaining = of_int (quantity ord), ms_book = opp, ms_trades = trades,
                          ms_counter = trade_counter, ms_total_trades = mb_total_trades book,
                          ms_total_volume = mb_total_volume book, ms_matched = False\<rparr>);
          entry = (\<lambda>rem. \<lparr>e_cl_ord_id = cl_ord_id ord, e_side = side ord, e_price = price ord,
                          e_remaining_qty = rem, e_seq_num = seq_num ord\<rparr>)
      in if side ord = 1
         then let st = match_loop False ord (mb_symbol book) ts (start (mb_asks book))
              in (ms_matched st,
                  book\<lparr>mb_asks := ms_book st, mb_total_trades := ms_total_trades st,
                       mb_total_volume := ms_total_volume st,
                       mb_bids := (if ms_remaining st > 0
                                   then upper_bound_insert True (entry (ms_remaining st)) (mb_bids book)
                                   else mb_bids book)\<rparr>,
                  ms_trades st, ms_counter st)
         else if side ord = 2
         then let st = match_loop True ord (mb_symbol book) ts (start (mb_bids book))
              in (ms_matched st,
                  book\<lparr>mb_bids := ms_book st, mb_total_trades := ms_total_trades st,
                       mb_total_volume := ms_total_volume st,
                       mb_asks := (if ms_remaining st > 0
                                   then upper_bound_insert False (entry (ms_remaining st)) (mb_asks book)
                                   else mb_asks book)\<rparr>,
                  ms_trades st, ms_counter st)
         else (False, book, trades, trade_counter))"

subsection \<open>The multi-symbol router\<close>

record MatchingEngine =
  m_books :: "(string \<times> MatchingBook) list"
  m_trade_counter :: u64

definition matching_engine_init :: MatchingEngine where
  "matching_engine_init = \<lparr>m_books = [], m_trade_counter = 0\<rparr>"

definition books_put :: "string \<Rightarrow> MatchingBook \<Rightarrow> (string \<times> MatchingBook) list \<Rightarrow> (string \<times> MatchingBook) list" where
  "books_put k b bs = map (\<lambda>(k', b'). if k' = k then (k', b) else (k', b')) bs"

definition process_order ::
  "ParsedOrder \<Rightarrow> u64 \<Rightarrow> MatchingEngine \<Rightarrow> TradeExecution list \<Rightarrow> bool \<times> MatchingEngine \<times> TradeExecution list" where
  "process_order ord ts eng trades =
     (let symb = (if symbol ord = [] then ''PETR4'' else symbol ord);
          books = (if map_of (m_books eng) symb = None
                   then m_books eng @ [(symb, matching_book_init symb)] else m_books eng);
          (matched, book', trades', counter') =
            submit_order ord ts (the (map_of books symb)) trades (m_trade_counter eng)
      in (matched, \<lparr>m_books = books_put symb book' books, m_trade_counter = counter'\<rparr>, trades'))"

definition total_trades :: "MatchingEngine \<Rightarrow> u64" where
  "total_trades eng = foldl (\<lambda>count kb. count + mb_total_trades (snd kb)) 0 (m_books eng)"

definition total_volume :: "MatchingEngine \<Rightarrow> u64" where
  "total_volume eng = foldl (\<lambda>vol kb. vol + mb_total_volume (snd kb)) 0 (m_books eng)"

subsection \<open>Refinement of the abstract book\<close>

definition entry_abs :: "LimitOrderEntry \<Rightarrow> resting" where
  "entry_abs e = \<lparr>r_price = e_price e, r_id = e_cl_ord_id e, r_qty = e_remaining_qty e\<rparr>"

definition book_abs :: "MatchingBook \<Rightarrow> lob" where
  "book_abs b = \<lparr>lob_bids = map entry_abs (mb_bids b), lob_asks = map entry_abs (mb_asks b)\<rparr>"

lemma entry_abs_simps [simp]:
  "r_price (entry_abs e) = e_price e" "r_id (entry_abs e) = e_cl_ord_id e" "r_qty (entry_abs e) = e_remaining_qty e"
  by (simp_all add: entry_abs_def)

text \<open>The trade reports of a list of fills, numbered from a counter.\<close>

fun trades_of :: "bool \<Rightarrow> ParsedOrder \<Rightarrow> string \<Rightarrow> u64 \<Rightarrow> u64 \<Rightarrow> fill list \<Rightarrow> TradeExecution list" where
  "trades_of bid ord symb ts c [] = []"
| "trades_of bid ord symb ts c (f # fs) =
     make_trade bid ord symb ts (c + 1) (f_id f) (f_price f) (f_qty f) # trades_of bid ord symb ts (c + 1) fs"

lemma length_trades_of [simp]: "length (trades_of bid ord symb ts c fs) = length fs"
  by (induction fs arbitrary: c) simp_all

lemma qty_trades_of: "sum_list (map (\<lambda>t. unat (match_qty t)) (trades_of bid ord symb ts c fs)) = fill_sum fs"
  by (induction fs arbitrary: c) (simp_all add: make_trade_def)

lemma ids_trades_of:
  "map trade_id (trades_of bid ord symb ts c fs) = map (\<lambda>i. c + of_nat i) [1 ..< length fs + 1]"
proof (induction fs arbitrary: c)
  case (Cons f fs)
  have "[1 ..< length (f # fs) + 1] = 1 # map Suc [1 ..< length fs + 1]"
    by (simp add: upt_conv_Cons map_Suc_upt del: upt_Suc)
  with Cons show ?case by (simp add: make_trade_def comp_def ac_simps del: upt_Suc)
qed simp

lemma match_loop_refines:
  "\<exists>fs. lob_match bid (price ord) (ms_remaining st) (map entry_abs (ms_book st)) =
       (fs, ms_remaining (match_loop bid ord symb ts st), map entry_abs (ms_book (match_loop bid ord symb ts st))) \<and>
     ms_trades (match_loop bid ord symb ts st) = ms_trades st @ trades_of bid ord symb ts (ms_counter st) fs \<and>
     ms_counter (match_loop bid ord symb ts st) = ms_counter st + of_nat (length fs) \<and>
     ms_total_trades (match_loop bid ord symb ts st) = ms_total_trades st + of_nat (length fs) \<and>
     ms_total_volume (match_loop bid ord symb ts st) = ms_total_volume st + of_nat (fill_sum fs) \<and>
     ms_matched (match_loop bid ord symb ts st) = (ms_matched st \<or> fs \<noteq> [])"
proof (induction bid ord symb ts st rule: match_loop.induct)
  case (1 bid ord symb ts st)
  show ?case
  proof (cases "ms_book st")
    case Nil
    then show ?thesis by (subst (1 2 3 4 5 6 7) match_loop.simps) simp
  next
    case (Cons best others)
    show ?thesis
    proof (cases "ms_remaining st > 0 \<and> \<not> place_before bid (price ord) (e_price best)")
      case False
      then have "match_loop bid ord symb ts st = st"
        by (subst match_loop.simps) (simp add: Cons)
      moreover have "ms_remaining st = 0 \<or> place_before bid (price ord) (e_price best)"
        using False word_neq_0_conv by blast
      ultimately show ?thesis using Cons by auto
    next
      case go: True
      let ?st = "match_step bid ord symb ts best others st"
      have eq: "match_loop bid ord symb ts st = match_loop bid ord symb ts ?st"
        using go by (subst match_loop.simps) (simp add: Cons)
      obtain fs where IH: "lob_match bid (price ord) (ms_remaining ?st) (map entry_abs (ms_book ?st)) =
          (fs, ms_remaining (match_loop bid ord symb ts ?st), map entry_abs (ms_book (match_loop bid ord symb ts ?st)))"
        "ms_trades (match_loop bid ord symb ts ?st) = ms_trades ?st @ trades_of bid ord symb ts (ms_counter ?st) fs"
        "ms_counter (match_loop bid ord symb ts ?st) = ms_counter ?st + of_nat (length fs)"
        "ms_total_trades (match_loop bid ord symb ts ?st) = ms_total_trades ?st + of_nat (length fs)"
        "ms_total_volume (match_loop bid ord symb ts ?st) = ms_total_volume ?st + of_nat (fill_sum fs)"
        "ms_matched (match_loop bid ord symb ts ?st) = (ms_matched ?st \<or> fs \<noteq> [])"
        using 1(1) [OF Cons] go by blast
      let ?q = "min (ms_remaining st) (e_remaining_qty best)"
      have "lob_match bid (price ord) (ms_remaining st) (map entry_abs (ms_book st)) =
          (fill_of (entry_abs best) ?q # fs, ms_remaining (match_loop bid ord symb ts ?st),
           map entry_abs (ms_book (match_loop bid ord symb ts ?st)))"
      proof (cases "e_remaining_qty best \<le> ms_remaining st")
        case True
        then have "?q = e_remaining_qty best" by (simp add: min_def)
        with IH(1) go True Cons show ?thesis by (auto simp: match_step_def Let_def)
      next
        case False
        then have q: "?q = ms_remaining st" by (auto simp: min_def)
        have ne: "e_remaining_qty best - ms_remaining st \<noteq> 0" using False by auto
        have "ms_remaining ?st = 0" using q by (simp add: match_step_def Let_def)
        then have stuck: "match_loop bid ord symb ts ?st = ?st"
          by (subst match_loop.simps) (simp split: list.split)
        have "fs = []" using IH(1) \<open>ms_remaining ?st = 0\<close> by (cases "ms_book ?st") auto
        with go False Cons ne q show ?thesis
          unfolding stuck by (auto simp: match_step_def Let_def entry_abs_def)
      qed
      with IH(2-6) show ?thesis
        unfolding eq
        by (intro exI [of _ "fill_of (entry_abs best) ?q # fs"])
          (simp add: match_step_def Let_def)
    qed
  qed
qed

lemma upper_bound_insert_refines:
  "map entry_abs (upper_bound_insert bid e es) = lob_rest bid (entry_abs e) (map entry_abs es)"
  by (simp add: upper_bound_insert_def lob_rest_def takeWhile_map dropWhile_map comp_def)

lemma submit_order_refines:
  assumes "submit_order ord ts b trades c = (matched, b', trades', c')"
  shows "\<exists>fs. spec_submit (\<lambda>x. x) ord (book_abs b) = (fs, book_abs b') \<and>
    trades' = trades @ trades_of (side ord = 2) ord (mb_symbol b) ts c fs \<and>
    c' = c + of_nat (length fs) \<and> mb_total_trades b' = mb_total_trades b + of_nat (length fs) \<and>
    mb_total_volume b' = mb_total_volume b + of_nat (fill_sum fs) \<and>
    matched = (fs \<noteq> []) \<and> mb_symbol b' = mb_symbol b"
proof -
  let ?st = "\<lambda>opp. \<lparr>ms_remaining = of_int (quantity ord), ms_book = opp, ms_trades = trades, ms_counter = c,
    ms_total_trades = mb_total_trades b, ms_total_volume = mb_total_volume b, ms_matched = False\<rparr>"
  let ?m = "\<lambda>bid opp. match_loop bid ord (mb_symbol b) ts (?st opp)"
  consider (buy) "side ord = 1" | (sell) "side ord = 2" | (other) "side ord \<noteq> 1" "side ord \<noteq> 2" by blast
  then show ?thesis
  proof cases
    case buy
    from match_loop_refines [of False ord "?st (mb_asks b)" "mb_symbol b" ts] obtain fs where
      "lob_match False (price ord) (of_int (quantity ord)) (map entry_abs (mb_asks b)) =
         (fs, ms_remaining (?m False (mb_asks b)), map entry_abs (ms_book (?m False (mb_asks b))))"
      "ms_trades (?m False (mb_asks b)) = trades @ trades_of False ord (mb_symbol b) ts c fs"
      "ms_counter (?m False (mb_asks b)) = c + of_nat (length fs)"
      "ms_total_trades (?m False (mb_asks b)) = mb_total_trades b + of_nat (length fs)"
      "ms_total_volume (?m False (mb_asks b)) = mb_total_volume b + of_nat (fill_sum fs)"
      "ms_matched (?m False (mb_asks b)) = (fs \<noteq> [])" by auto
    with buy assms show ?thesis
      by (auto simp: submit_order_def Let_def spec_submit_def lob_submit_def book_abs_def
          upper_bound_insert_refines entry_abs_def)
  next
    case sell
    from match_loop_refines [of True ord "?st (mb_bids b)" "mb_symbol b" ts] obtain fs where
      "lob_match True (price ord) (of_int (quantity ord)) (map entry_abs (mb_bids b)) =
         (fs, ms_remaining (?m True (mb_bids b)), map entry_abs (ms_book (?m True (mb_bids b))))"
      "ms_trades (?m True (mb_bids b)) = trades @ trades_of True ord (mb_symbol b) ts c fs"
      "ms_counter (?m True (mb_bids b)) = c + of_nat (length fs)"
      "ms_total_trades (?m True (mb_bids b)) = mb_total_trades b + of_nat (length fs)"
      "ms_total_volume (?m True (mb_bids b)) = mb_total_volume b + of_nat (fill_sum fs)"
      "ms_matched (?m True (mb_bids b)) = (fs \<noteq> [])" by auto
    with sell assms show ?thesis
      by (auto simp: submit_order_def Let_def spec_submit_def lob_submit_def book_abs_def
          upper_bound_insert_refines entry_abs_def)
  next
    case other
    with assms show ?thesis by (auto simp: submit_order_def Let_def spec_submit_def lob_submit_def)
  qed
qed

text \<open>The fills a list of trade reports stands for, seen from the aggressor.\<close>

definition trade_fill :: "int \<Rightarrow> TradeExecution \<Rightarrow> fill" where
  "trade_fill sd t = \<lparr>f_price = match_price t,
     f_id = (if sd = 2 then buy_cl_ord_id t else sell_cl_ord_id t), f_qty = match_qty t\<rparr>"

definition mb_submit :: "u64 \<Rightarrow> ParsedOrder \<Rightarrow> MatchingBook \<Rightarrow> fill list \<times> MatchingBook" where
  "mb_submit ts ord b =
     (let (_, b', trades, _) = submit_order ord ts b [] 0 in (map (trade_fill (side ord)) trades, b'))"

lemma trade_fill_trades_of:
  "map (trade_fill sd) (trades_of (sd = 2) ord symb ts c fs) = fs"
  by (induction fs arbitrary: c) (simp_all add: trade_fill_def make_trade_def)

lemma mb_submit_refines:
  "fst (mb_submit ts ord b) = fst (spec_submit (\<lambda>x. x) ord (book_abs b)) \<and>
   book_abs (snd (mb_submit ts ord b)) = snd (spec_submit (\<lambda>x. x) ord (book_abs b))"
proof -
  obtain m b' tr c where s: "submit_order ord ts b [] 0 = (m, b', tr, c)" by (metis prod_cases4)
  from submit_order_refines [OF s] show ?thesis
    by (auto simp: mb_submit_def s trade_fill_trades_of)
qed

interpretation mbook: matching_book "mb_submit ts" book_abs "\<lambda>b. lob_inv (book_abs b)" "\<lambda>_ _. True" "\<lambda>x. x" for ts
  by unfold_locales (simp_all add: mb_submit_refines spec_submit_inv)

lemma matching_book_init_abs: "book_abs (matching_book_init symb) = lob_empty" "lob_inv lob_empty" "lob_qty lob_empty = 0"
  by (simp_all add: book_abs_def matching_book_init_def lob_empty_def lob_inv_def uncrossed_def lob_qty_def)

lemma run_ok_True [simp]: "run_ok submit (\<lambda>_ _. True) ords s"
  by (induction ords arbitrary: s) simp_all

subsection \<open>Properties of the matching engine\<close>

text \<open>
  C19. The matching book keeps its invariant and loses no quantity: after any sequence of orders
  (any side, price or quantity) both sides are sorted by price, no resting order is empty, the best
  bid is below the best ask, and the quantity ordered equals twice the quantity traded plus the
  quantity resting.
\<close>

theorem matching_book_sound:
  "let (fss, b) = book_run (mb_submit ts) ords (matching_book_init symb) in
     side_sorted True (lob_bids (book_abs b)) \<and> side_sorted False (lob_asks (book_abs b)) \<and>
     side_pos (lob_bids (book_abs b)) \<and> side_pos (lob_asks (book_abs b)) \<and> uncrossed (book_abs b) \<and>
     ordered_qty ords = 2 * sum_list (map fill_sum fss) + lob_qty (book_abs b)"
proof -
  have inv: "lob_inv (book_abs (matching_book_init symb))" by (simp add: matching_book_init_abs)
  from mbook.run_never_crossed [OF inv, of ts ords] mbook.run_conserves [OF inv, of ts ords]
  show ?thesis by (simp add: Let_def split_beta lob_inv_def matching_book_init_abs)
qed

text \<open>
  C5. Price-time priority: a submitted buy or sell order trades with the front of the opposite queue in order,
  at the resting orders' prices, never beyond its limit, taking each resting order whole before the
  next; every fill is the smaller of what is left of the order and what the resting order has; it stops only when it is
  filled, when the opposite side is exhausted or when its limit is passed, and its reports are numbered consecutively from the
  counter.
\<close>

theorem price_time_priority:
  assumes "submit_order ord ts b [] c = (matched, b', trades, c')" "side ord = 1 \<or> side ord = 2"
  defines "opp \<equiv> (if side ord = 1 then mb_asks b else mb_bids b)"
    and "opp' \<equiv> (if side ord = 1 then mb_asks b' else mb_bids b')"
  shows "map (\<lambda>t. (match_price t, if side ord = 1 then sell_cl_ord_id t else buy_cl_ord_id t)) trades =
      map (\<lambda>e. (e_price e, e_cl_ord_id e)) (take (length trades) opp) \<and>
    (\<forall>i. Suc i < length trades \<longrightarrow> match_qty (trades ! i) = e_remaining_qty (opp ! i)) \<and>
    (\<forall>i < length trades. unat (match_qty (trades ! i)) =
       min (unat (of_int (quantity ord) :: u32) - sum_list (map (\<lambda>t. unat (match_qty t)) (take i trades)))
         (unat (e_remaining_qty (opp ! i)))) \<and>
    (\<forall>t \<in> set trades. if side ord = 1 then match_price t \<le> price ord else price ord \<le> match_price t) \<and>
    (sum_list (map (\<lambda>t. unat (match_qty t)) trades) = unat (of_int (quantity ord) :: u32) \<or> opp' = [] \<or>
     (if side ord = 1 then price ord < e_price (hd opp') else e_price (hd opp') < price ord)) \<and>
    map trade_id trades = map (\<lambda>i. c + of_nat i) [1 ..< length trades + 1]"
proof -
  let ?bid = "side ord = 2"
  from submit_order_refines [OF assms(1)] obtain fs where
    sp: "spec_submit (\<lambda>x. x) ord (book_abs b) = (fs, book_abs b')"
    and tr: "trades = trades_of ?bid ord (mb_symbol b) ts c fs" by auto
  obtain rem where m: "lob_match ?bid (price ord) (of_int (quantity ord)) (map entry_abs opp) = (fs, rem, map entry_abs opp')"
    using sp assms(2) by (auto simp: spec_submit_def lob_submit_def book_abs_def opp_def opp'_def Let_def
        split: prod.splits if_splits)
  have len: "length trades = length fs" and fills: "map (trade_fill (side ord)) trades = fs"
    unfolding tr by (induction fs arbitrary: c) (simp_all add: trade_fill_def make_trade_def)
  have fq: "fs ! i = trade_fill (side ord) (trades ! i)" if "i < length trades" for i
    using that by (simp add: fills [symmetric])
  note P = lob_match_priority [OF m]
  have le: "length fs \<le> length opp"
    using arg_cong [OF conjunct1 [OF P], of length] by simp
  have "map (\<lambda>t. (match_price t, if side ord = 1 then sell_cl_ord_id t else buy_cl_ord_id t)) trades =
      map (\<lambda>f. (f_price f, f_id f)) fs"
    using assms(2) by (auto simp: fills [symmetric] trade_fill_def)
  also have "\<dots> = map (\<lambda>e. (e_price e, e_cl_ord_id e)) (take (length trades) opp)"
    using conjunct1 [OF P] by (simp add: take_map len comp_def)
  finally have queue: "map (\<lambda>t. (match_price t, if side ord = 1 then sell_cl_ord_id t else buy_cl_ord_id t)) trades =
      map (\<lambda>e. (e_price e, e_cl_ord_id e)) (take (length trades) opp)" .
  have whole: "match_qty (trades ! i) = e_remaining_qty (opp ! i)" if "Suc i < length trades" for i
  proof -
    have "f_qty (fs ! i) = r_qty (map entry_abs opp ! i)" using P that len by auto
    with fq [of i] that le len show ?thesis by (simp add: trade_fill_def)
  qed
  have least: "unat (match_qty (trades ! i)) =
      min (unat (of_int (quantity ord) :: u32) - sum_list (map (\<lambda>t. unat (match_qty t)) (take i trades)))
        (unat (e_remaining_qty (opp ! i)))" if "i < length trades" for i
  proof -
    have "fill_sum (take i fs) = sum_list (map (\<lambda>t. unat (match_qty t)) (take i trades))"
      by (simp add: fill_sum_def fills [symmetric] trade_fill_def comp_def take_map)
    with lob_match_quantities [OF m, of i] fq [of i] that le len show ?thesis by (simp add: trade_fill_def)
  qed
  have limit: "if side ord = 1 then match_price t \<le> price ord else price ord \<le> match_price t"
    if "t \<in> set trades" for t
    using lob_match_prices [OF m] that assms(2)
    by (auto simp: fills [symmetric] trade_fill_def place_before_def)
  have "fill_sum fs = sum_list (map (\<lambda>t. unat (match_qty t)) trades)"
    by (simp add: fill_sum_def fills [symmetric] trade_fill_def comp_def)
  then have stop: "sum_list (map (\<lambda>t. unat (match_qty t)) trades) = unat (of_int (quantity ord) :: u32) \<or> opp' = [] \<or>
     (if side ord = 1 then price ord < e_price (hd opp') else e_price (hd opp') < price ord)"
    using lob_match_stops [OF m] lob_match_conserves [OF m] assms(2)
    by (cases opp') (auto simp: place_before_def)
  have "map trade_id trades = map (\<lambda>i. c + of_nat i) [1 ..< length trades + 1]"
    unfolding len unfolding tr by (rule ids_trades_of)
  with queue whole least limit stop show ?thesis by blast
qed

definition sample_buy :: ParsedOrder where
  "sample_buy = default_order\<lparr>side := 1, quantity := 70, price := 101, cl_ord_id := ''B1''\<rparr>"

definition sample_sell :: "string \<Rightarrow> int \<Rightarrow> int \<Rightarrow> ParsedOrder" where
  "sample_sell i q p = default_order\<lparr>side := 2, quantity := q, price := p, cl_ord_id := i\<rparr>"

definition sample_book :: MatchingBook where
  "sample_book = snd (book_run (mb_submit 0) [sample_sell ''S1'' 50 100, sample_sell ''S2'' 50 100]
     (matching_book_init ''PETR4''))"

theorem price_time_priority_witness:
  "let trades = fst (snd (snd (submit_order sample_buy 0 sample_book [] 0))) in
     map trade_id trades = [1, 2] \<and> map sell_cl_ord_id trades = [''S1'', ''S2'']"
proof -
  obtain m b' tr c where s: "submit_order sample_buy 0 sample_book [] 0 = (m, b', tr, c)" by (metis prod_cases4)
  have "map sell_cl_ord_id (fst (snd (snd (submit_order sample_buy 0 sample_book [] 0)))) = [''S1'', ''S2'']"
    by code_simp
  then have ids: "map sell_cl_ord_id tr = [''S1'', ''S2'']" by (simp add: s)
  then have "length tr = 2" by (metis length_map length_Cons list.size(3) numeral_2_eq_2)
  moreover have sd: "side sample_buy = 1" by (simp add: sample_buy_def)
  ultimately show ?thesis using price_time_priority [OF s] ids by (simp add: s sd upt_rec)
qed

subsection \<open>Routing\<close>

definition route :: "ParsedOrder \<Rightarrow> string" where
  "route ord = (if symbol ord = [] then ''PETR4'' else symbol ord)"

definition book_for :: "MatchingEngine \<Rightarrow> string \<Rightarrow> MatchingBook" where
  "book_for eng k = (case map_of (m_books eng) k of Some b \<Rightarrow> b | None \<Rightarrow> matching_book_init k)"

definition eng_inv :: "MatchingEngine \<Rightarrow> bool" where
  "eng_inv eng \<longleftrightarrow> distinct (map fst (m_books eng)) \<and>
     (\<forall>k b. map_of (m_books eng) k = Some b \<longrightarrow> mb_symbol b = k \<and> lob_inv (book_abs b))"

lemma map_fst_books_put [simp]: "map fst (books_put k b bs) = map fst bs"
  by (induction bs) (auto simp: books_put_def)

lemma map_of_books_put:
  "map_of (books_put k b bs) k' = (if k' = k \<and> k \<in> fst ` set bs then Some b else map_of bs k')"
proof (induction bs)
  case (Cons kb bs)
  then show ?case by (cases kb; cases "fst kb = k"; cases "k' = k") (simp_all add: books_put_def)
qed (simp add: books_put_def)

lemma sum_books_put:
  fixes g :: "MatchingBook \<Rightarrow> u64"
  assumes "distinct (map fst bs)" "map_of bs k = Some b"
  shows "sum_list (map (\<lambda>kb. g (snd kb)) (books_put k b' bs)) = sum_list (map (\<lambda>kb. g (snd kb)) bs) - g b + g b'"
  using assms
proof (induction bs)
  case (Cons kb bs)
  obtain k0 b0 where kb: "kb = (k0, b0)" by (cases kb)
  show ?case
  proof (cases "k0 = k")
    case True
    with Cons.prems kb have "k \<notin> fst ` set bs" by auto
    then have "books_put k b' bs = bs"
      unfolding books_put_def by (intro map_idI) force
    with True Cons.prems kb show ?thesis by (simp add: books_put_def)
  next
    case False
    with Cons kb show ?thesis by (simp add: books_put_def)
  qed
qed simp

lemma foldl_totals:
  "total_trades eng = sum_list (map (\<lambda>kb. mb_total_trades (snd kb)) (m_books eng))"
  "total_volume eng = sum_list (map (\<lambda>kb. mb_total_volume (snd kb)) (m_books eng))"
proof -
  have "foldl (\<lambda>c kb. c + g (snd kb)) a bs = a + sum_list (map (\<lambda>kb. g (snd kb)) bs)"
    for g :: "MatchingBook \<Rightarrow> u64" and a and bs :: "(string \<times> MatchingBook) list"
    by (induction bs arbitrary: a) (simp_all add: ac_simps)
  then show "total_trades eng = sum_list (map (\<lambda>kb. mb_total_trades (snd kb)) (m_books eng))"
    "total_volume eng = sum_list (map (\<lambda>kb. mb_total_volume (snd kb)) (m_books eng))"
    by (simp_all add: total_trades_def total_volume_def)
qed

lemma process_order_unfold:
  assumes inv: "eng_inv eng"
    and sub: "submit_order ord ts (book_for eng (route ord)) trades (m_trade_counter eng) = (matched, b', trades', c')"
  obtains eng' where "process_order ord ts eng trades = (matched, eng', trades')"
    "m_trade_counter eng' = c'" "eng_inv eng'"
    "\<And>k. book_for eng' k = (if k = route ord then b' else book_for eng k)"
    "total_trades eng' = total_trades eng - mb_total_trades (book_for eng (route ord)) + mb_total_trades b'"
    "total_volume eng' = total_volume eng - mb_total_volume (book_for eng (route ord)) + mb_total_volume b'"
proof -
  let ?k = "route ord"
  define bs where "bs = (if map_of (m_books eng) ?k = None
    then m_books eng @ [(?k, matching_book_init ?k)] else m_books eng)"
  define eng' where "eng' = \<lparr>m_books = books_put ?k b' bs, m_trade_counter = c'\<rparr>"
  have look: "map_of bs k = (if k = ?k then Some (book_for eng ?k) else map_of (m_books eng) k)" for k
    by (auto simp: bs_def book_for_def map_add_def split: option.splits)
  have dist: "distinct (map fst bs)"
    using inv by (auto simp: bs_def eng_inv_def map_of_eq_None_iff)
  have mem: "?k \<in> fst ` set bs" using look [of ?k] by (metis domI dom_map_of_conv_image_fst)
  have sym0: "mb_symbol (matching_book_init ?k) = ?k" by (simp add: matching_book_init_def)
  have bookinv: "mb_symbol (book_for eng ?k) = ?k" "lob_inv (book_abs (book_for eng ?k))"
    using inv sym0 by (auto simp: eng_inv_def book_for_def matching_book_init_abs split: option.splits)
  from submit_order_refines [OF sub] bookinv spec_submit_inv [OF bookinv(2), of "\<lambda>x. x" ord]
  have b': "mb_symbol b' = ?k" "lob_inv (book_abs b')" by auto
  have po: "process_order ord ts eng trades = (matched, eng', trades')"
    unfolding process_order_def route_def [symmetric] Let_def bs_def [symmetric]
    using sub look [of ?k] by (simp add: eng'_def)
  have new: "map_of (m_books eng') k = (if k = ?k then Some b' else map_of (m_books eng) k)" for k
    using mem look by (simp add: eng'_def map_of_books_put)
  have init: "mb_total_trades (matching_book_init ?k) = 0" "mb_total_volume (matching_book_init ?k) = 0"
    by (simp_all add: matching_book_init_def)
  show thesis
  proof (rule that [OF po])
    show "m_trade_counter eng' = c'" by (simp add: eng'_def)
    show "eng_inv eng'"
      using inv b' dist new by (auto simp: eng_inv_def eng'_def split: if_splits)
    show "book_for eng' k = (if k = ?k then b' else book_for eng k)" for k
      by (simp add: book_for_def new)
    show "total_trades eng' = total_trades eng - mb_total_trades (book_for eng ?k) + mb_total_trades b'"
      "total_volume eng' = total_volume eng - mb_total_volume (book_for eng ?k) + mb_total_volume b'"
      using sum_books_put [OF dist, of ?k "book_for eng ?k" _ b'] look [of ?k] init
      by (auto simp: foldl_totals eng'_def bs_def book_for_def)
  qed
qed

fun me_run :: "(ParsedOrder \<times> u64) list \<Rightarrow> MatchingEngine \<Rightarrow> TradeExecution list \<Rightarrow> MatchingEngine \<times> TradeExecution list" where
  "me_run [] eng trades = (eng, trades)"
| "me_run ((ord, ts) # rest) eng trades =
     (let (_, eng', trades') = process_order ord ts eng trades in me_run rest eng' trades')"

text \<open>What the engine's counters have to do with the trades it has reported.\<close>

definition eng_accounts :: "MatchingEngine \<Rightarrow> TradeExecution list \<Rightarrow> bool" where
  "eng_accounts eng trades \<longleftrightarrow> m_trade_counter eng = of_nat (length trades) \<and>
     total_trades eng = of_nat (length trades) \<and>
     total_volume eng = of_nat (sum_list (map (\<lambda>t. unat (match_qty t)) trades)) \<and>
     map trade_id trades = map of_nat [1 ..< length trades + 1]"

lemma eng_accounts_step:
  assumes inv: "eng_inv eng" and acc: "eng_accounts eng trades"
  shows "eng_inv (fst (snd (process_order ord ts eng trades))) \<and>
    eng_accounts (fst (snd (process_order ord ts eng trades))) (snd (snd (process_order ord ts eng trades)))"
proof -
  obtain matched b' trades' c' where sub:
    "submit_order ord ts (book_for eng (route ord)) trades (m_trade_counter eng) = (matched, b', trades', c')"
    by (metis prod_cases4)
  from process_order_unfold [OF inv sub] obtain eng' where po:
    "process_order ord ts eng trades = (matched, eng', trades')" "m_trade_counter eng' = c'" "eng_inv eng'"
    "total_trades eng' = total_trades eng - mb_total_trades (book_for eng (route ord)) + mb_total_trades b'"
    "total_volume eng' = total_volume eng - mb_total_volume (book_for eng (route ord)) + mb_total_volume b'"
    by metis
  from submit_order_refines [OF sub] obtain fs where fs:
    "trades' = trades @ trades_of (side ord = 2) ord (mb_symbol (book_for eng (route ord))) ts (m_trade_counter eng) fs"
    "c' = m_trade_counter eng + of_nat (length fs)"
    "mb_total_trades b' = mb_total_trades (book_for eng (route ord)) + of_nat (length fs)"
    "mb_total_volume b' = mb_total_volume (book_for eng (route ord)) + of_nat (fill_sum fs)" by auto
  have tr: "length (trades_of bid ord symb ts c fs) = length fs"
    "sum_list (map (\<lambda>t. unat (match_qty t)) (trades_of bid ord symb ts c fs)) = fill_sum fs"
    "map trade_id (trades_of bid ord symb ts c fs) = map (\<lambda>i. c + of_nat i) [1 ..< length fs + 1]" for bid symb c
    by (simp_all only: length_trades_of qty_trades_of ids_trades_of)
  have "[1 ..< length trades + length fs + 1] = [1 ..< length trades + 1] @ map (\<lambda>i. length trades + i) [1 ..< length fs + 1]"
    by (rule nth_equalityI) (auto simp: nth_append simp del: upt_Suc)
  with acc fs po show ?thesis
    by (simp add: eng_accounts_def tr comp_def ac_simps del: upt_Suc)
qed

lemma me_run_accounts:
  "eng_inv eng \<Longrightarrow> eng_accounts eng trades \<Longrightarrow>
     eng_inv (fst (me_run ords eng trades)) \<and> eng_accounts (fst (me_run ords eng trades)) (snd (me_run ords eng trades))"
proof (induction ords arbitrary: eng trades)
  case (Cons ot ords)
  obtain ord ts where ot: "ot = (ord, ts)" by (cases ot)
  show ?case
    using Cons.IH eng_accounts_step [OF Cons.prems, of ord ts] by (simp add: ot Let_def split_beta)
qed simp

text \<open>
  The router keeps symbols apart and its accounts exact: over any sequence of orders, trade ids
  are 1, 2, 3, ... across all symbols, the summed counters of the books equal the number and the
  volume of the trades reported, and every book satisfies the book invariant.
\<close>

theorem engine_accounts:
  "let (eng, trades) = me_run ords matching_engine_init [] in
     map trade_id trades = map of_nat [1 ..< length trades + 1] \<and>
     total_trades eng = of_nat (length trades) \<and>
     total_volume eng = of_nat (sum_list (map (\<lambda>t. unat (match_qty t)) trades)) \<and>
     (\<forall>k b. map_of (m_books eng) k = Some b \<longrightarrow> mb_symbol b = k \<and> lob_inv (book_abs b))"
proof -
  have "eng_inv matching_engine_init" "eng_accounts matching_engine_init []"
    by (simp_all add: eng_inv_def eng_accounts_def matching_engine_init_def total_trades_def total_volume_def)
  from me_run_accounts [OF this, of ords] show ?thesis
    by (auto simp: Let_def split_beta eng_accounts_def eng_inv_def)
qed

theorem engine_accounts_witness:
  "total_trades (fst (me_run [(sample_sell ''S1'' 50 100, 0), (sample_buy, 0)] matching_engine_init [])) =
     of_nat (length (snd (me_run [(sample_sell ''S1'' 50 100, 0), (sample_buy, 0)] matching_engine_init [])))"
  using engine_accounts [of "[(sample_sell ''S1'' 50 100, 0), (sample_buy, 0)]"]
  by (simp only: Let_def split_beta simp_thms)

text \<open>
  Orders of one symbol never touch another symbol's book: processing an order replaces the book
  of its own symbol (the default symbol when the tag is missing) by the result of submitting the
  order to it and leaves every other book as it was.
\<close>

theorem engine_isolation:
  assumes "eng_inv eng" "process_order ord ts eng trades = (matched, eng', trades')"
  shows "book_for eng' (route ord) =
      fst (snd (submit_order ord ts (book_for eng (route ord)) trades (m_trade_counter eng))) \<and>
    (\<forall>k. k \<noteq> route ord \<longrightarrow> book_for eng' k = book_for eng k)"
proof -
  obtain m b' tr c' where sub:
    "submit_order ord ts (book_for eng (route ord)) trades (m_trade_counter eng) = (m, b', tr, c')"
    by (metis prod_cases4)
  from process_order_unfold [OF assms(1) sub] assms(2) show ?thesis by (metis fst_conv snd_conv sub)
qed

theorem engine_isolation_witness:
  "book_for (fst (snd (process_order sample_buy 0 matching_engine_init []))) ''VALE3'' =
     book_for matching_engine_init ''VALE3''"
proof -
  have "eng_inv matching_engine_init" by (simp add: eng_inv_def matching_engine_init_def)
  moreover obtain m e t where po: "process_order sample_buy 0 matching_engine_init [] = (m, e, t)"
    by (metis prod_cases3)
  moreover have "route sample_buy = ''PETR4''" by code_simp
  ultimately show ?thesis using engine_isolation [of matching_engine_init sample_buy 0 "[]" m e t] by simp
qed

end
