(* ===== verification/Order_Book.thy ===== *)
theory Order_Book
  imports Limit_Book
begin

text \<open>
  \<open>ZeroAllocHftOrderBook\<close> of \<open>include/hft/matching/ZeroAllocHftOrderBook.hpp\<close>. A price level holds a
  ring of 32 orders; each side has a pool of 64 levels, a stack of free ones and an array of level
  pointers in price order. Pointers into a pool are indices, with \<open>nullptr\<close> outside the pool; the
  bid and ask members are two records of the same shape. Fixed character arrays are lists of their
  full length, written as \<open>memcpy\<close> and the terminating NUL write them.
\<close>

definition MAX_CL_ORD_ID_LEN :: nat where "MAX_CL_ORD_ID_LEN = 32"
definition MAX_BOOK_LEVELS :: nat where "MAX_BOOK_LEVELS = 64"
definition MAX_ORDERS_PER_LEVEL :: nat where "MAX_ORDERS_PER_LEVEL = 32"

definition nullptr :: nat where "nullptr = MAX_BOOK_LEVELS"

record ZeroAllocTrade =
  zt_trade_id :: u64
  zt_symbol :: string
  zt_buy_cl_ord_id :: string
  zt_sell_cl_ord_id :: string
  zt_match_price :: int
  zt_match_qty :: u32
  zt_timestamp_ns :: u64

record BookOrder =
  order_id :: u64
  bo_cl_ord_id :: string
  bo_side :: int
  bo_price :: int
  bo_remaining_qty :: u32
  bo_timestamp_ns :: u64
  active :: bool

definition empty_order :: BookOrder where
  "empty_order = \<lparr>order_id = 0, bo_cl_ord_id = replicate MAX_CL_ORD_ID_LEN (CHR 0x00), bo_side = 1,
     bo_price = 0, bo_remaining_qty = 0, bo_timestamp_ns = 0, active = False\<rparr>"

definition copy_sv_to_char :: "string \<Rightarrow> string \<Rightarrow> nat \<Rightarrow> string" where
  "copy_sv_to_char dest sv max_len =
     (let len = min (length sv) max_len in take len sv @ CHR 0x00 # drop (len + 1) dest)"

definition strnlen :: "string \<Rightarrow> nat \<Rightarrow> nat" where
  "strnlen src max_len = length (takeWhile (\<lambda>c. c \<noteq> CHR 0x00) (take max_len src))"

definition copy_char_to_char :: "string \<Rightarrow> string \<Rightarrow> nat \<Rightarrow> string" where
  "copy_char_to_char dest src max_len =
     (let len = strnlen src max_len in take len src @ CHR 0x00 # drop (len + 1) dest)"

subsection \<open>Price levels\<close>

record BookLevel =
  lvl_price :: int
  orders :: "BookOrder list"
  head_order_idx :: nat
  order_count :: nat
  cached_total_qty :: u32

definition empty_level :: BookLevel where
  "empty_level = \<lparr>lvl_price = 0, orders = replicate MAX_ORDERS_PER_LEVEL empty_order,
     head_order_idx = 0, order_count = 0, cached_total_qty = 0\<rparr>"

definition total_qty :: "BookLevel \<Rightarrow> u32" where
  "total_qty l = cached_total_qty l"

definition level_reset :: "BookLevel \<Rightarrow> BookLevel" where
  "level_reset l = l\<lparr>lvl_price := 0, head_order_idx := 0, order_count := 0, cached_total_qty := 0\<rparr>"

definition front_order :: "BookLevel \<Rightarrow> BookOrder" where
  "front_order l = orders l ! head_order_idx l"

definition pop_front_order :: "BookLevel \<Rightarrow> BookLevel" where
  "pop_front_order l =
     (if order_count l > 0
      then let l1 = l\<lparr>head_order_idx := (head_order_idx l + 1) mod MAX_ORDERS_PER_LEVEL,
                      order_count := order_count l - 1\<rparr>
           in if order_count l1 = 0 then l1\<lparr>head_order_idx := 0\<rparr> else l1
      else l)"

definition push_back_order :: "u64 \<Rightarrow> string \<Rightarrow> int \<Rightarrow> int \<Rightarrow> u32 \<Rightarrow> u64 \<Rightarrow> BookLevel \<Rightarrow> BookLevel" where
  "push_back_order oid cid sd p qty ts l =
     (if order_count l < MAX_ORDERS_PER_LEVEL
      then let idx = (head_order_idx l + order_count l) mod MAX_ORDERS_PER_LEVEL;
               node = orders l ! idx;
               node' = node\<lparr>order_id := oid,
                            bo_cl_ord_id := copy_sv_to_char (bo_cl_ord_id node) cid (MAX_CL_ORD_ID_LEN - 1),
                            bo_side := sd, bo_price := p, bo_remaining_qty := qty,
                            bo_timestamp_ns := ts, active := True\<rparr>
           in l\<lparr>orders := (orders l)[idx := node'], cached_total_qty := cached_total_qty l + qty,
                order_count := order_count l + 1\<rparr>
      else l)"

subsection \<open>Sides and the book\<close>

record BookSide =
  pool :: "BookLevel list"
  free_list :: "nat list"
  free_count :: nat
  level_ptrs :: "nat list"
  level_count :: nat

record ZeroAllocBook =
  z_symbol :: string
  z_bids :: BookSide
  z_asks :: BookSide
  z_total_trades :: u64
  z_total_volume :: u64

definition side_init :: BookSide where
  "side_init = \<lparr>pool = replicate MAX_BOOK_LEVELS empty_level, free_list = [0 ..< MAX_BOOK_LEVELS],
     free_count = MAX_BOOK_LEVELS, level_ptrs = replicate MAX_BOOK_LEVELS nullptr, level_count = 0\<rparr>"

definition zero_alloc_init :: "string \<Rightarrow> ZeroAllocBook" where
  "zero_alloc_init symb = \<lparr>z_symbol = copy_sv_to_char (replicate 16 (CHR 0x00)) symb 15,
     z_bids = side_init, z_asks = side_init, z_total_trades = 0, z_total_volume = 0\<rparr>"

definition acquire_level :: "BookSide \<Rightarrow> nat \<times> BookSide" where
  "acquire_level s =
     (if free_count s = 0 then (nullptr, s)
      else let fc = free_count s - 1; lvl = free_list s ! fc
           in (lvl, s\<lparr>free_count := fc, pool := (pool s)[lvl := level_reset (pool s ! lvl)]\<rparr>))"

definition release_level :: "nat \<Rightarrow> BookSide \<Rightarrow> BookSide" where
  "release_level lvl s =
     (if free_count s < MAX_BOOK_LEVELS \<and> lvl \<noteq> nullptr
      then s\<lparr>free_list := (free_list s)[free_count s := lvl], free_count := free_count s + 1\<rparr>
      else s)"

subsection \<open>Matching\<close>

record zmatch =
  zm_remaining :: u32
  zm_generated :: nat
  zm_out :: "ZeroAllocTrade list option"
  zm_counter :: u64
  zm_total_trades :: u64
  zm_total_volume :: u64

definition write_trade ::
  "bool \<Rightarrow> ParsedOrder \<Rightarrow> string \<Rightarrow> u64 \<Rightarrow> u64 \<Rightarrow> BookOrder \<Rightarrow> u32 \<Rightarrow> ZeroAllocTrade \<Rightarrow> ZeroAllocTrade" where
  "write_trade bid ord symb ts tid passive q t =
     t\<lparr>zt_trade_id := tid, zt_symbol := copy_char_to_char (zt_symbol t) symb 15,
       zt_buy_cl_ord_id :=
         (if bid then copy_char_to_char (zt_buy_cl_ord_id t) (bo_cl_ord_id passive) (MAX_CL_ORD_ID_LEN - 1)
          else copy_sv_to_char (zt_buy_cl_ord_id t) (cl_ord_id ord) (MAX_CL_ORD_ID_LEN - 1)),
       zt_sell_cl_ord_id :=
         (if bid then copy_sv_to_char (zt_sell_cl_ord_id t) (cl_ord_id ord) (MAX_CL_ORD_ID_LEN - 1)
          else copy_char_to_char (zt_sell_cl_ord_id t) (bo_cl_ord_id passive) (MAX_CL_ORD_ID_LEN - 1)),
       zt_match_price := bo_price passive, zt_match_qty := q, zt_timestamp_ns := ts\<rparr>"

definition report_trade ::
  "bool \<Rightarrow> ParsedOrder \<Rightarrow> string \<Rightarrow> nat \<Rightarrow> u64 \<Rightarrow> BookOrder \<Rightarrow> u32 \<Rightarrow> zmatch \<Rightarrow> zmatch" where
  "report_trade bid ord symb max_trades ts passive q m =
     (case zm_out m of
        Some out \<Rightarrow>
          if zm_generated m < max_trades
          then m\<lparr>zm_generated := zm_generated m + 1, zm_counter := zm_counter m + 1,
                 zm_out := Some (out[zm_generated m :=
                   write_trade bid ord symb ts (zm_counter m + 1) passive q (out ! zm_generated m)])\<rparr>
          else m
      | None \<Rightarrow> m)"

text \<open>One pass of the inner loop over the front order of the best level.\<close>

definition level_step ::
  "bool \<Rightarrow> ParsedOrder \<Rightarrow> string \<Rightarrow> nat \<Rightarrow> u64 \<Rightarrow> BookLevel \<times> zmatch \<Rightarrow> BookLevel \<times> zmatch" where
  "level_step bid ord symb max_trades ts lm =
     (let (l, m) = lm; passive = front_order l;
          q = min (zm_remaining m) (bo_remaining_qty passive);
          m1 = report_trade bid ord symb max_trades ts passive q m;
          m2 = m1\<lparr>zm_total_trades := zm_total_trades m1 + 1,
                  zm_total_volume := zm_total_volume m1 + ucast q,
                  zm_remaining := zm_remaining m1 - q\<rparr>;
          passive' = passive\<lparr>bo_remaining_qty := bo_remaining_qty passive - q\<rparr>;
          l1 = l\<lparr>orders := (orders l)[head_order_idx l := passive'],
                 cached_total_qty := cached_total_qty l - q\<rparr>
      in (if bo_remaining_qty passive' = 0 then pop_front_order l1 else l1, m2))"

lemma report_trade_frame [simp]:
  "zm_remaining (report_trade bid ord symb mx ts p q m) = zm_remaining m"
  "zm_total_trades (report_trade bid ord symb mx ts p q m) = zm_total_trades m"
  "zm_total_volume (report_trade bid ord symb mx ts p q m) = zm_total_volume m"
  by (simp_all add: report_trade_def split: option.split)

lemma min_word_cases:
  fixes a b :: u32
  shows "(min a b = a \<and> a \<le> b) \<or> (min a b = b \<and> b \<le> a)"
  by (auto simp: min_def)

lemma level_step_decreases:
  assumes "order_count l > 0" "zm_remaining m > 0"
  shows "unat (zm_remaining (snd (level_step bid ord symb mx ts (l, m)))) +
      order_count (fst (level_step bid ord symb mx ts (l, m))) < unat (zm_remaining m) + order_count l"
    and "zm_remaining (snd (level_step bid ord symb mx ts (l, m))) \<le> zm_remaining m"
proof -
  let ?f = "bo_remaining_qty (front_order l)"
  have pos: "0 < unat (zm_remaining m)" using assms(2) by (simp add: word_less_nat_alt)
  from min_word_cases [of "zm_remaining m" ?f]
  show "unat (zm_remaining (snd (level_step bid ord symb mx ts (l, m)))) +
      order_count (fst (level_step bid ord symb mx ts (l, m))) < unat (zm_remaining m) + order_count l"
    and "zm_remaining (snd (level_step bid ord symb mx ts (l, m))) \<le> zm_remaining m"
    using pos assms(1)
    by (auto simp: level_step_def Let_def pop_front_order_def unat_minus_le word_le_nat_alt)
qed

function level_loop ::
  "bool \<Rightarrow> ParsedOrder \<Rightarrow> string \<Rightarrow> nat \<Rightarrow> u64 \<Rightarrow> BookLevel \<times> zmatch \<Rightarrow> BookLevel \<times> zmatch" where
  "level_loop bid ord symb max_trades ts lm =
     (if order_count (fst lm) > 0 \<and> zm_remaining (snd lm) > 0
      then level_loop bid ord symb max_trades ts (level_step bid ord symb max_trades ts lm)
      else lm)"
  by pat_completeness auto
termination
  by (relation "measure (\<lambda>(bid, ord, symb, mx, ts, lm). unat (zm_remaining (snd lm)) + order_count (fst lm))")
    (auto intro: level_step_decreases)

declare level_loop.simps [simp del]

lemma level_loop_exit:
  "(order_count (fst (level_loop bid ord symb mx ts lm)) = 0 \<or>
    zm_remaining (snd (level_loop bid ord symb mx ts lm)) = 0) \<and>
   zm_remaining (snd (level_loop bid ord symb mx ts lm)) \<le> zm_remaining (snd lm)"
proof (induction bid ord symb mx ts lm rule: level_loop.induct)
  case (1 bid ord symb mx ts lm)
  show ?case
  proof (cases "order_count (fst lm) > 0 \<and> zm_remaining (snd lm) > 0")
    case True
    then have "level_loop bid ord symb mx ts lm = level_loop bid ord symb mx ts (level_step bid ord symb mx ts lm)"
      by (subst level_loop.simps) simp
    moreover have "zm_remaining (snd (level_step bid ord symb mx ts lm)) \<le> zm_remaining (snd lm)"
      using level_step_decreases(2) [of "fst lm" "snd lm"] True by simp
    ultimately show ?thesis using 1 [OF True] by (auto intro: order_trans)
  next
    case False
    then have "level_loop bid ord symb mx ts lm = lm" by (subst level_loop.simps) auto
    with False word_neq_0_conv show ?thesis by auto
  qed
qed

text \<open>One pass of the outer loop: exhaust the best level, and release it when it is empty.\<close>

definition side_step ::
  "bool \<Rightarrow> ParsedOrder \<Rightarrow> string \<Rightarrow> nat \<Rightarrow> u64 \<Rightarrow> BookSide \<Rightarrow> zmatch \<Rightarrow> BookSide \<times> zmatch" where
  "side_step bid ord symb max_trades ts s m =
     (let best = level_ptrs s ! 0;
          (l', m') = level_loop bid ord symb max_trades ts (pool s ! best, m);
          s1 = s\<lparr>pool := (pool s)[best := l']\<rparr>
      in (if order_count l' = 0
          then (release_level best s1)\<lparr>level_ptrs := shift_down (level_ptrs s1) 0 (level_count s1),
                 level_count := level_count s1 - 1\<rparr>
          else s1, m'))"

lemma side_step_decreases:
  assumes "level_count s > 0" "zm_remaining m > 0" "side_step bid ord symb mx ts s m = (s', m')"
  shows "unat (zm_remaining m') + level_count s' < unat (zm_remaining m) + level_count s"
proof -
  obtain l' where l: "level_loop bid ord symb mx ts (pool s ! (level_ptrs s ! 0), m) = (l', m')"
    using assms(3) by (auto simp: side_step_def Let_def split: prod.splits)
  have "order_count l' = 0 \<or> zm_remaining m' = 0" "unat (zm_remaining m') \<le> unat (zm_remaining m)"
    using level_loop_exit [of bid ord symb mx ts "(pool s ! (level_ptrs s ! 0), m)"]
    by (simp_all add: l word_le_nat_alt)
  moreover have "0 < unat (zm_remaining m)" using assms(2) by (simp add: word_less_nat_alt)
  ultimately show ?thesis using assms(1,3) by (auto simp: side_step_def Let_def l split: if_splits)
qed

text \<open>The outer loop over the levels of the opposite side.\<close>

function side_loop ::
  "bool \<Rightarrow> ParsedOrder \<Rightarrow> string \<Rightarrow> nat \<Rightarrow> u64 \<Rightarrow> BookSide \<Rightarrow> zmatch \<Rightarrow> BookSide \<times> zmatch" where
  "side_loop bid ord symb max_trades ts s m =
     (if level_count s > 0 \<and> zm_remaining m > 0
      then if place_before bid (price ord) (lvl_price (pool s ! (level_ptrs s ! 0))) then (s, m)
           else let (s', m') = side_step bid ord symb max_trades ts s m
                in side_loop bid ord symb max_trades ts s' m'
      else (s, m))"
  by pat_completeness auto
termination
  by (relation "measure (\<lambda>(bid, ord, symb, mx, ts, s, m). unat (zm_remaining m) + level_count s)")
    (auto split: prod.split intro: side_step_decreases)

declare side_loop.simps [simp del]

subsection \<open>Resting residuals\<close>

text \<open>Binary search: \<open>Inl\<close> the index of a level with the price, \<open>Inr\<close> the insertion position.\<close>

function level_search :: "bool \<Rightarrow> int \<Rightarrow> BookSide \<Rightarrow> nat \<Rightarrow> nat \<Rightarrow> nat + nat" where
  "level_search is_bid p s low high =
     (if low < high
      then let mid = low + (high - low) div 2; q = lvl_price (pool s ! (level_ptrs s ! mid))
           in if q = p then Inl mid
              else if place_before is_bid p q then level_search is_bid p s low mid
              else level_search is_bid p s (mid + 1) high
      else Inr low)"
  by pat_completeness auto
termination
  by (relation "measure (\<lambda>(b, p, s, low, high). high - low)") auto

declare level_search.simps [simp del]

definition push_to :: "nat \<Rightarrow> ParsedOrder \<Rightarrow> u32 \<Rightarrow> u64 \<Rightarrow> BookSide \<Rightarrow> BookSide" where
  "push_to ptr ord qty ts s = s\<lparr>pool := (pool s)[ptr :=
     push_back_order (seq_num ord) (cl_ord_id ord) (side ord) (price ord) qty ts (pool s ! ptr)]\<rparr>"

definition add_to_book :: "bool \<Rightarrow> ParsedOrder \<Rightarrow> u32 \<Rightarrow> u64 \<Rightarrow> BookSide \<Rightarrow> BookSide" where
  "add_to_book is_bid ord qty ts s =
     (case level_search is_bid (price ord) s 0 (level_count s) of
        Inl mid \<Rightarrow> push_to (level_ptrs s ! mid) ord qty ts s
      | Inr insert_pos \<Rightarrow>
          if level_count s < MAX_BOOK_LEVELS
          then let (new_level, s1) = acquire_level s
               in if new_level = nullptr then s1
                  else let s2 = s1\<lparr>level_ptrs :=
                              (shift_up (level_ptrs s1) (level_count s1) insert_pos)[insert_pos := new_level]\<rparr>;
                           s3 = s2\<lparr>pool := (pool s2)[new_level := (pool s2 ! new_level)\<lparr>lvl_price := price ord\<rparr>]\<rparr>;
                           s4 = push_to new_level ord qty ts s3
                       in s4\<lparr>level_count := level_count s4 + 1\<rparr>
          else s)"

definition z_submit_order ::
  "ParsedOrder \<Rightarrow> ZeroAllocTrade list option \<Rightarrow> nat \<Rightarrow> u64 \<Rightarrow> u64 \<Rightarrow> ZeroAllocBook \<Rightarrow>
     nat \<times> ZeroAllocTrade list option \<times> u64 \<times> ZeroAllocBook" where
  "z_submit_order ord out_trades max_trades trade_counter ts b =
     (let m0 = \<lparr>zm_remaining = of_int (quantity ord), zm_generated = 0, zm_out = out_trades,
                zm_counter = trade_counter, zm_total_trades = z_total_trades b,
                zm_total_volume = z_total_volume b\<rparr>
      in if side ord = 1
         then let (asks, m) = side_loop False ord (z_symbol b) max_trades ts (z_asks b) m0;
                  bids = (if zm_remaining m > 0 \<and> level_count (z_bids b) < MAX_BOOK_LEVELS
                          then add_to_book True ord (zm_remaining m) ts (z_bids b) else z_bids b)
              in (zm_generated m, zm_out m, zm_counter m,
                  b\<lparr>z_bids := bids, z_asks := asks, z_total_trades := zm_total_trades m,
                    z_total_volume := zm_total_volume m\<rparr>)
         else if side ord = 2
         then let (bids, m) = side_loop True ord (z_symbol b) max_trades ts (z_bids b) m0;
                  asks = (if zm_remaining m > 0 \<and> level_count (z_asks b) < MAX_BOOK_LEVELS
                          then add_to_book False ord (zm_remaining m) ts (z_asks b) else z_asks b)
              in (zm_generated m, zm_out m, zm_counter m,
                  b\<lparr>z_bids := bids, z_asks := asks, z_total_trades := zm_total_trades m,
                    z_total_volume := zm_total_volume m\<rparr>)
         else (0, out_trades, trade_counter, b))"

subsection \<open>Queries\<close>

definition get_level_price :: "BookSide \<Rightarrow> nat \<Rightarrow> int" where
  "get_level_price s index = (if index < level_count s then lvl_price (pool s ! (level_ptrs s ! index)) else 0)"

definition get_level_qty :: "BookSide \<Rightarrow> nat \<Rightarrow> u32" where
  "get_level_qty s index = (if index < level_count s then total_qty (pool s ! (level_ptrs s ! index)) else 0)"

definition get_level_order_count :: "BookSide \<Rightarrow> nat \<Rightarrow> u32" where
  "get_level_order_count s index =
     (if index < level_count s then of_nat (order_count (pool s ! (level_ptrs s ! index))) else 0)"

definition best_price :: "BookSide \<Rightarrow> int" where
  "best_price s = (if level_count s > 0 then lvl_price (pool s ! (level_ptrs s ! 0)) else 0)"

definition best_qty :: "BookSide \<Rightarrow> u32" where
  "best_qty s = (if level_count s > 0 then total_qty (pool s ! (level_ptrs s ! 0)) else 0)"

end
