(* ===== verification/Order_Book_Refinement.thy ===== *)
theory Order_Book_Refinement
  imports Order_Book
begin

text \<open>
  The zero-allocation book implements the abstract price-time book: rings of orders refine queues,
  pools with pointer arrays refine lists of levels, binary search finds the insertion point, and the
  nested matching loops refine the abstract match. The interpretation of \<open>matching_book\<close> at the end
  gives the runs; capacity (64 levels, 32 orders a level, the caller's trade array) is the only
  reason for a difference and does not break the invariant.
\<close>

subsection \<open>Strings in character arrays\<close>

definition z_ident :: "string \<Rightarrow> string" where
  "z_ident i = cstr (take 31 i)"

lemma cstr_copy_sv: "cstr (copy_sv_to_char dest sv n) = cstr (take n sv)"
  by (simp add: copy_sv_to_char_def Let_def cstr_NUL min_def)

lemma cstr_copy_char: "cstr (copy_char_to_char dest src n) = cstr (take n src)"
proof -
  let ?t = "take n src"
  have "strnlen src n \<le> n"
    by (metis length_take min.bounded_iff length_takeWhile_le order_trans strnlen_def min.cobounded2)
  then have "take (strnlen src n) src = take (strnlen src n) ?t" by (simp add: min_def)
  also have "\<dots> = takeWhile (\<lambda>c. c \<noteq> CHR 0x00) ?t"
    unfolding strnlen_def by (metis takeWhile_eq_take)
  finally have t: "take (strnlen src n) src = cstr ?t" by (simp add: cstr_def)
  have "cstr (cstr ?t) = cstr ?t" unfolding cstr_def by (simp add: takeWhile_idem)
  then show ?thesis by (simp add: copy_char_to_char_def Let_def cstr_NUL t)
qed

lemma cstr_short:
  assumes "length (cstr s) \<le> n"
  shows "cstr (take n s) = cstr s"
proof -
  have "cstr (take n s) = take n (cstr s)"
    unfolding cstr_def by (induction s arbitrary: n) (auto simp: take_Cons' split: if_splits)
  with assms show ?thesis by simp
qed

subsection \<open>Rings of orders\<close>

definition ring :: "nat \<Rightarrow> nat \<Rightarrow> 'a list \<Rightarrow> 'a list" where
  "ring h n xs = map (\<lambda>i. xs ! ((h + i) mod 32)) [0 ..< n]"

lemma ring_0 [simp]: "ring h 0 xs = []"
  by (simp add: ring_def)

lemma length_ring [simp]: "length (ring h n xs) = n"
  by (simp add: ring_def)

lemma ring_index_inj: "i < 32 \<Longrightarrow> j < 32 \<Longrightarrow> (h + i) mod 32 = (h + j) mod (32::nat) \<Longrightarrow> i = j"
  using mod_window_inj [of "h + i" 32 "h + j" h] by simp

lemma ring_Suc:
  assumes "h < 32"
  shows "ring h (Suc n) xs = xs ! h # ring ((h + 1) mod 32) n xs"
proof -
  have "[0 ..< Suc n] = 0 # map Suc [0 ..< n]" by (simp add: map_Suc_upt upt_conv_Cons del: upt_Suc)
  moreover have "((h + 1) mod 32 + i) mod 32 = (h + Suc i) mod 32" for i
    by (simp add: mod_simps)
  ultimately show ?thesis using assms by (simp add: ring_def comp_def del: upt_Suc)
qed

lemma ring_update_head:
  assumes "length xs = 32" "h < 32" "n < 32"
  shows "ring ((h + 1) mod 32) n (xs[h := x]) = ring ((h + 1) mod 32) n xs"
proof -
  have "h \<noteq> (h + Suc i) mod 32" if "i < n" for i
    using ring_index_inj [of "Suc i" 0 h] that assms(2,3) by auto
  then show ?thesis using assms by (simp add: ring_def mod_simps)
qed

lemma ring_push:
  assumes "length xs = 32" "n < 32"
  shows "ring h (Suc n) (xs[(h + n) mod 32 := x]) = ring h n xs @ [x]"
proof -
  have "(h + n) mod 32 \<noteq> (h + i) mod 32" if "i < n" for i
    using ring_index_inj [of i n h] that assms(2) by auto
  then show ?thesis using assms(1) by (simp add: ring_def)
qed

lemma ring_subset: "length xs = 32 \<Longrightarrow> set (ring h n xs) \<subseteq> set xs"
  by (auto simp: ring_def)

definition level_orders :: "BookLevel \<Rightarrow> BookOrder list" where
  "level_orders l = ring (head_order_idx l) (order_count l) (orders l)"

definition order_abs :: "BookOrder \<Rightarrow> resting" where
  "order_abs x = \<lparr>r_price = bo_price x, r_id = cstr (bo_cl_ord_id x), r_qty = bo_remaining_qty x\<rparr>"

definition level_abs :: "BookLevel \<Rightarrow> resting list" where
  "level_abs l = map order_abs (level_orders l)"

definition level_wf :: "BookLevel \<Rightarrow> bool" where
  "level_wf l \<longleftrightarrow> length (orders l) = 32 \<and> head_order_idx l < 32 \<and> order_count l \<le> 32 \<and>
     (\<forall>x \<in> set (orders l). length (cstr (bo_cl_ord_id x)) \<le> 31)"

lemma order_abs_simps [simp]:
  "r_price (order_abs x) = bo_price x" "r_id (order_abs x) = cstr (bo_cl_ord_id x)" "r_qty (order_abs x) = bo_remaining_qty x"
  by (simp_all add: order_abs_def)

lemma length_level_abs [simp]: "length (level_abs l) = order_count l"
  by (simp add: level_abs_def level_orders_def)

lemma level_abs_empty: "level_abs l = [] \<longleftrightarrow> order_count l = 0"
  using length_level_abs [of l] by (metis length_0_conv)

lemma level_orders_front:
  assumes "level_wf l" "order_count l > 0"
  shows "level_orders l = front_order l # ring ((head_order_idx l + 1) mod 32) (order_count l - 1) (orders l)"
  using assms ring_Suc [of "head_order_idx l" "order_count l - 1" "orders l"]
  by (simp add: level_orders_def front_order_def level_wf_def)

lemma level_orders_pop:
  assumes "order_count l > 0"
  shows "level_orders (pop_front_order l) = ring ((head_order_idx l + 1) mod 32) (order_count l - 1) (orders l)"
  using assms by (simp add: pop_front_order_def level_orders_def Let_def MAX_ORDERS_PER_LEVEL_def)

lemma pop_front_frame [simp]:
  "lvl_price (pop_front_order l) = lvl_price l" "cached_total_qty (pop_front_order l) = cached_total_qty l"
  "orders (pop_front_order l) = orders l"
  by (simp_all add: pop_front_order_def Let_def)

lemma level_wf_pop: "level_wf l \<Longrightarrow> level_wf (pop_front_order l)"
  by (auto simp: level_wf_def pop_front_order_def Let_def MAX_ORDERS_PER_LEVEL_def)

lemma level_wf_update:
  assumes "level_wf l" "length (cstr (bo_cl_ord_id x)) \<le> 31"
  shows "level_wf (l\<lparr>orders := (orders l)[i := x], cached_total_qty := c\<rparr>)"
  using assms set_update_subset_insert [of "orders l" i x] by (auto simp: level_wf_def)

text \<open>Reducing the front order, and popping it when it is exhausted.\<close>

lemma level_take:
  fixes r c :: u32
  assumes wf: "level_wf l" "order_count l > 0"
  defines "f \<equiv> front_order l"
  defines "l1 \<equiv> l\<lparr>orders := (orders l)[head_order_idx l := f\<lparr>bo_remaining_qty := r\<rparr>], cached_total_qty := c\<rparr>"
  shows "level_abs (if r = 0 then pop_front_order l1 else l1) =
      (if r = 0 then [] else [(order_abs f)\<lparr>r_qty := r\<rparr>]) @ tl (level_abs l)"
    and "level_abs l = order_abs f # tl (level_abs l)" "level_wf (if r = 0 then pop_front_order l1 else l1)"
proof -
  let ?h = "head_order_idx l" and ?n = "order_count l"
  have len: "length (orders l) = 32" "?h < 32" "?n - 1 < 32" using wf by (auto simp: level_wf_def)
  have tail: "ring ((?h + 1) mod 32) (?n - 1) ((orders l)[?h := x]) = ring ((?h + 1) mod 32) (?n - 1) (orders l)" for x
    using len by (rule ring_update_head)
  have fid: "length (cstr (bo_cl_ord_id f)) \<le> 31"
    using wf len by (auto simp: f_def front_order_def level_wf_def)
  then have wf1: "level_wf l1" unfolding l1_def using wf(1) by (intro level_wf_update) simp_all
  have l1: "order_count l1 = ?n" "head_order_idx l1 = ?h" "orders l1 = (orders l)[?h := f\<lparr>bo_remaining_qty := r\<rparr>]"
    by (simp_all add: l1_def)
  have fr: "front_order l1 = f\<lparr>bo_remaining_qty := r\<rparr>" using len by (simp add: front_order_def l1)
  show eq: "level_abs l = order_abs f # tl (level_abs l)"
    using level_orders_front [OF wf] by (simp add: level_abs_def f_def)
  have tl: "tl (level_abs l) = map order_abs (ring ((?h + 1) mod 32) (?n - 1) (orders l))"
    using level_orders_front [OF wf] by (simp add: level_abs_def)
  show "level_wf (if r = 0 then pop_front_order l1 else l1)" using wf1 by (simp add: level_wf_pop)
  show "level_abs (if r = 0 then pop_front_order l1 else l1) =
      (if r = 0 then [] else [(order_abs f)\<lparr>r_qty := r\<rparr>]) @ tl (level_abs l)"
    using level_orders_pop [of l1] level_orders_front [OF wf1] wf(2) tail fr
    by (simp add: level_abs_def [of l1] level_abs_def [of "pop_front_order l1"] l1 tl order_abs_def)
qed

lemma level_push:
  fixes oid ts :: u64 and cid :: string and sd p :: int and qty :: u32
  assumes "level_wf l" "order_count l < 32"
  defines "l' \<equiv> push_back_order oid cid sd p qty ts l"
  shows "level_abs l' = level_abs l @ [\<lparr>r_price = p, r_id = z_ident cid, r_qty = qty\<rparr>]"
    "level_wf l'" "lvl_price l' = lvl_price l" "order_count l' = order_count l + 1"
    "cached_total_qty l' = cached_total_qty l + qty"
proof -
  let ?i = "(head_order_idx l + order_count l) mod 32"
  let ?x = "(orders l ! ?i)\<lparr>order_id := oid, bo_cl_ord_id := copy_sv_to_char (bo_cl_ord_id (orders l ! ?i)) cid 31,
     bo_side := sd, bo_price := p, bo_remaining_qty := qty, bo_timestamp_ns := ts, active := True\<rparr>"
  have l': "l' = l\<lparr>orders := (orders l)[?i := ?x], cached_total_qty := cached_total_qty l + qty,
      order_count := order_count l + 1\<rparr>"
    using assms(2) by (simp add: l'_def push_back_order_def Let_def MAX_ORDERS_PER_LEVEL_def MAX_CL_ORD_ID_LEN_def)
  have short: "length (cstr (take 31 cid)) \<le> 31"
    by (metis cstr_def length_take length_takeWhile_le min.cobounded2 order_trans)
  have len: "length (orders l) = 32" using assms(1) by (simp add: level_wf_def)
  show "level_abs l' = level_abs l @ [\<lparr>r_price = p, r_id = z_ident cid, r_qty = qty\<rparr>]"
    using ring_push [OF len assms(2), of "head_order_idx l" ?x]
    by (simp add: level_abs_def level_orders_def l' order_abs_def cstr_copy_sv z_ident_def)
  have "level_wf (l\<lparr>orders := (orders l)[?i := ?x], cached_total_qty := cached_total_qty l + qty\<rparr>)"
    using assms(1) short by (intro level_wf_update) (simp_all add: cstr_copy_sv)
  with assms(2) show "level_wf l'" by (simp add: l' level_wf_def)
  show "lvl_price l' = lvl_price l" "order_count l' = order_count l + 1"
    "cached_total_qty l' = cached_total_qty l + qty" by (simp_all add: l')
qed

subsection \<open>Trade reports\<close>

fun numbered :: "u64 \<Rightarrow> fill list \<Rightarrow> (u64 \<times> fill) list" where
  "numbered c [] = []"
| "numbered c (f # fs) = (c + 1, f) # numbered (c + 1) fs"

definition zt_view :: "bool \<Rightarrow> ZeroAllocTrade \<Rightarrow> u64 \<times> fill" where
  "zt_view bid t = (zt_trade_id t, \<lparr>f_price = zt_match_price t,
     f_id = cstr (if bid then zt_buy_cl_ord_id t else zt_sell_cl_ord_id t), f_qty = zt_match_qty t\<rparr>)"

definition zm_view :: "bool \<Rightarrow> zmatch \<Rightarrow> (u64 \<times> fill) list" where
  "zm_view bid m = (case zm_out m of None \<Rightarrow> [] | Some out \<Rightarrow> map (zt_view bid) (take (zm_generated m) out))"

definition zm_room :: "nat \<Rightarrow> zmatch \<Rightarrow> nat" where
  "zm_room mx m = (case zm_out m of None \<Rightarrow> 0 | Some _ \<Rightarrow> mx - zm_generated m)"

definition zm_wf :: "nat \<Rightarrow> zmatch \<Rightarrow> bool" where
  "zm_wf mx m \<longleftrightarrow> (case zm_out m of None \<Rightarrow> True | Some out \<Rightarrow> zm_generated m \<le> mx \<and> mx \<le> length out)"

text \<open>A piece of matching that executed the fills \<open>fs\<close> and reported those the array has room for.\<close>

definition zm_rel :: "bool \<Rightarrow> nat \<Rightarrow> fill list \<Rightarrow> zmatch \<Rightarrow> zmatch \<Rightarrow> bool" where
  "zm_rel bid mx fs m m' \<longleftrightarrow> zm_wf mx m' \<and> (zm_out m' = None \<longleftrightarrow> zm_out m = None) \<and>
     zm_view bid m' = zm_view bid m @ numbered (zm_counter m) (take (zm_room mx m) fs) \<and>
     zm_generated m' = zm_generated m + length (take (zm_room mx m) fs) \<and>
     zm_counter m' = zm_counter m + of_nat (length (take (zm_room mx m) fs)) \<and>
     zm_total_trades m' = zm_total_trades m + of_nat (length fs) \<and>
     zm_total_volume m' = zm_total_volume m + of_nat (fill_sum fs)"

lemma numbered_append: "numbered c (xs @ ys) = numbered c xs @ numbered (c + of_nat (length xs)) ys"
  by (induction xs arbitrary: c) (simp_all add: ac_simps)

lemma fill_sum_append [simp]: "fill_sum (xs @ ys) = fill_sum xs + fill_sum ys"
  by (simp add: fill_sum_def)

lemma zm_rel_refl: "zm_wf mx m \<Longrightarrow> zm_rel bid mx [] m m"
  by (simp add: zm_rel_def)

lemma zm_rel_trans:
  assumes "zm_rel bid mx fs m m1" "zm_rel bid mx gs m1 m2"
  shows "zm_rel bid mx (fs @ gs) m m2"
proof -
  have gen: "zm_generated m1 = zm_generated m + length (take (zm_room mx m) fs)"
    and out: "zm_out m1 = None \<longleftrightarrow> zm_out m = None"
    using assms(1) by (simp_all add: zm_rel_def)
  have room: "zm_room mx m1 = zm_room mx m - length fs"
    using gen out by (auto simp: zm_room_def split: option.splits)
  show ?thesis
    using assms unfolding zm_rel_def room
    by (simp add: numbered_append ac_simps)
qed

lemma zm_rel_report:
  fixes bid :: bool and ord :: ParsedOrder and symb :: string and ts :: u64 and q :: u32
  assumes "zm_wf mx m" "length (cstr (bo_cl_ord_id f)) \<le> 31"
  defines "m1 \<equiv> report_trade bid ord symb mx ts f q m"
  shows "zm_rel bid mx [\<lparr>f_price = bo_price f, f_id = cstr (bo_cl_ord_id f), f_qty = q\<rparr>] m
    (m1\<lparr>zm_total_trades := zm_total_trades m1 + 1, zm_total_volume := zm_total_volume m1 + ucast q,
        zm_remaining := r\<rparr>)"
proof (cases "zm_out m")
  case None
  then show ?thesis
    by (simp add: zm_rel_def m1_def report_trade_def zm_wf_def zm_view_def zm_room_def)
next
  case (Some out)
  let ?g = "zm_generated m"
  show ?thesis
  proof (cases "?g < mx")
    case False
    with Some assms(1) show ?thesis
      by (simp add: zm_rel_def m1_def report_trade_def zm_wf_def zm_view_def zm_room_def)
  next
    case True
    with Some assms(1) have len: "?g < length out" by (simp add: zm_wf_def)
    let ?t = "write_trade bid ord symb ts (zm_counter m + 1) f q (out ! ?g)"
    have v: "zt_view bid ?t = (zm_counter m + 1, \<lparr>f_price = bo_price f, f_id = cstr (bo_cl_ord_id f), f_qty = q\<rparr>)"
      using cstr_short [OF assms(2)]
      by (simp add: zt_view_def write_trade_def cstr_copy_char MAX_CL_ORD_ID_LEN_def)
    have "take (Suc ?g) (out[?g := ?t]) = take ?g out @ [?t]"
      using len by (simp add: take_Suc_conv_app_nth)
    moreover have "zm_room mx m = Suc (mx - Suc ?g)" using Some True by (simp add: zm_room_def)
    ultimately show ?thesis
      using Some True assms(1) v
      by (simp add: zm_rel_def m1_def report_trade_def zm_wf_def zm_view_def)
  qed
qed

subsection \<open>The inner loop\<close>

lemma level_step_refines:
  assumes wf: "level_wf l" "order_count l > 0" "zm_wf mx m"
    and step: "level_step bid ord symb mx ts (l, m) = (l', m')"
  defines "q \<equiv> min (zm_remaining m) (bo_remaining_qty (front_order l))"
  shows "level_wf l'" "lvl_price l' = lvl_price l" "cached_total_qty l' = cached_total_qty l - q"
    "zm_remaining m' = zm_remaining m - q"
    "level_abs l = order_abs (front_order l) # tl (level_abs l)"
    "level_abs l' = (if bo_remaining_qty (front_order l) - q = 0 then []
        else [(order_abs (front_order l))\<lparr>r_qty := bo_remaining_qty (front_order l) - q\<rparr>]) @ tl (level_abs l)"
    "zm_rel bid mx [fill_of (order_abs (front_order l)) q] m m'"
proof -
  let ?f = "front_order l" and ?r = "bo_remaining_qty (front_order l) - q"
  let ?l1 = "l\<lparr>orders := (orders l)[head_order_idx l := ?f\<lparr>bo_remaining_qty := ?r\<rparr>],
    cached_total_qty := cached_total_qty l - q\<rparr>"
  have l': "l' = (if ?r = 0 then pop_front_order ?l1 else ?l1)"
    using arg_cong [OF step, of fst] by (cases "?r = 0") (auto simp: level_step_def Let_def q_def)
  show "level_wf l'" unfolding l' by (rule level_take(3) [OF wf(1,2)])
  show "level_abs l = order_abs ?f # tl (level_abs l)" by (rule level_take(2) [OF wf(1,2)])
  show "level_abs l' = (if ?r = 0 then [] else [(order_abs ?f)\<lparr>r_qty := ?r\<rparr>]) @ tl (level_abs l)"
    unfolding l' by (rule level_take(1) [OF wf(1,2)])
  show "lvl_price l' = lvl_price l" "cached_total_qty l' = cached_total_qty l - q" by (simp_all add: l')
  show "zm_remaining m' = zm_remaining m - q" using step by (auto simp: level_step_def Let_def q_def)
  have id: "length (cstr (bo_cl_ord_id ?f)) \<le> 31"
    using wf(1) by (auto simp: front_order_def level_wf_def)
  show "zm_rel bid mx [fill_of (order_abs ?f) q] m m'"
    using zm_rel_report [OF wf(3) id, where bid = bid and ord = ord and symb = symb and ts = ts and q = q
        and r = "zm_remaining m - q"] step
    by (auto simp: level_step_def Let_def q_def fill_of_def)
qed

lemma level_loop_unfold:
  "order_count l > 0 \<Longrightarrow> zm_remaining m > 0 \<Longrightarrow>
     level_loop bid ord symb mx ts (l, m) = level_loop bid ord symb mx ts (level_step bid ord symb mx ts (l, m))"
  "order_count l = 0 \<or> zm_remaining m = 0 \<Longrightarrow> level_loop bid ord symb mx ts (l, m) = (l, m)"
  by (subst level_loop.simps, auto)+

text \<open>
  On a level whose orders all have an acceptable price, the inner loop is the abstract match.
\<close>

lemma level_loop_refines:
  assumes "level_wf l" "zm_wf mx m" "\<forall>r \<in> set (level_abs l). \<not> place_before bid (price ord) (r_price r)"
    and "level_loop bid ord symb mx ts (l, m) = (l', m')"
  shows "\<exists>fs. lob_match bid (price ord) (zm_remaining m) (level_abs l) = (fs, zm_remaining m', level_abs l') \<and>
    level_wf l' \<and> lvl_price l' = lvl_price l \<and> zm_rel bid mx fs m m' \<and>
    cached_total_qty l' + of_nat (fill_sum fs) = cached_total_qty l"
  using assms
proof (induction "unat (zm_remaining m) + order_count l" arbitrary: l m rule: less_induct)
  case less
  show ?case
  proof (cases "order_count l > 0 \<and> zm_remaining m > 0")
    case False
    then have stop: "order_count l = 0 \<or> zm_remaining m = 0" by (auto simp: word_neq_0_conv)
    with less.prems(4) have "l' = l" "m' = m" by (simp_all add: level_loop_unfold(2))
    moreover have "lob_match bid (price ord) (zm_remaining m) (level_abs l) = ([], zm_remaining m, level_abs l)"
      using stop level_abs_empty [of l] by (cases "level_abs l") auto
    ultimately show ?thesis using less.prems(1,2) zm_rel_refl [of mx m bid] by auto
  next
    case go: True
    obtain l1 m1 where step: "level_step bid ord symb mx ts (l, m) = (l1, m1)" by fastforce
    let ?f = "front_order l" and ?q = "min (zm_remaining m) (bo_remaining_qty (front_order l))"
    let ?x = "order_abs ?f"
    note R = level_step_refines [OF less.prems(1) conjunct1 [OF go] less.prems(2) step]
    have dec: "unat (zm_remaining m1) + order_count l1 < unat (zm_remaining m) + order_count l"
      using level_step_decreases(1) [of l m bid ord symb mx ts] go step by simp
    have wf1: "zm_wf mx m1" using R(7) by (simp add: zm_rel_def)
    have rest: "level_loop bid ord symb mx ts (l1, m1) = (l', m')"
      using less.prems(4) go step by (simp add: level_loop_unfold(1))
    have pr: "\<forall>r \<in> set (level_abs l1). \<not> place_before bid (price ord) (r_price r)"
    proof -
      define xs where "xs = tl (level_abs l)"
      have A: "level_abs l = ?x # xs" unfolding xs_def by (rule R(5))
      have "set (level_abs l1) \<subseteq> insert (?x\<lparr>r_qty := bo_remaining_qty ?f - ?q\<rparr>) (set xs)"
        unfolding R(6) xs_def by auto
      with less.prems(3) A show ?thesis by auto
    qed
    obtain fs where IH: "lob_match bid (price ord) (zm_remaining m1) (level_abs l1) = (fs, zm_remaining m', level_abs l')"
      "level_wf l'" "lvl_price l' = lvl_price l1" "zm_rel bid mx fs m1 m'"
      "cached_total_qty l' + of_nat (fill_sum fs) = cached_total_qty l1"
      using less.hyps [OF dec R(1) wf1 pr rest] by blast
    have blocked: "\<not> place_before bid (price ord) (r_price ?x)"
      using less.prems(3) R(5) by (metis list.set_intros(1))
    have "lob_match bid (price ord) (zm_remaining m) (?x # tl (level_abs l)) =
        (fill_of ?x ?q # fs, zm_remaining m', level_abs l')"
    proof (cases "bo_remaining_qty ?f \<le> zm_remaining m")
      case True
      then have "?q = bo_remaining_qty ?f" by (simp add: min_def)
      with IH(1) R(4,6) go True blocked show ?thesis by auto
    next
      case False
      then have q: "?q = zm_remaining m" by (auto simp: min_def)
      then have "zm_remaining m1 = 0" using R(4) by simp
      then have same: "l' = l1" "m' = m1" using rest by (simp_all add: level_loop_unfold(2))
      have "fs = []" using IH(1) \<open>zm_remaining m1 = 0\<close> by (cases "level_abs l1") auto
      moreover have "bo_remaining_qty ?f - zm_remaining m \<noteq> 0" using False by auto
      ultimately show ?thesis
        using go False blocked R(6) q \<open>zm_remaining m1 = 0\<close> by (auto simp: same)
    qed
    then have "lob_match bid (price ord) (zm_remaining m) (level_abs l) =
        (fill_of ?x ?q # fs, zm_remaining m', level_abs l')"
      using R(5) by simp
    moreover have "zm_rel bid mx (fill_of ?x ?q # fs) m m'"
      using zm_rel_trans [OF R(7) IH(4)] by simp
    moreover have "cached_total_qty l' + of_nat (fill_sum (fill_of ?x ?q # fs)) = cached_total_qty l"
      using IH(5) R(3) by (simp add: algebra_simps)
    ultimately show ?thesis using IH(2,3) R(2) by metis
  qed
qed

subsection \<open>Sides: pools, free lists and pointer arrays\<close>

definition used_ptrs :: "BookSide \<Rightarrow> nat list" where
  "used_ptrs s = take (level_count s) (level_ptrs s)"

definition free_ptrs :: "BookSide \<Rightarrow> nat list" where
  "free_ptrs s = take (free_count s) (free_list s)"

definition side_levels :: "BookSide \<Rightarrow> BookLevel list" where
  "side_levels s = map (\<lambda>p. pool s ! p) (used_ptrs s)"

definition side_abs :: "BookSide \<Rightarrow> resting list" where
  "side_abs s = concat (map level_abs (side_levels s))"

definition level_ok :: "BookLevel \<Rightarrow> bool" where
  "level_ok l \<longleftrightarrow> order_count l > 0 \<and> (\<forall>r \<in> set (level_abs l). r_price r = lvl_price l \<and> r_qty r > 0) \<and>
     cached_total_qty l = of_nat (qty_sum (level_abs l))"

definition levels_sorted :: "bool \<Rightarrow> BookLevel list \<Rightarrow> bool" where
  "levels_sorted bid ls = sorted_wrt (\<lambda>a b. place_before bid (lvl_price a) (lvl_price b)) ls"

text \<open>Every level of the pool is either in use or free, exactly once.\<close>

definition ptrs_wf :: "BookSide \<Rightarrow> bool" where
  "ptrs_wf s \<longleftrightarrow> length (pool s) = 64 \<and> length (free_list s) = 64 \<and> length (level_ptrs s) = 64 \<and>
     level_count s + free_count s = 64 \<and> distinct (used_ptrs s @ free_ptrs s) \<and>
     set (used_ptrs s @ free_ptrs s) \<subseteq> {..< 64} \<and> list_all level_wf (pool s)"

definition side_wf :: "bool \<Rightarrow> BookSide \<Rightarrow> bool" where
  "side_wf bid s \<longleftrightarrow> ptrs_wf s \<and> list_all level_ok (side_levels s) \<and> levels_sorted bid (side_levels s)"

lemma length_used_ptrs: "ptrs_wf s \<Longrightarrow> length (used_ptrs s) = level_count s"
  by (simp add: ptrs_wf_def used_ptrs_def)

lemma used_ptrs_Cons:
  assumes "ptrs_wf s" "level_count s > 0"
  shows "used_ptrs s = level_ptrs s ! 0 # tl (used_ptrs s)"
proof -
  have "used_ptrs s \<noteq> []" using assms length_used_ptrs [OF assms(1)] by auto
  moreover have "hd (used_ptrs s) = level_ptrs s ! 0"
    using assms \<open>used_ptrs s \<noteq> []\<close> by (simp add: used_ptrs_def hd_conv_nth)
  ultimately show ?thesis by (metis list.collapse)
qed

lemma ptrs_wf_pool:
  assumes "ptrs_wf s" "level_wf l"
  shows "ptrs_wf (s\<lparr>pool := (pool s)[p := l]\<rparr>)"
  using assms set_update_subset_insert [of "pool s" p l]
  by (auto simp: ptrs_wf_def used_ptrs_def free_ptrs_def list_all_iff)

lemma levels_pool_other:
  assumes "p \<notin> set ps"
  shows "map (\<lambda>i. (pool s)[p := l] ! i) ps = map (\<lambda>i. pool s ! i) ps"
proof (rule map_cong)
  show "(pool s)[p := l] ! x = pool s ! x" if "x \<in> set ps" for x
    using assms that by (metis nth_list_update_neq)
qed simp

text \<open>Replacing the best level in place, and releasing it.\<close>

lemma side_replace_best:
  assumes wf: "ptrs_wf s" "level_count s > 0" "level_wf l"
  defines "best \<equiv> level_ptrs s ! 0"
  defines "s1 \<equiv> s\<lparr>pool := (pool s)[best := l]\<rparr>"
  shows "side_levels s = pool s ! best # tl (side_levels s)" "side_levels s1 = l # tl (side_levels s)" "ptrs_wf s1"
proof -
  obtain us where u: "used_ptrs s = best # us" using used_ptrs_Cons [OF wf(1,2)] by (metis best_def)
  have d: "best \<notin> set us" "best < 64" using wf(1) by (auto simp: ptrs_wf_def u)
  show "side_levels s = pool s ! best # tl (side_levels s)" by (simp add: side_levels_def u)
  have "used_ptrs s1 = best # us" using u by (simp add: s1_def used_ptrs_def)
  then show "side_levels s1 = l # tl (side_levels s)"
    using d wf(1) levels_pool_other [OF d(1), of s l] by (simp add: side_levels_def u s1_def ptrs_wf_def)
  show "ptrs_wf s1" unfolding s1_def using wf(1,3) by (rule ptrs_wf_pool)
qed

lemma side_release_best:
  assumes wf: "ptrs_wf s" "level_count s > 0"
  defines "s' \<equiv> (release_level (level_ptrs s ! 0) s)\<lparr>level_ptrs := shift_down (level_ptrs s) 0 (level_count s),
    level_count := level_count s - 1\<rparr>"
  shows "side_levels s' = tl (side_levels s)" "ptrs_wf s'"
proof -
  let ?best = "level_ptrs s ! 0"
  have L: "length (level_ptrs s) = 64" "length (free_list s) = 64" "level_count s + free_count s = 64"
    using wf(1) by (simp_all add: ptrs_wf_def)
  obtain us where u: "used_ptrs s = ?best # us" using used_ptrs_Cons [OF wf] by metis
  have "?best < 64" using wf(1) by (auto simp: ptrs_wf_def u)
  then have rel: "release_level ?best s = s\<lparr>free_list := (free_list s)[free_count s := ?best], free_count := free_count s + 1\<rparr>"
    using L wf(2) by (simp add: release_level_def nullptr_def MAX_BOOK_LEVELS_def)
  have u': "used_ptrs s' = us"
    using take_shift_down [of 0 "level_count s" "level_ptrs s"] wf(2) L u
    by (simp add: s'_def used_ptrs_def rel drop_Suc)
  have f': "free_ptrs s' = free_ptrs s @ [?best]"
    using L wf(2) by (simp add: s'_def free_ptrs_def rel take_Suc_conv_app_nth)
  have p': "pool s' = pool s" by (simp add: s'_def rel)
  show "side_levels s' = tl (side_levels s)" by (simp add: side_levels_def u u' p')
  have perm: "distinct (used_ptrs s' @ free_ptrs s') \<longleftrightarrow> distinct (used_ptrs s @ free_ptrs s)"
    "set (used_ptrs s' @ free_ptrs s') = set (used_ptrs s @ free_ptrs s)"
    unfolding u' f' u by auto
  show "ptrs_wf s'"
    using wf perm unfolding ptrs_wf_def by (simp add: s'_def rel)
qed

subsection \<open>The outer loop\<close>

lemma lob_match_zero [simp]: "lob_match bid p 0 rs = ([], 0, rs)"
  by (cases rs) simp_all

lemma lob_match_append:
  assumes "lob_match bid p rem xs = (fs, r, xs')"
  shows "lob_match bid p rem (xs @ ys) =
    (if xs' = [] then let (gs, r', ys') = lob_match bid p r ys in (fs @ gs, r', ys') else (fs, r, xs' @ ys))"
  using assms
proof (induction bid p rem xs arbitrary: fs r xs' rule: lob_match.induct)
  case (2 bid p rem x xs)
  show ?case
  proof (cases "rem = 0 \<or> place_before bid p (r_price x) \<or> \<not> r_qty x \<le> rem")
    case False
    obtain fs1 r1 xs1 where rec: "lob_match bid p (rem - r_qty x) xs = (fs1, r1, xs1)" by (metis prod_cases3)
    then have "lob_match bid p (rem - r_qty x) (xs @ ys) = (if xs1 = []
        then let (gs, r', ys') = lob_match bid p r1 ys in (fs1 @ gs, r', ys') else (fs1, r1, xs1 @ ys))"
      using False by (intro 2(1)) auto
    with 2(2) rec False show ?thesis by (auto simp: Let_def split_beta)
  qed (use 2(2) in auto)
qed (simp add: split_beta)

lemma level_ok_after:
  assumes "level_ok l" "lob_match bid p rem (level_abs l) = (fs, rem', level_abs l')" "order_count l' > 0"
    and "lvl_price l' = lvl_price l" "cached_total_qty l' + of_nat (fill_sum fs) = cached_total_qty l"
  shows "level_ok l'"
proof -
  have pr: "\<forall>r \<in> set (level_abs l). r_price r = lvl_price l" and pos: "side_pos (level_abs l)"
    using assms(1) by (auto simp: level_ok_def side_pos_def list_all_iff)
  have "side_sorted bid (level_abs l)"
    using pr by (induction "level_abs l") (simp_all add: side_sorted_def sorted_wrt_iff_nth_less)
  then have "side_pos (level_abs l')" using lob_match_sorted [OF assms(2)] pos by simp
  moreover have "\<forall>r \<in> set (level_abs l'). r_price r = lvl_price l'"
    using lob_match_prices [OF assms(2)] pr assms(4) by auto
  moreover have "cached_total_qty l' = of_nat (qty_sum (level_abs l'))"
    using assms(1,5) lob_match_conserves [OF assms(2)] by (simp add: level_ok_def algebra_simps)
  ultimately show ?thesis
    using assms(3) by (auto simp: level_ok_def side_pos_def list_all_iff)
qed

lemma side_step_refines:
  assumes wf: "side_wf bid s" "level_count s > 0" "zm_wf mx m" "zm_remaining m > 0"
    and open_price: "\<not> place_before bid (price ord) (lvl_price (pool s ! (level_ptrs s ! 0)))"
    and step: "side_step bid ord symb mx ts s m = (s', m')"
  shows "\<exists>fs. zm_rel bid mx fs m m' \<and> side_wf bid s' \<and>
    lob_match bid (price ord) (zm_remaining m) (side_abs s) =
      (let (gs, r, rs) = lob_match bid (price ord) (zm_remaining m') (side_abs s') in (fs @ gs, r, rs))"
proof -
  let ?best = "level_ptrs s ! 0"
  let ?l = "pool s ! ?best"
  have pw: "ptrs_wf s" using wf(1) by (simp add: side_wf_def)
  obtain l' where loop: "level_loop bid ord symb mx ts (?l, m) = (l', m')"
    using step by (auto simp: side_step_def Let_def split: prod.splits)
  let ?s1 = "s\<lparr>pool := (pool s)[?best := l']\<rparr>"
  have s': "s' = (if order_count l' = 0
      then (release_level ?best ?s1)\<lparr>level_ptrs := shift_down (level_ptrs s) 0 (level_count s), level_count := level_count s - 1\<rparr>
      else ?s1)"
    using step loop by (cases "order_count l' = 0") (auto simp: side_step_def Let_def)
  obtain us where u: "used_ptrs s = ?best # us" using used_ptrs_Cons [OF pw wf(2)] by metis
  then have "?best < 64" using pw by (auto simp: ptrs_wf_def)
  then have lwf: "level_wf ?l" using pw by (simp add: ptrs_wf_def list_all_length)
  obtain ls where ls: "side_levels s = ?l # ls" by (simp add: side_levels_def u)
  then have lok: "level_ok ?l" "list_all level_ok ls" "levels_sorted bid (?l # ls)"
    using wf(1) by (simp_all add: side_wf_def)
  have pr: "\<forall>r \<in> set (level_abs ?l). \<not> place_before bid (price ord) (r_price r)"
    using lok(1) open_price by (auto simp: level_ok_def)
  from level_loop_refines [OF lwf wf(3) pr loop] obtain fs where R:
    "lob_match bid (price ord) (zm_remaining m) (level_abs ?l) = (fs, zm_remaining m', level_abs l')"
    "level_wf l'" "lvl_price l' = lvl_price ?l" "zm_rel bid mx fs m m'"
    "cached_total_qty l' + of_nat (fill_sum fs) = cached_total_qty ?l" by blast
  have s1: "side_levels ?s1 = l' # ls" "ptrs_wf ?s1"
    using side_replace_best [OF pw wf(2) R(2)] ls by simp_all
  have abs: "side_abs s = level_abs ?l @ concat (map level_abs ls)" by (simp add: side_abs_def ls)
  note M = lob_match_append [OF R(1), of "concat (map level_abs ls)"]
  show ?thesis
  proof (cases "order_count l' = 0")
    case True
    have "side_levels s' = ls" "ptrs_wf s'"
      using side_release_best [OF s1(2)] wf(2) True by (simp_all add: s' s1(1))
    moreover have "levels_sorted bid ls" using lok(3) by (simp add: levels_sorted_def)
    moreover have "side_abs s' = concat (map level_abs ls)" using calculation by (simp add: side_abs_def)
    ultimately show ?thesis
      using R(4) lok(2) M True level_abs_empty [of l']
      by (intro exI [of _ fs]) (simp add: side_wf_def abs)
  next
    case False
    then have r0: "zm_remaining m' = 0"
      using level_loop_exit [of bid ord symb mx ts "(?l, m)"] loop by simp
    have "level_ok l'" using level_ok_after [OF lok(1) R(1) _ R(3,5)] False by simp
    moreover have "levels_sorted bid (l' # ls)" using lok(3) R(3) by (simp add: levels_sorted_def)
    ultimately have "side_wf bid s'" "side_abs s' = level_abs l' @ concat (map level_abs ls)"
      using s1 lok(2) False by (simp_all add: side_wf_def s' side_abs_def)
    then show ?thesis
      using R(4) M False level_abs_empty [of l'] by (intro exI [of _ fs]) (simp add: abs r0)
  qed
qed

lemma side_loop_refines:
  assumes "side_wf bid s" "zm_wf mx m" "side_loop bid ord symb mx ts s m = (s', m')"
  shows "\<exists>fs. lob_match bid (price ord) (zm_remaining m) (side_abs s) = (fs, zm_remaining m', side_abs s') \<and>
    side_wf bid s' \<and> zm_rel bid mx fs m m'"
  using assms
proof (induction "unat (zm_remaining m) + level_count s" arbitrary: s m rule: less_induct)
  case less
  have pw: "ptrs_wf s" using less.prems(1) by (simp add: side_wf_def)
  show ?case
  proof (cases "level_count s > 0 \<and> zm_remaining m > 0 \<and>
      \<not> place_before bid (price ord) (lvl_price (pool s ! (level_ptrs s ! 0)))")
    case False
    then have same: "s' = s" "m' = m"
      using less.prems(3) by (subst (asm) side_loop.simps, auto split: if_splits)+
    have "lob_match bid (price ord) (zm_remaining m) (side_abs s) = ([], zm_remaining m, side_abs s)"
    proof (cases "level_count s > 0 \<and> zm_remaining m > 0")
      case True
      obtain us where u: "used_ptrs s = level_ptrs s ! 0 # us"
        using used_ptrs_Cons [OF pw] True by metis
      let ?l = "pool s ! (level_ptrs s ! 0)"
      have "level_ok ?l" using less.prems(1) by (simp add: side_wf_def side_levels_def u)
      then obtain x xs where x: "level_abs ?l = x # xs" "r_price x = lvl_price ?l"
        using level_abs_empty [of ?l] by (cases "level_abs ?l") (auto simp: level_ok_def)
      with True False show ?thesis by (simp add: side_abs_def side_levels_def u)
    next
      case f: False
      then consider "zm_remaining m = 0" | "level_count s = 0" using word_neq_0_conv by blast
      then show ?thesis by cases (simp_all add: side_abs_def side_levels_def used_ptrs_def)
    qed
    with same less.prems(1,2) zm_rel_refl show ?thesis by auto
  next
    case go: True
    obtain s1 m1 where step: "side_step bid ord symb mx ts s m = (s1, m1)" by fastforce
    have rest: "side_loop bid ord symb mx ts s1 m1 = (s', m')"
      using less.prems(3) go step by (subst (asm) side_loop.simps) simp
    have dec: "unat (zm_remaining m1) + level_count s1 < unat (zm_remaining m) + level_count s"
      using go step by (intro side_step_decreases) auto
    have go': "level_count s > 0" "zm_remaining m > 0"
      "\<not> place_before bid (price ord) (lvl_price (pool s ! (level_ptrs s ! 0)))" using go by simp_all
    obtain fs where S:
      "zm_rel bid mx fs m m1" "side_wf bid s1"
      "lob_match bid (price ord) (zm_remaining m) (side_abs s) =
        (let (gs, r, rs) = lob_match bid (price ord) (zm_remaining m1) (side_abs s1) in (fs @ gs, r, rs))"
      using side_step_refines [OF less.prems(1) go'(1) less.prems(2) go'(2,3) step] by blast
    have "zm_wf mx m1" using S(1) by (simp add: zm_rel_def)
    from less.hyps [OF dec S(2) this rest] obtain gs where I:
      "lob_match bid (price ord) (zm_remaining m1) (side_abs s1) = (gs, zm_remaining m', side_abs s')"
      "side_wf bid s'" "zm_rel bid mx gs m1 m'" by blast
    with S(3) zm_rel_trans [OF S(1) I(3)] show ?thesis by auto
  qed
qed

subsection \<open>Binary search and insertion\<close>

lemma side_levels_nth: "ptrs_wf s \<Longrightarrow> i < level_count s \<Longrightarrow> side_levels s ! i = pool s ! (level_ptrs s ! i)"
  by (simp add: side_levels_def used_ptrs_def ptrs_wf_def)

lemma length_side_levels: "ptrs_wf s \<Longrightarrow> length (side_levels s) = level_count s"
  by (simp add: side_levels_def length_used_ptrs)

text \<open>The search ends at a level with the price or at the position that keeps the order.\<close>

lemma level_search_spec:
  assumes "side_wf bid s" "low \<le> high" "high \<le> level_count s"
    and "\<forall>i < low. place_before bid (lvl_price (side_levels s ! i)) p"
    and "\<forall>i < level_count s. high \<le> i \<longrightarrow> place_before bid p (lvl_price (side_levels s ! i))"
  shows "case level_search bid p s low high of
      Inl mid \<Rightarrow> mid < level_count s \<and> lvl_price (side_levels s ! mid) = p
    | Inr pos \<Rightarrow> pos \<le> level_count s \<and>
        (\<forall>i < pos. place_before bid (lvl_price (side_levels s ! i)) p) \<and>
        (\<forall>i < level_count s. pos \<le> i \<longrightarrow> place_before bid p (lvl_price (side_levels s ! i)))"
  using assms
proof (induction bid p s low high rule: level_search.induct)
  case (1 bid p s low high)
  have pw: "ptrs_wf s" using 1(3) by (simp add: side_wf_def)
  have sorted: "place_before bid (lvl_price (side_levels s ! i)) (lvl_price (side_levels s ! j))"
    if "i < j" "j < level_count s" for i j
    using 1(3) that length_side_levels [OF pw]
    by (simp add: side_wf_def levels_sorted_def sorted_wrt_iff_nth_less)
  show ?case
  proof (cases "low < high")
    case False
    then show ?thesis using 1 by (subst level_search.simps) auto
  next
    case lt: True
    let ?mid = "low + (high - low) div 2"
    let ?q = "lvl_price (side_levels s ! ?mid)"
    have mid: "low \<le> ?mid" "?mid < high" "?mid < level_count s" using lt 1(5) by auto
    have q: "lvl_price (pool s ! (level_ptrs s ! ?mid)) = ?q" using side_levels_nth [OF pw mid(3)] by simp
    consider (eq) "?q = p" | (left) "?q \<noteq> p" "place_before bid p ?q" | (right) "?q \<noteq> p" "\<not> place_before bid p ?q"
      by blast
    then show ?thesis
    proof cases
      case eq
      then show ?thesis using lt mid q by (subst level_search.simps) (simp add: Let_def)
    next
      case left
      have eq: "level_search bid p s low high = level_search bid p s low ?mid"
        using lt left q by (subst level_search.simps) (simp add: Let_def)
      have up: "\<forall>i < level_count s. ?mid \<le> i \<longrightarrow> place_before bid p (lvl_price (side_levels s ! i))"
        using left(2) sorted [of ?mid] place_before_trans by (metis le_neq_implies_less)
      show ?thesis unfolding eq using 1(1) [OF lt refl refl] left q 1(3,6) mid up by simp
    next
      case right
      then have better: "place_before bid ?q p" using place_before_total by metis
      have eq: "level_search bid p s low high = level_search bid p s (?mid + 1) high"
        using lt right q by (subst level_search.simps) (simp add: Let_def)
      have down: "\<forall>i < ?mid + 1. place_before bid (lvl_price (side_levels s ! i)) p"
        using better sorted mid(3) place_before_trans by (metis less_Suc_eq Suc_eq_plus1)
      show ?thesis unfolding eq using 1(2) [OF lt refl refl] right q 1(3,5,7) mid down by simp
    qed
  qed
qed

lemma lob_rest_split:
  assumes "\<forall>x \<in> set xs. \<not> place_before bid (r_price r) (r_price x)"
    and "\<forall>y \<in> set ys. place_before bid (r_price r) (r_price y)"
  shows "lob_rest bid r (xs @ ys) = xs @ r # ys"
proof -
  have "takeWhile (\<lambda>x. \<not> place_before bid (r_price r) (r_price x)) ys = []"
    "dropWhile (\<lambda>x. \<not> place_before bid (r_price r) (r_price x)) ys = ys"
    using assms(2) by (cases ys; simp)+
  with assms(1) show ?thesis
    by (simp add: lob_rest_def takeWhile_digits_append dropWhile_digits_append list_all_iff)
qed

lemma concat_prices:
  assumes "list_all level_ok ls" "r \<in> set (concat (map level_abs ls))"
  obtains l where "l \<in> set ls" "r_price r = lvl_price l"
  using assms by (auto simp: list_all_iff level_ok_def)

lemma lob_rest_levels:
  assumes "list_all level_ok (as @ bs)"
    and "\<forall>l \<in> set as. place_before bid (lvl_price l) (r_price r) \<or> lvl_price l = r_price r"
    and "\<forall>l \<in> set bs. place_before bid (r_price r) (lvl_price l)"
  shows "lob_rest bid r (concat (map level_abs (as @ bs))) =
    concat (map level_abs as) @ r # concat (map level_abs bs)"
  unfolding map_append concat_append
proof (rule lob_rest_split)
  have ok: "list_all level_ok as" "list_all level_ok bs" using assms(1) by simp_all
  show "\<forall>x \<in> set (concat (map level_abs as)). \<not> place_before bid (r_price r) (r_price x)"
  proof
    fix x assume "x \<in> set (concat (map level_abs as))"
    with ok(1) obtain l where "l \<in> set as" "r_price x = lvl_price l" by (rule concat_prices)
    with assms(2) show "\<not> place_before bid (r_price r) (r_price x)"
      by (metis place_before_asym place_before_irrefl)
  qed
  show "\<forall>y \<in> set (concat (map level_abs bs)). place_before bid (r_price r) (r_price y)"
  proof
    fix y assume "y \<in> set (concat (map level_abs bs))"
    with ok(2) obtain l where "l \<in> set bs" "r_price y = lvl_price l" by (rule concat_prices)
    with assms(3) show "place_before bid (r_price r) (r_price y)" by simp
  qed
qed

text \<open>Appending an order to the level of its price.\<close>

lemma side_push_level:
  fixes ts :: u64
  assumes wf: "side_wf bid s" "i < level_count s" "order_count (side_levels s ! i) < 32"
    "lvl_price (side_levels s ! i) = price ord" "qty > 0"
  defines "s' \<equiv> push_to (level_ptrs s ! i) ord qty ts s"
  shows "side_wf bid s' \<and> side_abs s' =
    lob_rest bid \<lparr>r_price = price ord, r_id = z_ident (cl_ord_id ord), r_qty = qty\<rparr> (side_abs s)"
proof -
  let ?ls = "side_levels s" and ?r = "\<lparr>r_price = price ord, r_id = z_ident (cl_ord_id ord), r_qty = qty\<rparr>"
  have pw: "ptrs_wf s" and ok: "list_all level_ok ?ls" and srt: "levels_sorted bid ?ls"
    using wf(1) by (simp_all add: side_wf_def)
  have n: "length ?ls = level_count s" by (rule length_side_levels [OF pw])
  let ?ptr = "level_ptrs s ! i"
  let ?l = "pool s ! ?ptr"
  have li: "?ls ! i = ?l" by (rule side_levels_nth [OF pw wf(2)])
  have ui: "used_ptrs s ! i = ?ptr" "i < length (used_ptrs s)"
    using wf(2) pw length_used_ptrs [OF pw] by (simp_all add: used_ptrs_def)
  have p64: "?ptr < 64" using pw ui by (auto simp: ptrs_wf_def) (metis lessThan_iff nth_mem subsetD)
  then have lwf: "level_wf ?l" using pw by (simp add: ptrs_wf_def list_all_length)
  define l' where "l' = push_back_order (seq_num ord) (cl_ord_id ord) (side ord) (price ord) qty ts ?l"
  note P = level_push [OF lwf, of "seq_num ord" "cl_ord_id ord" "side ord" "price ord" qty ts, folded l'_def]
  have cnt: "order_count ?l < 32" "lvl_price ?l = price ord" using wf(3,4) li by simp_all
  have s': "s' = s\<lparr>pool := (pool s)[?ptr := l']\<rparr>" by (simp add: s'_def push_to_def l'_def)
  have lv: "side_levels s' = ?ls[i := l']"
  proof (rule nth_equalityI)
    have lvs: "side_levels s' = map (\<lambda>p. (pool s)[?ptr := l'] ! p) (used_ptrs s)"
      by (simp add: side_levels_def used_ptrs_def s')
    show "length (side_levels s') = length (?ls[i := l'])" unfolding lvs by (simp add: side_levels_def)
    fix j assume "j < length (side_levels s')"
    then have j: "j < length (used_ptrs s)" by (simp add: lvs)
    have "distinct (used_ptrs s)" "length (pool s) = 64" using pw by (simp_all add: ptrs_wf_def)
    moreover have "?ptr = used_ptrs s ! j \<longleftrightarrow> i = j"
      using calculation(1) j ui nth_eq_iff_index_eq by metis
    ultimately show "side_levels s' ! j = ?ls[i := l'] ! j"
      unfolding lvs using j ui p64 by (simp add: side_levels_def nth_list_update)
  qed
  have okl: "level_ok ?l" using ok wf(2) n li by (auto simp: list_all_length)
  have "level_ok l'"
    using okl P(1-5) [OF cnt(1)] cnt(2) wf(5) by (auto simp: level_ok_def)
  moreover have "map lvl_price (?ls[i := l']) = map lvl_price ?ls"
    using P(3) [OF cnt(1)] li by (metis list_update_id map_update)
  then have "levels_sorted bid (?ls[i := l'])"
    using srt by (metis levels_sorted_def sorted_wrt_map)
  moreover have "ptrs_wf s'" unfolding s' by (rule ptrs_wf_pool [OF pw P(2) [OF cnt(1)]])
  ultimately have "side_wf bid s'"
    unfolding side_wf_def lv using ok set_update_subset_insert [of ?ls i l'] by (auto simp: list_all_iff)
  have split: "?ls = take i ?ls @ ?l # drop (Suc i) ?ls" using wf(2) n li by (metis id_take_nth_drop)
  let ?as = "take i ?ls @ [?l]" and ?bs = "drop (Suc i) ?ls"
  have abs': "side_abs s' = concat (map level_abs ?as) @ ?r # concat (map level_abs ?bs)"
    using P(1) [OF cnt(1)] wf(2) n by (simp add: side_abs_def lv upd_conv_take_nth_drop)
  have "levels_sorted bid (?as @ ?bs)" "list_all level_ok (?as @ ?bs)" using srt ok split by (metis append_Cons append_Nil append_assoc)+
  then have "lob_rest bid ?r (concat (map level_abs (?as @ ?bs))) =
      concat (map level_abs ?as) @ ?r # concat (map level_abs ?bs)"
    using cnt(2) by (intro lob_rest_levels) (auto simp: levels_sorted_def sorted_wrt_append)
  moreover have "side_abs s = concat (map level_abs (?as @ ?bs))"
    unfolding side_abs_def by (subst split) simp
  ultimately show ?thesis using abs' \<open>side_wf bid s'\<close> by simp
qed

text \<open>Opening a new level at the position found.\<close>

lemma side_new_level:
  fixes ts :: u64
  assumes wf: "side_wf bid s" "level_count s < 64" "qty > 0" "pos \<le> level_count s"
    and before: "\<forall>i < pos. place_before bid (lvl_price (side_levels s ! i)) (price ord)"
    and after: "\<forall>i < level_count s. pos \<le> i \<longrightarrow> place_before bid (price ord) (lvl_price (side_levels s ! i))"
    and acq: "acquire_level s = (ptr, s1)"
  defines "l0 \<equiv> (level_reset (pool s ! ptr))\<lparr>lvl_price := price ord\<rparr>"
  defines "l' \<equiv> push_back_order (seq_num ord) (cl_ord_id ord) (side ord) (price ord) qty ts l0"
  defines "s' \<equiv> s1\<lparr>pool := (pool s)[ptr := l'],
    level_ptrs := (shift_up (level_ptrs s) (level_count s) pos)[pos := ptr], level_count := level_count s + 1\<rparr>"
  shows "ptr \<noteq> nullptr \<and> ptr < 64 \<and> side_wf bid s' \<and> side_abs s' =
    lob_rest bid \<lparr>r_price = price ord, r_id = z_ident (cl_ord_id ord), r_qty = qty\<rparr> (side_abs s)"
proof -
  let ?ls = "side_levels s" and ?r = "\<lparr>r_price = price ord, r_id = z_ident (cl_ord_id ord), r_qty = qty\<rparr>"
  have pw: "ptrs_wf s" and ok: "list_all level_ok ?ls" and srt: "levels_sorted bid ?ls"
    using wf(1) by (simp_all add: side_wf_def)
  have L: "length (pool s) = 64" "length (free_list s) = 64" "length (level_ptrs s) = 64"
    "level_count s + free_count s = 64" using pw by (simp_all add: ptrs_wf_def)
  then have fc: "0 < free_count s" using wf(2) by simp
  have n: "length ?ls = level_count s" by (rule length_side_levels [OF pw])
  have ptr: "ptr = free_list s ! (free_count s - 1)"
    and s1: "s1 = s\<lparr>free_count := free_count s - 1, pool := (pool s)[ptr := level_reset (pool s ! ptr)]\<rparr>"
    using acq fc by (auto simp: acquire_level_def Let_def)
  have free: "free_ptrs s = take (free_count s - 1) (free_list s) @ [ptr]"
    using fc L by (simp add: free_ptrs_def ptr flip: take_Suc_conv_app_nth)
  have ptr64: "ptr < 64" "ptr \<notin> set (used_ptrs s)" using pw free by (auto simp: ptrs_wf_def)
  have u': "used_ptrs s' = take pos (used_ptrs s) @ ptr # drop pos (used_ptrs s)"
    using take_shift_up_insert [of pos "level_count s" "level_ptrs s" ptr] wf(2,4) L
    by (simp add: used_ptrs_def s'_def min_def)
  have f': "free_ptrs s' = take (free_count s - 1) (free_list s)" by (simp add: free_ptrs_def s'_def s1)
  have pool': "pool s' = (pool s)[ptr := l']" by (simp add: s'_def)
  have lwf0: "level_wf (pool s ! ptr)" using pw ptr64 by (simp add: ptrs_wf_def list_all_length)
  then have l0: "level_wf l0" "order_count l0 = 0" "lvl_price l0 = price ord" "cached_total_qty l0 = 0" "level_abs l0 = []"
    by (simp_all add: l0_def level_reset_def level_wf_def level_abs_def level_orders_def)
  note P = level_push [OF l0(1), of "seq_num ord" "cl_ord_id ord" "side ord" "price ord" qty ts, folded l'_def]
  have P0: "level_abs l' = [?r]" "level_wf l'" "lvl_price l' = price ord" "order_count l' = 1" "cached_total_qty l' = qty"
    using P l0 by simp_all
  have lok: "level_ok l'" using P0 wf(3) by (simp add: level_ok_def)
  let ?as = "take pos ?ls" and ?bs = "drop pos ?ls"
  have lv: "side_levels s' = ?as @ l' # ?bs"
    using levels_pool_other [of ptr "take pos (used_ptrs s)" s l'] levels_pool_other [of ptr "drop pos (used_ptrs s)" s l']
      ptr64 L by (auto simp: side_levels_def u' pool' take_map drop_map dest: in_set_takeD in_set_dropD)
  have lt: "\<forall>l \<in> set ?as. place_before bid (lvl_price l) (price ord)"
    "\<forall>l \<in> set ?bs. place_before bid (price ord) (lvl_price l)"
    using before after n wf(4) by (auto simp: in_set_conv_nth)
  have both: "list_all level_ok (?as @ ?bs)" "levels_sorted bid (?as @ ?bs)" using ok srt by simp_all
  have "levels_sorted bid (?as @ l' # ?bs)"
    using both(2) lt P0(3) unfolding levels_sorted_def sorted_wrt_append by auto
  moreover have "list_all level_ok (?as @ l' # ?bs)"
    using both(1) lok unfolding list_all_append list.pred_inject by blast
  moreover have "ptrs_wf s'"
  proof -
    have d: "distinct (used_ptrs s @ take (free_count s - 1) (free_list s) @ [ptr])"
      "set (used_ptrs s @ take (free_count s - 1) (free_list s) @ [ptr]) \<subseteq> {..<64}"
      using pw free by (auto simp: ptrs_wf_def)
    moreover have "set (used_ptrs s') = insert ptr (set (used_ptrs s)) \<and> distinct (used_ptrs s')"
    proof -
      define A where "A = take pos (used_ptrs s)"
      define B where "B = drop pos (used_ptrs s)"
      have ab: "used_ptrs s = A @ B" by (simp add: A_def B_def)
      have u2: "used_ptrs s' = A @ ptr # B" by (simp add: u' A_def B_def)
      show ?thesis using d(1) unfolding u2 ab by auto
    qed
    moreover have "list_all level_wf (pool s')"
      using pw P0(2) set_update_subset_insert [of "pool s" ptr l'] by (auto simp: ptrs_wf_def pool' list_all_iff)
    ultimately show ?thesis
      using L fc unfolding ptrs_wf_def f' by (auto simp: s'_def s1)
  qed
  ultimately have "side_wf bid s'" by (simp add: side_wf_def lv)
  moreover have "lob_rest bid ?r (concat (map level_abs (?as @ ?bs))) =
      concat (map level_abs ?as) @ ?r # concat (map level_abs ?bs)"
    using both(1) lt by (intro lob_rest_levels) auto
  moreover have "side_abs s' = concat (map level_abs ?as) @ ?r # concat (map level_abs ?bs)"
    by (simp add: side_abs_def lv P0)
  moreover have "side_abs s = concat (map level_abs (?as @ ?bs))" by (simp add: side_abs_def)
  ultimately show ?thesis using ptr64(1) by (simp add: nullptr_def MAX_BOOK_LEVELS_def)
qed

text \<open>The level of the price, if any, has room for one more order.\<close>

definition level_room :: "BookSide \<Rightarrow> int \<Rightarrow> bool" where
  "level_room s p \<longleftrightarrow> list_all (\<lambda>l. lvl_price l = p \<longrightarrow> order_count l < MAX_ORDERS_PER_LEVEL) (side_levels s)"

lemma add_to_book_refines:
  assumes wf: "side_wf bid s" "level_count s < MAX_BOOK_LEVELS" "qty > 0"
  shows "side_wf bid (add_to_book bid ord qty ts s) \<and> side_abs (add_to_book bid ord qty ts s) =
    (if level_room s (price ord)
     then lob_rest bid \<lparr>r_price = price ord, r_id = z_ident (cl_ord_id ord), r_qty = qty\<rparr> (side_abs s)
     else side_abs s)"
proof -
  let ?ls = "side_levels s"
  have pw: "ptrs_wf s" and srt: "levels_sorted bid ?ls" using wf(1) by (simp_all add: side_wf_def)
  have n: "length ?ls = level_count s" by (rule length_side_levels [OF pw])
  have c64: "level_count s < 64" using wf(2) by (simp add: MAX_BOOK_LEVELS_def)
  have spec: "case level_search bid (price ord) s 0 (level_count s) of
      Inl mid \<Rightarrow> mid < level_count s \<and> lvl_price (?ls ! mid) = price ord
    | Inr pos \<Rightarrow> pos \<le> level_count s \<and> (\<forall>i < pos. place_before bid (lvl_price (?ls ! i)) (price ord)) \<and>
        (\<forall>i < level_count s. pos \<le> i \<longrightarrow> place_before bid (price ord) (lvl_price (?ls ! i)))"
    by (rule level_search_spec [OF wf(1)]) simp_all
  show ?thesis
  proof (cases "level_search bid (price ord) s 0 (level_count s)")
    case (Inl mid)
    with spec have mid: "mid < level_count s" "lvl_price (?ls ! mid) = price ord" by simp_all
    have li: "?ls ! mid = pool s ! (level_ptrs s ! mid)" by (rule side_levels_nth [OF pw mid(1)])
    have only: "lvl_price (?ls ! i) = price ord \<longleftrightarrow> i = mid" if "i < level_count s" for i
    proof -
      have "place_before bid (lvl_price (?ls ! i)) (lvl_price (?ls ! j))" if "i < j" "j < level_count s" for i j
        using srt that n by (simp add: levels_sorted_def sorted_wrt_iff_nth_less)
      then show ?thesis using that mid by (metis linorder_neqE_nat place_before_irrefl)
    qed
    have room: "level_room s (price ord) \<longleftrightarrow> order_count (?ls ! mid) < 32"
      using only mid n by (auto simp: level_room_def list_all_length MAX_ORDERS_PER_LEVEL_def)
    have add: "add_to_book bid ord qty ts s = push_to (level_ptrs s ! mid) ord qty ts s"
      by (simp add: add_to_book_def Inl)
    show ?thesis
    proof (cases "order_count (?ls ! mid) < 32")
      case True
      then show ?thesis using side_push_level [OF wf(1) mid(1) True mid(2) wf(3), of ts] room by (simp add: add)
    next
      case False
      then have "push_to (level_ptrs s ! mid) ord qty ts s = s"
        using li by (simp add: push_to_def push_back_order_def MAX_ORDERS_PER_LEVEL_def)
      with False room wf(1) show ?thesis by (simp add: add)
    qed
  next
    case (Inr pos)
    with spec have pos: "pos \<le> level_count s" "\<forall>i < pos. place_before bid (lvl_price (?ls ! i)) (price ord)"
      "\<forall>i < level_count s. pos \<le> i \<longrightarrow> place_before bid (price ord) (lvl_price (?ls ! i))" by simp_all
    obtain ptr s1 where acq: "acquire_level s = (ptr, s1)" by fastforce
    note N = side_new_level [OF wf(1) c64 wf(3) pos acq, of ts]
    have s1: "level_ptrs s1 = level_ptrs s" "level_count s1 = level_count s"
      using acq by (auto simp: acquire_level_def Let_def split: if_splits)
    have fc: "0 < free_count s" using c64 pw by (simp add: ptrs_wf_def)
    then have pool1: "pool s1 = (pool s)[ptr := level_reset (pool s ! ptr)]"
      using acq by (auto simp: acquire_level_def Let_def)
    have "ptr < length (pool s)" using N pw by (simp add: ptrs_wf_def)
    then have add: "add_to_book bid ord qty ts s = s1\<lparr>pool := (pool s)[ptr :=
          push_back_order (seq_num ord) (cl_ord_id ord) (side ord) (price ord) qty ts
            ((level_reset (pool s ! ptr))\<lparr>lvl_price := price ord\<rparr>)],
        level_ptrs := (shift_up (level_ptrs s) (level_count s) pos)[pos := ptr], level_count := level_count s + 1\<rparr>"
      using N wf(2) by (simp add: add_to_book_def Inr acq Let_def push_to_def s1 pool1)
    have "lvl_price (?ls ! i) \<noteq> price ord" if "i < level_count s" for i
      using pos(2,3) that by (metis not_le place_before_irrefl)
    then have "level_room s (price ord)" using n by (auto simp: level_room_def list_all_length)
    with N show ?thesis by (simp add: add)
  qed
qed

subsection \<open>The whole book\<close>

definition z_abs :: "ZeroAllocBook \<Rightarrow> lob" where
  "z_abs b = \<lparr>lob_bids = side_abs (z_bids b), lob_asks = side_abs (z_asks b)\<rparr>"

definition z_inv :: "ZeroAllocBook \<Rightarrow> bool" where
  "z_inv b \<longleftrightarrow> side_wf True (z_bids b) \<and> side_wf False (z_asks b) \<and> uncrossed (z_abs b)"

text \<open>A residual of the order can rest: fewer than 64 levels, fewer than 32 orders at its price.\<close>

definition side_room :: "BookSide \<Rightarrow> int \<Rightarrow> bool" where
  "side_room s p \<longleftrightarrow> level_count s < MAX_BOOK_LEVELS \<and> level_room s p"

lemma side_wf_abs:
  assumes "side_wf bid s"
  shows "side_sorted bid (side_abs s)" "side_pos (side_abs s)"
proof -
  have "side_sorted bid (concat (map level_abs ls)) \<and> side_pos (concat (map level_abs ls))"
    if "list_all level_ok ls" "levels_sorted bid ls" for ls
    using that
  proof (induction ls)
    case (Cons l ls)
    have l: "\<forall>r \<in> set (level_abs l). r_price r = lvl_price l \<and> r_qty r > 0" using Cons.prems(1) by (simp add: level_ok_def)
    have ls: "\<forall>k \<in> set ls. place_before bid (lvl_price l) (lvl_price k)" using Cons.prems(2) by (simp add: levels_sorted_def)
    have low: "\<not> place_before bid (r_price y) (r_price x)"
      if xm: "x \<in> set (level_abs l)" and ym: "y \<in> set (concat (map level_abs ls))" for x y
    proof -
      have "list_all level_ok ls" using Cons.prems(1) by simp
      then obtain k where "k \<in> set ls" "r_price y = lvl_price k" using ym by (rule concat_prices)
      with l ls xm show ?thesis by (auto dest: place_before_asym)
    qed
    have "sorted_wrt (\<lambda>a b. \<not> place_before bid (r_price b) (r_price a)) (level_abs l)"
      using l by (simp add: sorted_wrt_iff_nth_less)
    with Cons low l show ?case
      by (auto simp: side_sorted_def sorted_wrt_append side_pos_def list_all_iff levels_sorted_def)
  qed simp
  with assms show "side_sorted bid (side_abs s)" "side_pos (side_abs s)"
    by (simp_all add: side_wf_def side_abs_def)
qed

lemma z_inv_lob: "z_inv b \<Longrightarrow> lob_inv (z_abs b)"
  using side_wf_abs [of True "z_bids b"] side_wf_abs [of False "z_asks b"]
  by (simp add: z_inv_def lob_inv_def z_abs_def)

text \<open>One half of \<open>submit_order\<close>: match the opposite side, then rest on the own side.\<close>

lemma half_submit:
  assumes nb: "nb = (\<not> bid)" and wf: "side_wf bid opp" "side_wf nb own" "zm_wf mx m"
    and loop: "side_loop bid ord symb mx ts opp m = (opp', m')"
  defines "own' \<equiv> (if zm_remaining m' > 0 \<and> level_count own < MAX_BOOK_LEVELS
      then add_to_book nb ord (zm_remaining m') ts own else own)"
  obtains fs where
    "lob_match bid (price ord) (zm_remaining m) (side_abs opp) = (fs, zm_remaining m', side_abs opp')"
    "side_wf bid opp'" "side_wf nb own'" "zm_rel bid mx fs m m'"
    "side_abs own' = (if zm_remaining m' > 0 \<and> side_room own (price ord)
       then lob_rest nb \<lparr>r_price = price ord, r_id = z_ident (cl_ord_id ord), r_qty = zm_remaining m'\<rparr> (side_abs own)
       else side_abs own)"
proof -
  from side_loop_refines [OF wf(1,3) loop] obtain fs where
    "lob_match bid (price ord) (zm_remaining m) (side_abs opp) = (fs, zm_remaining m', side_abs opp')"
    "side_wf bid opp'" "zm_rel bid mx fs m m'" by blast
  moreover have "side_wf nb own'" "side_abs own' = (if zm_remaining m' > 0 \<and> side_room own (price ord)
       then lob_rest nb \<lparr>r_price = price ord, r_id = z_ident (cl_ord_id ord), r_qty = zm_remaining m'\<rparr> (side_abs own)
       else side_abs own)"
    using add_to_book_refines [OF wf(2), of "zm_remaining m'" ord ts] wf(2)
    by (auto simp: own'_def side_room_def)
  ultimately show thesis using that by blast
qed

lemma z_submit_order_refines:
  assumes inv: "z_inv b" and out: "case out of None \<Rightarrow> True | Some arr \<Rightarrow> mx \<le> length arr"
    and sub: "z_submit_order ord out mx c ts b = (gen, out', c', b')"
    and spec: "spec_submit z_ident ord (z_abs b) = (fs, lb)"
  defines "rep \<equiv> (if out = None then [] else take mx fs)"
  shows "z_abs b' = lb\<lparr>
      lob_bids := (if side ord = 1 \<and> \<not> side_room (z_bids b) (price ord) then lob_bids (z_abs b) else lob_bids lb),
      lob_asks := (if side ord = 2 \<and> \<not> side_room (z_asks b) (price ord) then lob_asks (z_abs b) else lob_asks lb)\<rparr> \<and>
    side_wf True (z_bids b') \<and> side_wf False (z_asks b') \<and> gen = length rep \<and> c' = c + of_nat (length rep) \<and>
    (out \<noteq> None \<longrightarrow> map (zt_view (side ord = 2)) (take gen (the out')) = numbered c rep) \<and>
    z_total_trades b' = z_total_trades b + of_nat (length fs) \<and>
    z_total_volume b' = z_total_volume b + of_nat (fill_sum fs)"
proof -
  have wf: "side_wf True (z_bids b)" "side_wf False (z_asks b)" using inv by (simp_all add: z_inv_def)
  let ?m = "\<lparr>zm_remaining = of_int (quantity ord), zm_generated = 0, zm_out = out, zm_counter = c,
    zm_total_trades = z_total_trades b, zm_total_volume = z_total_volume b\<rparr>"
  have mw: "zm_wf mx ?m" using out by (auto simp: zm_wf_def split: option.splits)
  have rel: "zm_generated m' = length rep \<and> zm_counter m' = c + of_nat (length rep) \<and>
      (out \<noteq> None \<longrightarrow> map (zt_view bid) (take (zm_generated m') (the (zm_out m'))) = numbered c rep) \<and>
      zm_total_trades m' = z_total_trades b + of_nat (length fs) \<and>
      zm_total_volume m' = z_total_volume b + of_nat (fill_sum fs)" if "zm_rel bid mx fs ?m m'" for bid m'
    using that by (auto simp: zm_rel_def rep_def zm_room_def zm_view_def split: option.splits)
  consider (buy) "side ord = 1" | (sell) "side ord = 2" | (other) "side ord \<noteq> 1" "side ord \<noteq> 2" by blast
  then show ?thesis
  proof cases
    case buy
    obtain opp' m' where loop: "side_loop False ord (z_symbol b) mx ts (z_asks b) ?m = (opp', m')" by fastforce
    obtain gs where H: "lob_match False (price ord) (zm_remaining ?m) (side_abs (z_asks b)) = (gs, zm_remaining m', side_abs opp')"
      "side_wf False opp'" "zm_rel False mx gs ?m m'"
      "side_wf True (if zm_remaining m' > 0 \<and> level_count (z_bids b) < MAX_BOOK_LEVELS
        then add_to_book True ord (zm_remaining m') ts (z_bids b) else z_bids b)"
      "side_abs (if zm_remaining m' > 0 \<and> level_count (z_bids b) < MAX_BOOK_LEVELS
        then add_to_book True ord (zm_remaining m') ts (z_bids b) else z_bids b) =
       (if zm_remaining m' > 0 \<and> side_room (z_bids b) (price ord)
        then lob_rest True \<lparr>r_price = price ord, r_id = z_ident (cl_ord_id ord), r_qty = zm_remaining m'\<rparr> (side_abs (z_bids b))
        else side_abs (z_bids b))"
      by (rule half_submit [OF _ wf(2,1) mw loop]) blast+
    have "gs = fs" and lb: "lb = \<lparr>lob_bids = (if zm_remaining m' > 0
        then lob_rest True \<lparr>r_price = price ord, r_id = z_ident (cl_ord_id ord), r_qty = zm_remaining m'\<rparr> (side_abs (z_bids b))
        else side_abs (z_bids b)), lob_asks = side_abs opp'\<rparr>"
      using spec buy H(1) by (auto simp: spec_submit_def lob_submit_def z_abs_def)
    with H rel [of False m'] sub buy loop show ?thesis
      by (auto simp: z_submit_order_def Let_def z_abs_def)
  next
    case sell
    obtain opp' m' where loop: "side_loop True ord (z_symbol b) mx ts (z_bids b) ?m = (opp', m')" by fastforce
    obtain gs where H: "lob_match True (price ord) (zm_remaining ?m) (side_abs (z_bids b)) = (gs, zm_remaining m', side_abs opp')"
      "side_wf True opp'" "zm_rel True mx gs ?m m'"
      "side_wf False (if zm_remaining m' > 0 \<and> level_count (z_asks b) < MAX_BOOK_LEVELS
        then add_to_book False ord (zm_remaining m') ts (z_asks b) else z_asks b)"
      "side_abs (if zm_remaining m' > 0 \<and> level_count (z_asks b) < MAX_BOOK_LEVELS
        then add_to_book False ord (zm_remaining m') ts (z_asks b) else z_asks b) =
       (if zm_remaining m' > 0 \<and> side_room (z_asks b) (price ord)
        then lob_rest False \<lparr>r_price = price ord, r_id = z_ident (cl_ord_id ord), r_qty = zm_remaining m'\<rparr> (side_abs (z_asks b))
        else side_abs (z_asks b))"
      by (rule half_submit [OF _ wf(1,2) mw loop]) blast+
    have "gs = fs" and lb: "lb = \<lparr>lob_bids = side_abs opp', lob_asks = (if zm_remaining m' > 0
        then lob_rest False \<lparr>r_price = price ord, r_id = z_ident (cl_ord_id ord), r_qty = zm_remaining m'\<rparr> (side_abs (z_asks b))
        else side_abs (z_asks b))\<rparr>"
      using spec sell H(1) by (auto simp: spec_submit_def lob_submit_def z_abs_def)
    with H rel [of True m'] sub sell loop show ?thesis
      by (auto simp: z_submit_order_def Let_def z_abs_def)
  next
    case other
    with sub spec have "b' = b" "gen = 0" "out' = out" "c' = c" "fs = []" "lb = z_abs b"
      by (auto simp: z_submit_order_def spec_submit_def lob_submit_def Let_def)
    with other wf show ?thesis by (auto simp: rep_def)
  qed
qed

lemma set_lob_rest: "set rs \<subseteq> set (lob_rest bid r rs)"
proof -
  have "set rs = set (takeWhile P rs) \<union> set (dropWhile P rs)" for P
    by (metis set_append takeWhile_dropWhile_id)
  then show ?thesis by (auto simp: lob_rest_def)
qed

lemma spec_own_grows:
  assumes "spec_submit ident ord b = (fs, lb)"
  shows "side ord = 1 \<Longrightarrow> set (lob_bids b) \<subseteq> set (lob_bids lb)"
    "side ord = 2 \<Longrightarrow> set (lob_asks b) \<subseteq> set (lob_asks lb)"
  using assms set_lob_rest
  by (fastforce simp: spec_submit_def lob_submit_def Let_def split_beta)+

lemma z_inv_submit:
  assumes inv: "z_inv b" and out: "case out of None \<Rightarrow> True | Some arr \<Rightarrow> mx \<le> length arr"
    and sub: "z_submit_order ord out mx c ts b = (gen, out', c', b')"
  shows "z_inv b'"
proof -
  obtain fs lb where spec: "spec_submit z_ident ord (z_abs b) = (fs, lb)" by fastforce
  note R = z_submit_order_refines [OF inv out sub spec]
  have "lob_inv lb" using spec_submit_inv [OF z_inv_lob [OF inv], of z_ident ord] spec by simp
  then have "uncrossed lb" by (simp add: lob_inv_def)
  moreover have "set (lob_bids (z_abs b')) \<subseteq> set (lob_bids lb)" "set (lob_asks (z_abs b')) \<subseteq> set (lob_asks lb)"
    using R spec_own_grows [OF spec] by auto
  ultimately have "uncrossed (z_abs b')" by (auto simp: uncrossed_def)
  with R show ?thesis by (simp add: z_inv_def)
qed

definition empty_trade :: ZeroAllocTrade where
  "empty_trade = \<lparr>zt_trade_id = 0, zt_symbol = replicate 16 (CHR 0x00),
     zt_buy_cl_ord_id = replicate 32 (CHR 0x00), zt_sell_cl_ord_id = replicate 32 (CHR 0x00),
     zt_match_price = 0, zt_match_qty = 0, zt_timestamp_ns = 0\<rparr>"

text \<open>Submitting with a fresh trade array of \<open>mx\<close> entries, and the fills it reports.\<close>

definition z_submit :: "nat \<Rightarrow> u64 \<Rightarrow> ParsedOrder \<Rightarrow> ZeroAllocBook \<Rightarrow> fill list \<times> ZeroAllocBook" where
  "z_submit mx ts ord b =
     (let (gen, out, _, b') = z_submit_order ord (Some (replicate mx empty_trade)) mx 0 ts b
      in (map (\<lambda>t. snd (zt_view (side ord = 2) t)) (take gen (the out)), b'))"

definition z_ok :: "nat \<Rightarrow> ParsedOrder \<Rightarrow> ZeroAllocBook \<Rightarrow> bool" where
  "z_ok mx ord b \<longleftrightarrow> side_room (if side ord = 1 then z_bids b else z_asks b) (price ord) \<and>
     length (fst (spec_submit z_ident ord (z_abs b))) \<le> mx"

lemma snd_numbered [simp]: "map snd (numbered c fs) = fs"
  by (induction fs arbitrary: c) simp_all

lemma z_submit_refines:
  assumes "z_inv b" "z_ok mx ord b"
  shows "fst (z_submit mx ts ord b) = fst (spec_submit z_ident ord (z_abs b)) \<and>
    z_abs (snd (z_submit mx ts ord b)) = snd (spec_submit z_ident ord (z_abs b))"
proof -
  obtain fs lb where spec: "spec_submit z_ident ord (z_abs b) = (fs, lb)" by fastforce
  obtain gen out c b' where sub: "z_submit_order ord (Some (replicate mx empty_trade)) mx 0 ts b = (gen, out, c, b')"
    by (metis prod_cases4)
  have arr: "case Some (replicate mx empty_trade) of None \<Rightarrow> True | Some arr \<Rightarrow> mx \<le> length arr" by simp
  note R = z_submit_order_refines [OF assms(1) arr sub spec]
  from R have reps: "map (zt_view (side ord = 2)) (take gen (the out)) = numbered 0 (take mx fs)" by auto
  have "map (\<lambda>t. snd (zt_view (side ord = 2) t)) (take gen (the out)) = map snd (numbered 0 (take mx fs))"
    by (simp flip: reps)
  then have fills: "map (\<lambda>t. snd (zt_view (side ord = 2) t)) (take gen (the out)) = fs"
    using assms(2) spec by (simp add: z_ok_def)
  have "z_abs b' = lb" using R assms(2) by (auto simp: z_ok_def)
  with fills show ?thesis by (simp add: z_submit_def sub spec)
qed

interpretation zbook: matching_book "z_submit mx ts" z_abs z_inv "z_ok mx" z_ident for mx ts
proof (unfold_locales, goal_cases)
  case (2 s ord)
  obtain gen out c b' where sub: "z_submit_order ord (Some (replicate mx empty_trade)) mx 0 ts s = (gen, out, c, b')"
    by (metis prod_cases4)
  from z_inv_submit [OF 2 _ sub] show ?case by (simp add: z_submit_def sub)
qed (simp_all add: z_inv_lob z_submit_refines)

lemma side_init_wf: "side_wf bid side_init" "side_abs side_init = []"
proof -
  have "cstr (replicate 32 (CHR 0x00)) = []" by (simp add: cstr_def)
  then have "level_wf empty_level"
    by (simp add: level_wf_def empty_level_def empty_order_def MAX_ORDERS_PER_LEVEL_def MAX_CL_ORD_ID_LEN_def)
  then show "side_wf bid side_init" "side_abs side_init = []"
    by (simp_all add: side_wf_def ptrs_wf_def side_init_def used_ptrs_def free_ptrs_def side_levels_def
        side_abs_def levels_sorted_def MAX_BOOK_LEVELS_def list_all_iff atLeast_upt flip: atLeast0LessThan)
qed

lemma zero_alloc_init_inv: "z_inv (zero_alloc_init symb)" "z_abs (zero_alloc_init symb) = lob_empty"
  by (simp_all add: z_inv_def zero_alloc_init_def z_abs_def lob_empty_def uncrossed_def side_init_wf)

subsection \<open>Properties of the zero-allocation book\<close>

text \<open>
  C4. The optimised book implements the reference: over any sequence of orders for which its
  capacity suffices (fewer than 64 levels on the resting side, fewer than 32 orders at the price, at
  most \<open>mx\<close> trades an order), the zero-allocation book reports exactly the fills of the abstract
  price-time book and ends with the same resting orders, client ids cut to 31 characters.
\<close>

theorem zero_alloc_refines:
  assumes "run_ok (z_submit mx ts) (z_ok mx) ords (zero_alloc_init symb)"
  shows "fst (book_run (z_submit mx ts) ords (zero_alloc_init symb)) =
      fst (book_run (spec_submit z_ident) ords lob_empty) \<and>
    z_abs (snd (book_run (z_submit mx ts) ords (zero_alloc_init symb))) =
      snd (book_run (spec_submit z_ident) ords lob_empty)"
  using zbook.run_refines [OF zero_alloc_init_inv(1) assms] by (simp add: zero_alloc_init_inv(2))

text \<open>
  C18. Whatever the orders and however full the book, the zero-allocation structure stays sound:
  every pool level is in use or free exactly once, levels are non-empty and strictly sorted, cached
  quantities equal the 32-bit sums of their orders, and the best bid is below the best ask.
\<close>

theorem zero_alloc_sound:
  "let b = snd (book_run (z_submit mx ts) ords (zero_alloc_init symb)) in
     ptrs_wf (z_bids b) \<and> ptrs_wf (z_asks b) \<and>
     list_all level_ok (side_levels (z_bids b) @ side_levels (z_asks b)) \<and>
     levels_sorted True (side_levels (z_bids b)) \<and> levels_sorted False (side_levels (z_asks b)) \<and>
     uncrossed (z_abs b)"
  using zbook.run_inv [OF zero_alloc_init_inv(1), of mx ts ords symb]
  by (simp add: Let_def z_inv_def side_wf_def)

definition sample_limit :: ParsedOrder where
  "sample_limit = default_order\<lparr>side := 1, quantity := 100, price := 35000000, cl_ord_id := ''C1''\<rparr>"

theorem zero_alloc_refines_witness:
  "z_abs (snd (book_run (z_submit 16 0) [sample_limit] (zero_alloc_init ''PETR4''))) =
     snd (book_run (spec_submit z_ident) [sample_limit] lob_empty)"
proof -
  have "side_levels side_init = []" by (simp add: side_levels_def used_ptrs_def side_init_def)
  then have "side_room side_init p" for p
    by (simp add: side_room_def level_room_def) (simp add: side_init_def MAX_BOOK_LEVELS_def)
  then have "z_ok 16 sample_limit (zero_alloc_init ''PETR4'')"
    unfolding z_ok_def zero_alloc_init_inv(2)
    by (simp add: zero_alloc_init_def sample_limit_def spec_submit_def lob_submit_def lob_empty_def)
  then show ?thesis using zero_alloc_refines [of 16 0 "[sample_limit]" "''PETR4''"] by simp
qed

text \<open>
  C34. Capacity limits, exactly: every fill of the abstract match is executed and counted in the
  totals, but only the first \<open>mx\<close> are reported and numbered; and when the resting side has 64 levels
  or 32 orders at the price, the residual is dropped and that side is left as it was.
\<close>

theorem zero_alloc_capacity:
  assumes "z_inv b" "mx \<le> length arr" "side ord = 1 \<or> side ord = 2"
    and "z_submit_order ord (Some arr) mx c ts b = (gen, out, c', b')"
  defines "fs \<equiv> fst (spec_submit z_ident ord (z_abs b))"
    and "own \<equiv> (\<lambda>b. if side ord = 1 then z_bids b else z_asks b)"
  shows "gen = min mx (length fs) \<and> c' = c + of_nat gen \<and>
    map (zt_view (side ord = 2)) (take gen (the out)) = numbered c (take mx fs) \<and>
    z_total_trades b' = z_total_trades b + of_nat (length fs) \<and>
    z_total_volume b' = z_total_volume b + of_nat (fill_sum fs) \<and>
    (\<not> side_room (own b) (price ord) \<longrightarrow> side_abs (own b') = side_abs (own b))"
proof -
  obtain lb where spec: "spec_submit z_ident ord (z_abs b) = (fs, lb)" by (metis fs_def prod.collapse)
  have arr: "case Some arr of None \<Rightarrow> True | Some arr \<Rightarrow> mx \<le> length arr" using assms(2) by simp
  from z_submit_order_refines [OF assms(1) arr assms(4) spec] assms(3) show ?thesis
    by (cases lb) (auto simp: own_def z_abs_def min.commute)
qed

theorem zero_alloc_capacity_witness:
  "let (gen, out, c', b') = z_submit_order sample_limit (Some []) 0 7 0 (zero_alloc_init ''PETR4'')
   in gen = 0 \<and> c' = 7"
proof -
  obtain gen out c' b' where s: "z_submit_order sample_limit (Some []) 0 7 0 (zero_alloc_init ''PETR4'') = (gen, out, c', b')"
    by (metis prod_cases4)
  have "side sample_limit = 1" by (simp add: sample_limit_def)
  with zero_alloc_capacity [OF zero_alloc_init_inv(1) _ _ s] s show ?thesis by simp
qed

lemma side_top:
  assumes "side_wf bid s"
  shows "best_price s = (if side_abs s = [] then 0 else r_price (hd (side_abs s))) \<and>
    best_qty s = of_nat (qty_sum (filter (\<lambda>r. r_price r = best_price s) (side_abs s)))"
proof -
  have pw: "ptrs_wf s" and ok: "list_all level_ok (side_levels s)" and srt: "levels_sorted bid (side_levels s)"
    using assms by (simp_all add: side_wf_def)
  show ?thesis
  proof (cases "level_count s > 0")
    case False
    then show ?thesis
      by (simp add: best_price_def best_qty_def side_abs_def side_levels_def used_ptrs_def)
  next
    case True
    let ?l = "pool s ! (level_ptrs s ! 0)"
    obtain us where u: "used_ptrs s = level_ptrs s ! 0 # us" using used_ptrs_Cons [OF pw True] by metis
    define ls where "ls = map (\<lambda>p. pool s ! p) us"
    have lv: "side_levels s = ?l # ls" by (simp add: side_levels_def u ls_def)
    have l: "level_ok ?l" "list_all level_ok ls" "\<forall>k \<in> set ls. place_before bid (lvl_price ?l) (lvl_price k)"
      using ok srt by (simp_all add: lv levels_sorted_def)
    have ne: "level_abs ?l \<noteq> []" using l(1) level_abs_empty [of ?l] by (auto simp: level_ok_def)
    have bp: "best_price s = lvl_price ?l" "best_qty s = cached_total_qty ?l"
      using True by (simp_all add: best_price_def best_qty_def total_qty_def)
    have "filter (\<lambda>r. r_price r = lvl_price ?l) (level_abs ?l) = level_abs ?l"
      using l(1) by (simp add: level_ok_def)
    moreover have "filter (\<lambda>r. r_price r = lvl_price ?l) (concat (map level_abs ls)) = []"
      using l(3) concat_prices [OF l(2)] by (metis (mono_tags, lifting) filter_False place_before_irrefl)
    ultimately have "filter (\<lambda>r. r_price r = best_price s) (side_abs s) = level_abs ?l"
      by (simp add: side_abs_def lv bp)
    moreover have "hd (side_abs s) = hd (level_abs ?l)" "side_abs s \<noteq> []" using ne by (simp_all add: side_abs_def lv)
    ultimately show ?thesis
      using l(1) ne bp by (simp add: level_ok_def)
  qed
qed

text \<open>
  Top-of-book queries are right: after any run, the best price of a side is the price of its
  first resting order (0 when the side is empty) and the best quantity is the 32-bit sum of the
  quantities resting at that price.
\<close>

theorem zero_alloc_top_of_book:
  "let b = snd (book_run (z_submit mx ts) ords (zero_alloc_init symb));
       s = (if bid then z_bids b else z_asks b);
       q = (if bid then lob_bids (z_abs b) else lob_asks (z_abs b))
   in best_price s = (if q = [] then 0 else r_price (hd q)) \<and>
      best_qty s = of_nat (qty_sum (filter (\<lambda>r. r_price r = best_price s) q))"
proof -
  have "z_inv (snd (book_run (z_submit mx ts) ords (zero_alloc_init symb)))"
    by (rule zbook.run_inv [OF zero_alloc_init_inv(1)])
  then show ?thesis using side_top by (auto simp: Let_def z_inv_def z_abs_def)
qed

end
