(* ===== verification/Worker_Types.thy ===== *)
theory Worker_Types
  imports Spsc_Concurrent Protocol_Parser Gap_Detector Feed_Arbitrator Risk_Manager
begin

text \<open>
  What the three worker threads share: packets and log messages of \<open>include/hft/common/Types.hpp\<close>,
  the worker half of \<open>TelemetryCounters\<close> (\<open>include/hft/monitoring/Telemetry.hpp\<close>), the local
  statistics and log lines of the packet handlers, \<open>std::format_to_n\<close> into the fixed message array,
  and the packet ring whose frames are handed back to the kernel.

  The readings of \<open>rdtsc\<close> and \<open>get_timestamp_ns\<close> are inputs (one pair for each packet handled), and so
  is \<open>to_ns\<close>, the conversion of a cycle count to nanoseconds in double arithmetic. Pushes to a log
  queue are recorded as the messages offered, in order: the handlers ignore the result of \<open>push\<close>.
\<close>

subsection \<open>\<open>Types.hpp\<close>\<close>

record FixMessagePacket =
  rx_timestamp_cycles :: u64
  pkt_payload_len :: u16
  pkt_payload :: "string option"
  ring_hdr :: "nat option"

text \<open>The bytes a parser is given: pointer and length, \<open>None\<close> for a null pointer.\<close>

definition pkt_bytes :: "FixMessagePacket \<Rightarrow> string option" where
  "pkt_bytes pkt = map_option (take (unat (pkt_payload_len pkt))) (pkt_payload pkt)"

datatype LogCategory =
    DEBUG_LEVEL | INFO_LEVEL | WARNING_LEVEL | ERROR_LEVEL | CRITICAL_LEVEL | FATAL_LEVEL

record LogMessage =
  lm_timestamp_ns :: u64
  lm_category :: LogCategory
  lm_message :: string

definition log_message_init :: LogMessage where
  "log_message_init = \<lparr>lm_timestamp_ns = 0, lm_category = INFO_LEVEL, lm_message = replicate 256 (CHR 0x00)\<rparr>"

text \<open>\<open>format_to_n(buf, n, ...)\<close> followed by \<open>*res.out = 0\<close>.\<close>

definition format_to_n :: "string \<Rightarrow> nat \<Rightarrow> string \<Rightarrow> string" where
  "format_to_n buf n txt = take n txt @ CHR 0x00 # drop (length (take n txt) + 1) buf"

definition log_line :: "u64 \<Rightarrow> LogCategory \<Rightarrow> string \<Rightarrow> LogMessage" where
  "log_line ts cat txt =
     log_message_init\<lparr>lm_timestamp_ns := ts, lm_category := cat,
       lm_message := format_to_n (lm_message log_message_init) 255 txt\<rparr>"

lemma log_line_bounds:
  "length (lm_message (log_line ts cat txt)) = 256 \<and>
   cstr (lm_message (log_line ts cat txt)) = cstr (take 255 txt)"
  by (simp add: log_line_def log_message_init_def format_to_n_def cstr_NUL)

subsection \<open>The packet ring\<close>

datatype frame_status = TP_STATUS_KERNEL | TP_STATUS_USER

definition release_frame :: "nat option \<Rightarrow> (nat \<Rightarrow> frame_status) \<Rightarrow> nat \<Rightarrow> frame_status" where
  "release_frame hdr frames = (case hdr of None \<Rightarrow> frames | Some h \<Rightarrow> frames(h := TP_STATUS_KERNEL))"

lemma release_frame_keeps: "frames h = TP_STATUS_KERNEL \<Longrightarrow> release_frame hdr frames h = TP_STATUS_KERNEL"
  by (simp add: release_frame_def split: option.split)

lemma release_frame_done: "release_frame (Some h) frames h = TP_STATUS_KERNEL"
  by (simp add: release_frame_def)

subsection \<open>What a worker is given\<close>

text \<open>
  The protocol, the two conversions in double arithmetic (cycles to nanoseconds, a price with two
  decimals) and, for each packet handled, the readings of the cycle counter and the clock.
\<close>

record worker_env =
  we_protocol :: ProtocolType
  we_to_ns :: "u64 \<Rightarrow> u64"
  we_fmt2 :: "int \<Rightarrow> string"
  we_clock :: "nat \<Rightarrow> u64 \<times> u64"

subsection \<open>Statistics and telemetry\<close>

record WorkerMetrics =
  tm_messages_processed :: u64
  tm_risk_approved :: u64
  tm_risk_rejected :: u64
  tm_total_latency_ns :: u64
  tm_approved_total_latency_ns :: u64
  tm_rejected_total_latency_ns :: u64
  tm_min_latency_ns :: u64
  tm_max_latency_ns :: u64

definition worker_metrics_init :: WorkerMetrics where
  "worker_metrics_init = \<lparr>tm_messages_processed = 0, tm_risk_approved = 0, tm_risk_rejected = 0,
     tm_total_latency_ns = 0, tm_approved_total_latency_ns = 0, tm_rejected_total_latency_ns = 0,
     tm_min_latency_ns = -1, tm_max_latency_ns = 0\<rparr>"

text \<open>The local counters of a \<open>run\<close> loop; \<open>processed\<close> is an \<open>unsigned int\<close>.\<close>

record WorkerStats =
  processed :: u32
  total_latency_ns :: u64
  min_latency_ns :: u64
  max_latency_ns :: u64
  approved_count :: u64
  rejected_count :: u64
  approved_total_lat :: u64
  rejected_total_lat :: u64

definition worker_stats_init :: WorkerStats where
  "worker_stats_init = \<lparr>processed = 0, total_latency_ns = 0, min_latency_ns = -1, max_latency_ns = 0,
     approved_count = 0, rejected_count = 0, approved_total_lat = 0, rejected_total_lat = 0\<rparr>"

definition packet_latency :: "(u64 \<Rightarrow> u64) \<Rightarrow> u64 \<Rightarrow> FixMessagePacket \<Rightarrow> u64" where
  "packet_latency to_ns parse_cycles pkt =
     to_ns (if parse_cycles > rx_timestamp_cycles pkt then parse_cycles - rx_timestamp_cycles pkt else 0)"

definition count_verdict :: "bool \<Rightarrow> u64 \<Rightarrow> WorkerStats \<Rightarrow> WorkerStats" where
  "count_verdict risk_approved latency st =
     (if risk_approved
      then st\<lparr>approved_count := approved_count st + 1, approved_total_lat := approved_total_lat st + latency\<rparr>
      else st\<lparr>rejected_count := rejected_count st + 1, rejected_total_lat := rejected_total_lat st + latency\<rparr>)"

definition count_latency :: "u64 \<Rightarrow> WorkerStats \<Rightarrow> WorkerStats" where
  "count_latency latency st =
     st\<lparr>total_latency_ns := total_latency_ns st + latency,
        min_latency_ns := (if latency < min_latency_ns st then latency else min_latency_ns st),
        max_latency_ns := (if latency > max_latency_ns st then latency else max_latency_ns st),
        processed := processed st + 1\<rparr>"

definition publish_stats :: "WorkerStats \<Rightarrow> WorkerMetrics" where
  "publish_stats st = \<lparr>tm_messages_processed = ucast (processed st), tm_risk_approved = approved_count st,
     tm_risk_rejected = rejected_count st, tm_total_latency_ns = total_latency_ns st,
     tm_approved_total_latency_ns = approved_total_lat st, tm_rejected_total_latency_ns = rejected_total_lat st,
     tm_min_latency_ns = min_latency_ns st, tm_max_latency_ns = max_latency_ns st\<rparr>"

text \<open>
  Statistics that account for \<open>k\<close> handled packets with the latencies \<open>ls\<close> of the approved and \<open>rs\<close> of
  the rejected ones.
\<close>

definition stats_for :: "WorkerStats \<Rightarrow> u64 list \<Rightarrow> u64 list \<Rightarrow> bool" where
  "stats_for st ls rs \<longleftrightarrow>
     processed st = of_nat (length ls + length rs) \<and>
     approved_count st = of_nat (length ls) \<and> rejected_count st = of_nat (length rs) \<and>
     approved_total_lat st = sum_list ls \<and> rejected_total_lat st = sum_list rs \<and>
     total_latency_ns st = sum_list ls + sum_list rs \<and>
     min_latency_ns st = fold min (ls @ rs) (-1) \<and> max_latency_ns st = fold max (ls @ rs) 0"

lemma stats_for_init: "stats_for worker_stats_init [] []"
  by (simp add: stats_for_def worker_stats_init_def)

lemma fold_snoc2: "fold f (xs @ ys @ [x]) a = f x (fold f (xs @ ys) a)"
  by simp

lemma fold_insert_mid:
  assumes "\<And>x y a. f x (f y a) = f y (f x a)"
  shows "fold f (xs @ x # ys) a = f x (fold f (xs @ ys) a)"
proof -
  have "fold f ys (f x b) = f x (fold f ys b)" for b
    by (induction ys arbitrary: b) (simp_all add: assms [of _ x])
  then show ?thesis by simp
qed

lemma fold_min_insert: "fold min (xs @ x # ys) (a :: 'b :: linorder) = min x (fold min (xs @ ys) a)"
  by (rule fold_insert_mid) (rule min.left_commute)

lemma fold_max_insert: "fold max (xs @ x # ys) (a :: 'b :: linorder) = max x (fold max (xs @ ys) a)"
  by (rule fold_insert_mid) (rule max.left_commute)

lemma stats_for_count:
  assumes "stats_for st ls rs"
  shows "stats_for (count_latency l (count_verdict True l st)) (ls @ [l]) rs"
    "stats_for (count_latency l (count_verdict False l st)) ls (rs @ [l])"
  using assms
  by (auto simp: stats_for_def count_latency_def count_verdict_def fold_min_insert fold_max_insert fold_snoc2
      min_def max_def simp del: fold_append)

text \<open>The order of the \<open>n\<close>-th packet a worker handles, with the timestamp of its handling.\<close>

definition packet_order :: "worker_env \<Rightarrow> nat \<Rightarrow> FixMessagePacket \<Rightarrow> ParsedOrder \<times> u64" where
  "packet_order env n pkt =
     (let (parse_cycles, current_ts) = we_clock env n;
          latency = packet_latency (we_to_ns env) parse_cycles pkt
      in ((parse_in_place (we_protocol env) (pkt_bytes pkt))\<lparr>latency_ns := latency\<rparr>, current_ts))"

end
