(* ===== verification/Packet_Gate.thy ===== *)
theory Packet_Gate
  imports Worker_Types
begin

text \<open>
  The stages every packet passes before it may reach a book, as \<open>HftOrderBookEngine::run\<close> and
  \<open>MatchingWorker::run\<close> share them: feed arbitration (always as \<open>LINE_A\<close>), gap detection and the
  pre-trade risk gate, with the log lines each stage queues. The two workers differ only in the text
  of the gap line, which is an argument.
\<close>

record PacketGate =
  g_feed_arbitrator :: FeedArbitrator
  g_gap_detector :: SequenceGapDetector
  g_risk_mgr :: PreTradeRiskManager
  g_log :: "LogMessage list"

datatype verdict = V_DUPLICATE | V_REJECTED | V_APPROVED

definition packet_gate_init :: "RiskLimits \<Rightarrow> PacketGate" where
  "packet_gate_init limits = \<lparr>g_feed_arbitrator = arbitrator_init 2048, g_gap_detector = gap_detector_init 1,
     g_risk_mgr = risk_manager_init limits, g_log = []\<rparr>"

definition queue_log :: "LogMessage \<Rightarrow> PacketGate \<Rightarrow> PacketGate" where
  "queue_log msg g = g\<lparr>g_log := g_log g @ [msg]\<rparr>"

definition reference_price :: int where "reference_price = 35000000"

text \<open>The texts of the three log lines.\<close>

definition duplicate_text :: "ParsedOrder \<Rightarrow> string" where
  "duplicate_text ord = ''[DUPLICATE FEED DETECTED] Suppressed duplicate MsgSeqNum='' @
     dec_string (unat (seq_num ord)) @ '' from secondary feed''"

definition gap_text :: "string \<Rightarrow> GapCheckResult \<Rightarrow> string" where
  "gap_text label gap_res = ''[SEQUENCE GAP DETECTED] Missing range ['' @
     dec_string (unat (begin_seq (gap gap_res))) @ '' .. '' @ dec_string (unat (end_seq (gap gap_res))) @
     ''] ('' @ dec_string (unat (missing_count (gap gap_res))) @ '' dropped). '' @ label @
     cstr (resend_request_msg gap_res)"

definition rejection_text :: "ParsedOrder \<Rightarrow> RiskCheckResult \<Rightarrow> string" where
  "rejection_text ord risk_res = ''[PRE-TRADE RISK REJECTION] ClOrdID='' @ cl_ord_id ord @ '' | Reason: '' @
     cstr (rejection_reason risk_res)"

text \<open>Feed arbitration: whether the packet is a duplicate.\<close>

definition arbitrate :: "u64 \<Rightarrow> ParsedOrder \<Rightarrow> PacketGate \<Rightarrow> bool \<times> PacketGate" where
  "arbitrate current_ts ord g =
     (if seq_num ord > 0
      then let (arb_res, a) = process_packet 2048 (g_feed_arbitrator g) LINE_A (seq_num ord);
               g1 = g\<lparr>g_feed_arbitrator := a\<rparr>
           in if is_duplicate arb_res
              then (True, queue_log (log_line current_ts WARNING_LEVEL (duplicate_text ord)) g1)
              else (False, g1)
      else (False, g))"

text \<open>Gap detection.\<close>

definition detect_gap :: "string \<Rightarrow> u64 \<Rightarrow> ParsedOrder \<Rightarrow> PacketGate \<Rightarrow> PacketGate" where
  "detect_gap label current_ts ord g =
     (if seq_num ord > 0
      then let (gap_res, d) = process_sequence (g_gap_detector g) (seq_num ord);
               g1 = g\<lparr>g_gap_detector := d\<rparr>
           in if gap_status gap_res = GAP_DETECTED
              then queue_log (log_line current_ts ERROR_LEVEL (gap_text label gap_res)) g1
              else g1
      else g)"

text \<open>The risk gate.\<close>

definition check_risk :: "(int \<Rightarrow> string) \<Rightarrow> u64 \<Rightarrow> ParsedOrder \<Rightarrow> PacketGate \<Rightarrow> bool \<times> PacketGate" where
  "check_risk fmt2 current_ts ord g =
     (let (risk_res, m) = evaluate_order fmt2 (g_risk_mgr g) ord reference_price;
          g1 = g\<lparr>g_risk_mgr := m\<rparr>;
          risk_approved = (risk_status risk_res = APPROVED)
      in (risk_approved,
          if risk_approved then g1
          else queue_log (log_line current_ts ERROR_LEVEL (rejection_text ord risk_res)) g1))"

definition admit_packet ::
  "string \<Rightarrow> (int \<Rightarrow> string) \<Rightarrow> u64 \<Rightarrow> ParsedOrder \<Rightarrow> PacketGate \<Rightarrow> verdict \<times> PacketGate" where
  "admit_packet label fmt2 current_ts ord g =
     (let (dup, g1) = arbitrate current_ts ord g
      in if dup then (V_DUPLICATE, g1)
         else let (ok, g2) = check_risk fmt2 current_ts ord (detect_gap label current_ts ord g1)
              in (if ok then V_APPROVED else V_REJECTED, g2))"

subsection \<open>What the gate decides\<close>

text \<open>The verdict on an order depends on the limits alone, not on the counters.\<close>

definition risk_passes :: "RiskLimits \<Rightarrow> ParsedOrder \<Rightarrow> bool" where
  "risk_passes limits ord \<longleftrightarrow>
     risk_status (fst (evaluate_order (\<lambda>_. []) (risk_manager_init limits) ord reference_price)) = APPROVED"

lemma evaluate_order_verdict:
  "risk_status (fst (evaluate_order fmt2 m ord reference_price)) = APPROVED \<longleftrightarrow> risk_passes (m_limits m) ord"
  "m_limits (snd (evaluate_order fmt2 m ord ref)) = m_limits m"
  by (simp_all add: risk_passes_def evaluate_order_def risk_reject_def risk_manager_init_def Let_def)

text \<open>The arbitration step as a filter over orders: unnumbered orders always pass.\<close>

definition feed_step :: "FeedArbitrator \<Rightarrow> ParsedOrder \<Rightarrow> bool \<times> FeedArbitrator" where
  "feed_step a ord = (if seq_num ord > 0 then arb_step 2048 a (LINE_A, seq_num ord) else (True, a))"

lemma admit_packet_spec:
  assumes "admit_packet label fmt2 ts ord g = (v, g')"
  shows "v = (if \<not> fst (feed_step (g_feed_arbitrator g) ord) then V_DUPLICATE
              else if risk_passes (m_limits (g_risk_mgr g)) ord then V_APPROVED else V_REJECTED)"
    and "g_feed_arbitrator g' = snd (feed_step (g_feed_arbitrator g) ord)"
    and "m_limits (g_risk_mgr g') = m_limits (g_risk_mgr g)"
proof -
  have gap: "g_feed_arbitrator (detect_gap l t o' h) = g_feed_arbitrator h"
    "g_risk_mgr (detect_gap l t o' h) = g_risk_mgr h" for l t o' h
    by (auto simp: detect_gap_def queue_log_def Let_def split: prod.split)
  have risk: "check_risk fmt2 ts ord h = (ok, h') \<Longrightarrow> ok = risk_passes (m_limits (g_risk_mgr h)) ord \<and>
      g_feed_arbitrator h' = g_feed_arbitrator h \<and> m_limits (g_risk_mgr h') = m_limits (g_risk_mgr h)" for h ok h'
    by (auto simp: check_risk_def queue_log_def Let_def split_beta evaluate_order_verdict)
  obtain dup g1 where a: "arbitrate ts ord g = (dup, g1)" by fastforce
  then have arb: "dup = (\<not> fst (feed_step (g_feed_arbitrator g) ord))"
    "g_feed_arbitrator g1 = snd (feed_step (g_feed_arbitrator g) ord)" "g_risk_mgr g1 = g_risk_mgr g"
    by (auto simp: arbitrate_def feed_step_def arb_step_def queue_log_def Let_def split: prod.splits if_splits)
  obtain ok g2 where c: "check_risk fmt2 ts ord (detect_gap label ts ord g1) = (ok, g2)" by fastforce
  from risk [OF c] arb assms
  show "v = (if \<not> fst (feed_step (g_feed_arbitrator g) ord) then V_DUPLICATE
              else if risk_passes (m_limits (g_risk_mgr g)) ord then V_APPROVED else V_REJECTED)"
    and "g_feed_arbitrator g' = snd (feed_step (g_feed_arbitrator g) ord)"
    and "m_limits (g_risk_mgr g') = m_limits (g_risk_mgr g)"
    by (auto simp: admit_packet_def a c gap split: if_splits)
qed

text \<open>The orders of a stream that pass arbitration.\<close>

lemma feed_run_numbered:
  "map seq_num (filter (\<lambda>x. seq_num x > 0) (fst (filter_run feed_step a ords))) =
     map snd (fst (filter_run (arb_step 2048) a
       (map (\<lambda>x. (LINE_A, seq_num x)) (filter (\<lambda>x. seq_num x > 0) ords))))"
  by (induction ords arbitrary: a) (auto simp: feed_step_def Let_def split_beta)

lemma arbitrator_init_wf: "arb_wf 2048 (arbitrator_init 2048) \<and> pow2_capacity 2048"
proof -
  have "pow2_capacity 2048" using pow2_capacity_exp [of 11] by simp
  then show ?thesis by (simp add: arb_wf_def arbitrator_init_def)
qed

text \<open>Numbered orders whose numbers lie within one window pass once each.\<close>

lemma feed_run_distinct:
  assumes "seq_num ` set ords - {0} \<subseteq> seq_window 2048 lo"
  shows "distinct (map seq_num (filter (\<lambda>x. seq_num x > 0) (fst (filter_run feed_step (arbitrator_init 2048) ords))))"
  unfolding feed_run_numbered
  using assms word_gt_0 by (intro arb.run_at_most_once [where lo = lo] arbitrator_init_wf) auto

text \<open>Nothing with the number of a packet that has not passed is lost: each number passes at least once.\<close>

lemma feed_run_complete:
  assumes "seq_num ` set ords - {0} \<subseteq> seq_window 2048 lo"
  shows "seq_num ` set (fst (filter_run feed_step (arbitrator_init 2048) ords)) - {0} = seq_num ` set ords - {0}"
proof -
  let ?xs = "map (\<lambda>x. (LINE_A, seq_num x)) (filter (\<lambda>x. seq_num x > 0) ords)"
  have nz: "f ` set (filter (\<lambda>x. f x > 0) xs) = f ` set xs - {0}" for f :: "'x \<Rightarrow> u64" and xs
    using word_gt_0 by auto
  have "0 < k \<Longrightarrow> \<not> arb_seen 2048 (arbitrator_init 2048) k" for k
    using window_index_less [of 2048 k] arbitrator_init_wf by (simp add: arb_seen_def arbitrator_init_def)
  then have new: "\<forall>k \<in> snd ` set ?xs. \<not> arb_seen 2048 (arbitrator_init 2048) k" by auto
  have "snd ` set ?xs \<subseteq> seq_window 2048 lo" using assms word_gt_0 by auto
  then have "snd ` set (fst (filter_run (arb_step 2048) (arbitrator_init 2048) ?xs)) = snd ` set ?xs"
    by (rule conjunct2 [OF arb.run_exactly_once [OF arbitrator_init_wf _ new]])
  then have "set (map seq_num (filter (\<lambda>x. seq_num x > 0) (fst (filter_run feed_step (arbitrator_init 2048) ords)))) =
      seq_num ` set (filter (\<lambda>x. seq_num x > 0) ords)"
    unfolding feed_run_numbered by (simp add: image_image)
  then show ?thesis unfolding set_map nz .
qed

subsection \<open>Streams of packets\<close>

text \<open>
  The specification of a stream of packets: parse each with its clock readings, drop the duplicates,
  keep the approved new orders.
\<close>

fun packet_orders :: "worker_env \<Rightarrow> nat \<Rightarrow> FixMessagePacket list \<Rightarrow> (ParsedOrder \<times> u64) list" where
  "packet_orders env n [] = []"
| "packet_orders env n (pkt # pkts) = packet_order env n pkt # packet_orders env (Suc n) pkts"

definition feed_event :: "FeedArbitrator \<Rightarrow> ParsedOrder \<times> u64 \<Rightarrow> bool \<times> FeedArbitrator" where
  "feed_event a ev = feed_step a (fst ev)"

definition bookable :: "RiskLimits \<Rightarrow> ParsedOrder \<times> u64 \<Rightarrow> bool" where
  "bookable limits ev \<longleftrightarrow> risk_passes limits (fst ev) \<and> msg_type_char (fst ev) = CHR ''D''"

lemma passed_feed: "map fst (fst (filter_run feed_event a evs)) = fst (filter_run feed_step a (map fst evs))"
  by (induction evs arbitrary: a) (auto simp: feed_event_def Let_def split_beta)

lemma packet_orders_ok:
  assumes "ev \<in> set (packet_orders env n pkts)"
  obtains pkt k where "pkt \<in> set pkts" "fst ev = (parse_in_place (we_protocol env) (pkt_bytes pkt))\<lparr>latency_ns := k\<rparr>"
  using assms
proof (induction pkts arbitrary: n thesis)
  case (Cons pkt pkts)
  show ?case
  proof (cases "ev = packet_order env n pkt")
    case True
    then show ?thesis using Cons.prems(1) [of pkt] by (auto simp: packet_order_def Let_def split_beta)
  next
    case False
    with Cons.prems(2) have "ev \<in> set (packet_orders env (Suc n) pkts)" by simp
    with Cons show ?thesis by (metis list.set_intros(2))
  qed
qed simp

text \<open>What an approved order looks like under the default limits.\<close>

lemma risk_passes_default:
  assumes "risk_passes default_limits ord" "in_i32 (quantity ord)" "in_i64 (price ord)"
    and "reference_price - price ord < 2 ^ 63"
  shows "30000000 \<le> price ord \<and> price ord \<le> 40000000 \<and> (of_int (quantity ord) :: u32) \<le> 50000"
proof -
  have cfg: "risk_config_ok (m_limits (risk_manager_init default_limits)) reference_price"
    by (simp add: risk_config_ok_def risk_manager_init_def default_limits_def reference_price_def)
  have q: "0 \<le> quantity ord" "quantity ord \<le> 50000" and "\<bar>price ord - reference_price\<bar> \<le> 5000000"
    using assms(1) approved_exact [OF cfg assms(2-4), of "\<lambda>_. []"]
    by (simp_all add: risk_passes_def risk_manager_init_def default_limits_def)
  then have "30000000 \<le> price ord \<and> price ord \<le> 40000000" by (simp add: reference_price_def abs_le_iff)
  moreover have "uint (of_int (quantity ord) :: u32) = quantity ord"
    using q by (simp add: uint_word_of_int take_bit_int_eq_self)
  ultimately show ?thesis using q(2) by (simp add: word_le_def)
qed

lemma passed_subset: "set (fst (filter_run step a xs)) \<subseteq> set xs"
  by (induction xs arbitrary: a) (auto simp: Let_def split_beta)

lemma feed_step_counts:
  "m_duplicates_suppressed (snd (feed_step a ord)) =
     m_duplicates_suppressed a + (if fst (feed_step a ord) then 0 else 1)"
  by (simp add: feed_step_def arb_step_def process_packet_def Let_def)

lemma feed_run_counts:
  "m_duplicates_suppressed (snd (filter_run feed_event a evs)) + of_nat (length (fst (filter_run feed_event a evs))) =
     m_duplicates_suppressed a + of_nat (length evs)"
proof (induction evs arbitrary: a)
  case (Cons ev evs)
  show ?case
    using Cons [of "snd (feed_event a ev)"] by (simp add: feed_event_def Let_def split_beta feed_step_counts ac_simps)
qed simp

lemma length_packet_orders [simp]: "length (packet_orders env n pkts) = length pkts"
  by (induction pkts arbitrary: n) simp_all

lemma queue_log_frame:
  "g_feed_arbitrator (fold queue_log ms g) = g_feed_arbitrator g"
  "g_gap_detector (fold queue_log ms g) = g_gap_detector g"
  "g_risk_mgr (fold queue_log ms g) = g_risk_mgr g"
  "g_log (fold queue_log ms g) = g_log g @ ms"
  by (induction ms arbitrary: g) (simp_all add: queue_log_def)

definition latencies :: "(ParsedOrder \<times> u64) list \<Rightarrow> u64 list" where
  "latencies evs = map (\<lambda>ev. latency_ns (fst ev)) evs"


lemma packet_order_typed: "ev \<in> set (packet_orders env n pkts) \<Longrightarrow> in_i32 (quantity (fst ev)) \<and> in_i64 (price (fst ev))"
  using parse_in_place_ok by (elim packet_orders_ok) (simp add: order_typed_def)

text \<open>The events that pass arbitration, from the \<open>n\<close>-th packet on.\<close>

definition passed :: "worker_env \<Rightarrow> FeedArbitrator \<Rightarrow> nat \<Rightarrow> FixMessagePacket list \<Rightarrow> (ParsedOrder \<times> u64) list" where
  "passed env a n pkts = fst (filter_run feed_event a (packet_orders env n pkts))"

lemma passed_Nil [simp]: "passed env a n [] = []"
  by (simp add: passed_def)

lemma passed_Cons:
  "passed env a n (pkt # pkts) =
     (if fst (feed_event a (packet_order env n pkt)) then [packet_order env n pkt] else []) @
     passed env (snd (feed_event a (packet_order env n pkt))) (Suc n) pkts"
  by (simp add: passed_def Let_def split_beta)

lemma passed_in: "ev \<in> set (passed env a n pkts) \<Longrightarrow> ev \<in> set (packet_orders env n pkts)"
  by (auto simp: passed_def dest: subsetD [OF passed_subset])

text \<open>Within one window, every number of the stream passes exactly once.\<close>

lemma passed_exactly_once:
  assumes "(\<lambda>ev. seq_num (fst ev)) ` set (packet_orders env n pkts) - {0} \<subseteq> seq_window 2048 lo"
  defines "evs \<equiv> passed env (arbitrator_init 2048) n pkts"
  shows "subseq evs (packet_orders env n pkts)"
    and "distinct (filter (\<lambda>s. s > 0) (map (\<lambda>ev. seq_num (fst ev)) evs))"
    and "(\<lambda>ev. seq_num (fst ev)) ` set evs - {0} = (\<lambda>ev. seq_num (fst ev)) ` set (packet_orders env n pkts) - {0}"
proof -
  let ?evs = "packet_orders env n pkts"
  have fe: "map fst evs = fst (filter_run feed_step (arbitrator_init 2048) (map fst ?evs))"
    unfolding evs_def passed_def by (rule passed_feed)
  have win: "seq_num ` set (map fst ?evs) - {0} \<subseteq> seq_window 2048 lo" using assms(1) by (simp add: image_image)
  have "subseq (fst (filter_run step a xs)) xs" for step :: "'s \<Rightarrow> 'p \<Rightarrow> bool \<times> 's" and a xs
    by (induction xs arbitrary: a) (auto simp: Let_def split_beta intro: subseq_Cons')
  then show "subseq evs ?evs" by (simp add: evs_def passed_def)
  have "distinct (filter (\<lambda>s. s > 0) (map seq_num (map fst evs)))"
    using feed_run_distinct [OF win] unfolding fe filter_map by (simp add: comp_def)
  then show "distinct (filter (\<lambda>s. s > 0) (map (\<lambda>ev. seq_num (fst ev)) evs))" by (simp add: comp_def)
  have "seq_num ` set (map fst evs) - {0} = seq_num ` set (map fst ?evs) - {0}"
    using feed_run_complete [OF win] by (simp only: fe)
  then show "(\<lambda>ev. seq_num (fst ev)) ` set evs - {0} = (\<lambda>ev. seq_num (fst ev)) ` set ?evs - {0}"
    by (simp add: image_image)
qed

text \<open>Under the default limits, what is bookable is within the collar and the quantity limit.\<close>

lemma bookable_within:
  assumes "\<forall>pkt \<in> set pkts. reference_price - price (parse_in_place (we_protocol env) (pkt_bytes pkt)) < 2 ^ 63"
    and ev: "ev \<in> set (filter (bookable default_limits) (passed env a n pkts))"
  shows "30000000 \<le> price (fst ev) \<and> price (fst ev) \<le> 40000000 \<and> (of_int (quantity (fst ev)) :: u32) \<le> 50000"
proof -
  have mem: "ev \<in> set (packet_orders env n pkts)" using ev passed_in [of ev env a n pkts] by simp
  then obtain pkt k where p: "pkt \<in> set pkts"
    "fst ev = (parse_in_place (we_protocol env) (pkt_bytes pkt))\<lparr>latency_ns := k\<rparr>" by (rule packet_orders_ok)
  have "reference_price - price (fst ev) < 2 ^ 63" using assms(1) p by simp
  with packet_order_typed [OF mem] ev risk_passes_default [of "fst ev"] show ?thesis by (simp add: bookable_def)
qed

subsection \<open>Workers behind the gate\<close>

text \<open>
  The contract of a worker whose packets go through the gate: a handler call advances the arbitrator
  by the packet's event, keeps the limits, hands an admitted event to the core (the book) and to
  nothing else, and accounts for the event unless it is a duplicate. Both matching workers provide it.
\<close>

locale gated_worker =
  fixes env :: worker_env
    and handle :: "FixMessagePacket \<Rightarrow> 's \<Rightarrow> 's"
    and gate :: "'s \<Rightarrow> PacketGate"
    and handled :: "'s \<Rightarrow> nat"
    and core :: "'s \<Rightarrow> 'c"
    and event :: "ParsedOrder \<times> u64 \<Rightarrow> 'c \<Rightarrow> 'c"
    and stats :: "'s \<Rightarrow> WorkerStats"
    and telemetry :: "'s \<Rightarrow> WorkerMetrics"
  assumes step_feed: "g_feed_arbitrator (gate (handle pkt s)) =
        snd (feed_event (g_feed_arbitrator (gate s)) (packet_order env (handled s) pkt))"
    and step_limits: "m_limits (g_risk_mgr (gate (handle pkt s))) = m_limits (g_risk_mgr (gate s))"
    and step_handled: "handled (handle pkt s) = Suc (handled s)"
    and step_core: "core (handle pkt s) =
        (if fst (feed_event (g_feed_arbitrator (gate s)) (packet_order env (handled s) pkt)) \<and>
            bookable (m_limits (g_risk_mgr (gate s))) (packet_order env (handled s) pkt)
         then event (packet_order env (handled s) pkt) (core s) else core s)"
    and step_stats: "stats (handle pkt s) =
        (let ev = packet_order env (handled s) pkt; l = latency_ns (fst ev)
         in if fst (feed_event (g_feed_arbitrator (gate s)) ev)
            then count_latency l (count_verdict (risk_passes (m_limits (g_risk_mgr (gate s))) (fst ev)) l (stats s))
            else stats s)"
    and step_telemetry: "telemetry (handle pkt s) =
        (if fst (feed_event (g_feed_arbitrator (gate s)) (packet_order env (handled s) pkt))
         then publish_stats (stats (handle pkt s)) else telemetry s)"
begin

lemma run_core:
  assumes "m_limits (g_risk_mgr (gate s)) = limits"
  shows "core (fold handle pkts s) =
    fold event (filter (bookable limits) (passed env (g_feed_arbitrator (gate s)) (handled s) pkts)) (core s)"
  using assms by (induction pkts arbitrary: s) (simp_all add: passed_Cons step_feed step_limits step_handled step_core)

lemma run_feed:
  "g_feed_arbitrator (gate (fold handle pkts s)) =
     snd (filter_run feed_event (g_feed_arbitrator (gate s)) (packet_orders env (handled s) pkts))"
  by (induction pkts arbitrary: s) (simp_all add: step_feed step_handled Let_def split_beta)

lemma run_stats:
  assumes "m_limits (g_risk_mgr (gate s)) = limits" "stats_for (stats s) ls rs"
  shows "stats_for (stats (fold handle pkts s))
    (ls @ latencies (filter (\<lambda>ev. risk_passes limits (fst ev)) (passed env (g_feed_arbitrator (gate s)) (handled s) pkts)))
    (rs @ latencies (filter (\<lambda>ev. \<not> risk_passes limits (fst ev)) (passed env (g_feed_arbitrator (gate s)) (handled s) pkts)))"
  using assms
proof (induction pkts arbitrary: s ls rs)
  case (Cons pkt pkts)
  let ?ev = "packet_order env (handled s) pkt"
  let ?one = "if fst (feed_event (g_feed_arbitrator (gate s)) ?ev) then [?ev] else []"
  let ?l = "latencies (filter (\<lambda>ev. risk_passes limits (fst ev)) ?one)"
  let ?r = "latencies (filter (\<lambda>ev. \<not> risk_passes limits (fst ev)) ?one)"
  have "stats_for (stats (handle pkt s)) (ls @ ?l) (rs @ ?r)"
    using Cons.prems stats_for_count [OF Cons.prems(2)] by (simp add: latencies_def step_stats Let_def)
  with Cons.IH [of "handle pkt s" "ls @ ?l" "rs @ ?r"] Cons.prems(1) show ?case
    by (simp add: step_limits step_feed step_handled passed_Cons latencies_def)
qed (simp add: latencies_def)

lemma run_telemetry:
  "telemetry s = publish_stats (stats s) \<Longrightarrow> telemetry (fold handle pkts s) = publish_stats (stats (fold handle pkts s))"
proof (induction pkts arbitrary: s)
  case (Cons pkt pkts)
  have "telemetry (handle pkt s) = publish_stats (stats (handle pkt s))"
    using Cons.prems by (simp add: step_telemetry step_stats Let_def)
  with Cons.IH show ?case by simp
qed simp

lemma run_duplicates:
  assumes "g_feed_arbitrator (gate s) = arbitrator_init 2048"
  shows "m_duplicates_suppressed (g_feed_arbitrator (gate (fold handle pkts s))) +
    of_nat (length (passed env (arbitrator_init 2048) (handled s) pkts)) = of_nat (length pkts)"
  using feed_run_counts [of "arbitrator_init 2048" "packet_orders env (handled s) pkts"]
  by (simp add: run_feed assms passed_def) (simp add: arbitrator_init_def)

end

end
