(* ===== verification/Worker_Loop.thy ===== *)
theory Worker_Loop
  imports Worker_Types
begin

text \<open>
  The main loop that \<open>HftOrderBookEngine::run\<close>, \<open>MatchingWorker::run\<close> and \<open>FixWorker::run\<close> share: pop
  up to 32 packets, handle them in order, leave when stopped with an empty queue, when the consumer
  has finished and the queue is empty, or (in the last two) when the expected number of messages has
  been processed. The handler of a packet and the test of the expected number are parameters of the
  loop; each worker's theory supplies them.

  The other threads are the observations of an iteration: the values of \<open>g_running\<close> and
  \<open>g_consumer_done\<close> it loads and the packets the receiving thread offers to the queue before the loop
  condition, before \<open>pop_batch\<close> and before the second test of emptiness.
\<close>

record 'p loop_obs =
  lo_running :: bool
  lo_consumer_done :: bool
  lo_before :: "'p list"
  lo_between :: "'p list"
  lo_after :: "'p list"

datatype exit_reason = STOPPED | DRAINED | EXPECTED

text \<open>
  The loop's state: the shared queue and the worker's state, with the history of the packets the
  queue accepted, those handled, and those popped but left when the loop was cut short.
\<close>

record ('p, 's) loop_state =
  w_queue :: "'p spsc"
  w_state :: 's
  w_accepted :: "'p list"
  w_handled :: "'p list"
  w_dropped :: "'p list"

definition loop_init :: "'p spsc \<Rightarrow> 's \<Rightarrow> ('p, 's) loop_state" where
  "loop_init q s = \<lparr>w_queue = q, w_state = s, w_accepted = [], w_handled = [], w_dropped = []\<rparr>"

definition offer_one :: "nat \<Rightarrow> 'p \<Rightarrow> ('p, 's) loop_state \<Rightarrow> ('p, 's) loop_state" where
  "offer_one cap p w =
     (let (ok, q) = spsc_push cap p (w_queue w)
      in w\<lparr>w_queue := q, w_accepted := (if ok then w_accepted w @ [p] else w_accepted w)\<rparr>)"

definition offer :: "nat \<Rightarrow> 'p list \<Rightarrow> ('p, 's) loop_state \<Rightarrow> ('p, 's) loop_state" where
  "offer cap ps w = fold (offer_one cap) ps w"

text \<open>
  A handler returns whether control reaches the test of the expected number (a suppressed duplicate
  continues with the next packet at once) and the new state. The result is the rest of the batch,
  when the test cuts it short, and the state.
\<close>

fun handle_batch :: "('p \<Rightarrow> 's \<Rightarrow> bool \<times> 's) \<Rightarrow> ('s \<Rightarrow> bool) \<Rightarrow> 'p list \<Rightarrow> 's \<Rightarrow> 'p list \<times> 's" where
  "handle_batch handle finished [] s = ([], s)"
| "handle_batch handle finished (p # ps) s =
     (let (tested, s') = handle p s
      in if tested \<and> finished s' then (ps, s') else handle_batch handle finished ps s')"

fun worker_loop ::
  "nat \<Rightarrow> ('p \<Rightarrow> 's \<Rightarrow> bool \<times> 's) \<Rightarrow> ('s \<Rightarrow> bool) \<Rightarrow> 'p loop_obs list \<Rightarrow> ('p, 's) loop_state \<Rightarrow>
     exit_reason option \<times> ('p, 's) loop_state" where
  "worker_loop cap handle finished [] w = (None, w)"
| "worker_loop cap handle finished (ob # obs) w =
     (let w1 = offer cap (lo_before ob) w
      in if \<not> lo_running ob \<and> spsc_empty (w_queue w1) then (Some STOPPED, w1)
         else let w2 = offer cap (lo_between ob) w1;
                  (batch, q) = spsc_pop_batch cap 32 (w_queue w2)
              in if batch = []
                 then let w3 = offer cap (lo_after ob) (w2\<lparr>w_queue := q\<rparr>)
                      in if lo_consumer_done ob \<and> spsc_empty (w_queue w3) then (Some DRAINED, w3)
                         else worker_loop cap handle finished obs w3
                 else let (left, s) = handle_batch handle finished batch (w_state w2);
                          w3 = w2\<lparr>w_queue := q, w_state := s, w_dropped := left,
                                 w_handled := w_handled w2 @ take (length batch - length left) batch\<rparr>
                      in if finished s then (Some EXPECTED, w3)
                         else worker_loop cap handle finished obs w3)"

subsection \<open>Packets are handled in order and none is lost\<close>

definition handle_all :: "('p \<Rightarrow> 's \<Rightarrow> bool \<times> 's) \<Rightarrow> 'p list \<Rightarrow> 's \<Rightarrow> 's" where
  "handle_all handle ps s = fold (\<lambda>p s. snd (handle p s)) ps s"

definition loop_inv :: "nat \<Rightarrow> ('p \<Rightarrow> 's \<Rightarrow> bool \<times> 's) \<Rightarrow> 's \<Rightarrow> ('p, 's) loop_state \<Rightarrow> bool" where
  "loop_inv cap handle s0 w \<longleftrightarrow> spsc_inv cap (w_queue w) \<and>
     w_accepted w = w_handled w @ w_dropped w @ spsc_contents cap (w_queue w) \<and>
     w_state w = handle_all handle (w_handled w) s0"

lemma offer_inv:
  assumes "loop_inv cap handle s0 w"
  shows "loop_inv cap handle s0 (offer cap ps w) \<and> w_dropped (offer cap ps w) = w_dropped w \<and>
    w_handled (offer cap ps w) = w_handled w \<and> w_state (offer cap ps w) = w_state w"
  using assms
proof (induction ps arbitrary: w)
  case (Cons p ps)
  have q: "spsc_inv cap (w_queue w)" using Cons.prems by (simp add: loop_inv_def)
  have "loop_inv cap handle s0 (offer_one cap p w)"
    using Cons.prems spsc.push_ok [OF q, of p] spsc.push_contents [OF q, of p] spsc.push_invar [OF q, of p]
    by (auto simp: loop_inv_def offer_one_def split: prod.splits)
  from Cons.IH [OF this] show ?case by (simp add: offer_def) (simp add: offer_one_def split: prod.split)
qed (simp add: offer_def)

lemma handle_batch_spec:
  assumes "handle_batch handle finished ps s = (left, s')"
  shows "ps = take (length ps - length left) ps @ left \<and>
    s' = handle_all handle (take (length ps - length left) ps) s \<and> (left \<noteq> [] \<longrightarrow> finished s')"
  using assms
proof (induction ps arbitrary: s)
  case (Cons p ps)
  obtain tested s1 where h: "handle p s = (tested, s1)" by fastforce
  show ?case
  proof (cases "tested \<and> finished s1")
    case True
    with Cons.prems h show ?thesis by (auto simp: handle_all_def)
  next
    case False
    then have r: "handle_batch handle finished ps s1 = (left, s')" using Cons.prems h by auto
    have "length left \<le> length ps"
      using arg_cong [OF conjunct1 [OF Cons.IH [OF r]], of length] by simp
    then have "take (length (p # ps) - length left) (p # ps) = p # take (length ps - length left) ps"
      by (simp add: Suc_diff_le)
    with Cons.IH [OF r] show ?thesis by (auto simp: handle_all_def h)
  qed
qed (simp add: handle_all_def)

text \<open>One iteration: the loop returns, or it continues with a state that keeps the invariant.\<close>

lemma worker_loop_inv:
  assumes "loop_inv cap handle s0 w" "w_dropped w = []"
    and "worker_loop cap handle finished obs w = (r, w')"
  shows "loop_inv cap handle s0 w' \<and>
    (r = Some STOPPED \<or> r = Some DRAINED \<longrightarrow> spsc_contents cap (w_queue w') = []) \<and>
    (r = Some EXPECTED \<longrightarrow> finished (w_state w')) \<and> (r \<noteq> Some EXPECTED \<longrightarrow> w_dropped w' = [])"
  using assms
proof (induction obs arbitrary: w)
  case (Cons ob obs)
  define w1 where "w1 = offer cap (lo_before ob) w"
  define w2 where "w2 = offer cap (lo_between ob) w1"
  have w1: "loop_inv cap handle s0 w1" "w_dropped w1 = []"
    using offer_inv [OF Cons.prems(1)] Cons.prems(2) by (simp_all add: w1_def)
  have w2: "loop_inv cap handle s0 w2" "w_dropped w2 = []"
    using offer_inv [OF w1(1)] w1(2) by (simp_all add: w2_def)
  note empty = spsc_empty_contents [of cap]
  show ?case
  proof (cases "\<not> lo_running ob \<and> spsc_empty (w_queue w1)")
    case True
    with Cons.prems(3) have "r = Some STOPPED" "w' = w1" by (simp_all add: w1_def)
    with True w1 empty [of "w_queue w1"] show ?thesis by (simp add: loop_inv_def)
  next
    case run: False
    have q2: "spsc_inv cap (w_queue w2)" using w2(1) by (simp add: loop_inv_def)
    obtain batch q where pop: "spsc_pop_batch cap 32 (w_queue w2) = (batch, q)" by fastforce
    then have q: "spsc_inv cap q" "spsc_contents cap (w_queue w2) = batch @ spsc_contents cap q"
      using spsc.pop_batch_invar [OF q2, of 32] spsc.pop_batch_contents [OF q2, of 32] by simp_all
    show ?thesis
    proof (cases "batch = []")
      case True
      define w3 where "w3 = offer cap (lo_after ob) (w2\<lparr>w_queue := q\<rparr>)"
      have "loop_inv cap handle s0 (w2\<lparr>w_queue := q\<rparr>)" using w2 q True by (simp add: loop_inv_def)
      from offer_inv [OF this] w2(2) have w3: "loop_inv cap handle s0 w3" "w_dropped w3 = []" by (simp_all add: w3_def)
      have "(r, w') = (if lo_consumer_done ob \<and> spsc_empty (w_queue w3) then (Some DRAINED, w3)
          else worker_loop cap handle finished obs w3)"
        using Cons.prems(3) run True pop by (simp flip: w1_def w2_def w3_def)
      with Cons.IH [OF w3] w3 empty [of "w_queue w3"] show ?thesis by (auto simp: loop_inv_def split: if_splits)
    next
      case False
      obtain left s where b: "handle_batch handle finished batch (w_state w2) = (left, s)" by fastforce
      define w3 where "w3 = w2\<lparr>w_queue := q, w_state := s, w_dropped := left,
        w_handled := w_handled w2 @ take (length batch - length left) batch\<rparr>"
      note B = handle_batch_spec [OF b]
      have "w_accepted w2 = w_handled w2 @ batch @ spsc_contents cap q" "w_state w2 = handle_all handle (w_handled w2) s0"
        using w2 q(2) by (simp_all add: loop_inv_def)
      with B q(1) have w3: "loop_inv cap handle s0 w3"
        by (simp add: loop_inv_def w3_def handle_all_def)
      have "(r, w') = (if finished s then (Some EXPECTED, w3) else worker_loop cap handle finished obs w3)"
        using Cons.prems(3) run False pop by (simp add: b flip: w1_def w2_def w3_def)
      moreover have "w_dropped w3 = []" if "\<not> finished s" using B that by (auto simp: w3_def)
      moreover have "w_state w3 = s" by (simp add: w3_def)
      ultimately show ?thesis using Cons.IH [OF w3] w3 by (auto split: if_splits)
    qed
  qed
qed simp


text \<open>Once the receiver has finished and nothing more arrives, the loop returns within one iteration per packet.\<close>

definition quiet :: "'p loop_obs \<Rightarrow> bool" where
  "quiet ob \<longleftrightarrow> lo_consumer_done ob \<and> lo_before ob = [] \<and> lo_between ob = [] \<and> lo_after ob = []"

lemma worker_loop_returns:
  assumes "spsc_inv cap (w_queue w)" "list_all quiet obs" "length (spsc_contents cap (w_queue w)) < length obs"
  shows "\<exists>r w'. worker_loop cap handle finished obs w = (Some r, w')"
  using assms
proof (induction obs arbitrary: w)
  case (Cons ob obs)
  have ob: "quiet ob" "list_all quiet obs" using Cons.prems(2) by simp_all
  have off: "offer cap [] v = v" for v :: "('p, 's) loop_state" by (simp add: offer_def)
  obtain batch q where pop: "spsc_pop_batch cap 32 (w_queue w) = (batch, q)" by fastforce
  then have q: "spsc_inv cap q" "spsc_contents cap (w_queue w) = batch @ spsc_contents cap q"
    using spsc.pop_batch_invar [OF Cons.prems(1), of 32] spsc.pop_batch_contents [OF Cons.prems(1), of 32] by simp_all
  show ?case
  proof (cases "batch = []")
    case True
    then have "spsc_contents cap (w_queue w) = []"
      using spsc.pop_batch_progress [OF Cons.prems(1), of 32] pop by auto
    then have "spsc_empty q" using q True spsc_empty_contents [OF q(1)] by simp
    with ob(1) pop True show ?thesis by (simp add: quiet_def off)
  next
    case False
    obtain left s where b: "handle_batch handle finished batch (w_state w) = (left, s)" by fastforce
    define w3 where "w3 = w\<lparr>w_queue := q, w_state := s, w_dropped := left,
      w_handled := w_handled w @ take (length batch - length left) batch\<rparr>"
    have "length (spsc_contents cap (w_queue w3)) < length obs"
      using q(2) False Cons.prems(3) by (cases batch) (simp_all add: w3_def)
    moreover have "spsc_inv cap (w_queue w3)" using q(1) by (simp add: w3_def)
    ultimately have "\<exists>r w'. worker_loop cap handle finished obs w3 = (Some r, w')" using Cons.IH ob(2) by blast
    with ob(1) pop False b show ?thesis by (simp add: quiet_def off flip: w3_def)
  qed
qed simp

definition quiet_obs :: "'p loop_obs" where
  "quiet_obs = \<lparr>lo_running = True, lo_consumer_done = True, lo_before = [], lo_between = [], lo_after = []\<rparr>"

lemma queue_8192:
  assumes "length buf = 8192"
  shows "spsc_inv 8192 (spsc_init buf)" "spsc_contents 8192 (spsc_init buf) = []"
  using assms pow2_capacity_exp [of 13] spsc_init_inv [of 8192 buf] by (simp_all add: spsc_static_assert_def pow2_capacity_def)

subsection \<open>Workers that return the frames of their packets\<close>

locale ring_worker =
  fixes handle :: "FixMessagePacket \<Rightarrow> 's \<Rightarrow> bool \<times> 's"
    and finished :: "'s \<Rightarrow> bool"
    and frames :: "'s \<Rightarrow> nat \<Rightarrow> frame_status"
  assumes handle_frames: "frames (snd (handle pkt s)) = release_frame (ring_hdr pkt) (frames s)"
begin

lemma handle_all_frames:
  "frames (handle_all handle pkts s) h = (if Some h \<in> ring_hdr ` set pkts then TP_STATUS_KERNEL else frames s h)"
proof (induction pkts arbitrary: s)
  case (Cons pkt pkts)
  show ?case
    using Cons [of "snd (handle pkt s)"]
    by (auto simp: handle_all_def handle_frames release_frame_def split: option.split)
qed (simp add: handle_all_def)

text \<open>
  A run from an empty queue: everything the queue accepted has been handled in order, except what is
  cut off by the expected number; the frames of the handled packets are with the kernel, and no other
  frame has changed.
\<close>

lemma loop_handles:
  assumes "spsc_inv cap q" "spsc_contents cap q = []"
    and "worker_loop cap handle finished obs (loop_init q s) = (r, w)"
  shows "w_state w = handle_all handle (w_handled w) s"
    and "w_accepted w = w_handled w @ w_dropped w @ spsc_contents cap (w_queue w)"
    and "r = Some STOPPED \<or> r = Some DRAINED \<Longrightarrow> w_handled w = w_accepted w"
    and "r = Some EXPECTED \<Longrightarrow> finished (w_state w)"
    and "frames (w_state w) h = (if Some h \<in> ring_hdr ` set (w_handled w) then TP_STATUS_KERNEL else frames s h)"
proof -
  have "loop_inv cap handle s (loop_init q s)" "w_dropped (loop_init q s) = []"
    using assms(1,2) by (simp_all add: loop_inv_def loop_init_def handle_all_def)
  note L = worker_loop_inv [OF this assms(3)]
  show st: "w_state w = handle_all handle (w_handled w) s"
    and "w_accepted w = w_handled w @ w_dropped w @ spsc_contents cap (w_queue w)"
    using L by (simp_all add: loop_inv_def)
  then show "r = Some STOPPED \<or> r = Some DRAINED \<Longrightarrow> w_handled w = w_accepted w" using L by auto
  show "r = Some EXPECTED \<Longrightarrow> finished (w_state w)" using L by blast
  show "frames (w_state w) h = (if Some h \<in> ring_hdr ` set (w_handled w) then TP_STATUS_KERNEL else frames s h)"
    unfolding st by (rule handle_all_frames)
qed

end


subsection \<open>Workers that test the expected number after every packet\<close>

text \<open>No proper non-empty prefix of the handled packets reaches the expected number.\<close>

definition unfinished_before :: "('p \<Rightarrow> 's \<Rightarrow> bool \<times> 's) \<Rightarrow> ('s \<Rightarrow> bool) \<Rightarrow> 's \<Rightarrow> 'p list \<Rightarrow> bool" where
  "unfinished_before handle finished s ps \<longleftrightarrow>
     (\<forall>k. 0 < k \<and> k < length ps \<longrightarrow> \<not> finished (handle_all handle (take k ps) s))"

locale counting_worker = ring_worker +
  assumes always_tested: "fst (handle pkt s)"
begin

lemma handle_batch_first:
  assumes "handle_batch handle finished ps s = (left, s')" "0 < k" "k < length ps - length left"
  shows "\<not> finished (handle_all handle (take k ps) s)"
  using assms
proof (induction ps arbitrary: s k)
  case (Cons p ps)
  obtain s1 where h: "handle p s = (True, s1)" using always_tested [of p s] by (metis prod.collapse)
  show ?case
  proof (cases "finished s1")
    case True
    with Cons.prems h show ?thesis by auto
  next
    case False
    then have r: "handle_batch handle finished ps s1 = (left, s')" using Cons.prems(1) h by simp
    show ?thesis
    proof (cases "k = 1")
      case True
      with False h show ?thesis by (simp add: handle_all_def)
    next
      case k: False
      then obtain j where j: "k = Suc j" "0 < j" using Cons.prems(2) by (cases k) auto
      have "j < length ps - length left" using Cons.prems(3) j by simp
      from Cons.IH [OF r j(2) this] h j show ?thesis by (simp add: handle_all_def)
    qed
  qed
qed simp

lemma offer_handled: "w_handled (offer cap ps w) = w_handled w \<and> w_state (offer cap ps w) = w_state w"
  by (induction ps arbitrary: w) (auto simp: offer_def offer_one_def split: prod.split)

lemma worker_loop_first:
  assumes "unfinished_before handle finished s (w_handled w)" "w_state w = handle_all handle (w_handled w) s"
    and "w_handled w = [] \<or> \<not> finished (w_state w)"
    and "worker_loop cap handle finished obs w = (r, w')"
  shows "unfinished_before handle finished s (w_handled w')"
  using assms
proof (induction obs arbitrary: w)
  case (Cons ob obs)
  define w2 where "w2 = offer cap (lo_between ob) (offer cap (lo_before ob) w)"
  have w2: "w_handled w2 = w_handled w" "w_state w2 = w_state w" by (simp_all add: w2_def offer_handled)
  obtain batch q where pop: "spsc_pop_batch cap 32 (w_queue w2) = (batch, q)" by fastforce
  obtain left s' where b: "handle_batch handle finished batch (w_state w2) = (left, s')" by fastforce
  define w3 where "w3 = w2\<lparr>w_queue := q, w_state := s', w_dropped := left,
    w_handled := w_handled w2 @ take (length batch - length left) batch\<rparr>"
  define w4 where "w4 = offer cap (lo_after ob) (w2\<lparr>w_queue := q\<rparr>)"
  have w4: "w_handled w4 = w_handled w" "w_state w4 = w_state w" by (simp_all add: w4_def offer_handled w2)
  have st: "w_state w3 = handle_all handle (w_handled w3) s"
    using handle_batch_spec [OF b] Cons.prems(2) by (simp add: w3_def w2 handle_all_def)
  have un: "unfinished_before handle finished s (w_handled w3)"
    unfolding unfinished_before_def
  proof (intro allI impI, elim conjE)
    fix k assume k: "0 < k" "k < length (w_handled w3)"
    let ?h = "w_handled w"
    show "\<not> finished (handle_all handle (take k (w_handled w3)) s)"
    proof (cases "k < length ?h")
      case True
      with Cons.prems(1) k(1) show ?thesis by (simp add: unfinished_before_def w3_def w2)
    next
      case False
      define j where "j = k - length ?h"
      have "length (w_handled w3) = length ?h + (length batch - length left)" by (simp add: w3_def w2)
      then have kj: "k = length ?h + j" and lt: "j < length batch - length left" using False k(2) by (auto simp: j_def)
      have t: "take k (w_handled w3) = ?h @ take j batch" "j < length batch - length left"
        using lt by (simp_all add: kj w3_def w2 min_def)
      then have all: "handle_all handle (take k (w_handled w3)) s = handle_all handle (take j batch) (w_state w2)"
        using Cons.prems(2) by (simp add: handle_all_def w2)
      show ?thesis
      proof (cases "j = 0")
        case True
        then have "?h \<noteq> []" using False k(1) by (auto simp: j_def)
        with Cons.prems(3) True all show ?thesis by (simp add: w2 handle_all_def)
      next
        case j0: False
        then show ?thesis using handle_batch_first [OF b _ t(2)] by (simp add: all)
      qed
    qed
  qed
  have "(r, w') = (Some STOPPED, offer cap (lo_before ob) w) \<or> (r, w') = (Some DRAINED, w4) \<or>
      (r, w') = worker_loop cap handle finished obs w4 \<or> (r, w') = (Some EXPECTED, w3) \<or>
      (\<not> finished s' \<and> (r, w') = worker_loop cap handle finished obs w3)"
    using Cons.prems(4) by (auto simp: Let_def pop b simp flip: w2_def w3_def w4_def split: if_splits)
  then show ?case
  proof (elim disjE conjE)
    assume "(r, w') = worker_loop cap handle finished obs w4"
    with Cons.IH [of w4] Cons.prems(1-3) show ?thesis by (simp add: w4)
  next
    assume "\<not> finished s'" "(r, w') = worker_loop cap handle finished obs w3"
    with Cons.IH [OF un st] show ?thesis by (simp add: w3_def)
  qed (use Cons.prems(1) un in \<open>simp_all add: offer_handled w4\<close>)
qed simp

end

end
