(* ===== verification/Order_Book_Engine.thy ===== *)
theory Order_Book_Engine
  imports Packet_Gate Worker_Loop Order_Book_Refinement
begin

text \<open>
  \<open>HftOrderBookEngine\<close> of \<open>src/order_book_engine/HftOrderBookEngine.cpp\<close>: the per-packet handler of
  \<open>run\<close> (parse, arbitrate, detect gaps, risk gate, match, account, release the ring frame) and the
  top-of-book snapshot, on the zero-allocation book.
\<close>

record OrderBookEngine =
  oe_gate :: PacketGate
  oe_order_book :: ZeroAllocBook
  oe_trade_batch :: "ZeroAllocTrade list"
  oe_trade_counter :: u64
  oe_stats :: WorkerStats
  oe_telemetry :: WorkerMetrics
  oe_frames :: "nat \<Rightarrow> frame_status"
  oe_handled :: nat

definition order_book_engine_init :: "(nat \<Rightarrow> frame_status) \<Rightarrow> OrderBookEngine" where
  "order_book_engine_init frames = \<lparr>oe_gate = packet_gate_init default_limits,
     oe_order_book = zero_alloc_init ''PETR4'', oe_trade_batch = replicate 16 empty_trade,
     oe_trade_counter = 0, oe_stats = worker_stats_init, oe_telemetry = worker_metrics_init,
     oe_frames = frames, oe_handled = 0\<rparr>"

definition z_trade_text :: "(int \<Rightarrow> string) \<Rightarrow> ZeroAllocTrade \<Rightarrow> string" where
  "z_trade_text fmt2 tr = ''[MATCHED TRADE EXECUTED] TradeID=#'' @ dec_string (unat (zt_trade_id tr)) @
     '' | Sym='' @ cstr (zt_symbol tr) @ '' | BuyID='' @ cstr (zt_buy_cl_ord_id tr) @
     '' | SellID='' @ cstr (zt_sell_cl_ord_id tr) @ '' | Qty='' @ dec_string (unat (zt_match_qty tr)) @
     '' @ Price='' @ fmt2 (zt_match_price tr)"

text \<open>Submission of an approved new order and the log lines of its trades.\<close>

definition engine_submit :: "(int \<Rightarrow> string) \<Rightarrow> u64 \<Rightarrow> ParsedOrder \<Rightarrow> OrderBookEngine \<Rightarrow> OrderBookEngine" where
  "engine_submit fmt2 current_ts ord e =
     (let (trades_cnt, batch, counter, book) =
            z_submit_order ord (Some (oe_trade_batch e)) (length (oe_trade_batch e)) (oe_trade_counter e)
              current_ts (oe_order_book e);
          lines = map (\<lambda>tr. log_line current_ts INFO_LEVEL (z_trade_text fmt2 tr)) (take trades_cnt (the batch))
      in e\<lparr>oe_order_book := book, oe_trade_batch := the batch, oe_trade_counter := counter,
           oe_gate := fold queue_log lines (oe_gate e)\<rparr>)"

definition engine_gap_label :: string where
  "engine_gap_label = ''Generated FIX ResendRequest: ''"

text \<open>The body of the packet loop.\<close>

definition engine_handle :: "worker_env \<Rightarrow> FixMessagePacket \<Rightarrow> OrderBookEngine \<Rightarrow> OrderBookEngine" where
  "engine_handle env pkt e0 =
     (let (ord, current_ts) = packet_order env (oe_handled e0) pkt;
          (v, g) = admit_packet engine_gap_label (we_fmt2 env) current_ts ord (oe_gate e0);
          e1 = e0\<lparr>oe_gate := g, oe_handled := Suc (oe_handled e0)\<rparr>
      in if v = V_DUPLICATE
         then e1\<lparr>oe_frames := release_frame (ring_hdr pkt) (oe_frames e1)\<rparr>
         else let risk_approved = (v = V_APPROVED);
                  e2 = (if risk_approved \<and> msg_type_char ord = CHR ''D''
                        then engine_submit (we_fmt2 env) current_ts ord e1 else e1);
                  st = count_latency (latency_ns ord) (count_verdict risk_approved (latency_ns ord) (oe_stats e2))
              in e2\<lparr>oe_stats := st, oe_telemetry := publish_stats st,
                    oe_frames := release_frame (ring_hdr pkt) (oe_frames e2)\<rparr>)"

definition engine_run :: "worker_env \<Rightarrow> FixMessagePacket list \<Rightarrow> OrderBookEngine \<Rightarrow> OrderBookEngine" where
  "engine_run env pkts e = fold (engine_handle env) pkts e"

subsection \<open>The orders that reach the book\<close>

definition z_event ::
  "ParsedOrder \<times> u64 \<Rightarrow> ZeroAllocTrade list \<times> u64 \<times> ZeroAllocBook \<Rightarrow> ZeroAllocTrade list \<times> u64 \<times> ZeroAllocBook" where
  "z_event ev st = (let (batch, counter, book) = st;
       (gen, batch', counter', book') = z_submit_order (fst ev) (Some batch) (length batch) counter (snd ev) book
     in (the batch', counter', book'))"

definition engine_core :: "OrderBookEngine \<Rightarrow> ZeroAllocTrade list \<times> u64 \<times> ZeroAllocBook" where
  "engine_core e = (oe_trade_batch e, oe_trade_counter e, oe_order_book e)"

lemma engine_submit_frame:
  "engine_core (engine_submit fmt2 ts ord e) = z_event (ord, ts) (engine_core e)"
  "g_feed_arbitrator (oe_gate (engine_submit fmt2 ts ord e)) = g_feed_arbitrator (oe_gate e)"
  "g_risk_mgr (oe_gate (engine_submit fmt2 ts ord e)) = g_risk_mgr (oe_gate e)"
  "oe_stats (engine_submit fmt2 ts ord e) = oe_stats e"
  "oe_frames (engine_submit fmt2 ts ord e) = oe_frames e"
  "oe_handled (engine_submit fmt2 ts ord e) = oe_handled e"
  by (simp_all add: engine_submit_def engine_core_def z_event_def queue_log_frame Let_def split: prod.split)

text \<open>One handler call against the specification.\<close>

lemma engine_handle_spec:
  assumes "packet_order env (oe_handled e) pkt = ev"
  defines "pass \<equiv> feed_event (g_feed_arbitrator (oe_gate e)) ev"
    and "limits \<equiv> m_limits (g_risk_mgr (oe_gate e))"
    and "e' \<equiv> engine_handle env pkt e"
  shows "g_feed_arbitrator (oe_gate e') = snd pass" "m_limits (g_risk_mgr (oe_gate e')) = limits"
    and "oe_handled e' = Suc (oe_handled e)"
    and "engine_core e' = (if fst pass \<and> bookable limits ev then z_event ev (engine_core e) else engine_core e)"
    and "oe_stats e' = (if fst pass then count_latency (latency_ns (fst ev))
           (count_verdict (risk_passes limits (fst ev)) (latency_ns (fst ev)) (oe_stats e)) else oe_stats e)"
    and "oe_telemetry e' = (if fst pass then publish_stats (oe_stats e') else oe_telemetry e)"
    and "oe_frames e' = release_frame (ring_hdr pkt) (oe_frames e)"
proof -
  obtain ord ts where ev: "ev = (ord, ts)" by fastforce
  obtain v g where a: "admit_packet engine_gap_label (we_fmt2 env) ts ord (oe_gate e) = (v, g)" by fastforce
  note A = admit_packet_spec [OF a]
  have v: "v = V_DUPLICATE \<longleftrightarrow> \<not> fst pass" "v = V_APPROVED \<longleftrightarrow> fst pass \<and> risk_passes limits ord"
    using A(1) by (auto simp: pass_def feed_event_def ev limits_def)
  note defs = e'_def engine_handle_def assms(1) ev a Let_def
  have core: "engine_core (x\<lparr>oe_stats := st\<rparr>) = engine_core x" "engine_core (x\<lparr>oe_telemetry := t\<rparr>) = engine_core x"
    "engine_core (x\<lparr>oe_frames := f\<rparr>) = engine_core x" "engine_core (x\<lparr>oe_gate := h\<rparr>) = engine_core x"
    "engine_core (x\<lparr>oe_handled := n\<rparr>) = engine_core x" for x :: OrderBookEngine and st t f h n
    by (simp_all add: engine_core_def)
  show "g_feed_arbitrator (oe_gate e') = snd pass" "m_limits (g_risk_mgr (oe_gate e')) = limits"
    using A(2,3) by (simp_all add: defs engine_submit_frame pass_def feed_event_def limits_def)
  show "oe_handled e' = Suc (oe_handled e)" "oe_frames e' = release_frame (ring_hdr pkt) (oe_frames e)"
    by (simp_all add: defs engine_submit_frame)
  show "engine_core e' = (if fst pass \<and> bookable limits ev then z_event ev (engine_core e) else engine_core e)"
    using v by (auto simp: defs core engine_submit_frame bookable_def)
  show "oe_stats e' = (if fst pass then count_latency (latency_ns (fst ev))
      (count_verdict (risk_passes limits (fst ev)) (latency_ns (fst ev)) (oe_stats e)) else oe_stats e)"
    using v by (auto simp: defs engine_submit_frame)
  show "oe_telemetry e' = (if fst pass then publish_stats (oe_stats e') else oe_telemetry e)"
    using v by (auto simp: defs engine_submit_frame)
qed


subsection \<open>The book under a stream of events\<close>

text \<open>Matching never changes the length of the trade array.\<close>

lemma level_loop_out:
  "map_option length (zm_out (snd (level_loop bid ord symb mx ts lm))) = map_option length (zm_out (snd lm))"
proof (induction bid ord symb mx ts lm rule: level_loop.induct)
  case (1 bid ord symb mx ts lm)
  have "map_option length (zm_out (snd (level_step bid ord symb mx ts lm))) = map_option length (zm_out (snd lm))"
    by (simp add: level_step_def report_trade_def Let_def split: prod.splits option.splits)
  with 1 show ?case by (subst level_loop.simps) auto
qed

lemma side_loop_out:
  "map_option length (zm_out (snd (side_loop bid ord symb mx ts s m))) = map_option length (zm_out m)"
proof (induction bid ord symb mx ts s m rule: side_loop.induct)
  case (1 bid ord symb mx ts s m)
  obtain s' m' where st: "side_step bid ord symb mx ts s m = (s', m')" by fastforce
  then have "map_option length (zm_out m') = map_option length (zm_out m)"
    using level_loop_out [of bid ord symb mx ts "(pool s ! (level_ptrs s ! 0), m)"]
    by (auto simp: side_step_def Let_def split: prod.splits)
  with 1 st show ?case by (subst side_loop.simps) auto
qed

lemma z_submit_order_out:
  assumes "z_submit_order ord (Some arr) mx c ts b = (gen, out, c', b')"
  obtains arr' where "out = Some arr'" "length arr' = length arr"
proof -
  define m where "m = \<lparr>zm_remaining = of_int (quantity ord), zm_generated = 0, zm_out = Some arr, zm_counter = c,
    zm_total_trades = z_total_trades b, zm_total_volume = z_total_volume b\<rparr>"
  obtain asks m1 where l1: "side_loop False ord (z_symbol b) mx ts (z_asks b) m = (asks, m1)" by fastforce
  obtain bids m2 where l2: "side_loop True ord (z_symbol b) mx ts (z_bids b) m = (bids, m2)" by fastforce
  have "map_option length (zm_out m1) = Some (length arr)" "map_option length (zm_out m2) = Some (length arr)"
    using side_loop_out [of False ord "z_symbol b" mx ts "z_asks b" m] side_loop_out [of True ord "z_symbol b" mx ts "z_bids b" m]
    by (simp_all add: l1 l2) (simp_all add: m_def)
  moreover have "out = (if side ord = 1 then zm_out m1 else if side ord = 2 then zm_out m2 else Some arr)"
    using assms by (simp add: z_submit_order_def l1 l2 Let_def flip: m_def split: if_splits)
  ultimately have "map_option length out = Some (length arr)" by simp
  then show thesis using that by auto
qed

text \<open>The invariant of the engine's book: sound, and every resting order within the bounds of the gate.\<close>

definition core_inv :: "(int \<Rightarrow> bool) \<Rightarrow> u32 \<Rightarrow> ZeroAllocTrade list \<times> u64 \<times> ZeroAllocBook \<Rightarrow> bool" where
  "core_inv Q mx st \<longleftrightarrow> length (fst st) = 16 \<and> z_inv (snd (snd st)) \<and> lob_within Q mx (z_abs (snd (snd st)))"

lemma z_event_inv:
  assumes "core_inv Q mx st" "Q (price (fst ev))" "(of_int (quantity (fst ev)) :: u32) \<le> mx"
  shows "core_inv Q mx (z_event ev st)"
proof -
  obtain arr c b where st: "st = (arr, c, b)" using prod_cases3 by blast
  obtain gen out c' b' where sub: "z_submit_order (fst ev) (Some arr) (length arr) c (snd ev) b = (gen, out, c', b')"
    by (metis prod_cases4)
  obtain arr' where out: "out = Some arr'" "length arr' = length arr" using z_submit_order_out [OF sub] .
  have b: "z_inv b" "lob_within Q mx (z_abs b)" "length arr = 16" using assms(1) by (simp_all add: core_inv_def st)
  have fit: "case Some arr of None \<Rightarrow> True | Some a \<Rightarrow> length arr \<le> length a" by simp
  obtain fs lb where spec: "spec_submit z_ident (fst ev) (z_abs b) = (fs, lb)" by fastforce
  have "lob_within Q mx lb" using spec_submit_within [OF b(2) assms(2,3) spec] by simp
  then have "lob_within Q mx (z_abs b')"
    using z_submit_order_refines [OF b(1) fit sub spec] b(2) by (auto simp: lob_within_def)
  then show ?thesis using z_inv_submit [OF b(1) fit sub] out b(3)
    by (simp add: core_inv_def z_event_def st Let_def sub [unfolded b(3)])
qed

lemma engine_core_init: "core_inv Q mx (engine_core (order_book_engine_init frames))"
  by (simp add: core_inv_def engine_core_def order_book_engine_init_def zero_alloc_init_inv lob_within_def
      side_within_def lob_empty_def)

subsection \<open>Runs of the engine\<close>

interpretation gated_engine: gated_worker env "engine_handle env" oe_gate oe_handled engine_core z_event oe_stats oe_telemetry
  for env
  by unfold_locales (simp_all add: engine_handle_spec [OF refl] Let_def)

lemma engine_run_frames:
  "oe_frames (engine_run env pkts e) h =
     (if Some h \<in> ring_hdr ` set pkts then TP_STATUS_KERNEL else oe_frames e h)"
proof (induction pkts arbitrary: e)
  case (Cons pkt pkts)
  note H = engine_handle_spec(7) [OF refl, where env = env and e = e and pkt = pkt]
  have "oe_frames (engine_run env pkts (engine_handle env pkt e)) h =
     (if Some h \<in> ring_hdr ` set pkts then TP_STATUS_KERNEL else release_frame (ring_hdr pkt) (oe_frames e) h)"
    using Cons [of "engine_handle env pkt e"] by (simp add: H)
  then show ?case by (auto simp: engine_run_def release_frame_def split: option.split)
qed (simp add: engine_run_def)

subsection \<open>Properties of the engine\<close>

lemma fold_z_event_inv:
  assumes "core_inv Q mx st" "\<forall>ev \<in> set evs. Q (price (fst ev)) \<and> (of_int (quantity (fst ev)) :: u32) \<le> mx"
  shows "core_inv Q mx (fold z_event evs st)"
  using assms by (induction evs arbitrary: st) (simp_all add: z_event_inv)

lemma engine_init_gate [simp]:
  "g_feed_arbitrator (oe_gate (order_book_engine_init frames)) = arbitrator_init 2048"
  "m_limits (g_risk_mgr (oe_gate (order_book_engine_init frames))) = default_limits"
  "oe_handled (order_book_engine_init frames) = 0"
  "oe_stats (order_book_engine_init frames) = worker_stats_init"
  "oe_telemetry (order_book_engine_init frames) = publish_stats worker_stats_init"
  "oe_frames (order_book_engine_init frames) = frames"
  by (simp_all add: order_book_engine_init_def packet_gate_init_def risk_manager_init_def worker_metrics_init_def
      publish_stats_def worker_stats_init_def)

lemma engine_run_core:
  "engine_core (engine_run env pkts (order_book_engine_init frames)) =
     fold z_event (filter (bookable default_limits) (passed env (arbitrator_init 2048) 0 pkts))
       (engine_core (order_book_engine_init frames))"
  unfolding engine_run_def by (subst gated_engine.run_core [OF engine_init_gate(2)]) simp

text \<open>
  C7. End to end, from bytes to the book: whatever packets arrive, in any protocol, every order
  resting in the engine's book has a price inside the collar of 5 dollars around the reference and at
  most 50,000 of quantity, and the book is not crossed; provided no parsed price is so negative that
  its distance from the reference overflows 64 bits.
\<close>

theorem engine_book_within_limits:
  assumes "\<forall>pkt \<in> set pkts. reference_price - price (parse_in_place (we_protocol env) (pkt_bytes pkt)) < 2 ^ 63"
  shows "let b = z_abs (oe_order_book (engine_run env pkts (order_book_engine_init frames))) in
    uncrossed b \<and> (\<forall>r \<in> set (lob_bids b @ lob_asks b).
      30000000 \<le> r_price r \<and> r_price r \<le> 40000000 \<and> 0 < r_qty r \<and> r_qty r \<le> 50000)"
proof -
  define Q where "Q p \<longleftrightarrow> 30000000 \<le> p \<and> p \<le> (40000000 :: int)" for p
  let ?e = "order_book_engine_init frames"
  have "\<forall>ev \<in> set (filter (bookable default_limits) (passed env (arbitrator_init 2048) 0 pkts)).
      Q (price (fst ev)) \<and> (of_int (quantity (fst ev)) :: u32) \<le> 50000"
    using bookable_within [OF assms] unfolding Q_def by blast
  then have "core_inv Q 50000 (engine_core (engine_run env pkts ?e))"
    by (simp add: engine_run_core fold_z_event_inv engine_core_init)
  then have b: "z_inv (oe_order_book (engine_run env pkts ?e))"
    "lob_within Q 50000 (z_abs (oe_order_book (engine_run env pkts ?e)))"
    by (simp_all add: core_inv_def engine_core_def)
  from z_inv_lob [OF b(1)] b(2) show ?thesis
    by (auto simp: Let_def lob_inv_def lob_within_def side_within_def side_pos_def list_all_iff Q_def)
qed


definition sample_env :: worker_env where
  "sample_env = \<lparr>we_protocol = OUCH, we_to_ns = (\<lambda>c. c), we_fmt2 = (\<lambda>_. []), we_clock = (\<lambda>n. (of_nat n, of_nat n))\<rparr>"

definition sample_packet :: FixMessagePacket where
  "sample_packet = \<lparr>rx_timestamp_cycles = 0, pkt_payload_len = 46, pkt_payload = Some (ouch_encode sample_ouch),
     ring_hdr = Some 3\<rparr>"

lemma sample_packet_order:
  "parse_in_place OUCH (pkt_bytes sample_packet) = ouch_order sample_ouch"
proof -
  have wf: "ouch_wf sample_ouch" by (simp add: ouch_wf_def sample_ouch_def)
  then have "length (ouch_encode sample_ouch) = 46" by (simp add: length_ouch_encode sizeof_ouch_def)
  then have "pkt_bytes sample_packet = Some (ouch_encode sample_ouch @ [])"
    by (simp add: pkt_bytes_def sample_packet_def)
  then show ?thesis using parse_in_place_ouch_encode [OF wf, of "[]"] by simp
qed

lemmas sample_packet_simps = sample_packet_order ouch_order_def sample_ouch_def default_order_def sample_env_def
  packet_order_def

theorem engine_book_within_limits_witness:
  "uncrossed (z_abs (oe_order_book (engine_run sample_env [sample_packet] (order_book_engine_init (\<lambda>_. TP_STATUS_USER)))))"
  using engine_book_within_limits [of "[sample_packet]" sample_env "\<lambda>_. TP_STATUS_USER"] sample_packet_order
  by (simp add: sample_packet_simps reference_price_def Let_def)

text \<open>
  C10. Exactly-once admission: when the numbers of a stream lie within one window of 2048, there is a
  subsequence of its parsed orders in which every non-zero number of the stream occurs exactly once,
  and the engine's book, trade array and trade counter are what submitting the approved new orders
  of that subsequence, one after another, gives.
\<close>

theorem engine_admission:
  assumes "(\<lambda>ev. seq_num (fst ev)) ` set (packet_orders env 0 pkts) - {0} \<subseteq> seq_window 2048 lo"
  shows "\<exists>evs. subseq evs (packet_orders env 0 pkts) \<and>
    distinct (filter (\<lambda>s. s > 0) (map (\<lambda>ev. seq_num (fst ev)) evs)) \<and>
    (\<lambda>ev. seq_num (fst ev)) ` set evs - {0} = (\<lambda>ev. seq_num (fst ev)) ` set (packet_orders env 0 pkts) - {0} \<and>
    engine_core (engine_run env pkts (order_book_engine_init frames)) =
      fold z_event (filter (bookable default_limits) evs) (engine_core (order_book_engine_init frames))"
proof (intro exI conjI)
  show "engine_core (engine_run env pkts (order_book_engine_init frames)) =
      fold z_event (filter (bookable default_limits) (passed env (arbitrator_init 2048) 0 pkts))
        (engine_core (order_book_engine_init frames))" by (rule engine_run_core)
qed (use passed_exactly_once [OF assms] in simp_all)

theorem engine_admission_witness:
  "\<exists>evs. subseq evs (packet_orders sample_env 0 [sample_packet]) \<and>
     engine_core (engine_run sample_env [sample_packet] (order_book_engine_init (\<lambda>_. TP_STATUS_USER))) =
      fold z_event (filter (bookable default_limits) evs) (engine_core (order_book_engine_init (\<lambda>_. TP_STATUS_USER)))"
proof -
  have "(\<lambda>ev. seq_num (fst ev)) ` set (packet_orders sample_env 0 [sample_packet]) - {0} \<subseteq> seq_window 2048 1"
    by (simp add: sample_packet_simps Let_def seq_window_def)
  from engine_admission [OF this, of "\<lambda>_. TP_STATUS_USER"] show ?thesis by blast
qed

text \<open>
  C20. Accounting: over any stream, the counters split the packets that pass arbitration into
  approved and rejected ones with their latencies summed, bounded and published in the telemetry,
  the suppressed duplicates make up the rest of the packets, and every packet's ring frame is back
  with the kernel while no other frame is touched.
\<close>

theorem engine_accounting:
  "let e = engine_run env pkts (order_book_engine_init frames);
       evs = passed env (arbitrator_init 2048) 0 pkts;
       good = filter (\<lambda>ev. risk_passes default_limits (fst ev)) evs;
       bad = filter (\<lambda>ev. \<not> risk_passes default_limits (fst ev)) evs
   in stats_for (oe_stats e) (latencies good) (latencies bad) \<and>
      oe_telemetry e = publish_stats (oe_stats e) \<and>
      m_duplicates_suppressed (g_feed_arbitrator (oe_gate e)) + of_nat (length evs) = of_nat (length pkts) \<and>
      oe_frames e = (\<lambda>h. if Some h \<in> ring_hdr ` set pkts then TP_STATUS_KERNEL else frames h)"
proof -
  let ?e = "order_book_engine_init frames"
  have "stats_for (oe_stats ?e) [] []" by (simp add: stats_for_init)
  from gated_engine.run_stats [OF engine_init_gate(2) this, of env pkts]
    gated_engine.run_telemetry [of ?e env pkts] gated_engine.run_duplicates [of ?e env pkts]
    engine_run_frames [of env pkts ?e]
  show ?thesis by (simp add: Let_def engine_run_def fun_eq_iff)
qed


subsection \<open>The engine's main loop\<close>

definition engine_step :: "worker_env \<Rightarrow> FixMessagePacket \<Rightarrow> OrderBookEngine \<Rightarrow> bool \<times> OrderBookEngine" where
  "engine_step env pkt e = (True, engine_handle env pkt e)"

definition engine_loop ::
  "worker_env \<Rightarrow> FixMessagePacket loop_obs list \<Rightarrow> FixMessagePacket spsc \<Rightarrow> (nat \<Rightarrow> frame_status) \<Rightarrow>
     exit_reason option \<times> (FixMessagePacket, OrderBookEngine) loop_state" where
  "engine_loop env obs q frames =
     worker_loop 8192 (engine_step env) (\<lambda>_. False) obs (loop_init q (order_book_engine_init frames))"

interpretation engine: ring_worker "engine_step env" "\<lambda>_. False" oe_frames for env
  by unfold_locales (simp add: engine_step_def engine_handle_spec(7) [OF refl])

lemma handle_all_engine: "handle_all (engine_step env) pkts e = engine_run env pkts e"
  by (simp add: handle_all_def engine_run_def engine_step_def)

text \<open>
  C11. The engine loses no packet: when its loop returns, for whatever reason and however the other
  threads were scheduled, it has handled every packet the queue accepted, in order, each exactly
  once, and the ring frame of each is back with the kernel.
\<close>

theorem engine_loop_drains:
  assumes "spsc_inv 8192 q" "spsc_contents 8192 q = []" "engine_loop env obs q frames = (Some r, w)"
  shows "w_state w = engine_run env (w_accepted w) (order_book_engine_init frames) \<and>
    spsc_contents 8192 (w_queue w) = [] \<and>
    oe_frames (w_state w) = (\<lambda>h. if Some h \<in> ring_hdr ` set (w_accepted w) then TP_STATUS_KERNEL else frames h)"
proof -
  note L = engine.loop_handles [OF assms(1,2) assms(3) [unfolded engine_loop_def]]
  have "r \<noteq> EXPECTED" using L(4) by blast
  then have h: "w_handled w = w_accepted w" using L(3) by (cases r) simp_all
  note L(2)
  then have "spsc_contents 8192 (w_queue w) = []" by (simp add: h)
  moreover have "w_state w = engine_run env (w_accepted w) (order_book_engine_init frames)"
    using L(1) by (simp add: h handle_all_engine)
  ultimately show ?thesis by (simp add: engine_run_frames fun_eq_iff)
qed

text \<open>
  C33. The engine's loop terminates: once the receiver has finished and offers nothing more, it
  returns after at most one iteration for each packet queued and one more.
\<close>

theorem engine_loop_returns:
  assumes "spsc_inv 8192 (w_queue w)" "list_all quiet obs"
    and "length (spsc_contents 8192 (w_queue w)) < length obs"
  shows "\<exists>r w'. worker_loop 8192 (engine_step env) (\<lambda>_. False) obs w = (Some r, w')"
  using assms by (rule worker_loop_returns)

theorem engine_loop_returns_witness:
  "\<exists>r w'. worker_loop 8192 (engine_step sample_env) (\<lambda>_. False) [quiet_obs]
     (loop_init (spsc_init (replicate 8192 sample_packet)) (order_book_engine_init (\<lambda>_. TP_STATUS_USER))) = (Some r, w')"
proof -
  let ?q = "spsc_init (replicate 8192 sample_packet)"
  have q: "spsc_inv 8192 ?q" "spsc_contents 8192 ?q = []" by (simp_all add: queue_8192)
  show ?thesis
    by (rule engine_loop_returns) (simp_all add: loop_init_def q quiet_def quiet_obs_def)
qed

theorem engine_loop_drains_witness:
  "\<exists>r w. engine_loop sample_env [quiet_obs] (spsc_init (replicate 8192 sample_packet)) (\<lambda>_. TP_STATUS_USER) = (Some r, w) \<and>
     w_state w = engine_run sample_env (w_accepted w) (order_book_engine_init (\<lambda>_. TP_STATUS_USER))"
proof -
  let ?q = "spsc_init (replicate 8192 sample_packet)"
  have q: "spsc_inv 8192 ?q" "spsc_contents 8192 ?q = []" by (simp_all add: queue_8192)
  obtain r w where run: "engine_loop sample_env [quiet_obs] ?q (\<lambda>_. TP_STATUS_USER) = (Some r, w)"
    using worker_loop_returns [of 8192 "loop_init ?q (order_book_engine_init (\<lambda>_. TP_STATUS_USER))" "[quiet_obs]"] q
    by (fastforce simp: engine_loop_def loop_init_def quiet_def quiet_obs_def)
  from engine_loop_drains [OF q run] run show ?thesis by blast
qed

end
