(* ===== verification/Top_Of_Book.thy ===== *)
theory Top_Of_Book
  imports Order_Book_Engine
begin

text \<open>
  \<open>HftOrderBookEngine::get_top_of_book_snapshot\<close>: best bid and offer, spread and the five best levels
  of each side, read through the queries of the zero-allocation book.
\<close>

record DepthLevel =
  dl_price :: int
  dl_qty :: u32
  dl_order_count :: u32

record TopOfBookSnapshot =
  best_bid_price :: int
  best_bid_qty :: u32
  best_ask_price :: int
  best_ask_qty :: u32
  spread_price :: int
  bid_depth :: "DepthLevel list"
  ask_depth :: "DepthLevel list"
  bid_levels_count :: nat
  ask_levels_count :: nat

definition empty_depth :: DepthLevel where
  "empty_depth = \<lparr>dl_price = 0, dl_qty = 0, dl_order_count = 0\<rparr>"

definition depth_level :: "BookSide \<Rightarrow> nat \<Rightarrow> DepthLevel" where
  "depth_level s i = \<lparr>dl_price = get_level_price s i, dl_qty = get_level_qty s i,
     dl_order_count = get_level_order_count s i\<rparr>"

definition fill_depth :: "BookSide \<Rightarrow> nat \<Rightarrow> DepthLevel list \<Rightarrow> DepthLevel list" where
  "fill_depth s n depth = fold (\<lambda>i d. d[i := depth_level s i]) [0 ..< n] depth"

definition get_top_of_book_snapshot :: "ZeroAllocBook \<Rightarrow> TopOfBookSnapshot" where
  "get_top_of_book_snapshot b =
     (let bid = best_price (z_bids b); ask = best_price (z_asks b);
          nb = min (level_count (z_bids b)) 5; na = min (level_count (z_asks b)) 5
      in \<lparr>best_bid_price = bid, best_bid_qty = best_qty (z_bids b),
          best_ask_price = ask, best_ask_qty = best_qty (z_asks b),
          spread_price = (if bid > 0 \<and> ask > 0 then if ask \<ge> bid then wrap_i64 (ask - bid) else 0 else 0),
          bid_depth = fill_depth (z_bids b) nb (replicate 5 empty_depth),
          ask_depth = fill_depth (z_asks b) na (replicate 5 empty_depth),
          bid_levels_count = nb, ask_levels_count = na\<rparr>)"

subsection \<open>Depth levels aggregate the resting orders\<close>

lemma fill_depth_nth:
  assumes "n \<le> length depth"
  shows "length (fill_depth s n depth) = length depth \<and>
    (\<forall>i < length depth. fill_depth s n depth ! i = (if i < n then depth_level s i else depth ! i))"
  using assms
proof (induction n)
  case (Suc n)
  then have "fill_depth s (Suc n) depth = (fill_depth s n depth)[n := depth_level s n]"
    by (simp add: fill_depth_def)
  with Suc show ?case by (auto simp: nth_list_update less_Suc_eq)
qed (simp add: fill_depth_def)

text \<open>The orders at the price of a level are exactly the orders of that level.\<close>

lemma levels_filter:
  assumes "list_all level_ok ls" "levels_sorted bid ls" "i < length ls"
  shows "filter (\<lambda>r. r_price r = lvl_price (ls ! i)) (concat (map level_abs ls)) = level_abs (ls ! i)"
  using assms
proof (induction ls arbitrary: i)
  case (Cons l ls)
  have l: "\<forall>r \<in> set (level_abs l). r_price r = lvl_price l" "list_all level_ok ls" "levels_sorted bid ls"
    "\<forall>k \<in> set ls. place_before bid (lvl_price l) (lvl_price k)"
    using Cons.prems(1,2) by (simp_all add: level_ok_def [of l] levels_sorted_def)
  show ?case
  proof (cases i)
    case 0
    have "filter (\<lambda>r. r_price r = lvl_price l) (concat (map level_abs ls)) = []"
      using l(4) concat_prices [OF l(2)] by (metis (mono_tags, lifting) filter_False place_before_irrefl)
    with 0 l(1) show ?thesis by simp
  next
    case (Suc j)
    then have "lvl_price l \<noteq> lvl_price (ls ! j)"
      using Cons.prems(3) l(4) by (metis Suc_less_eq length_Cons nth_mem place_before_irrefl)
    with Suc l(1) Cons.IH [OF l(2,3), of j] Cons.prems(3) show ?thesis by simp
  qed
qed simp

lemma side_depth:
  assumes "side_wf bid s" "i < level_count s"
  defines "d \<equiv> depth_level s i"
    and "q \<equiv> filter (\<lambda>r. r_price r = dl_price (depth_level s i)) (side_abs s)"
  shows "q \<noteq> [] \<and> dl_qty d = of_nat (qty_sum q) \<and> dl_order_count d = of_nat (length q)"
    and "j < i \<Longrightarrow> place_before bid (dl_price (depth_level s j)) (dl_price d)"
proof -
  have pw: "ptrs_wf s" and ok: "list_all level_ok (side_levels s)" and srt: "levels_sorted bid (side_levels s)"
    using assms(1) by (simp_all add: side_wf_def)
  have len: "length (side_levels s) = level_count s"
    using pw by (simp add: ptrs_wf_def side_levels_def used_ptrs_def MAX_BOOK_LEVELS_def)
  have nth: "side_levels s ! k = pool s ! (level_ptrs s ! k)" if "k < level_count s" for k
    using that len by (simp add: side_levels_def used_ptrs_def)
  have price: "dl_price (depth_level s k) = lvl_price (side_levels s ! k)" if "k < level_count s" for k
    using that by (simp add: depth_level_def get_level_price_def nth)
  have q: "q = level_abs (side_levels s ! i)"
    using levels_filter [OF ok srt, of i] assms(2) len by (simp add: q_def price side_abs_def)
  have "level_ok (side_levels s ! i)" using ok assms(2) len by (simp add: list_all_length)
  then show "q \<noteq> [] \<and> dl_qty d = of_nat (qty_sum q) \<and> dl_order_count d = of_nat (length q)"
    using assms(2) level_abs_empty [of "side_levels s ! i"]
    by (auto simp: q d_def depth_level_def get_level_qty_def get_level_order_count_def total_qty_def level_ok_def nth
        level_abs_def level_orders_def)
  show "place_before bid (dl_price (depth_level s j)) (dl_price d)" if "j < i"
    using that assms(2) srt len price [of i] price [of j]
    by (simp add: levels_sorted_def sorted_wrt_iff_nth_less d_def)
qed


subsection \<open>Properties of the snapshot\<close>

lemma engine_run_inv:
  "z_inv (oe_order_book (engine_run env pkts (order_book_engine_init frames))) \<and>
   lob_within in_i64 (-1) (z_abs (oe_order_book (engine_run env pkts (order_book_engine_init frames))))"
proof -
  let ?e = "order_book_engine_init frames"
  have "\<forall>ev \<in> set (filter (bookable default_limits) (passed env (arbitrator_init 2048) 0 pkts)). in_i64 (price (fst ev))"
    using packet_order_typed passed_in by fastforce
  then have "core_inv in_i64 (-1) (engine_core (engine_run env pkts ?e))"
    by (simp add: engine_run_core fold_z_event_inv engine_core_init)
  then show ?thesis by (simp add: core_inv_def engine_core_def)
qed

text \<open>
  What a depth array promises of the first \<open>n\<close> levels of a side: each entry carries the total quantity
  and the number of the orders resting at its price, and the prices are strictly in priority order.
\<close>

definition depth_faithful :: "bool \<Rightarrow> resting list \<Rightarrow> DepthLevel list \<Rightarrow> nat \<Rightarrow> bool" where
  "depth_faithful bid rs depth n \<longleftrightarrow> n \<le> length depth \<and>
     sorted_wrt (\<lambda>a b. place_before bid (dl_price a) (dl_price b)) (take n depth) \<and>
     list_all (\<lambda>d. let q = filter (\<lambda>r. r_price r = dl_price d) rs in
       q \<noteq> [] \<and> dl_qty d = of_nat (qty_sum q) \<and> dl_order_count d = of_nat (length q)) (take n depth)"

lemma depth_of_side:
  assumes "side_wf bid s"
  shows "depth_faithful bid (side_abs s) (fill_depth s (min (level_count s) 5) (replicate 5 empty_depth)) (min (level_count s) 5)"
proof -
  define depth where "depth = fill_depth s (min (level_count s) 5) (replicate 5 empty_depth)"
  have nth: "length depth = 5" "\<And>i. i < min (level_count s) 5 \<Longrightarrow> depth ! i = depth_level s i"
    using fill_depth_nth [of "min (level_count s) 5" "replicate 5 empty_depth" s] by (simp_all add: depth_def)
  show ?thesis using side_depth [OF assms]
    by (auto simp: depth_faithful_def sorted_wrt_iff_nth_less list_all_length nth Let_def simp flip: depth_def)
qed

text \<open>A quoted side has a best price among its resting orders.\<close>

lemma best_price_resting:
  assumes "side_wf bid s" "best_price s > 0"
  obtains r where "r \<in> set (side_abs s)" "r_price r = best_price s"
proof (rule that)
  have "side_abs s \<noteq> []" using side_top [OF assms(1)] assms(2) by (auto split: if_splits)
  then show "hd (side_abs s) \<in> set (side_abs s)" "r_price (hd (side_abs s)) = best_price s"
    using side_top [OF assms(1)] by simp_all
qed

text \<open>
  C21. The published top of book is faithful after any packet stream: the spread is positive exactly
  when both sides quote a positive price and is then the distance between the best ask and the best
  bid, with no overflow; and each of the at most five depth entries of a side carries the 32-bit sum of the
  quantities and the number of the orders resting at its price, in strict priority order.
\<close>

theorem top_of_book_snapshot_faithful:
  "let b = oe_order_book (engine_run env pkts (order_book_engine_init frames));
       s = get_top_of_book_snapshot b
   in spread_price s = (if best_bid_price s > 0 \<and> best_ask_price s > 0 then best_ask_price s - best_bid_price s else 0) \<and>
      (spread_price s > 0 \<longleftrightarrow> best_bid_price s > 0 \<and> best_ask_price s > 0) \<and>
      depth_faithful True (lob_bids (z_abs b)) (bid_depth s) (bid_levels_count s) \<and>
      depth_faithful False (lob_asks (z_abs b)) (ask_depth s) (ask_levels_count s)"
proof -
  define b where "b = oe_order_book (engine_run env pkts (order_book_engine_init frames))"
  define bid ask where "bid = best_price (z_bids b)" and "ask = best_price (z_asks b)"
  have inv: "z_inv b" "lob_within in_i64 (-1) (z_abs b)" unfolding b_def using engine_run_inv by simp_all
  then have wf: "side_wf True (z_bids b)" "side_wf False (z_asks b)" by (simp_all add: z_inv_def)
  have lt: "bid < ask \<and> in_i64 (ask - bid)" if pos: "bid > 0" "ask > 0"
  proof -
    obtain x where x: "x \<in> set (side_abs (z_bids b))" "r_price x = bid"
      using best_price_resting [OF wf(1)] pos(1) unfolding bid_def by metis
    obtain y where y: "y \<in> set (side_abs (z_asks b))" "r_price y = ask"
      using best_price_resting [OF wf(2)] pos(2) unfolding ask_def by metis
    have "in_i64 ask" using inv(2) y by (auto simp: lob_within_def side_within_def z_abs_def list_all_iff)
    moreover have "bid < ask" using inv(1) x y by (force simp: z_inv_def uncrossed_def z_abs_def)
    ultimately show ?thesis using pos by (simp add: in_i64_def)
  qed
  have "(if bid > 0 \<and> ask > 0 then if ask \<ge> bid then wrap_i64 (ask - bid) else 0 else 0) =
      (if bid > 0 \<and> ask > 0 then ask - bid else 0)"
    using lt by auto
  with lt depth_of_side [OF wf(1)] depth_of_side [OF wf(2)] show ?thesis
    unfolding b_def [symmetric] Let_def get_top_of_book_snapshot_def
    by (auto simp: z_abs_def simp flip: bid_def ask_def)
qed

end
