(* ===== verification/Clock_Synchronizer.thy ===== *)
theory Clock_Synchronizer
  imports Hft_Prelude
begin

text \<open>
  \<open>ClockSynchronizer\<close> of \<open>include/hft/common/ClockSynchronizer.hpp\<close>: calibration, conversion of cycles,
  the guard against negative latencies and the FIX timestamp. Readings of the clocks are arguments;
  the calibrated factor is a double, so its arithmetic (the quotient of the two elapsed counts, the
  test against zero, the conversion of a cycle count) is given as functions on a type \<open>'d\<close>.
  \<open>gmtime_r\<close> is written out for the proleptic Gregorian calendar, as POSIX defines it.
\<close>

record ClockStatus =
  cs_rdtsc_cycles :: u64
  cs_timestamp_ns :: u64
  cs_clock_drift_ns :: int
  cs_clock_jump_detected :: bool
  cs_negative_latency_prevented :: bool

record 'd ClockSynchronizer =
  m_cycles_per_ns :: 'd
  m_last_valid_ts_ns :: u64
  m_clock_jumps_prevented :: u64

text \<open>\<open>elapsed_ns\<close> is the difference of the two readings of the steady clock.\<close>

definition calibrate ::
  "(u64 \<Rightarrow> int \<Rightarrow> 'd) \<Rightarrow> u64 \<Rightarrow> u64 \<Rightarrow> int \<Rightarrow> u64 \<Rightarrow> 'd ClockSynchronizer \<Rightarrow> 'd ClockSynchronizer" where
  "calibrate ratio start_cycles end_cycles elapsed_ns realtime_ns c =
     (let elapsed_cycles = end_cycles - start_cycles;
          c1 = (if elapsed_ns > 0 \<and> elapsed_cycles > 0
                then c\<lparr>m_cycles_per_ns := ratio elapsed_cycles elapsed_ns\<rparr> else c)
      in c1\<lparr>m_last_valid_ts_ns := realtime_ns\<rparr>)"

definition clock_init ::
  "'d \<Rightarrow> (u64 \<Rightarrow> int \<Rightarrow> 'd) \<Rightarrow> u64 \<Rightarrow> u64 \<Rightarrow> int \<Rightarrow> u64 \<Rightarrow> 'd ClockSynchronizer" where
  "clock_init three ratio start_cycles end_cycles elapsed_ns realtime_ns =
     calibrate ratio start_cycles end_cycles elapsed_ns realtime_ns
       \<lparr>m_cycles_per_ns = three, m_last_valid_ts_ns = 0, m_clock_jumps_prevented = 0\<rparr>"

definition cycles_to_ns :: "('d \<Rightarrow> bool) \<Rightarrow> (u64 \<Rightarrow> 'd \<Rightarrow> u64) \<Rightarrow> u64 \<Rightarrow> 'd ClockSynchronizer \<Rightarrow> u64" where
  "cycles_to_ns positive quot cycles c =
     (let factor = m_cycles_per_ns c in if positive factor then quot cycles factor else cycles)"

definition evaluate_latency ::
  "u64 \<Rightarrow> u64 \<Rightarrow> u64 \<Rightarrow> 'd ClockSynchronizer \<Rightarrow> ClockStatus \<times> 'd ClockSynchronizer" where
  "evaluate_latency cycles rx_ts_ns proc_ts_ns c =
     (if proc_ts_ns < rx_ts_ns
      then (\<lparr>cs_rdtsc_cycles = cycles, cs_timestamp_ns = 0,
             cs_clock_drift_ns = wrap_i64 (wrap_i64 (uint proc_ts_ns) - wrap_i64 (uint rx_ts_ns)),
             cs_clock_jump_detected = True, cs_negative_latency_prevented = True\<rparr>,
            c\<lparr>m_clock_jumps_prevented := m_clock_jumps_prevented c + 1\<rparr>)
      else (\<lparr>cs_rdtsc_cycles = cycles, cs_timestamp_ns = proc_ts_ns - rx_ts_ns, cs_clock_drift_ns = 0,
             cs_clock_jump_detected = False, cs_negative_latency_prevented = False\<rparr>, c))"

text \<open>\<open>tv_sec * 1'000'000'000 + tv_nsec\<close>, as in \<open>get_realtime_ns\<close> and \<open>get_timestamp_ns\<close>.\<close>

definition timespec_ns :: "u64 \<Rightarrow> u64 \<Rightarrow> u64" where
  "timespec_ns tv_sec tv_nsec = tv_sec * 1000000000 + tv_nsec"

subsection \<open>\<open>gmtime_r\<close>\<close>

definition leap_year :: "nat \<Rightarrow> bool" where
  "leap_year y \<longleftrightarrow> (4 dvd y \<and> \<not> 100 dvd y) \<or> 400 dvd y"

definition year_days :: "nat \<Rightarrow> nat" where
  "year_days y = (if leap_year y then 366 else 365)"

definition month_days :: "nat \<Rightarrow> nat list" where
  "month_days y = [31, if leap_year y then 29 else 28, 31, 30, 31, 30, 31, 31, 30, 31, 30, 31]"

function find_year :: "nat \<Rightarrow> nat \<Rightarrow> nat \<times> nat" where
  "find_year y d = (if d < year_days y then (y, d) else find_year (y + 1) (d - year_days y))"
  by pat_completeness auto
termination
  by (relation "measure snd") (auto simp: year_days_def split: if_splits)

declare find_year.simps [simp del]

fun find_month :: "nat list \<Rightarrow> nat \<Rightarrow> nat \<times> nat" where
  "find_month [] d = (0, d)"
| "find_month (m # ms) d = (if d < m then (0, d) else let (k, d') = find_month ms (d - m) in (Suc k, d'))"

record tm =
  tm_year :: nat
  tm_mon :: nat
  tm_mday :: nat
  tm_hour :: nat
  tm_min :: nat
  tm_sec :: nat

definition gmtime :: "nat \<Rightarrow> tm" where
  "gmtime sec =
     (let (y, yd) = find_year 1970 (sec div 86400); (m, md) = find_month (month_days y) yd; s = sec mod 86400
      in \<lparr>tm_year = y - 1900, tm_mon = m, tm_mday = md + 1,
          tm_hour = s div 3600, tm_min = s mod 3600 div 60, tm_sec = s mod 60\<rparr>)"

text \<open>\<open>%0wd\<close>: the decimal digits, padded with zeros to the width.\<close>

definition pad_dec :: "nat \<Rightarrow> nat \<Rightarrow> string" where
  "pad_dec w n = replicate (w - length (dec_string n)) (CHR ''0'') @ dec_string n"

definition utc_text :: "nat \<Rightarrow> string" where
  "utc_text ns =
     (let t = gmtime (ns div 1000000000); sub_ms = ns mod 1000000000 div 1000000
      in pad_dec 4 (tm_year t + 1900) @ pad_dec 2 (tm_mon t + 1) @ pad_dec 2 (tm_mday t) @ ''-'' @
         pad_dec 2 (tm_hour t) @ '':'' @ pad_dec 2 (tm_min t) @ '':'' @ pad_dec 2 (tm_sec t) @ ''.'' @
         pad_dec 3 sub_ms)"

definition format_utc_timestamp :: "u64 \<Rightarrow> string option \<Rightarrow> string option" where
  "format_utc_timestamp ns out_buf =
     (case out_buf of None \<Rightarrow> None
      | Some buf \<Rightarrow> if length buf < 32 then Some buf else Some (fst (snprintf buf (utc_text (unat ns)))))"

subsection \<open>The calendar is exact\<close>

lemma find_year_spec:
  assumes "find_year y d = (y', d')"
  shows "y \<le> y' \<and> d' < year_days y' \<and> d = (\<Sum>k \<in> {y ..< y'}. year_days k) + d'"
  using assms
proof (induction y d rule: find_year.induct)
  case (1 y d)
  show ?case
  proof (cases "d < year_days y")
    case True
    then show ?thesis using 1(2) by (simp add: find_year.simps [of y])
  next
    case False
    then have "find_year (y + 1) (d - year_days y) = (y', d')" using 1(2) by (simp add: find_year.simps [of y])
    from 1(1) [OF False this] False show ?thesis by (auto simp: sum.atLeast_Suc_lessThan)
  qed
qed

lemma find_month_spec:
  assumes "find_month ms d = (k, d')" "d < sum_list ms"
  shows "k < length ms \<and> d' < ms ! k \<and> d = sum_list (take k ms) + d'"
  using assms
proof (induction ms arbitrary: d k)
  case (Cons m ms)
  show ?case
  proof (cases "d < m")
    case False
    then obtain j where j: "find_month ms (d - m) = (j, d')" "k = Suc j"
      using Cons.prems(1) by (auto split: prod.splits)
    have "d - m < sum_list ms" using Cons.prems(2) False by simp
    from Cons.IH [OF j(1) this] j(2) False show ?thesis by auto
  qed (use Cons.prems(1) in simp)
qed simp

lemma sum_month_days: "sum_list (month_days y) = year_days y"
  by (simp add: month_days_def year_days_def)

text \<open>The seconds since the epoch of a calendar date and time.\<close>

definition timegm :: "tm \<Rightarrow> nat" where
  "timegm t = ((\<Sum>k \<in> {1970 ..< tm_year t + 1900}. year_days k) +
     sum_list (take (tm_mon t) (month_days (tm_year t + 1900))) + (tm_mday t - 1)) * 86400 +
     tm_hour t * 3600 + tm_min t * 60 + tm_sec t"

lemma gmtime_spec:
  fixes sec :: nat
  defines "t \<equiv> gmtime sec"
  shows "timegm t = sec" "tm_mon t < 12" "1 \<le> tm_mday t" "tm_mday t \<le> 31" "tm_hour t < 24" "tm_min t < 60" "tm_sec t < 60"
proof -
  obtain y yd where y: "find_year 1970 (sec div 86400) = (y, yd)" by fastforce
  obtain m md where m: "find_month (month_days y) yd = (m, md)" by fastforce
  note Y = find_year_spec [OF y]
  have M: "m < 12" "md < month_days y ! m" "yd = sum_list (take m (month_days y)) + md"
    using find_month_spec [OF m] Y by (simp_all add: sum_month_days) (simp add: month_days_def)
  define s where "s = sec mod 86400"
  have t: "t = \<lparr>tm_year = y - 1900, tm_mon = m, tm_mday = md + 1, tm_hour = s div 3600, tm_min = s mod 3600 div 60, tm_sec = s mod 60\<rparr>"
    by (simp add: t_def gmtime_def y m s_def Let_def)
  have "\<forall>k < 12. month_days y ! k \<le> 31"
    by (simp add: month_days_def less_Suc_eq numeral_eq_Suc)
  then show "tm_mon t < 12" "1 \<le> tm_mday t" "tm_mday t \<le> 31" using M(1,2) by (auto simp: t Suc_le_eq intro: order.strict_trans2)
  have "s < 86400" by (simp add: s_def)
  then show "tm_hour t < 24" "tm_min t < 60" "tm_sec t < 60" by (auto simp: t)
  have year: "tm_year t + 1900 = y" using Y by (simp add: t)
  have "(\<Sum>k \<in> {1970 ..< y}. year_days k) + sum_list (take m (month_days y)) + md = sec div 86400"
    using Y M(3) by simp
  moreover have "s div 3600 * 3600 + s mod 3600 div 60 * 60 + s mod 60 = s"
  proof -
    have "s mod 60 = s mod 3600 mod 60" by (simp add: mod_mod_cancel)
    then show ?thesis using div_mult_mod_eq [of s 3600] div_mult_mod_eq [of "s mod 3600" 60] by simp
  qed
  moreover have "timegm t = ((\<Sum>k \<in> {1970 ..< y}. year_days k) + sum_list (take m (month_days y)) + md) * 86400 +
      (s div 3600 * 3600 + s mod 3600 div 60 * 60 + s mod 60)"
    unfolding timegm_def year by (simp add: t)
  ultimately show "timegm t = sec"
    using div_mult_mod_eq [of sec 86400] by (simp only: s_def)
qed


subsection \<open>The timestamp text\<close>

lemma pad_dec_spec:
  assumes "0 < w" "n < 10 ^ w"
  shows "length (pad_dec w n) = w" "dec_value (pad_dec w n) = n"
proof -
  have "dec_value (replicate k (CHR ''0'')) = 0" for k
    by (induction k) (simp_all add: dec_value_Cons digit_val_def)
  then show "dec_value (pad_dec w n) = n" by (simp add: pad_dec_def dec_value_append)
  show "length (pad_dec w n) = w" using dec_string_length_bound [OF assms] by (simp add: pad_dec_def)
qed

text \<open>Reading the digits of a timestamp back.\<close>

definition utc_read :: "string \<Rightarrow> tm \<times> nat" where
  "utc_read s = (\<lparr>tm_year = dec_value (take 4 s) - 1900, tm_mon = dec_value (take 2 (drop 4 s)) - 1,
     tm_mday = dec_value (take 2 (drop 6 s)), tm_hour = dec_value (take 2 (drop 9 s)),
     tm_min = dec_value (take 2 (drop 12 s)), tm_sec = dec_value (take 2 (drop 15 s))\<rparr>, dec_value (take 3 (drop 18 s)))"

lemma year_bound:
  assumes "find_year 1970 d = (y, yd)" "d < 2930000"
  shows "y < 10000"
proof -
  note Y = find_year_spec [OF assms(1)]
  have "(\<Sum>k \<in> {1970 ..< y}. 365) \<le> (\<Sum>k \<in> {1970 ..< y}. year_days k)"
    by (rule sum_mono) (simp add: year_days_def)
  then have "(y - 1970) * 365 < 2930000" using Y assms(2) by simp
  then show ?thesis by simp
qed

lemma gmtime_year:
  assumes "sec \<le> 2 ^ 64 div 1000000000"
  shows "tm_year (gmtime sec) + 1900 < 10000 \<and> 1970 \<le> tm_year (gmtime sec) + 1900"
proof -
  obtain y yd where y: "find_year 1970 (sec div 86400) = (y, yd)" by fastforce
  have "sec div 86400 < 2930000" using assms by simp
  then have "y < 10000" "1970 \<le> y" using year_bound [OF y] find_year_spec [OF y] by simp_all
  moreover have "tm_year (gmtime sec) = y - 1900" by (simp add: gmtime_def y Let_def split: prod.split)
  ultimately show ?thesis by simp
qed

lemma utc_text_fields:
  assumes "length a = 4" "length b = 2" "length c = 2" "length d = 2" "length e = 2" "length f = 2" "length g = 3"
  defines "s \<equiv> a @ b @ c @ ''-'' @ d @ '':'' @ e @ '':'' @ f @ ''.'' @ g"
  shows "length s = 21" "utc_read s = (\<lparr>tm_year = dec_value a - 1900, tm_mon = dec_value b - 1, tm_mday = dec_value c,
    tm_hour = dec_value d, tm_min = dec_value e, tm_sec = dec_value f\<rparr>, dec_value g)"
  using assms by (simp_all add: utc_read_def)

lemma utc_text_spec:
  assumes "ns < 2 ^ 64"
  shows "length (utc_text ns) = 21 \<and> utc_read (utc_text ns) = (gmtime (ns div 1000000000), ns mod 1000000000 div 1000000)"
proof -
  define t where "t = gmtime (ns div 1000000000)"
  have sec: "ns div 1000000000 \<le> 2 ^ 64 div 1000000000" using assms by (intro div_le_mono) simp
  note T = gmtime_spec [of "ns div 1000000000", folded t_def]
  have y: "tm_year t + 1900 < 10 ^ 4" "tm_year t + 1900 - 1900 = tm_year t"
    using gmtime_year [OF sec] by (simp_all add: t_def)
  have b: "tm_mon t + 1 < 10 ^ 2" "tm_mday t < 10 ^ 2" "tm_hour t < 10 ^ 2" "tm_min t < 10 ^ 2" "tm_sec t < 10 ^ 2"
    "ns mod 1000000000 div 1000000 < 10 ^ 3" using T by simp_all
  have p: "0 < (4::nat)" "0 < (2::nat)" "0 < (3::nat)" by simp_all
  note L = pad_dec_spec [OF p(1) y(1)] pad_dec_spec [OF p(2) b(1)] pad_dec_spec [OF p(2) b(2)] pad_dec_spec [OF p(2) b(3)]
    pad_dec_spec [OF p(2) b(4)] pad_dec_spec [OF p(2) b(5)] pad_dec_spec [OF p(3) b(6)]
  have "utc_text ns = pad_dec 4 (tm_year t + 1900) @ pad_dec 2 (tm_mon t + 1) @ pad_dec 2 (tm_mday t) @ ''-'' @
      pad_dec 2 (tm_hour t) @ '':'' @ pad_dec 2 (tm_min t) @ '':'' @ pad_dec 2 (tm_sec t) @ ''.'' @
      pad_dec 3 (ns mod 1000000000 div 1000000)"
    by (simp add: utc_text_def Let_def t_def)
  with utc_text_fields [OF L(1,3,5,7,9,11,13)] show ?thesis
    by (simp only: L(2,4,6,8,10,12,14) y(2)) (simp add: t_def)
qed

text \<open>
  Timestamps round-trip to the millisecond: for every 64-bit time the text written to a buffer
  of at least 32 bytes is 21 characters and a NUL, and reading its fields back gives a valid calendar
  date and time whose seconds since the epoch and milliseconds are those of the time. The digits
  after the dot are milliseconds, not the microseconds of the function's comment.
\<close>

theorem utc_timestamp_roundtrip:
  assumes "32 \<le> length buf" "format_utc_timestamp ns (Some buf) = Some out"
  shows "length out = length buf \<and> out ! 21 = CHR 0x00 \<and>
    (let (t, ms) = utc_read (take 21 out) in
       timegm t = unat ns div 1000000000 \<and> ms = unat ns mod 1000000000 div 1000000 \<and>
       tm_mon t < 12 \<and> 1 \<le> tm_mday t \<and> tm_mday t \<le> 31 \<and> tm_hour t < 24 \<and> tm_min t < 60 \<and> tm_sec t < 60)"
proof -
  define stamp where "stamp = utc_text (unat ns)"
  have "unat ns < 2 ^ 64" using unsigned_less [of ns] by simp
  note U = utc_text_spec [OF this, folded stamp_def]
  have "out = stamp @ CHR 0x00 # drop 22 buf"
    using assms U by (simp add: format_utc_timestamp_def snprintf_def Let_def stamp_def)
  then have "length out = length buf" "out ! 21 = CHR 0x00" "take 21 out = stamp"
    using U assms(1) by (simp_all add: nth_append)
  with U gmtime_spec [of "unat ns div 1000000000"] show ?thesis by simp
qed

theorem utc_timestamp_roundtrip_witness:
  "snd (utc_read (take 21 (the (format_utc_timestamp 1700000000123456789 (Some (replicate 32 (CHR ''x''))))))) = 123"
proof -
  obtain out where out: "format_utc_timestamp 1700000000123456789 (Some (replicate 32 (CHR ''x''))) = Some out"
    by (simp add: format_utc_timestamp_def)
  have "32 \<le> length (replicate 32 (CHR ''x''))" by simp
  from utc_timestamp_roundtrip [OF this out] show ?thesis
    by (auto simp: out Let_def split: prod.splits)
qed

text \<open>
  Latencies are never negative: the reported latency is the difference of the two timestamps
  cut off at zero, a jump is flagged and counted exactly when the processing time is before the
  reception time, and the reported drift is the (negative) difference modulo 64 bits.
\<close>

theorem latency_never_negative:
  "let (st, c') = evaluate_latency cyc rx prc c in
     uint (cs_timestamp_ns st) = max 0 (uint prc - uint rx) \<and>
     (cs_clock_jump_detected st \<longleftrightarrow> prc < rx) \<and> cs_negative_latency_prevented st = cs_clock_jump_detected st \<and>
     cs_clock_drift_ns st = (if prc < rx then wrap_i64 (uint prc - uint rx) else 0) \<and>
     m_clock_jumps_prevented c' = m_clock_jumps_prevented c + (if prc < rx then 1 else 0)"
proof -
  have "wrap_i64 (wrap_i64 x - wrap_i64 y) = wrap_i64 (x - y)" for x y
    by (simp add: wrap_i64_def signed_take_bit_diff)
  moreover have "uint (prc - rx) = uint prc - uint rx" if "\<not> prc < rx"
    using that uint_minus_simple_alt [of rx prc] by (simp add: not_less)
  ultimately show ?thesis by (auto simp: evaluate_latency_def word_less_def)
qed

end
