(* ===== verification/Matching_Worker.thy ===== *)
theory Matching_Worker
  imports Packet_Gate Worker_Loop Clock_Synchronizer Matching_Engine Order_Book_Engine
begin

text \<open>
  \<open>MatchingWorker\<close> of \<open>src/matching/MatchingWorker.cpp\<close>: the packet handler of \<open>run\<close> on the multi-symbol
  matching engine, its main loop with the expected number of messages, and the final report's counters.
  The reorder buffer and the recovery manager the class owns are not touched by \<open>run\<close>.
\<close>

record 'd MatchingWorker =
  mw_expected_messages :: nat
  mw_gate :: PacketGate
  mw_clock_sync :: "'d ClockSynchronizer"
  mw_matching_engine :: MatchingEngine
  mw_stats :: WorkerStats
  mw_telemetry :: WorkerMetrics
  mw_frames :: "nat \<Rightarrow> frame_status"
  mw_handled :: nat

definition matching_worker_limits :: RiskLimits where
  "matching_worker_limits = \<lparr>max_order_qty = 50000, max_price_deviation_scaled = 5000000,
     max_notional_value_usd = 2000000, kill_switch_active = False\<rparr>"

definition matching_worker_init ::
  "nat \<Rightarrow> 'd ClockSynchronizer \<Rightarrow> (nat \<Rightarrow> frame_status) \<Rightarrow> 'd MatchingWorker" where
  "matching_worker_init expected clock frames = \<lparr>mw_expected_messages = expected,
     mw_gate = (packet_gate_init default_limits)\<lparr>g_risk_mgr := set_limits matching_worker_limits (risk_manager_init default_limits)\<rparr>,
     mw_clock_sync = clock, mw_matching_engine = matching_engine_init, mw_stats = worker_stats_init,
     mw_telemetry = worker_metrics_init, mw_frames = frames, mw_handled = 0\<rparr>"

definition mw_gap_label :: string where
  "mw_gap_label = ''Generated FIX ResendRequest (35=2): ''"

definition trade_text :: "(int \<Rightarrow> string) \<Rightarrow> TradeExecution \<Rightarrow> string" where
  "trade_text fmt2 tr = ''[MATCHED TRADE EXECUTED] TradeID=#'' @ dec_string (unat (trade_id tr)) @
     '' | Sym='' @ t_symbol tr @ '' | BuyID='' @ buy_cl_ord_id tr @ '' | SellID='' @ sell_cl_ord_id tr @
     '' | Qty='' @ dec_string (unat (match_qty tr)) @ '' @ Price='' @ fmt2 (match_price tr)"

definition mw_submit :: "(int \<Rightarrow> string) \<Rightarrow> u64 \<Rightarrow> ParsedOrder \<Rightarrow> 'd MatchingWorker \<Rightarrow> 'd MatchingWorker" where
  "mw_submit fmt2 current_ts ord w =
     (let (matched, eng, trades) = process_order ord current_ts (mw_matching_engine w) [];
          lines = (if matched \<and> trades \<noteq> []
                   then map (\<lambda>tr. log_line current_ts INFO_LEVEL (trade_text fmt2 tr)) trades else [])
      in w\<lparr>mw_matching_engine := eng, mw_gate := fold queue_log lines (mw_gate w)\<rparr>)"

text \<open>The body of the packet loop; the cycle reading inside \<open>evaluate_latency\<close> is discarded with its result.\<close>

definition mw_handle :: "worker_env \<Rightarrow> FixMessagePacket \<Rightarrow> 'd MatchingWorker \<Rightarrow> bool \<times> 'd MatchingWorker" where
  "mw_handle env pkt w0 =
     (let (ord, current_ts) = packet_order env (mw_handled w0) pkt;
          rx_ts = we_to_ns env (rx_timestamp_cycles pkt);
          (_, clock) = evaluate_latency 0 rx_ts current_ts (mw_clock_sync w0);
          (v, g) = admit_packet mw_gap_label (we_fmt2 env) current_ts ord (mw_gate w0);
          w1 = w0\<lparr>mw_clock_sync := clock, mw_gate := g, mw_handled := Suc (mw_handled w0)\<rparr>
      in if v = V_DUPLICATE
         then (False, w1\<lparr>mw_frames := release_frame (ring_hdr pkt) (mw_frames w1)\<rparr>)
         else let risk_approved = (v = V_APPROVED);
                  w2 = (if risk_approved \<and> msg_type_char ord = CHR ''D''
                        then mw_submit (we_fmt2 env) current_ts ord w1 else w1);
                  st = count_latency (latency_ns ord) (count_verdict risk_approved (latency_ns ord) (mw_stats w2))
              in (True, w2\<lparr>mw_stats := st, mw_telemetry := publish_stats st,
                          mw_frames := release_frame (ring_hdr pkt) (mw_frames w2)\<rparr>))"

definition mw_finished :: "'d MatchingWorker \<Rightarrow> bool" where
  "mw_finished w \<longleftrightarrow> unat (processed (mw_stats w)) \<ge> mw_expected_messages w"

definition mw_loop ::
  "worker_env \<Rightarrow> FixMessagePacket loop_obs list \<Rightarrow> FixMessagePacket spsc \<Rightarrow> 'd MatchingWorker \<Rightarrow>
     exit_reason option \<times> (FixMessagePacket, 'd MatchingWorker) loop_state" where
  "mw_loop env obs q w = worker_loop 8192 (mw_handle env) mw_finished obs (loop_init q w)"

text \<open>The counters of the final report: ingested, approved, rejected, trades, volume.\<close>

definition mw_report :: "'d MatchingWorker \<Rightarrow> u32 \<times> u64 \<times> u64 \<times> u64 \<times> u64" where
  "mw_report w = (processed (mw_stats w),
     ucast (processed (mw_stats w)) - m_rejected_count (g_risk_mgr (mw_gate w)),
     m_rejected_count (g_risk_mgr (mw_gate w)),
     total_trades (mw_matching_engine w), total_volume (mw_matching_engine w))"

subsection \<open>The worker behind the gate\<close>

definition me_event :: "ParsedOrder \<times> u64 \<Rightarrow> MatchingEngine \<Rightarrow> MatchingEngine" where
  "me_event ev eng = fst (snd (process_order (fst ev) (snd ev) eng []))"

lemma mw_submit_frame:
  "mw_matching_engine (mw_submit fmt2 ts ord w) = me_event (ord, ts) (mw_matching_engine w)"
  "g_feed_arbitrator (mw_gate (mw_submit fmt2 ts ord w)) = g_feed_arbitrator (mw_gate w)"
  "g_risk_mgr (mw_gate (mw_submit fmt2 ts ord w)) = g_risk_mgr (mw_gate w)"
  "mw_stats (mw_submit fmt2 ts ord w) = mw_stats w"
  "mw_frames (mw_submit fmt2 ts ord w) = mw_frames w"
  "mw_handled (mw_submit fmt2 ts ord w) = mw_handled w"
  "mw_expected_messages (mw_submit fmt2 ts ord w) = mw_expected_messages w"
  by (simp_all add: mw_submit_def me_event_def queue_log_frame Let_def split: prod.split)

lemma mw_handle_spec:
  assumes "packet_order env (mw_handled w) pkt = ev"
  defines "pass \<equiv> feed_event (g_feed_arbitrator (mw_gate w)) ev"
    and "limits \<equiv> m_limits (g_risk_mgr (mw_gate w))"
    and "w' \<equiv> snd (mw_handle env pkt w)"
  shows "g_feed_arbitrator (mw_gate w') = snd pass" "m_limits (g_risk_mgr (mw_gate w')) = limits"
    and "mw_handled w' = Suc (mw_handled w)"
    and "mw_matching_engine w' =
      (if fst pass \<and> bookable limits ev then me_event ev (mw_matching_engine w) else mw_matching_engine w)"
    and "mw_stats w' = (if fst pass then count_latency (latency_ns (fst ev))
           (count_verdict (risk_passes limits (fst ev)) (latency_ns (fst ev)) (mw_stats w)) else mw_stats w)"
    and "mw_telemetry w' = (if fst pass then publish_stats (mw_stats w') else mw_telemetry w)"
    and "mw_frames w' = release_frame (ring_hdr pkt) (mw_frames w)"
    and "fst (mw_handle env pkt w) = fst pass" "mw_expected_messages w' = mw_expected_messages w"
proof -
  obtain ord ts where ev: "ev = (ord, ts)" by fastforce
  obtain v g where a: "admit_packet mw_gap_label (we_fmt2 env) ts ord (mw_gate w) = (v, g)" by fastforce
  obtain cs clk where c: "evaluate_latency 0 (we_to_ns env (rx_timestamp_cycles pkt)) ts (mw_clock_sync w) = (cs, clk)" by fastforce
  note A = admit_packet_spec [OF a]
  have v: "v = V_DUPLICATE \<longleftrightarrow> \<not> fst pass" "v = V_APPROVED \<longleftrightarrow> fst pass \<and> risk_passes limits ord"
    using A(1) by (auto simp: pass_def feed_event_def ev limits_def)
  note defs = w'_def mw_handle_def assms(1) ev a c Let_def
  show "g_feed_arbitrator (mw_gate w') = snd pass" "m_limits (g_risk_mgr (mw_gate w')) = limits"
    using A(2,3) by (simp_all add: defs mw_submit_frame pass_def feed_event_def limits_def)
  show "mw_handled w' = Suc (mw_handled w)" "mw_frames w' = release_frame (ring_hdr pkt) (mw_frames w)"
    "mw_expected_messages w' = mw_expected_messages w"
    by (simp_all add: defs mw_submit_frame)
  show "mw_matching_engine w' =
      (if fst pass \<and> bookable limits ev then me_event ev (mw_matching_engine w) else mw_matching_engine w)"
    using v by (auto simp: defs mw_submit_frame bookable_def)
  show "mw_stats w' = (if fst pass then count_latency (latency_ns (fst ev))
      (count_verdict (risk_passes limits (fst ev)) (latency_ns (fst ev)) (mw_stats w)) else mw_stats w)"
    using v by (auto simp: defs mw_submit_frame)
  show "mw_telemetry w' = (if fst pass then publish_stats (mw_stats w') else mw_telemetry w)"
    using v by (auto simp: defs mw_submit_frame)
  show "fst (mw_handle env pkt w) = fst pass" using v(1) by (simp add: defs)
qed

interpretation gated_matching: gated_worker env "\<lambda>pkt w. snd (mw_handle env pkt w)" mw_gate mw_handled
  mw_matching_engine me_event mw_stats mw_telemetry for env
  by unfold_locales (simp_all add: mw_handle_spec [OF refl] Let_def)

interpretation matching: ring_worker "mw_handle env" mw_finished mw_frames for env
  by unfold_locales (simp add: mw_handle_spec(7) [OF refl])

lemma matching_worker_init_simps [simp]:
  "g_feed_arbitrator (mw_gate (matching_worker_init n clock frames)) = arbitrator_init 2048"
  "m_limits (g_risk_mgr (mw_gate (matching_worker_init n clock frames))) = default_limits"
  "mw_handled (matching_worker_init n clock frames) = 0"
  "mw_stats (matching_worker_init n clock frames) = worker_stats_init"
  "mw_matching_engine (matching_worker_init n clock frames) = matching_engine_init"
  "mw_frames (matching_worker_init n clock frames) = frames"
  by (simp_all add: matching_worker_init_def packet_gate_init_def set_limits_def matching_worker_limits_def
      default_limits_def)

lemma mw_run_core:
  "mw_matching_engine (handle_all (mw_handle env) pkts (matching_worker_init n clock frames)) =
     fold me_event (filter (bookable default_limits) (passed env (arbitrator_init 2048) 0 pkts)) matching_engine_init"
  unfolding handle_all_def by (subst gated_matching.run_core [OF matching_worker_init_simps(2)]) simp


subsection \<open>The two matching workers agree\<close>

lemma z_event_refines:
  assumes "core_inv Q mx (arr, c, b)" "z_ok 16 (fst ev) b" "spec_submit z_ident (fst ev) (z_abs b) = (fs, lb)"
    and "z_event ev (arr, c, b) = (arr', c', b')"
  shows "z_abs b' = lb" "c' = c + of_nat (length fs)" "z_total_trades b' = z_total_trades b + of_nat (length fs)"
    and "z_total_volume b' = z_total_volume b + of_nat (fill_sum fs)"
proof -
  have b: "z_inv b" "length arr = 16" using assms(1) by (simp_all add: core_inv_def)
  obtain gen out c1 b1 where sub: "z_submit_order (fst ev) (Some arr) 16 c (snd ev) b = (gen, out, c1, b1)"
    by (metis prod_cases4)
  then have e: "c' = c1" "b' = b1" using assms(4) b(2) by (simp_all add: z_event_def)
  have fit: "case Some arr of None \<Rightarrow> True | Some a \<Rightarrow> 16 \<le> length a" using b(2) by simp
  have room: "side_room (if side (fst ev) = 1 then z_bids b else z_asks b) (price (fst ev))" "length fs \<le> 16"
    using assms(2,3) by (simp_all add: z_ok_def)
  from z_submit_order_refines [OF b(1) fit sub assms(3)] room
  show "z_abs b' = lb" "c' = c + of_nat (length fs)" "z_total_trades b' = z_total_trades b + of_nat (length fs)"
    "z_total_volume b' = z_total_volume b + of_nat (fill_sum fs)"
    by (auto simp: e)
qed

lemma me_event_refines:
  assumes "eng_inv eng" "spec_submit (\<lambda>x. x) (fst ev) (book_abs (book_for eng (route (fst ev)))) = (fs, lb)"
  shows "eng_inv (me_event ev eng)" "book_abs (book_for (me_event ev eng) (route (fst ev))) = lb"
    and "k \<noteq> route (fst ev) \<Longrightarrow> book_for (me_event ev eng) k = book_for eng k"
    and "m_trade_counter (me_event ev eng) = m_trade_counter eng + of_nat (length fs)"
    and "total_trades (me_event ev eng) = total_trades eng + of_nat (length fs)"
    and "total_volume (me_event ev eng) = total_volume eng + of_nat (fill_sum fs)"
proof -
  let ?b = "book_for eng (route (fst ev))"
  obtain m b' tr c' where sub: "submit_order (fst ev) (snd ev) ?b [] (m_trade_counter eng) = (m, b', tr, c')"
    by (metis prod_cases4)
  note R = submit_order_refines [OF sub]
  obtain eng' where e: "process_order (fst ev) (snd ev) eng [] = (m, eng', tr)" "m_trade_counter eng' = c'" "eng_inv eng'"
    "\<And>k. book_for eng' k = (if k = route (fst ev) then b' else book_for eng k)"
    "total_trades eng' = total_trades eng - mb_total_trades ?b + mb_total_trades b'"
    "total_volume eng' = total_volume eng - mb_total_volume ?b + mb_total_volume b'"
    using process_order_unfold [OF assms(1) sub] by blast
  have me: "me_event ev eng = eng'" by (simp add: me_event_def e(1))
  show "eng_inv (me_event ev eng)" "book_abs (book_for (me_event ev eng) (route (fst ev))) = lb"
    "m_trade_counter (me_event ev eng) = m_trade_counter eng + of_nat (length fs)"
    "total_trades (me_event ev eng) = total_trades eng + of_nat (length fs)"
    "total_volume (me_event ev eng) = total_volume eng + of_nat (fill_sum fs)"
    "k \<noteq> route (fst ev) \<Longrightarrow> book_for (me_event ev eng) k = book_for eng k"
    using R assms(2) e by (simp_all add: me)
qed

text \<open>
  What the zero-allocation book needs to hold every order of a stream: room for it, at most sixteen
  fills, the default symbol and a client id that fits the 31 characters.
\<close>

fun events_fit :: "(ParsedOrder \<times> u64) list \<Rightarrow> ZeroAllocTrade list \<times> u64 \<times> ZeroAllocBook \<Rightarrow> bool" where
  "events_fit [] st = True"
| "events_fit (ev # evs) st \<longleftrightarrow> z_ok 16 (fst ev) (snd (snd st)) \<and> route (fst ev) = ''PETR4'' \<and>
     z_ident (cl_ord_id (fst ev)) = cl_ord_id (fst ev) \<and> events_fit evs (z_event ev st)"

lemma events_agree:
  assumes "events_fit evs (arr, c, b)" "core_inv (\<lambda>_. True) (-1) (arr, c, b)" "eng_inv eng"
    and "z_abs b = book_abs (book_for eng ''PETR4'')" "c = m_trade_counter eng"
    and "z_total_trades b = total_trades eng" "z_total_volume b = total_volume eng"
    and "fold z_event evs (arr, c, b) = (arr', c', b')"
  shows "z_abs b' = book_abs (book_for (fold me_event evs eng) ''PETR4'') \<and> c' = m_trade_counter (fold me_event evs eng) \<and>
    z_total_trades b' = total_trades (fold me_event evs eng) \<and> z_total_volume b' = total_volume (fold me_event evs eng)"
  using assms
proof (induction evs arbitrary: arr c b eng)
  case (Cons ev evs)
  have ok: "z_ok 16 (fst ev) b" "route (fst ev) = ''PETR4''" "z_ident (cl_ord_id (fst ev)) = cl_ord_id (fst ev)"
    "events_fit evs (z_event ev (arr, c, b))" using Cons.prems(1) by simp_all
  obtain arr1 c1 b1 where e: "z_event ev (arr, c, b) = (arr1, c1, b1)" using prod_cases3 by blast
  obtain fs lb where spec: "spec_submit z_ident (fst ev) (z_abs b) = (fs, lb)" by fastforce
  then have spec': "spec_submit (\<lambda>x. x) (fst ev) (book_abs (book_for eng (route (fst ev)))) = (fs, lb)"
    using Cons.prems(4) ok(2,3) by (simp add: spec_submit_def)
  note Z = z_event_refines [OF Cons.prems(2) ok(1) spec e] and M = me_event_refines [OF Cons.prems(3) spec']
  have inv: "core_inv (\<lambda>_. True) (-1) (arr1, c1, b1)"
    using z_event_inv [OF Cons.prems(2), of ev] by (simp add: e)
  have fit: "events_fit evs (arr1, c1, b1)" using ok(4) by (simp only: e)
  have run: "fold z_event evs (arr1, c1, b1) = (arr', c', b')" using Cons.prems(8) by (simp add: e)
  show ?case
    using Cons.IH [OF fit inv M(1) _ _ _ _ run] Cons.prems(5-7) ok(2) Z M(2,4,5,6) by simp
qed simp

text \<open>
  C8. The two engines are equivalent: on the same packets, with the same clock readings, the
  single-instrument engine on the zero-allocation book and the multi-symbol matching worker end with
  the same resting orders, trade counter, number of trades and volume, as long as the admitted orders
  are for the default symbol and fit the capacity of the zero-allocation book.
\<close>

theorem engines_agree:
  fixes clock :: "'d ClockSynchronizer"
  assumes "events_fit (filter (bookable default_limits) (passed env (arbitrator_init 2048) 0 pkts))
    (engine_core (order_book_engine_init frames))"
  shows "let e = engine_run env pkts (order_book_engine_init frames);
             eng = mw_matching_engine (handle_all (mw_handle env) pkts (matching_worker_init n clock frames))
    in z_abs (oe_order_book e) = book_abs (book_for eng ''PETR4'') \<and>
       oe_trade_counter e = m_trade_counter eng \<and>
       z_total_trades (oe_order_book e) = total_trades eng \<and> z_total_volume (oe_order_book e) = total_volume eng"
proof -
  let ?evs = "filter (bookable default_limits) (passed env (arbitrator_init 2048) 0 pkts)"
  define e where "e = engine_run env pkts (order_book_engine_init frames)"
  define e0 where "e0 = order_book_engine_init frames"
  have run: "fold z_event ?evs (oe_trade_batch e0, oe_trade_counter e0, oe_order_book e0) =
      (oe_trade_batch e, oe_trade_counter e, oe_order_book e)"
    using engine_run_core [of env pkts frames] by (simp add: engine_core_def e_def e0_def)
  have inv: "core_inv (\<lambda>_. True) (-1) (oe_trade_batch e0, oe_trade_counter e0, oe_order_book e0)"
    using engine_core_init by (simp add: engine_core_def e0_def)
  have eng: "eng_inv matching_engine_init" by (simp add: eng_inv_def matching_engine_init_def)
  have fit: "events_fit ?evs (oe_trade_batch e0, oe_trade_counter e0, oe_order_book e0)"
    using assms by (simp add: engine_core_def e0_def)
  have "z_abs (oe_order_book e0) = book_abs (book_for matching_engine_init ''PETR4'')"
    "oe_trade_counter e0 = m_trade_counter matching_engine_init"
    "z_total_trades (oe_order_book e0) = total_trades matching_engine_init"
    "z_total_volume (oe_order_book e0) = total_volume matching_engine_init"
    by (simp_all add: e0_def order_book_engine_init_def zero_alloc_init_inv book_for_def matching_engine_init_def
        matching_book_init_abs total_trades_def total_volume_def) (simp_all add: zero_alloc_init_def)
  from events_agree [OF fit inv eng this run] show ?thesis
    unfolding Let_def mw_run_core e_def [symmetric] .
qed


lemma z_ok_init: "z_ok 16 ord (zero_alloc_init symb)"
proof -
  have "side_levels side_init = []" by (simp add: side_levels_def used_ptrs_def side_init_def)
  then have "side_room side_init p" for p
    by (simp add: side_room_def level_room_def) (simp add: side_init_def MAX_BOOK_LEVELS_def)
  moreover have "fst (spec_submit z_ident ord lob_empty) = []"
    by (simp add: spec_submit_def lob_submit_def lob_empty_def)
  ultimately show ?thesis unfolding z_ok_def zero_alloc_init_inv(2) by (simp add: zero_alloc_init_def)
qed

definition sample_clock :: "unit ClockSynchronizer" where
  "sample_clock = \<lparr>m_cycles_per_ns = (), m_last_valid_ts_ns = 0, m_clock_jumps_prevented = 0\<rparr>"

theorem engines_agree_witness:
  "z_abs (oe_order_book (engine_run sample_env [sample_packet] (order_book_engine_init (\<lambda>_. TP_STATUS_USER)))) =
   book_abs (book_for (mw_matching_engine (handle_all (mw_handle sample_env) [sample_packet]
     (matching_worker_init 1 sample_clock (\<lambda>_. TP_STATUS_USER)))) ''PETR4'')"
proof -
  let ?ev = "packet_order sample_env 0 sample_packet"
  have ev: "route (fst ?ev) = ''PETR4''" "z_ident (cl_ord_id (fst ?ev)) = cl_ord_id (fst ?ev)"
    by (simp_all add: sample_packet_simps route_def Let_def trim_right_def z_ident_def cstr_def)
  have "events_fit evs (engine_core (order_book_engine_init (\<lambda>_. TP_STATUS_USER)))" if "evs = [] \<or> evs = [?ev]" for evs
    using that ev by (auto simp: engine_core_def order_book_engine_init_def z_ok_init)
  moreover have "filter (bookable default_limits) (passed sample_env (arbitrator_init 2048) 0 [sample_packet]) = [] \<or>
      filter (bookable default_limits) (passed sample_env (arbitrator_init 2048) 0 [sample_packet]) = [?ev]"
    by (simp add: passed_Cons)
  ultimately have "events_fit (filter (bookable default_limits) (passed sample_env (arbitrator_init 2048) 0 [sample_packet]))
    (engine_core (order_book_engine_init (\<lambda>_. TP_STATUS_USER)))" by blast
  from engines_agree [OF this, of 1 sample_clock] show ?thesis by (simp add: Let_def)
qed

subsection \<open>Limits, and the exit on the expected number\<close>

lemma me_event_within:
  assumes "eng_inv eng" "\<forall>k. lob_within Q mx (book_abs (book_for eng k))"
    and "Q (price (fst ev))" "(of_int (quantity (fst ev)) :: u32) \<le> mx"
  shows "eng_inv (me_event ev eng) \<and> (\<forall>k. lob_within Q mx (book_abs (book_for (me_event ev eng) k)))"
proof -
  obtain fs lb where spec: "spec_submit (\<lambda>x. x) (fst ev) (book_abs (book_for eng (route (fst ev)))) = (fs, lb)" by fastforce
  note M = me_event_refines [OF assms(1) spec]
  have w: "lob_within Q mx (book_abs (book_for eng (route (fst ev))))" using assms(2) by blast
  have "lob_within Q mx lb" using spec_submit_within [OF w assms(3,4) spec] by blast
  with M(1-3) assms(2) show ?thesis by metis
qed

lemma fold_me_event_within:
  assumes "eng_inv eng" "\<forall>k. lob_within Q mx (book_abs (book_for eng k))"
    and "\<forall>ev \<in> set evs. Q (price (fst ev)) \<and> (of_int (quantity (fst ev)) :: u32) \<le> mx"
  shows "eng_inv (fold me_event evs eng) \<and> (\<forall>k. lob_within Q mx (book_abs (book_for (fold me_event evs eng) k)))"
  using assms by (induction evs arbitrary: eng) (simp_all add: me_event_within)

lemma eng_inv_book: "eng_inv eng \<Longrightarrow> lob_inv (book_abs (book_for eng k))"
  by (auto simp: eng_inv_def book_for_def matching_book_init_abs split: option.split)

text \<open>
  End to end in the multi-symbol worker: whatever packets arrive, in every symbol's book the
  resting orders are inside the price collar and the quantity limit and no book is crossed, under
  the same proviso on extremely negative prices.
\<close>

theorem matching_worker_within_limits:
  fixes clock :: "'d ClockSynchronizer"
  assumes "\<forall>pkt \<in> set pkts. reference_price - price (parse_in_place (we_protocol env) (pkt_bytes pkt)) < 2 ^ 63"
  shows "let b = book_abs (book_for (mw_matching_engine
      (handle_all (mw_handle env) pkts (matching_worker_init n clock frames))) k) in
    uncrossed b \<and> (\<forall>r \<in> set (lob_bids b @ lob_asks b).
      30000000 \<le> r_price r \<and> r_price r \<le> 40000000 \<and> 0 < r_qty r \<and> r_qty r \<le> 50000)"
proof -
  define Q where "Q p \<longleftrightarrow> 30000000 \<le> p \<and> p \<le> (40000000 :: int)" for p
  let ?evs = "filter (bookable default_limits) (passed env (arbitrator_init 2048) 0 pkts)"
  have ev: "\<forall>ev \<in> set ?evs. Q (price (fst ev)) \<and> (of_int (quantity (fst ev)) :: u32) \<le> 50000"
    using bookable_within [OF assms] unfolding Q_def by blast
  have "eng_inv matching_engine_init" "\<forall>k. lob_within Q 50000 (book_abs (book_for matching_engine_init k))"
    by (simp_all add: eng_inv_def matching_engine_init_def book_for_def matching_book_init_abs lob_within_def
        lob_empty_def side_within_def)
  from fold_me_event_within [OF this ev] have b: "eng_inv (fold me_event ?evs matching_engine_init)"
    "lob_within Q 50000 (book_abs (book_for (fold me_event ?evs matching_engine_init) k))" by simp_all
  from eng_inv_book [OF b(1), of k] b(2) show ?thesis
    unfolding mw_run_core Let_def
    by (auto simp: lob_inv_def lob_within_def side_within_def side_pos_def list_all_iff Q_def)
qed

theorem matching_worker_within_limits_witness:
  "uncrossed (book_abs (book_for (mw_matching_engine (handle_all (mw_handle sample_env) [sample_packet]
     (matching_worker_init 1 sample_clock (\<lambda>_. TP_STATUS_USER)))) ''PETR4''))"
  using matching_worker_within_limits [of "[sample_packet]" sample_env 1 sample_clock "\<lambda>_. TP_STATUS_USER" "''PETR4''"]
    sample_packet_order
  by (simp add: sample_packet_simps reference_price_def Let_def)

text \<open>
  C30. What leaving the worker's loop means: when it leaves because it was stopped or the consumer
  has finished, every accepted packet has been handled; when it leaves on the expected number, at
  least that many messages have been counted, and the packets it had already popped with the last
  batch but not handled are lost and their ring frames are not given back.
\<close>

theorem matching_worker_exit:
  fixes clock :: "'d ClockSynchronizer"
  assumes "spsc_inv 8192 q" "spsc_contents 8192 q = []"
    and "mw_loop env obs q (matching_worker_init n clock frames) = (Some r, w)"
  shows "w_state w = handle_all (mw_handle env) (w_handled w) (matching_worker_init n clock frames) \<and>
    (if r = EXPECTED
     then n \<le> unat (processed (mw_stats (w_state w))) \<and>
       w_accepted w = w_handled w @ w_dropped w @ spsc_contents 8192 (w_queue w)
     else w_handled w = w_accepted w) \<and>
    mw_frames (w_state w) = (\<lambda>h. if Some h \<in> ring_hdr ` set (w_handled w) then TP_STATUS_KERNEL else frames h)"
proof -
  note L = matching.loop_handles [OF assms(1,2) assms(3) [unfolded mw_loop_def]]
  have exp: "mw_expected_messages (handle_all (mw_handle env) pkts v) = mw_expected_messages v"
    for pkts and v :: "'d MatchingWorker"
    by (induction pkts arbitrary: v) (simp_all add: handle_all_def mw_handle_spec(9) [OF refl])
  have "mw_expected_messages (w_state w) = n"
    unfolding L(1) exp by (simp add: matching_worker_init_def)
  then have "r = EXPECTED \<Longrightarrow> n \<le> unat (processed (mw_stats (w_state w)))"
    using L(4) by (simp add: mw_finished_def)
  moreover have "r \<noteq> EXPECTED \<Longrightarrow> w_handled w = w_accepted w" using L(3) by (cases r) simp_all
  ultimately show ?thesis using L(1,2,5) by (auto simp: fun_eq_iff)
qed

theorem matching_worker_exit_witness:
  "\<exists>r w. mw_loop sample_env [quiet_obs] (spsc_init (replicate 8192 sample_packet))
       (matching_worker_init 1 sample_clock (\<lambda>_. TP_STATUS_USER)) = (Some r, w) \<and>
     w_state w = handle_all (mw_handle sample_env) (w_handled w) (matching_worker_init 1 sample_clock (\<lambda>_. TP_STATUS_USER))"
proof -
  let ?q = "spsc_init (replicate 8192 sample_packet)" and ?w = "matching_worker_init 1 sample_clock (\<lambda>_. TP_STATUS_USER)"
  have q: "spsc_inv 8192 ?q" "spsc_contents 8192 ?q = []" by (simp_all add: queue_8192)
  obtain r w where run: "mw_loop sample_env [quiet_obs] ?q ?w = (Some r, w)"
    using worker_loop_returns [of 8192 "loop_init ?q ?w" "[quiet_obs]"] q
    by (fastforce simp: mw_loop_def loop_init_def quiet_def quiet_obs_def)
  from matching_worker_exit [OF q run] run show ?thesis by blast
qed

end
