(* ===== verification/Fix_Worker.thy ===== *)
theory Fix_Worker
  imports Worker_Loop
begin

text \<open>
  \<open>FixWorker\<close> of \<open>src/worker/FixWorker.cpp\<close>: parse, measure, publish, give the ring frame back and queue
  a log line if the log queue has room. Whether it has room at a packet is an input (\<open>fw_room\<close>), and
  so are the rendering of a price with four decimals and the clock readings.

  The order of the accesses to the packet ring is recorded: reading the payload (by the parser, and
  again when the string views of the order are formatted) and giving the frame back.
\<close>

datatype ring_access = Frame_Read nat | Frame_Released nat

record FixWorker =
  fw_expected_messages :: nat
  fw_stats :: WorkerStats
  fw_telemetry :: WorkerMetrics
  fw_log :: "LogMessage list"
  fw_frames :: "nat \<Rightarrow> frame_status"
  fw_accesses :: "ring_access list"
  fw_handled :: nat

record fix_worker_env =
  fw_to_ns :: "u64 \<Rightarrow> u64"
  fw_fmt4 :: "int \<Rightarrow> string"
  fw_clock :: "nat \<Rightarrow> u64 \<times> u64"
  fw_room :: "nat \<Rightarrow> bool"

definition fix_worker_init :: "nat \<Rightarrow> (nat \<Rightarrow> frame_status) \<Rightarrow> FixWorker" where
  "fix_worker_init expected frames = \<lparr>fw_expected_messages = expected, fw_stats = worker_stats_init,
     fw_telemetry = worker_metrics_init, fw_log = [], fw_frames = frames, fw_accesses = [], fw_handled = 0\<rparr>"

definition order_text :: "(int \<Rightarrow> string) \<Rightarrow> ParsedOrder \<Rightarrow> u64 \<Rightarrow> string" where
  "order_text fmt4 ord latency = ''ClOrdID='' @ cl_ord_id ord @ '' | Sym='' @ symbol ord @
     '' | Side='' @ dec_string_int (side ord) @ '' | Qty='' @ dec_string_int (quantity ord) @
     '' | Price='' @ fmt4 (price ord) @ '' | Latency='' @ dec_string (unat latency) @ ''ns''"

text \<open>The four telemetry counters this worker stores.\<close>

definition fw_publish :: "WorkerStats \<Rightarrow> WorkerMetrics \<Rightarrow> WorkerMetrics" where
  "fw_publish st t = t\<lparr>tm_messages_processed := ucast (processed st), tm_total_latency_ns := total_latency_ns st,
     tm_min_latency_ns := min_latency_ns st, tm_max_latency_ns := max_latency_ns st\<rparr>"

definition ring_access :: "(nat \<Rightarrow> ring_access) \<Rightarrow> nat option \<Rightarrow> ring_access list" where
  "ring_access mk hdr = (case hdr of None \<Rightarrow> [] | Some h \<Rightarrow> [mk h])"

definition fw_handle :: "fix_worker_env \<Rightarrow> FixMessagePacket \<Rightarrow> FixWorker \<Rightarrow> bool \<times> FixWorker" where
  "fw_handle env pkt w0 =
     (let (parse_cycles, now) = fw_clock env (fw_handled w0);
          latency = packet_latency (fw_to_ns env) parse_cycles pkt;
          ord = (fix_parse_in_place (pkt_bytes pkt))\<lparr>latency_ns := latency\<rparr>;
          st = count_latency latency (fw_stats w0);
          w1 = w0\<lparr>fw_stats := st, fw_telemetry := fw_publish st (fw_telemetry w0),
                  fw_frames := release_frame (ring_hdr pkt) (fw_frames w0),
                  fw_accesses := fw_accesses w0 @ ring_access Frame_Read (ring_hdr pkt) @
                    ring_access Frame_Released (ring_hdr pkt)\<rparr>;
          w2 = (if fw_room env (fw_handled w0)
                then w1\<lparr>fw_log := fw_log w1 @ [log_line now INFO_LEVEL (order_text (fw_fmt4 env) ord latency)],
                        fw_accesses := fw_accesses w1 @ ring_access Frame_Read (ring_hdr pkt)\<rparr>
                else w1)
      in (True, w2\<lparr>fw_handled := Suc (fw_handled w0)\<rparr>))"

definition fw_finished :: "FixWorker \<Rightarrow> bool" where
  "fw_finished w \<longleftrightarrow> unat (processed (fw_stats w)) \<ge> fw_expected_messages w"

definition fw_loop ::
  "fix_worker_env \<Rightarrow> FixMessagePacket loop_obs list \<Rightarrow> FixMessagePacket spsc \<Rightarrow> FixWorker \<Rightarrow>
     exit_reason option \<times> (FixMessagePacket, FixWorker) loop_state" where
  "fw_loop env obs q w = worker_loop 8192 (fw_handle env) fw_finished obs (loop_init q w)"

lemma fw_handle_frame:
  "fst (fw_handle env pkt w)"
  "fw_frames (snd (fw_handle env pkt w)) = release_frame (ring_hdr pkt) (fw_frames w)"
  "processed (fw_stats (snd (fw_handle env pkt w))) = processed (fw_stats w) + 1"
  "fw_expected_messages (snd (fw_handle env pkt w)) = fw_expected_messages w"
  by (simp_all add: fw_handle_def count_latency_def Let_def split: prod.split)

interpretation fixw: counting_worker "fw_handle env" fw_finished fw_frames for env
  by unfold_locales (simp_all add: fw_handle_frame)

lemma fw_all:
  "processed (fw_stats (handle_all (fw_handle env) pkts w)) = processed (fw_stats w) + of_nat (length pkts)"
  "fw_expected_messages (handle_all (fw_handle env) pkts w) = fw_expected_messages w"
  by (induction pkts arbitrary: w) (simp_all add: handle_all_def fw_handle_frame)

lemma fw_finished_iff:
  "fw_finished (handle_all (fw_handle env) pkts (fix_worker_init n frames)) \<longleftrightarrow> n \<le> length pkts mod 2 ^ 32"
  by (simp add: fw_finished_def fw_all) (simp add: fix_worker_init_def worker_stats_init_def unat_of_nat)

text \<open>
  The FIX worker stops exactly on the expected number: when its loop returns because the
  expected number of messages has been processed, exactly that many packets have been handled (for
  a number between 1 and 2 to the 32), in the order the queue accepted them; otherwise every accepted
  packet has been handled. The ring frames of exactly the handled packets are given back.
\<close>

theorem fix_worker_exit:
  assumes "spsc_inv 8192 q" "spsc_contents 8192 q = []" "0 < n" "n < 2 ^ 32"
    and "fw_loop env obs q (fix_worker_init n frames) = (Some r, w)"
  shows "(if r = EXPECTED then length (w_handled w) = n else w_handled w = w_accepted w) \<and>
    w_accepted w = w_handled w @ w_dropped w @ spsc_contents 8192 (w_queue w) \<and>
    fw_frames (w_state w) = (\<lambda>h. if Some h \<in> ring_hdr ` set (w_handled w) then TP_STATUS_KERNEL else frames h)"
proof -
  let ?s = "fix_worker_init n frames" and ?h = "w_handled w"
  note L = fixw.loop_handles [OF assms(1,2) assms(5) [unfolded fw_loop_def]]
  have "unfinished_before (fw_handle env) fw_finished ?s ?h"
    by (rule fixw.worker_loop_first [OF _ _ _ assms(5) [unfolded fw_loop_def]])
      (simp_all add: unfinished_before_def loop_init_def handle_all_def)
  then have before: "k mod 2 ^ 32 < n" if "0 < k" "k < length ?h" for k
    using that by (auto simp: unfinished_before_def fw_finished_iff)
  have "length ?h = n" if "r = EXPECTED"
  proof -
    have "n \<le> length ?h mod 2 ^ 32" using L(4) that unfolding L(1) by (simp add: fw_finished_iff)
    then have "n \<le> length ?h" using mod_less_eq_dividend order_trans by blast
    moreover have "\<not> n < length ?h" using before [of n] assms(3,4) by auto
    ultimately show ?thesis by simp
  qed
  moreover have "r \<noteq> EXPECTED \<Longrightarrow> ?h = w_accepted w" using L(3) by (cases r) simp_all
  ultimately show ?thesis using L(2,5) by (simp add: fix_worker_init_def fun_eq_iff)
qed

definition sample_fix_env :: fix_worker_env where
  "sample_fix_env = \<lparr>fw_to_ns = (\<lambda>c. c), fw_fmt4 = (\<lambda>_. []), fw_clock = (\<lambda>n. (of_nat n, of_nat n)), fw_room = (\<lambda>_. True)\<rparr>"

definition sample_fix_packet :: FixMessagePacket where
  "sample_fix_packet = \<lparr>rx_timestamp_cycles = 0, pkt_payload_len = 5, pkt_payload = Some ''35=D|'', ring_hdr = Some 3\<rparr>"

theorem fix_worker_exit_witness:
  "\<exists>r w. fw_loop sample_fix_env [quiet_obs] (spsc_init (replicate 8192 sample_fix_packet))
       (fix_worker_init 5 (\<lambda>_. TP_STATUS_USER)) = (Some r, w) \<and>
     w_accepted w = w_handled w @ w_dropped w @ spsc_contents 8192 (w_queue w)"
proof -
  let ?q = "spsc_init (replicate 8192 sample_fix_packet)" and ?w = "fix_worker_init 5 (\<lambda>_. TP_STATUS_USER)"
  have q: "spsc_inv 8192 ?q" "spsc_contents 8192 ?q = []" by (simp_all add: queue_8192)
  obtain r w where run: "fw_loop sample_fix_env [quiet_obs] ?q ?w = (Some r, w)"
    using worker_loop_returns [of 8192 "loop_init ?q ?w" "[quiet_obs]"] q
    by (fastforce simp: fw_loop_def loop_init_def quiet_def quiet_obs_def)
  from fix_worker_exit [OF q _ _ run] run show ?thesis by auto
qed

text \<open>
  The log line is formatted from string views into a frame that has already been given back: for a
  packet in a ring frame, with room in the log queue, the last access reads the frame after its release.
\<close>

lemma fix_worker_reads_released_frame:
  assumes "ring_hdr pkt = Some h" "fw_room env (fw_handled w)"
  shows "fw_accesses (snd (fw_handle env pkt w)) = fw_accesses w @ [Frame_Read h, Frame_Released h, Frame_Read h] \<and>
    fw_frames (snd (fw_handle env pkt w)) h = TP_STATUS_KERNEL"
  using assms by (simp add: fw_handle_def ring_access_def release_frame_def Let_def split: prod.split)

end
