(* ===== verification/Logging_Thread.thy ===== *)
theory Logging_Thread
  imports Worker_Types
begin

text \<open>
  The logging thread that each worker owns: \<open>run_logging_loop\<close> of \<open>HftOrderBookEngine\<close>,
  \<open>MatchingWorker\<close> and \<open>FixWorker\<close>, the same loop three times, with the worker's pushes to the log queue
  and the destructor that lowers \<open>m_logging_running\<close> and joins. The log file is the sequence of levels
  and lines given to log4cplus; its appender and layout are not modelled.
\<close>

datatype log4_level = LOG_DEBUG | LOG_INFO | LOG_WARN | LOG_ERROR | LOG_FATAL

fun log4_level_of :: "LogCategory \<Rightarrow> log4_level" where
  "log4_level_of DEBUG_LEVEL = LOG_DEBUG"
| "log4_level_of INFO_LEVEL = LOG_INFO"
| "log4_level_of WARNING_LEVEL = LOG_WARN"
| "log4_level_of ERROR_LEVEL = LOG_ERROR"
| "log4_level_of CRITICAL_LEVEL = LOG_FATAL"
| "log4_level_of FATAL_LEVEL = LOG_FATAL"

text \<open>The switches of the other two workers, whose last two cases are written out.\<close>

fun mw_log_level :: "LogCategory \<Rightarrow> log4_level" where
  "mw_log_level DEBUG_LEVEL = LOG_DEBUG"
| "mw_log_level INFO_LEVEL = LOG_INFO"
| "mw_log_level WARNING_LEVEL = LOG_WARN"
| "mw_log_level ERROR_LEVEL = LOG_ERROR"
| "mw_log_level CRITICAL_LEVEL = LOG_FATAL"
| "mw_log_level FATAL_LEVEL = LOG_FATAL"

fun fw_log_level :: "LogCategory \<Rightarrow> log4_level" where
  "fw_log_level DEBUG_LEVEL = LOG_DEBUG"
| "fw_log_level INFO_LEVEL = LOG_INFO"
| "fw_log_level WARNING_LEVEL = LOG_WARN"
| "fw_log_level ERROR_LEVEL = LOG_ERROR"
| "fw_log_level CRITICAL_LEVEL = LOG_FATAL"
| "fw_log_level FATAL_LEVEL = LOG_FATAL"

definition log_record :: "(LogCategory \<Rightarrow> log4_level) \<Rightarrow> LogMessage \<Rightarrow> log4_level \<times> string" where
  "log_record level m = (level (lm_category m), ''TS='' @ dec_string (unat (lm_timestamp_ns m)) @ '' | '' @ cstr (lm_message m))"

definition log_entry :: "LogMessage \<Rightarrow> log4_level \<times> string" where
  "log_entry m = log_record log4_level_of m"

text \<open>The place of the thread: the flag, then the emptiness test of the loop condition, the pop, or joined.\<close>

datatype logging_pc = L_Cond | L_Cond_Empty | L_Pop | L_Exit

record logging =
  lg_queue :: "LogMessage spsc"
  lg_running :: bool
  lg_pc :: logging_pc
  lg_file :: "(log4_level \<times> string) list"
  lg_accepted :: "LogMessage list"

definition logging_init :: "LogMessage list \<Rightarrow> logging" where
  "logging_init buf = \<lparr>lg_queue = spsc_init buf, lg_running = True, lg_pc = L_Cond, lg_file = [], lg_accepted = []\<rparr>"

text \<open>One step of the loop, the same in the three workers up to their switch.\<close>

definition logging_loop :: "(LogCategory \<Rightarrow> log4_level) \<Rightarrow> nat \<Rightarrow> logging \<Rightarrow> logging" where
  "logging_loop level cap s =
     (case lg_pc s of
        L_Cond \<Rightarrow> s\<lparr>lg_pc := (if lg_running s then L_Pop else L_Cond_Empty)\<rparr>
      | L_Cond_Empty \<Rightarrow> s\<lparr>lg_pc := (if \<not> spsc_empty (lg_queue s) then L_Pop else L_Exit)\<rparr>
      | L_Pop \<Rightarrow>
          (case spsc_pop cap (lg_queue s) of
             (None, q) \<Rightarrow> s\<lparr>lg_queue := q, lg_pc := L_Cond\<rparr>
           | (Some m, q) \<Rightarrow> s\<lparr>lg_queue := q, lg_file := lg_file s @ [log_record level m], lg_pc := L_Cond\<rparr>)
      | L_Exit \<Rightarrow> s)"

definition run_logging_loop :: "nat \<Rightarrow> logging \<Rightarrow> logging" where
  "run_logging_loop cap s = logging_loop log4_level_of cap s"

definition mw_run_logging_loop :: "nat \<Rightarrow> logging \<Rightarrow> logging" where
  "mw_run_logging_loop cap s = logging_loop mw_log_level cap s"

definition fw_run_logging_loop :: "nat \<Rightarrow> logging \<Rightarrow> logging" where
  "fw_run_logging_loop cap s = logging_loop fw_log_level cap s"

text \<open>The three threads write the same file, so what is shown of one holds of all.\<close>

lemma worker_logging_alike: "mw_run_logging_loop = run_logging_loop" "fw_run_logging_loop = run_logging_loop"
proof -
  have "mw_log_level c = log4_level_of c" "fw_log_level c = log4_level_of c" for c by (cases c; simp)+
  then have eq: "mw_log_level = log4_level_of" "fw_log_level = log4_level_of" by auto
  show "mw_run_logging_loop = run_logging_loop" "fw_run_logging_loop = run_logging_loop"
    by (intro ext; simp only: mw_run_logging_loop_def fw_run_logging_loop_def run_logging_loop_def eq)+
qed

lemma run_logging_loop_step:
  "run_logging_loop cap s =
     (case lg_pc s of
        L_Cond \<Rightarrow> s\<lparr>lg_pc := (if lg_running s then L_Pop else L_Cond_Empty)\<rparr>
      | L_Cond_Empty \<Rightarrow> s\<lparr>lg_pc := (if \<not> spsc_empty (lg_queue s) then L_Pop else L_Exit)\<rparr>
      | L_Pop \<Rightarrow>
          (case spsc_pop cap (lg_queue s) of
             (None, q) \<Rightarrow> s\<lparr>lg_queue := q, lg_pc := L_Cond\<rparr>
           | (Some m, q) \<Rightarrow> s\<lparr>lg_queue := q, lg_file := lg_file s @ [log_entry m], lg_pc := L_Cond\<rparr>)
      | L_Exit \<Rightarrow> s)"
  by (simp add: run_logging_loop_def logging_loop_def log_entry_def split: logging_pc.split option.split prod.split)

definition log_offer :: "nat \<Rightarrow> LogMessage \<Rightarrow> logging \<Rightarrow> logging" where
  "log_offer cap m s =
     (let (ok, q) = spsc_push cap m (lg_queue s)
      in s\<lparr>lg_queue := q, lg_accepted := (if ok then lg_accepted s @ [m] else lg_accepted s)\<rparr>)"

definition logging_stop :: "logging \<Rightarrow> logging" where
  "logging_stop s = s\<lparr>lg_running := False\<rparr>"

datatype logging_action = Log_Offer LogMessage | Log_Stop | Log_Tick

fun logging_act :: "nat \<Rightarrow> logging_action \<Rightarrow> logging \<Rightarrow> logging" where
  "logging_act cap (Log_Offer m) s = log_offer cap m s"
| "logging_act cap Log_Stop s = logging_stop s"
| "logging_act cap Log_Tick s = run_logging_loop cap s"

definition logging_run :: "nat \<Rightarrow> LogMessage list \<Rightarrow> logging_action list \<Rightarrow> logging" where
  "logging_run cap buf acts = fold (logging_act cap) acts (logging_init buf)"

definition logging_inv :: "nat \<Rightarrow> logging \<Rightarrow> bool" where
  "logging_inv cap s \<longleftrightarrow> spsc_inv cap (lg_queue s) \<and>
     map log_entry (lg_accepted s) = lg_file s @ map log_entry (spsc_contents cap (lg_queue s))"

lemma log_offer_inv:
  assumes "logging_inv cap s"
  shows "logging_inv cap (log_offer cap m s)"
proof -
  have q: "spsc_inv cap (lg_queue s)" using assms by (simp add: logging_inv_def)
  obtain ok q' where push: "spsc_push cap m (lg_queue s) = (ok, q')" by fastforce
  have "spsc_inv cap q'" "spsc_contents cap q' = spsc_contents cap (lg_queue s) @ (if ok then [m] else [])"
    using spsc.push_invar [OF q, of m] spsc.push_ok [OF q, of m] spsc.push_contents [OF q, of m] push by auto
  with assms push show ?thesis by (cases ok) (simp_all add: logging_inv_def log_offer_def)
qed

lemma logging_stop_inv: "logging_inv cap s \<Longrightarrow> logging_inv cap (logging_stop s)"
  by (simp add: logging_stop_def logging_inv_def)

lemma log_pop_cases:
  assumes "spsc_inv cap q"
  obtains "spsc_contents cap q = []" "fst (spsc_pop cap q) = None" "spsc_contents cap (snd (spsc_pop cap q)) = []"
  | m where "fst (spsc_pop cap q) = Some m" "spsc_contents cap q = m # spsc_contents cap (snd (spsc_pop cap q))"
  using spsc.pop_result [OF assms] spsc.pop_contents [OF assms] by (cases "spsc_contents cap q") auto

lemma run_logging_loop_inv:
  assumes "logging_inv cap s"
  shows "logging_inv cap (run_logging_loop cap s)"
proof (cases "lg_pc s")
  case L_Pop
  have q: "spsc_inv cap (lg_queue s)" using assms by (simp add: logging_inv_def)
  show ?thesis
    by (cases rule: log_pop_cases [OF q])
      (use assms L_Pop spsc.pop_invar [OF q] in \<open>auto simp: run_logging_loop_step logging_inv_def split: prod.splits\<close>)
qed (use assms in \<open>simp_all add: run_logging_loop_step logging_inv_def\<close>)

lemma logging_run_inv:
  assumes "spsc_static_assert cap" "length buf = cap"
  shows "logging_inv cap (logging_run cap buf acts)"
proof -
  have "logging_inv cap (logging_init buf)"
    using spsc_init_inv [OF assms] by (auto simp: logging_inv_def logging_init_def)
  moreover have "logging_inv cap (fold (logging_act cap) acts s)" if "logging_inv cap s" for s
    using that
  proof (induction acts arbitrary: s)
    case (Cons a acts)
    have "logging_inv cap (logging_act cap a s)"
      using Cons.prems by (cases a) (simp_all add: log_offer_inv run_logging_loop_inv logging_stop_inv)
    with Cons.IH show ?case by simp
  qed simp
  ultimately show ?thesis by (simp add: logging_run_def)
qed

text \<open>Once the flag is down, every step of the thread brings it closer to its end.\<close>

definition logging_left :: "nat \<Rightarrow> logging \<Rightarrow> nat" where
  "logging_left cap s = 3 * length (spsc_contents cap (lg_queue s)) +
     (case lg_pc s of L_Exit \<Rightarrow> 0 | L_Cond_Empty \<Rightarrow> 1 | L_Cond \<Rightarrow> 2 | L_Pop \<Rightarrow> (if spsc_contents cap (lg_queue s) = [] then 3 else 0))"

lemma run_logging_loop_left:
  assumes "logging_inv cap s" "\<not> lg_running s" "lg_pc s \<noteq> L_Exit"
  shows "logging_left cap (run_logging_loop cap s) < logging_left cap s \<and> \<not> lg_running (run_logging_loop cap s) \<and>
    lg_accepted (run_logging_loop cap s) = lg_accepted s \<and>
    (lg_pc (run_logging_loop cap s) = L_Exit \<longrightarrow> spsc_contents cap (lg_queue (run_logging_loop cap s)) = [])"
proof -
  have q: "spsc_inv cap (lg_queue s)" using assms by (simp add: logging_inv_def)
  show ?thesis
  proof (cases "lg_pc s")
    case L_Pop
    show ?thesis
      by (cases rule: log_pop_cases [OF q])
        (use assms L_Pop in \<open>auto simp: run_logging_loop_step logging_left_def split: prod.splits\<close>)
  qed (use assms spsc_empty_contents [OF q] in \<open>auto simp: run_logging_loop_step logging_left_def\<close>)
qed

text \<open>
  The log file is the accepted messages in order, each once, followed by what is still queued; and
  when the destructor lowers the flag, at most three steps for each queued message and three more end
  the thread with everything written.
\<close>

theorem logging_complete:
  assumes "spsc_static_assert cap" "length buf = cap" "s = logging_run cap buf acts"
  shows "map log_entry (lg_accepted s) = lg_file s @ map log_entry (spsc_contents cap (lg_queue s))"
    and "\<not> lg_running s \<Longrightarrow> lg_pc s \<noteq> L_Exit \<Longrightarrow>
      3 * length (spsc_contents cap (lg_queue s)) + 3 \<le> n \<Longrightarrow>
      lg_pc ((run_logging_loop cap ^^ n) s) = L_Exit \<and> lg_file ((run_logging_loop cap ^^ n) s) = map log_entry (lg_accepted s)"
proof -
  have inv: "logging_inv cap s" using logging_run_inv [OF assms(1,2)] assms(3) by simp
  then show "map log_entry (lg_accepted s) = lg_file s @ map log_entry (spsc_contents cap (lg_queue s))"
    by (simp add: logging_inv_def)
  have exit: "(run_logging_loop cap ^^ k) t = t" if "lg_pc t = L_Exit" for k t
    using that by (induction k) (simp_all add: run_logging_loop_step)
  have ends: "lg_pc ((run_logging_loop cap ^^ k) t) = L_Exit \<and> lg_file ((run_logging_loop cap ^^ k) t) = map log_entry (lg_accepted t)"
    if "logging_inv cap t" "\<not> lg_running t" "lg_pc t = L_Exit \<longrightarrow> spsc_contents cap (lg_queue t) = []" "logging_left cap t \<le> k" for k t
    using that
  proof (induction k arbitrary: t)
    case 0
    then have "lg_pc t = L_Exit" by (auto simp: logging_left_def split: logging_pc.splits if_splits)
    with 0 show ?case by (simp add: logging_inv_def)
  next
    case (Suc k)
    show ?case
    proof (cases "lg_pc t = L_Exit")
      case True
      with Suc exit [OF True, of "Suc k"] show ?thesis by (simp add: logging_inv_def del: funpow.simps)
    next
      case False
      from run_logging_loop_left [OF Suc.prems(1,2) False] Suc.prems run_logging_loop_inv [OF Suc.prems(1)]
      have "lg_pc ((run_logging_loop cap ^^ k) (run_logging_loop cap t)) = L_Exit \<and>
          lg_file ((run_logging_loop cap ^^ k) (run_logging_loop cap t)) = map log_entry (lg_accepted (run_logging_loop cap t))"
        by (intro Suc.IH) simp_all
      with run_logging_loop_left [OF Suc.prems(1,2) False] show ?thesis by (simp add: funpow_swap1)
    qed
  qed
  assume "\<not> lg_running s" "lg_pc s \<noteq> L_Exit" "3 * length (spsc_contents cap (lg_queue s)) + 3 \<le> n"
  moreover have "logging_left cap s \<le> 3 * length (spsc_contents cap (lg_queue s)) + 3"
    by (cases "lg_pc s") (simp_all add: logging_left_def)
  ultimately show "lg_pc ((run_logging_loop cap ^^ n) s) = L_Exit \<and> lg_file ((run_logging_loop cap ^^ n) s) = map log_entry (lg_accepted s)"
    using inv by (intro ends) simp_all
qed

end
