(* ===== verification/Mpsc_Queue.thy ===== *)
theory Mpsc_Queue
  imports Hft_Prelude
begin

text \<open>
  The mutex-protected queue of \<open>include/hft/common/MpscQueue.hpp\<close>. Every operation is one critical
  section on \<open>m_mutex\<close>, so the operations of the several producers and of the consumer take effect one
  after the other and each is a function on the queue's contents. What the callers see of the other
  threads is an argument: whether \<open>try_to_lock\<close> got the lock, the value of the \<open>running\<close> flag the
  waiting predicate loads, and whether the time limit passed. A thread whose waiting predicate is
  false stays blocked, which is the result \<open>Blocked\<close>.
\<close>

record 'a MpscQueue =
  m_queue :: "'a list"

definition mpsc_init :: "'a MpscQueue" where
  "mpsc_init = \<lparr>m_queue = []\<rparr>"

definition mpsc_push :: "'a \<Rightarrow> 'a MpscQueue \<Rightarrow> 'a MpscQueue" where
  "mpsc_push item q = q\<lparr>m_queue := m_queue q @ [item]\<rparr>"

definition mpsc_try_push :: "bool \<Rightarrow> 'a \<Rightarrow> 'a MpscQueue \<Rightarrow> bool \<times> 'a MpscQueue" where
  "mpsc_try_push owns_lock item q = (if \<not> owns_lock then (False, q) else (True, q\<lparr>m_queue := m_queue q @ [item]\<rparr>))"

definition mpsc_try_pop :: "'a MpscQueue \<Rightarrow> 'a option \<times> 'a MpscQueue" where
  "mpsc_try_pop q = (case m_queue q of [] \<Rightarrow> (None, q) | item # rest \<Rightarrow> (Some item, q\<lparr>m_queue := rest\<rparr>))"

datatype 'r waiting = Blocked | Returned 'r

definition mpsc_pop :: "bool \<Rightarrow> 'a MpscQueue \<Rightarrow> ('a option \<times> 'a MpscQueue) waiting" where
  "mpsc_pop running q =
     (if \<not> (m_queue q \<noteq> [] \<or> \<not> running) then Blocked
      else Returned (case m_queue q of [] \<Rightarrow> (None, q) | item # rest \<Rightarrow> (Some item, q\<lparr>m_queue := rest\<rparr>)))"

definition mpsc_pop_with_timeout ::
  "bool \<Rightarrow> bool \<Rightarrow> 'a MpscQueue \<Rightarrow> ('a option \<times> 'a MpscQueue) waiting" where
  "mpsc_pop_with_timeout running timed_out q =
     (if \<not> (m_queue q \<noteq> [] \<or> \<not> running) \<and> \<not> timed_out then Blocked
      else Returned (case m_queue q of [] \<Rightarrow> (None, q) | item # rest \<Rightarrow> (Some item, q\<lparr>m_queue := rest\<rparr>)))"

definition mpsc_empty :: "'a MpscQueue \<Rightarrow> bool" where
  "mpsc_empty q = (m_queue q = [])"

definition mpsc_size :: "'a MpscQueue \<Rightarrow> nat" where
  "mpsc_size q = length (m_queue q)"

lemma mpsc_push_contents [simp]: "m_queue (mpsc_push x q) = m_queue q @ [x]"
  by (simp add: mpsc_push_def)

lemma mpsc_try_push_contents:
  "m_queue (snd (mpsc_try_push b x q)) = m_queue q @ (if fst (mpsc_try_push b x q) then [x] else [])"
  by (simp add: mpsc_try_push_def)

text \<open>The waiting operations return what \<open>try_pop\<close> returns, once they return.\<close>

lemma mpsc_pop_try_pop: "mpsc_pop running q = Returned r \<Longrightarrow> r = mpsc_try_pop q"
  by (auto simp: mpsc_pop_def mpsc_try_pop_def split: if_splits)

lemma mpsc_pop_with_timeout_try_pop: "mpsc_pop_with_timeout running timed_out q = Returned r \<Longrightarrow> r = mpsc_try_pop q"
  by (auto simp: mpsc_pop_with_timeout_def mpsc_try_pop_def split: if_splits)

text \<open>
  A consumer blocks for ever only while the queue is empty and the flag is up; a lost wake-up would
  show as a blocked state with an item queued.
\<close>

lemma mpsc_pop_blocked_iff: "mpsc_pop running q = Blocked \<longleftrightarrow> mpsc_empty q \<and> running"
  by (simp add: mpsc_pop_def mpsc_empty_def)

lemma mpsc_pop_with_timeout_blocked_iff:
  "mpsc_pop_with_timeout running timed_out q = Blocked \<longleftrightarrow> mpsc_empty q \<and> running \<and> \<not> timed_out"
  by (simp add: mpsc_pop_with_timeout_def mpsc_empty_def)

lemma mpsc_try_pop_cases:
  obtains "mpsc_try_pop q = (None, q)" "m_queue q = []"
  | x where "fst (mpsc_try_pop q) = Some x" "m_queue q = x # m_queue (snd (mpsc_try_pop q))"
  by (cases "m_queue q") (auto simp: mpsc_try_pop_def)

subsection \<open>The channel contract\<close>

text \<open>
  What the console logger relies on: sending appends, receiving takes the oldest message and fails
  only on an empty channel. In any interleaving of sends and receives the messages sent are then the
  messages received, in order, followed by the ones still in the channel.
\<close>

locale message_channel =
  fixes send :: "'a \<Rightarrow> 'q \<Rightarrow> 'q" and receive :: "'q \<Rightarrow> 'a option \<times> 'q" and pending :: "'q \<Rightarrow> 'a list"
  assumes send_pending: "pending (send x q) = pending q @ [x]"
    and receive_None: "receive q = (None, q') \<Longrightarrow> pending q = [] \<and> q' = q"
    and receive_Some: "receive q = (Some x, q') \<Longrightarrow> pending q = x # pending q'"
begin

definition accounts :: "'a list \<Rightarrow> 'a list \<Rightarrow> 'q \<Rightarrow> bool" where
  "accounts sent received q \<longleftrightarrow> sent = received @ pending q"

lemma accounts_send: "accounts sent received q \<Longrightarrow> accounts (sent @ [x]) received (send x q)"
  by (simp add: accounts_def send_pending)

lemma accounts_receive:
  assumes "accounts sent received q" "receive q = (r, q')"
  shows "accounts sent (received @ (case r of None \<Rightarrow> [] | Some x \<Rightarrow> [x])) q'"
proof (cases r)
  case None
  with assms receive_None show ?thesis by (auto simp: accounts_def)
next
  case (Some x)
  with assms receive_Some [of q x q'] show ?thesis by (simp add: accounts_def)
qed

lemma accounts_empty: "\<lbrakk>accounts sent received q; receive q = (None, q')\<rbrakk> \<Longrightarrow> received = sent"
  using receive_None [of q q'] by (auto simp: accounts_def)

end

interpretation mpsc: message_channel mpsc_push mpsc_try_pop m_queue
  by unfold_locales (auto simp: mpsc_try_pop_def split: list.splits)

end
