(* ===== verification/Console_Logger.thy ===== *)
theory Console_Logger
  imports Mpsc_Queue
begin

text \<open>
  The asynchronous console logger of \<open>src/common/ConsoleLogger.cpp\<close>: any number of threads call
  \<open>log\<close> and \<open>try_log\<close>, the main thread calls \<open>initialize\<close> and \<open>shutdown\<close>, and the console thread
  runs \<open>run_loop\<close>. A thread's step is one access to what the threads share, the flag \<open>m_running\<close> or a
  critical section of the queue, and a run of the system is any sequence of such steps. A step that
  cannot be taken (the thread is elsewhere, or blocked) leaves the state as it is.

  Outside the program are the terminal size \<open>ioctl\<close> reports, the expiry of the 50 ms limit, the
  telemetry counter the bar shows, and the double arithmetic of the percentage, whose operations are
  a parameter.
\<close>

subsection \<open>Messages and terminal output\<close>

datatype ConsoleCategory = INFO_MSG | WARN_MSG | ERROR_MSG

record ConsoleMessage =
  cm_category :: ConsoleCategory
  cm_message :: string

definition console_message :: "ConsoleCategory \<Rightarrow> string \<Rightarrow> ConsoleMessage" where
  "console_message category msg =
     (let copy_len = min (length msg) (256 - 1)
      in \<lparr>cm_category = category,
          cm_message = take copy_len msg @ CHR 0x00 # replicate (255 - copy_len) (CHR 0x00)\<rparr>)"

definition dummy_message :: ConsoleMessage where
  "dummy_message = \<lparr>cm_category = INFO_MSG, cm_message = replicate 256 (CHR 0x00)\<rparr>"

definition esc :: string where
  "esc = [CHR 0x1B]"

text \<open>What reaches the terminal: the lines of the console thread, the bar, cursor control, and the
  lines a caller writes itself when the logger is not running (to \<open>cerr\<close> for an error).\<close>

datatype console_chunk =
    Line ConsoleCategory string
  | Bar string
  | Control string
  | Direct ConsoleCategory string

fun colour :: "ConsoleCategory \<Rightarrow> string" where
  "colour INFO_MSG = esc @ ''[32m''"
| "colour WARN_MSG = esc @ ''[33m''"
| "colour ERROR_MSG = esc @ ''[31m''"

fun chunk_text :: "console_chunk \<Rightarrow> string" where
  "chunk_text (Line cat txt) = colour cat @ txt @ esc @ ''[0m'' @ [CHR 0x0A]"
| "chunk_text (Bar txt) = txt"
| "chunk_text (Control txt) = txt"
| "chunk_text (Direct cat txt) = txt @ [CHR 0x0A]"

subsection \<open>The progress bar\<close>

record 'd double_ops =
  d_ratio :: "u64 \<Rightarrow> u64 \<Rightarrow> 'd"
  d_zero :: 'd
  d_one :: 'd
  d_less :: "'d \<Rightarrow> 'd \<Rightarrow> bool"
  d_percent :: "'d \<Rightarrow> string"
  d_trunc_mul :: "'d \<Rightarrow> int \<Rightarrow> int"

definition progress :: "'d double_ops \<Rightarrow> u64 \<Rightarrow> u64 \<Rightarrow> 'd" where
  "progress d processed expected =
     (if expected > 0
      then let pct = d_ratio d processed expected in if d_less d (d_one d) pct then d_one d else pct
      else d_zero d)"

definition percent_text :: "'d double_ops \<Rightarrow> u64 \<Rightarrow> u64 \<Rightarrow> string" where
  "percent_text d processed expected =
     '' '' @ d_percent d (progress d processed expected) @ ''% ('' @ dec_string (unat processed) @ ''/'' @
     dec_string (unat expected) @ '')''"

definition bar_width :: "nat \<Rightarrow> nat \<Rightarrow> int" where
  "bar_width cols pct_len = (let w = int cols - 4 - int pct_len in if w < 10 then 10 else w)"

definition bar_cells :: "bool \<Rightarrow> int \<Rightarrow> int \<Rightarrow> string" where
  "bar_cells below_one filled width =
     map (\<lambda>i. if i < filled then CHR ''='' else if i = filled \<and> below_one then CHR ''>'' else CHR '' '') [0..width - 1]"

definition bottom_row :: "'d double_ops \<Rightarrow> nat \<Rightarrow> u64 \<Rightarrow> u64 \<Rightarrow> string" where
  "bottom_row d cols processed expected =
     (let pct = progress d processed expected;
          pct_str = percent_text d processed expected;
          width = bar_width cols (length pct_str);
          filled = d_trunc_mul d pct width
      in ''['' @ bar_cells (d_less d pct (d_one d)) filled width @ '']'' @ pct_str)"

definition draw_progress_bar :: "'d double_ops \<Rightarrow> nat \<Rightarrow> nat \<Rightarrow> u64 \<Rightarrow> u64 \<Rightarrow> string" where
  "draw_progress_bar d rows cols processed expected =
     esc @ ''[s'' @ esc @ ''['' @ dec_string (rows - 1) @ '';1H'' @ esc @ ''[2K'' @ esc @ ''[36m'' @
     replicate cols (CHR ''-'') @ esc @ ''[0m'' @
     esc @ ''['' @ dec_string rows @ '';1H'' @ esc @ ''[2K'' @ esc @ ''[1;36m'' @
     bottom_row d cols processed expected @ esc @ ''[0m'' @ esc @ ''[u''"

text \<open>The bottom row fits the terminal whenever the text leaves room for the ten cells of the smallest bar.\<close>

lemma length_bar_cells: "length (bar_cells b filled width) = nat width"
  by (simp add: bar_cells_def)

lemma bottom_row_fits:
  assumes "length (percent_text d processed expected) + 14 \<le> cols"
  shows "length (bottom_row d cols processed expected) = cols - 2"
proof -
  define l where "l = length (percent_text d processed expected)"
  have "bar_width cols l = int cols - 4 - int l"
    using assms by (simp add: bar_width_def l_def Let_def)
  then have "nat (bar_width cols l) = cols - 4 - l" using assms by (simp add: l_def)
  then show ?thesis
    using assms by (simp add: bottom_row_def Let_def length_bar_cells l_def [symmetric])
qed

lemma bar_cells_split:
  assumes "0 \<le> filled" "filled \<le> width"
  shows "bar_cells b filled width =
    replicate (nat filled) (CHR ''='') @
    (if filled = width then [] else (if b then CHR ''>'' else CHR '' '') # replicate (nat (width - filled) - 1) (CHR '' ''))"
proof -
  have split: "[0..width - 1] = [0..filled - 1] @ [filled..width - 1]"
    using assms upto_split1 [of 0 filled "width - 1"] by (cases "filled = width") simp_all
  have full: "map (\<lambda>i. if i < filled then CHR ''='' else if i = filled \<and> b then CHR ''>'' else CHR '' '') [0..filled - 1]
      = replicate (nat filled) (CHR ''='')"
    by (rule replicate_eqI) auto
  have spaces: "map (\<lambda>i. if i < filled then CHR ''='' else if i = filled \<and> b then CHR ''>'' else CHR '' '') [filled + 1..width - 1]
      = replicate (nat (width - filled) - 1) (CHR '' '')"
    by (rule replicate_eqI) (auto simp: nat_diff_distrib)
  show ?thesis
  proof (cases "filled = width")
    case True
    show ?thesis using full unfolding True by (simp add: bar_cells_def)
  next
    case False
    then have "[filled..width - 1] = filled # [filled + 1..width - 1]"
      using assms by (intro upto_rec1) simp
    with False show ?thesis by (simp add: bar_cells_def split full spaces)
  qed
qed

subsection \<open>The threads\<close>

text \<open>Where the console thread is in \<open>run_loop\<close>, and the main thread in \<open>shutdown\<close>.\<close>

datatype console_pc =
    C_None | C_Start | C_Cond | C_Cond_Empty | C_Pop | C_Print | C_Else | C_Else_Empty | C_Draw
  | C_Drain | C_Drain_Print | C_Final | C_Exit

datatype shutdown_pc = S_Idle | S_Push | S_Join

text \<open>
  The members of \<open>ConsoleLogger\<close>, the terminal, the two program counters and the threads between the
  test of \<open>m_running\<close> and the push. The last three fields are history: the messages pushed to the
  queue, those popped, and how many had been pushed when \<open>shutdown\<close> lowered \<open>m_running\<close>.
\<close>

record ConsoleLogger =
  cl_queue :: "ConsoleMessage MpscQueue"
  cl_expected_messages :: u64
  cl_running :: bool
  cl_rows :: nat
  cl_cols :: nat
  cl_initialized :: bool
  cl_configured :: bool
  cl_pc :: console_pc
  cl_m :: ConsoleMessage
  cl_last :: "nat \<times> nat"
  cl_shutdown :: shutdown_pc
  cl_loggers :: "nat \<rightharpoonup> bool \<times> ConsoleMessage"
  cl_out :: "console_chunk list"
  cl_sent :: "ConsoleMessage list"
  cl_received :: "ConsoleMessage list"
  cl_stop :: nat

definition console_init :: ConsoleLogger where
  "console_init = \<lparr>cl_queue = mpsc_init, cl_expected_messages = 0, cl_running = False, cl_rows = 24, cl_cols = 80,
     cl_initialized = False, cl_configured = False, cl_pc = C_None, cl_m = dummy_message, cl_last = (24, 80),
     cl_shutdown = S_Idle, cl_loggers = Map.empty, cl_out = [], cl_sent = [], cl_received = [], cl_stop = 0\<rparr>"

definition emit :: "console_chunk \<Rightarrow> ConsoleLogger \<Rightarrow> ConsoleLogger" where
  "emit c s = s\<lparr>cl_out := cl_out s @ [c]\<rparr>"

definition enqueue :: "ConsoleMessage \<Rightarrow> ConsoleLogger \<Rightarrow> ConsoleLogger" where
  "enqueue m s = s\<lparr>cl_queue := mpsc_push m (cl_queue s), cl_sent := cl_sent s @ [m]\<rparr>"

definition update_terminal_size :: "(nat \<times> nat) option \<Rightarrow> ConsoleLogger \<Rightarrow> ConsoleLogger" where
  "update_terminal_size w s =
     (case w of
        Some (ws_row, ws_col) \<Rightarrow>
          if ws_row > 2 \<and> ws_col > 10 then s\<lparr>cl_rows := ws_row, cl_cols := ws_col\<rparr>
          else s\<lparr>cl_rows := 24, cl_cols := 80\<rparr>
      | None \<Rightarrow> s\<lparr>cl_rows := 24, cl_cols := 80\<rparr>)"

definition restore_terminal :: "ConsoleLogger \<Rightarrow> ConsoleLogger" where
  "restore_terminal s =
     (if cl_configured s
      then (emit (Control (esc @ ''[r'' @ esc @ ''['' @ dec_string (cl_rows s) @ '';1H'' @ [CHR 0x0A] @ esc @
              ''[?25h'' @ esc @ ''[0m'')) s)\<lparr>cl_configured := False\<rparr>
      else s)"

definition initialize :: "u64 \<Rightarrow> ConsoleLogger \<Rightarrow> ConsoleLogger" where
  "initialize expected s =
     (if cl_initialized s \<or> cl_shutdown s \<noteq> S_Idle then s
      else s\<lparr>cl_expected_messages := expected, cl_running := True, cl_pc := C_Start, cl_initialized := True\<rparr>)"

text \<open>\<open>log\<close> and \<open>try_log\<close>: the test of \<open>m_running\<close> with the building of the message, then the push.\<close>

definition log_begin :: "nat \<Rightarrow> bool \<Rightarrow> ConsoleCategory \<Rightarrow> string \<Rightarrow> ConsoleLogger \<Rightarrow> ConsoleLogger" where
  "log_begin i blocking category msg s =
     (if cl_loggers s i \<noteq> None then s
      else if \<not> cl_running s then (if blocking then emit (Direct category msg) s else s)
      else s\<lparr>cl_loggers := (cl_loggers s)(i \<mapsto> (blocking, console_message category msg))\<rparr>)"

definition log_push :: "nat \<Rightarrow> bool \<Rightarrow> ConsoleLogger \<Rightarrow> ConsoleLogger" where
  "log_push i owns_lock s =
     (case cl_loggers s i of
        None \<Rightarrow> s
      | Some (True, m) \<Rightarrow> (enqueue m s)\<lparr>cl_loggers := (cl_loggers s)(i := None)\<rparr>
      | Some (False, m) \<Rightarrow>
          (let (ok, q) = mpsc_try_push owns_lock m (cl_queue s)
           in s\<lparr>cl_queue := q, cl_sent := (if ok then cl_sent s @ [m] else cl_sent s),
                cl_loggers := (cl_loggers s)(i := None)\<rparr>))"

text \<open>\<open>shutdown\<close>: lower the flag, push the empty message that wakes the console thread, join.\<close>

definition shutdown :: "ConsoleLogger \<Rightarrow> ConsoleLogger" where
  "shutdown s =
     (case cl_shutdown s of
        S_Idle \<Rightarrow> if \<not> cl_running s then s
                  else s\<lparr>cl_running := False, cl_stop := length (cl_sent s), cl_shutdown := S_Push\<rparr>
      | S_Push \<Rightarrow> (enqueue dummy_message s)\<lparr>cl_shutdown := S_Join\<rparr>
      | S_Join \<Rightarrow> if cl_pc s = C_Exit then s\<lparr>cl_shutdown := S_Idle, cl_initialized := False\<rparr> else s)"

text \<open>What the console thread reads from outside in a step.\<close>

record console_reads =
  cr_timed_out :: bool
  cr_winsize :: "(nat \<times> nat) option"
  cr_processed :: u64

definition visible :: "ConsoleMessage \<Rightarrow> bool" where
  "visible m \<longleftrightarrow> cm_message m ! 0 \<noteq> CHR 0x00"

definition print_line :: "ConsoleLogger \<Rightarrow> ConsoleLogger" where
  "print_line s = emit (Line (cm_category (cl_m s)) (cstr (cm_message (cl_m s)))) s"

definition resize :: "(nat \<times> nat) option \<Rightarrow> ConsoleLogger \<Rightarrow> ConsoleLogger" where
  "resize w s =
     (let s1 = update_terminal_size w s
      in if (cl_rows s1, cl_cols s1) \<noteq> cl_last s1
         then (emit (Control (esc @ ''[1;'' @ dec_string (cl_rows s1 - 2) @ ''r'')) s1)\<lparr>cl_last := (cl_rows s1, cl_cols s1)\<rparr>
         else s1)"

definition receive :: "ConsoleMessage option \<times> ConsoleMessage MpscQueue \<Rightarrow> ConsoleLogger \<Rightarrow> ConsoleLogger" where
  "receive r s = (case r of
       (None, q) \<Rightarrow> s\<lparr>cl_queue := q\<rparr>
     | (Some m, q) \<Rightarrow> s\<lparr>cl_queue := q, cl_m := m, cl_received := cl_received s @ [m]\<rparr>)"

definition draw :: "'d double_ops \<Rightarrow> u64 \<Rightarrow> ConsoleLogger \<Rightarrow> ConsoleLogger" where
  "draw d processed s =
     emit (Bar (draw_progress_bar d (cl_rows s) (cl_cols s) processed (cl_expected_messages s))) s"

definition run_loop :: "'d double_ops \<Rightarrow> console_reads \<Rightarrow> ConsoleLogger \<Rightarrow> ConsoleLogger" where
  "run_loop d rd s =
     (case cl_pc s of
        C_None \<Rightarrow> s
      | C_Start \<Rightarrow>
          (let s1 = update_terminal_size (cr_winsize rd) s;
               s2 = emit (Control (esc @ ''[?25l'' @ esc @ ''[2J'' @ esc @ ''[H'' @ esc @ ''[1;'' @
                      dec_string (cl_rows s1 - 2) @ ''r'')) s1
           in s2\<lparr>cl_configured := True, cl_last := (cl_rows s2, cl_cols s2), cl_m := dummy_message, cl_pc := C_Cond\<rparr>)
      | C_Cond \<Rightarrow> s\<lparr>cl_pc := (if cl_running s then C_Pop else C_Cond_Empty)\<rparr>
      | C_Cond_Empty \<Rightarrow> s\<lparr>cl_pc := (if \<not> mpsc_empty (cl_queue s) then C_Pop else C_Drain)\<rparr>
      | C_Pop \<Rightarrow>
          (case mpsc_pop_with_timeout (cl_running s) (cr_timed_out rd) (cl_queue s) of
             Blocked \<Rightarrow> s
           | Returned r \<Rightarrow>
               (let s1 = receive r s
                in s1\<lparr>cl_pc := (if fst r \<noteq> None \<and> visible (cl_m s1) then C_Print else C_Else)\<rparr>))
      | C_Print \<Rightarrow> (print_line (resize (cr_winsize rd) s))\<lparr>cl_pc := C_Draw\<rparr>
      | C_Else \<Rightarrow> s\<lparr>cl_pc := (if \<not> cl_running s then C_Else_Empty else C_Draw)\<rparr>
      | C_Else_Empty \<Rightarrow> s\<lparr>cl_pc := (if mpsc_empty (cl_queue s) then C_Drain else C_Draw)\<rparr>
      | C_Draw \<Rightarrow> (draw d (cr_processed rd) s)\<lparr>cl_pc := C_Cond\<rparr>
      | C_Drain \<Rightarrow>
          (let r = mpsc_try_pop (cl_queue s); s1 = receive r s
           in s1\<lparr>cl_pc := (if fst r = None then C_Final
                           else if visible (cl_m s1) then C_Drain_Print else C_Drain)\<rparr>)
      | C_Drain_Print \<Rightarrow> (print_line s)\<lparr>cl_pc := C_Drain\<rparr>
      | C_Final \<Rightarrow> (restore_terminal (draw d (cr_processed rd) s))\<lparr>cl_pc := C_Exit\<rparr>
      | C_Exit \<Rightarrow> s)"

text \<open>A run of the whole system: any sequence of steps of the threads.\<close>

datatype console_action =
    Initialize u64
  | Log_Begin nat bool ConsoleCategory string
  | Log_Push nat bool
  | Shutdown_Step
  | Console_Step console_reads

fun console_step :: "'d double_ops \<Rightarrow> console_action \<Rightarrow> ConsoleLogger \<Rightarrow> ConsoleLogger" where
  "console_step d (Initialize n) s = initialize n s"
| "console_step d (Log_Begin i blocking cat msg) s = log_begin i blocking cat msg s"
| "console_step d (Log_Push i owns_lock) s = log_push i owns_lock s"
| "console_step d Shutdown_Step s = shutdown s"
| "console_step d (Console_Step rd) s = run_loop d rd s"

definition console_run :: "'d double_ops \<Rightarrow> console_action list \<Rightarrow> ConsoleLogger" where
  "console_run d acts = fold (console_step d) acts console_init"

subsection \<open>Every message is printed once, in the order of the pushes\<close>

definition line_of :: "ConsoleMessage \<Rightarrow> console_chunk" where
  "line_of m = Line (cm_category m) (cstr (cm_message m))"

fun is_line :: "console_chunk \<Rightarrow> bool" where
  "is_line (Line _ _) = True"
| "is_line _ = False"

definition shown :: "ConsoleMessage list \<Rightarrow> console_chunk list" where
  "shown ms = map line_of (filter visible ms)"

definition held :: "ConsoleLogger \<Rightarrow> console_chunk list" where
  "held s = (if cl_pc s = C_Print \<or> cl_pc s = C_Drain_Print then [line_of (cl_m s)] else [])"

fun live_pc :: "console_pc \<Rightarrow> bool" where
  "live_pc pc = (pc \<in> {C_Start, C_Cond, C_Pop, C_Print, C_Else, C_Draw})"

definition console_inv :: "ConsoleLogger \<Rightarrow> bool" where
  "console_inv s \<longleftrightarrow>
     mpsc.accounts (cl_sent s) (cl_received s) (cl_queue s) \<and>
     shown (cl_received s) = filter is_line (cl_out s) @ held s \<and>
     (cl_running s \<longrightarrow> live_pc (cl_pc s)) \<and>
     (\<not> cl_initialized s \<longrightarrow> cl_pc s = C_None \<or> cl_pc s = C_Exit) \<and>
     cl_stop s \<le> length (cl_sent s) \<and>
     (cl_pc s = C_Final \<or> cl_pc s = C_Exit \<longrightarrow> cl_stop s \<le> length (cl_received s))"

lemma shown_append [simp]: "shown (xs @ ys) = shown xs @ shown ys"
  by (simp add: shown_def)

lemma shown_single [simp]: "shown [m] = (if visible m then [line_of m] else [])"
  by (simp add: shown_def)

lemma shown_Nil [simp]: "shown [] = []"
  by (simp add: shown_def)

lemma console_init_inv: "console_inv console_init"
  by (simp add: console_inv_def console_init_def mpsc.accounts_def mpsc_init_def held_def)

lemma dummy_invisible [simp]: "\<not> visible dummy_message"
  by (simp add: visible_def dummy_message_def)

lemma initialize_inv: "console_inv s \<Longrightarrow> console_inv (initialize n s)"
  by (auto simp: console_inv_def initialize_def held_def)

lemma log_begin_inv: "console_inv s \<Longrightarrow> console_inv (log_begin i b cat msg s)"
  by (auto simp: console_inv_def log_begin_def held_def emit_def)

lemma enqueue_inv: "console_inv s \<Longrightarrow> console_inv (enqueue m s)"
  using mpsc.accounts_send [of "cl_sent s" "cl_received s" "cl_queue s" m]
  by (auto simp: console_inv_def enqueue_def held_def)

lemma console_inv_loggers: "console_inv (s\<lparr>cl_loggers := l\<rparr>) = console_inv s"
  by (simp add: console_inv_def held_def)

lemma log_push_inv:
  assumes "console_inv s"
  shows "console_inv (log_push i owns s)"
proof -
  have "console_inv ((enqueue m s)\<lparr>cl_loggers := l\<rparr>)" for m l
    using enqueue_inv [OF assms] by (simp add: console_inv_loggers)
  moreover have "s\<lparr>cl_queue := cl_queue s\<lparr>m_queue := m_queue (cl_queue s) @ [m]\<rparr>, cl_sent := cl_sent s @ [m],
      cl_loggers := l\<rparr> = (enqueue m s)\<lparr>cl_loggers := l\<rparr>" for m l
    by (simp add: enqueue_def mpsc_push_def)
  ultimately show ?thesis
    using assms
    by (auto simp: log_push_def mpsc_try_push_def console_inv_loggers split: option.split bool.split)
qed

lemma console_inv_shutdown: "console_inv (s\<lparr>cl_shutdown := p\<rparr>) = console_inv s"
  by (simp add: console_inv_def held_def)

lemma shutdown_inv:
  assumes "console_inv s"
  shows "console_inv (shutdown s)"
proof (cases "cl_shutdown s")
  case S_Push
  then show ?thesis using enqueue_inv [OF assms] by (simp add: shutdown_def console_inv_shutdown)
qed (use assms in \<open>auto simp: shutdown_def console_inv_def held_def\<close>)

lemma resize_frame [simp]:
  "cl_queue (resize w s) = cl_queue s" "cl_sent (resize w s) = cl_sent s" "cl_received (resize w s) = cl_received s"
  "cl_running (resize w s) = cl_running s" "cl_initialized (resize w s) = cl_initialized s" "cl_stop (resize w s) = cl_stop s"
  "cl_m (resize w s) = cl_m s" "filter is_line (cl_out (resize w s)) = filter is_line (cl_out s)"
  by (auto simp: resize_def update_terminal_size_def emit_def Let_def split: option.split prod.split)

lemma receive_spec:
  assumes "console_inv s" "held s = []" "r = mpsc_try_pop (cl_queue s)"
  shows "mpsc.accounts (cl_sent (receive r s)) (cl_received (receive r s)) (cl_queue (receive r s)) \<and>
    shown (cl_received (receive r s)) = filter is_line (cl_out s) @
      (if fst r \<noteq> None \<and> visible (cl_m (receive r s)) then [line_of (cl_m (receive r s))] else []) \<and>
    (fst r = None \<longrightarrow> cl_received (receive r s) = cl_sent s)"
proof (cases r)
  case (Pair x q)
  have ac: "mpsc.accounts (cl_sent s) (cl_received s) (cl_queue s)" using assms by (simp add: console_inv_def)
  have pop: "mpsc_try_pop (cl_queue s) = (x, q)" using assms(3) Pair by simp
  have sh: "shown (cl_received s) = filter is_line (cl_out s)" using assms(1,2) by (simp add: console_inv_def)
  show ?thesis
  proof (cases x)
    case None
    then show ?thesis
      using mpsc.accounts_receive [OF ac pop] mpsc.accounts_empty [OF ac, of q] pop sh Pair
      by (simp add: receive_def)
  next
    case (Some m)
    then show ?thesis using mpsc.accounts_receive [OF ac pop] sh Pair by (simp add: receive_def)
  qed
qed

lemma receive_frame [simp]:
  "cl_running (receive r s) = cl_running s" "cl_initialized (receive r s) = cl_initialized s"
  "cl_stop (receive r s) = cl_stop s" "cl_sent (receive r s) = cl_sent s" "cl_out (receive r s) = cl_out s"
  by (auto simp: receive_def split: prod.split option.split)

lemma restore_frame [simp]:
  "cl_queue (restore_terminal s) = cl_queue s" "cl_sent (restore_terminal s) = cl_sent s"
  "cl_received (restore_terminal s) = cl_received s" "cl_running (restore_terminal s) = cl_running s"
  "cl_initialized (restore_terminal s) = cl_initialized s" "cl_stop (restore_terminal s) = cl_stop s"
  "filter is_line (cl_out (restore_terminal s)) = filter is_line (cl_out s)"
  by (auto simp: restore_terminal_def emit_def)

lemma console_pop_inv:
  assumes "console_inv s" "cl_pc s = C_Pop"
  shows "console_inv (run_loop d rd s)"
proof (cases "mpsc_pop_with_timeout (cl_running s) (cr_timed_out rd) (cl_queue s)")
  case Blocked
  with assms show ?thesis by (simp add: run_loop_def)
next
  case (Returned r)
  note r = mpsc_pop_with_timeout_try_pop [OF Returned]
  have "held s = []" using assms by (simp add: held_def)
  from receive_spec [OF assms(1) this r] assms Returned show ?thesis
    by (auto simp: run_loop_def Let_def console_inv_def held_def)
qed

lemma console_drain_inv:
  assumes "console_inv s" "cl_pc s = C_Drain"
  shows "console_inv (run_loop d rd s)"
proof -
  have "held s = []" using assms by (simp add: held_def)
  from receive_spec [OF assms(1) this refl] assms show ?thesis
    by (auto simp: run_loop_def Let_def console_inv_def held_def)
qed

lemma run_loop_inv:
  assumes "console_inv s"
  shows "console_inv (run_loop d rd s)"
proof (cases "cl_pc s")
  case C_Pop
  with assms show ?thesis by (rule console_pop_inv)
next
  case C_Drain
  with assms show ?thesis by (rule console_drain_inv)
qed (use assms in \<open>auto simp: run_loop_def console_inv_def held_def emit_def update_terminal_size_def Let_def
    print_line_def draw_def line_of_def split: option.split prod.split\<close>)

lemma console_step_inv: "console_inv s \<Longrightarrow> console_inv (console_step d a s)"
  by (cases a) (simp_all add: initialize_inv log_begin_inv log_push_inv shutdown_inv run_loop_inv)

lemma console_fold_inv: "console_inv s \<Longrightarrow> console_inv (fold (console_step d) acts s)"
  by (induction acts arbitrary: s) (simp_all add: console_step_inv)

lemma console_run_inv: "console_inv (console_run d acts)"
  unfolding console_run_def by (rule console_fold_inv [OF console_init_inv])

lemma console_message_line: "line_of (console_message cat msg) = Line cat (cstr (take 255 msg))"
  by (simp add: line_of_def console_message_def Let_def cstr_NUL min_def)

lemma console_message_size: "length (cm_message (console_message cat msg)) = 256"
  by (simp add: console_message_def Let_def min_def)

text \<open>
  C32. In every interleaving of the threads, the visible messages pushed to the console queue are the
  lines on the terminal, then the one the console thread holds, then those still queued: each is
  printed at most once, in the order of the pushes, and none is dropped. When the console thread has
  ended, every message pushed before \<open>shutdown\<close> lowered the flag is on the terminal.
\<close>

theorem console_prints_in_order:
  "let s = console_run d acts
   in shown (cl_sent s) = filter is_line (cl_out s) @ held s @ shown (m_queue (cl_queue s)) \<and>
      (cl_pc s = C_Exit \<longrightarrow> (\<exists>rest. filter is_line (cl_out s) = shown (take (cl_stop s) (cl_sent s)) @ rest))"
proof -
  define s where "s = console_run d acts"
  have inv: "console_inv s" unfolding s_def by (rule console_run_inv)
  then have sent: "cl_sent s = cl_received s @ m_queue (cl_queue s)"
    and recv: "shown (cl_received s) = filter is_line (cl_out s) @ held s"
    by (auto simp: console_inv_def mpsc.accounts_def)
  have "\<exists>rest. filter is_line (cl_out s) = shown (take (cl_stop s) (cl_sent s)) @ rest" if "cl_pc s = C_Exit"
  proof -
    have "held s = []" "cl_stop s \<le> length (cl_received s)"
      using that inv by (auto simp: held_def console_inv_def)
    then have "filter is_line (cl_out s) = shown (take (cl_stop s) (cl_sent s) @ drop (cl_stop s) (cl_received s))"
      using recv sent by simp
    then show ?thesis by simp
  qed
  moreover have "shown (cl_sent s) = filter is_line (cl_out s) @ held s @ shown (m_queue (cl_queue s))"
    using recv by (simp add: sent)
  ultimately show ?thesis by (simp add: s_def [symmetric] Let_def)
qed

subsection \<open>The console thread ends after a shutdown\<close>

text \<open>
  Once the flag is down, a step of the console thread brings it closer to its end: a popped message
  pays for the steps of the iteration that pops it.
\<close>

fun steps_left :: "console_pc \<Rightarrow> nat \<Rightarrow> nat" where
  "steps_left pc n =
     (case pc of C_None \<Rightarrow> 0 | C_Exit \<Rightarrow> 0 | C_Final \<Rightarrow> 1 | C_Drain \<Rightarrow> 12 * n + 2 | C_Drain_Print \<Rightarrow> 12 * n + 3
      | C_Cond_Empty \<Rightarrow> (if n = 0 then 3 else 12 * n + 7)
      | C_Cond \<Rightarrow> (if n = 0 then 4 else 12 * n + 8)
      | C_Draw \<Rightarrow> (if n = 0 then 5 else 12 * n + 9)
      | C_Start \<Rightarrow> (if n = 0 then 5 else 12 * n + 9)
      | C_Print \<Rightarrow> (if n = 0 then 6 else 12 * n + 10)
      | C_Pop \<Rightarrow> (if n = 0 then 5 else 12 * n + 6)
      | C_Else_Empty \<Rightarrow> (if n = 0 then 3 else 12 * n + 10)
      | C_Else \<Rightarrow> (if n = 0 then 4 else 12 * n + 11))"

definition console_left :: "ConsoleLogger \<Rightarrow> nat" where
  "console_left s = steps_left (cl_pc s) (mpsc_size (cl_queue s))"

lemma run_loop_frame:
  "cl_running (run_loop d rd s) = cl_running s" "cl_sent (run_loop d rd s) = cl_sent s"
  "cl_stop (run_loop d rd s) = cl_stop s"
  by (auto simp: run_loop_def receive_def resize_def update_terminal_size_def emit_def print_line_def draw_def
      restore_terminal_def Let_def split: console_pc.split waiting.split option.split prod.split)

lemma receive_size:
  assumes "r = mpsc_try_pop (cl_queue s)"
  shows "mpsc_size (cl_queue (receive r s)) = mpsc_size (cl_queue s) - 1"
    "fst r = None \<longleftrightarrow> mpsc_size (cl_queue s) = 0"
  using assms by (auto simp: receive_def mpsc_try_pop_def mpsc_size_def split: list.split)

lemma run_loop_started: "cl_pc s \<noteq> C_None \<Longrightarrow> cl_pc (run_loop d rd s) \<noteq> C_None"
  by (cases "cl_pc s") (auto simp: run_loop_def Let_def split: waiting.split)

lemma run_loop_advances:
  assumes "\<not> cl_running s" "cl_pc s \<noteq> C_None" "cl_pc s \<noteq> C_Exit"
  shows "console_left (run_loop d rd s) < console_left s"
proof (cases "cl_pc s")
  case C_Pop
  obtain r where r: "mpsc_pop_with_timeout (cl_running s) (cr_timed_out rd) (cl_queue s) = Returned r"
    using mpsc_pop_with_timeout_blocked_iff [of "cl_running s" "cr_timed_out rd" "cl_queue s"] assms(1)
    by (cases "mpsc_pop_with_timeout (cl_running s) (cr_timed_out rd) (cl_queue s)") auto
  from receive_size [OF mpsc_pop_with_timeout_try_pop [OF r]] r C_Pop show ?thesis
    by (auto simp: run_loop_def console_left_def Let_def)
next
  case C_Drain
  with receive_size [OF refl, of s] show ?thesis by (auto simp: run_loop_def console_left_def Let_def)
qed (use assms in \<open>auto simp: run_loop_def console_left_def Let_def mpsc_empty_def mpsc_size_def print_line_def emit_def
    draw_def update_terminal_size_def split: option.split prod.split\<close>)

lemma console_left_bound: "console_left s \<le> 12 * mpsc_size (cl_queue s) + 11"
  by (cases "cl_pc s") (simp_all add: console_left_def)

lemma console_left_zero: "console_left s = 0 \<Longrightarrow> cl_pc s = C_None \<or> cl_pc s = C_Exit"
  by (cases "cl_pc s") (simp_all add: console_left_def split: if_splits)

lemma console_thread_ends:
  assumes "\<not> cl_running s" "cl_pc s \<noteq> C_None" "console_left s \<le> length rds"
  shows "cl_pc (fold (run_loop d) rds s) = C_Exit"
  using assms
proof (induction rds arbitrary: s)
  case Nil
  then show ?case using console_left_zero [of s] by simp
next
  case (Cons rd rds)
  show ?case
  proof (cases "cl_pc s = C_Exit")
    case True
    have "fold (run_loop d) xs s = s" for xs by (induction xs) (simp_all add: run_loop_def True)
    from this [of "rd # rds"] True show ?thesis by (simp only:)
  next
    case False
    have "console_left (run_loop d rd s) \<le> length rds"
      using run_loop_advances [OF Cons.prems(1,2) False, of d rd] Cons.prems(3) by simp
    from Cons.IH [OF _ _ this] Cons.prems run_loop_started [of s d rd] show ?thesis
      by (simp add: run_loop_frame)
  qed
qed

definition drained :: "ConsoleLogger \<Rightarrow> bool" where
  "drained s \<longleftrightarrow> (cl_pc s = C_Final \<or> cl_pc s = C_Exit \<longrightarrow> m_queue (cl_queue s) = [])"

lemma run_loop_drained: "drained s \<Longrightarrow> drained (run_loop d rd s)"
  by (cases "cl_pc s")
    (auto simp: drained_def run_loop_def Let_def receive_def mpsc_try_pop_def draw_def emit_def print_line_def
      split: waiting.split list.splits)

lemma run_loop_fold_keeps:
  assumes "console_inv s" "drained s"
  shows "console_inv (fold (run_loop d) rds s) \<and> drained (fold (run_loop d) rds s) \<and>
    cl_sent (fold (run_loop d) rds s) = cl_sent s"
  using assms
  by (induction rds arbitrary: s) (simp_all add: run_loop_inv run_loop_drained run_loop_frame)

text \<open>
  C31. Shutting down drains the console: from any state the threads can reach in which \<open>m_running\<close> is
  down and the console thread has not yet left its loops, at most twelve steps for each queued message
  and eleven more bring that thread to its end, with the queue empty and every visible message ever
  pushed printed exactly once, in order.
\<close>

theorem console_shutdown_drains:
  assumes "s = console_run d acts" "\<not> cl_running s"
    and "cl_pc s \<noteq> C_None" "cl_pc s \<noteq> C_Final" "cl_pc s \<noteq> C_Exit"
    and "12 * mpsc_size (cl_queue s) + 11 \<le> length rds"
  shows "cl_pc (fold (run_loop d) rds s) = C_Exit \<and> mpsc_empty (cl_queue (fold (run_loop d) rds s)) \<and>
    filter is_line (cl_out (fold (run_loop d) rds s)) = shown (cl_sent s)"
proof -
  define s' where "s' = fold (run_loop d) rds s"
  have "drained s" using assms(4,5) by (simp add: drained_def)
  with console_run_inv [of d acts] assms(1) run_loop_fold_keeps [of s d rds]
  have inv: "console_inv s'" "drained s'" "cl_sent s' = cl_sent s" by (simp_all add: s'_def)
  have "console_left s \<le> length rds" using console_left_bound [of s] assms(6) by linarith
  from console_thread_ends [OF assms(2,3) this] have e: "cl_pc s' = C_Exit" by (simp add: s'_def)
  then have q: "m_queue (cl_queue s') = []" using inv(2) by (simp add: drained_def)
  then have "cl_received s' = cl_sent s" using inv by (simp add: console_inv_def mpsc.accounts_def)
  with inv(1) e have "filter is_line (cl_out s') = shown (cl_sent s)" by (simp add: console_inv_def held_def)
  with e q show ?thesis by (simp add: s'_def mpsc_empty_def)
qed

definition sample_doubles :: "nat double_ops" where
  "sample_doubles = \<lparr>d_ratio = (\<lambda>a b. 100 * unat a div unat b), d_zero = 0, d_one = 100, d_less = (<),
     d_percent = dec_string, d_trunc_mul = (\<lambda>p w. int p * w div 100)\<rparr>"

definition sample_actions :: "console_action list" where
  "sample_actions = [Initialize 2, Console_Step \<lparr>cr_timed_out = False, cr_winsize = Some (3, 40), cr_processed = 0\<rparr>,
     Log_Begin 0 True WARN_MSG ''one'', Log_Begin 1 False INFO_MSG ''two'', Log_Push 1 True, Shutdown_Step, Log_Push 0 True]"

definition sample_reads :: console_reads where
  "sample_reads = \<lparr>cr_timed_out = False, cr_winsize = None, cr_processed = 2\<rparr>"

lemmas console_eval = console_run_def console_init_def initialize_def run_loop_def log_begin_def log_push_def
  shutdown_def enqueue_def mpsc_push_def mpsc_try_push_def update_terminal_size_def emit_def mpsc_init_def

lemma sample_console:
  "cl_running (console_run sample_doubles sample_actions) = False"
  "cl_pc (console_run sample_doubles sample_actions) = C_Cond"
  "cl_sent (console_run sample_doubles sample_actions) = [console_message INFO_MSG ''two'', console_message WARN_MSG ''one'']"
  "mpsc_size (cl_queue (console_run sample_doubles sample_actions)) = 2"
  by (simp_all add: sample_actions_def console_eval mpsc_size_def)

lemma console_shutdown_drains_witness:
  "cl_pc (fold (run_loop sample_doubles) (replicate 35 sample_reads) (console_run sample_doubles sample_actions)) = C_Exit \<and>
   filter is_line (cl_out (fold (run_loop sample_doubles) (replicate 35 sample_reads) (console_run sample_doubles sample_actions))) =
     [Line INFO_MSG ''two'', Line WARN_MSG ''one'']"
proof -
  have "shown (cl_sent (console_run sample_doubles sample_actions)) = [Line INFO_MSG ''two'', Line WARN_MSG ''one'']"
    by (simp add: sample_console shown_def console_message_line cstr_def) (simp add: visible_def console_message_def)
  with console_shutdown_drains [OF refl, of sample_doubles sample_actions "replicate 35 sample_reads"] show ?thesis
    by (simp add: sample_console del: fold_replicate)
qed

lemma console_run_ticks:
  "console_run d (acts @ map Console_Step rds) = fold (run_loop d) rds (console_run d acts)"
proof -
  have "fold (console_step d) (map Console_Step rds) s = fold (run_loop d) rds s" for s
    by (induction rds arbitrary: s) simp_all
  then show ?thesis by (simp add: console_run_def)
qed

lemma console_prints_in_order_witness:
  "\<exists>rest. filter is_line (cl_out (console_run sample_doubles (sample_actions @ map Console_Step (replicate 35 sample_reads)))) =
     Line INFO_MSG ''two'' # rest"
proof -
  let ?s = "console_run sample_doubles sample_actions" and ?rds = "replicate 35 sample_reads"
  define s where "s = fold (run_loop sample_doubles) ?rds ?s"
  have "cl_pc s = C_Exit"
    unfolding s_def
    by (rule console_thread_ends) (use console_left_bound [of ?s] in \<open>simp_all add: sample_console\<close>)
  moreover have "cl_stop (fold (run_loop sample_doubles) rds t) = cl_stop t \<and> cl_sent (fold (run_loop sample_doubles) rds t) = cl_sent t"
    for rds t by (induction rds arbitrary: t) (simp_all add: run_loop_frame)
  then have "cl_stop s = 1 \<and> cl_sent s = [console_message INFO_MSG ''two'', console_message WARN_MSG ''one'']"
    unfolding s_def by (simp add: sample_console del: fold_replicate)
      (simp add: sample_actions_def console_eval)
  moreover have "shown [console_message INFO_MSG ''two''] = [Line INFO_MSG ''two'']"
    by (simp add: console_message_line cstr_def) (simp add: visible_def console_message_def)
  ultimately show ?thesis
    using console_prints_in_order [of sample_doubles "sample_actions @ map Console_Step ?rds"]
    by (simp add: console_run_ticks s_def [symmetric] Let_def del: map_replicate fold_replicate)
qed

end
