(* ===== verification/Rx_Filter.thy ===== *)
theory Rx_Filter
  imports Hft_Prelude
begin

text \<open>
  The Ethernet, IP and UDP header stripping of the two zero-copy receivers,
  \<open>PacketMmapRxConsumer::run\<close> (\<open>src/networking/RxRingConsumer.cpp\<close>) and \<open>AfXdpRxConsumer::run\<close>
  (\<open>src/networking/AfXdpRxConsumer.cpp\<close>). A frame is a place in a memory of bytes; the filter reads the
  headers where the structure layouts put them, with no other knowledge of where the frame ends, and
  gives the address and length of the payload.

  Shown here: what the filter accepts; that it recovers the payload of every well-formed datagram,
  with any IP header length; that it reads and returns only bytes near the start of the frame, so it
  stays inside a 2048-byte slot whatever the bytes are; and that the payload may pass the end of the
  captured data, because the length in the UDP header is not compared with it.
\<close>

subsection \<open>Memory\<close>

type_synonym memory = "nat \<Rightarrow> char"

definition byte_at :: "memory \<Rightarrow> nat \<Rightarrow> nat" where
  "byte_at mem a = of_char (mem a)"

text \<open>A 16-bit field in network byte order, as \<open>ntohs\<close> gives it.\<close>

definition net16 :: "memory \<Rightarrow> nat \<Rightarrow> nat" where
  "net16 mem a = 256 * byte_at mem a + byte_at mem (a + 1)"

definition bytes_at :: "memory \<Rightarrow> nat \<Rightarrow> nat \<Rightarrow> string" where
  "bytes_at mem a n = map mem [a..<a + n]"

subsection \<open>Header stripping\<close>

text \<open>Sizes of \<open>ethhdr\<close>, \<open>iphdr\<close> and \<open>udphdr\<close>, the protocol numbers, and \<open>MAX_PAYLOAD_LEN\<close>.\<close>

definition sizeof_ethhdr :: nat where "sizeof_ethhdr = 14"
definition sizeof_iphdr :: nat where "sizeof_iphdr = 20"
definition sizeof_udphdr :: nat where "sizeof_udphdr = 8"
definition ETH_P_IP :: nat where "ETH_P_IP = 0x0800"
definition IPPROTO_UDP :: nat where "IPPROTO_UDP = 17"
definition MAX_PAYLOAD_LEN :: nat where "MAX_PAYLOAD_LEN = 512"

lemmas header_sizes = sizeof_ethhdr_def sizeof_iphdr_def sizeof_udphdr_def ETH_P_IP_def IPPROTO_UDP_def
  MAX_PAYLOAD_LEN_def

text \<open>
  The nested tests on the frame at \<open>raw_frame\<close>. The subtraction of the header size is in 64 bits and cut
  to 16 by the cast, so a UDP length below eight wraps to a large payload length.
\<close>

definition strip_headers :: "nat \<Rightarrow> memory \<Rightarrow> nat \<Rightarrow> (nat \<times> u16) option" where
  "strip_headers filter_port mem raw_frame =
     (if net16 mem (raw_frame + 12) = ETH_P_IP
      then let ip = raw_frame + sizeof_ethhdr
           in if byte_at mem (ip + 9) = IPPROTO_UDP
              then let ip_hdr_len = (byte_at mem ip mod 16) * 4;
                       udp = raw_frame + sizeof_ethhdr + ip_hdr_len
                   in if net16 mem (udp + 2) = filter_port
                      then let payload = udp + sizeof_udphdr;
                               payload_len = (of_nat (net16 mem (udp + 4)) - of_nat sizeof_udphdr :: u16)
                           in if 0 < payload_len \<and> unat payload_len \<le> MAX_PAYLOAD_LEN
                              then Some (payload, payload_len) else None
                      else None
              else None
      else None)"

text \<open>The AF\_XDP receiver first compares the length of the descriptor with the three smallest headers.\<close>

definition strip_headers_xdp :: "nat \<Rightarrow> memory \<Rightarrow> nat \<Rightarrow> nat \<Rightarrow> (nat \<times> u16) option" where
  "strip_headers_xdp filter_port mem raw_frame len =
     (if len \<ge> sizeof_ethhdr + sizeof_iphdr + sizeof_udphdr then strip_headers filter_port mem raw_frame else None)"

subsection \<open>Bounds\<close>

lemma byte_at_bound: "byte_at mem a < 256"
  by (simp add: byte_at_def)

text \<open>Every byte the filter reads, and every byte of the payload it returns, lies in the 594 bytes from the frame's start.\<close>

lemma strip_headers_bounds:
  assumes "strip_headers port mem raw = Some (payload, len)"
  shows "raw + 22 \<le> payload \<and> 0 < unat len \<and> unat len \<le> 512 \<and> payload + unat len \<le> raw + 594"
proof -
  define h where "h = byte_at mem (raw + 14) mod 16"
  have "h < 16" by (simp add: h_def)
  moreover have "payload = raw + 14 + h * 4 + 8" "0 < len" "unat len \<le> 512"
    using assms by (auto simp: strip_headers_def Let_def header_sizes h_def add.assoc split: if_splits)
  ultimately show ?thesis by (simp add: unat_gt_0 word_gt_0)
qed

lemma strip_headers_local:
  assumes "\<And>a. raw \<le> a \<Longrightarrow> a < raw + 594 \<Longrightarrow> mem a = mem' a"
  shows "strip_headers port mem raw = strip_headers port mem' raw"
proof -
  have b: "byte_at mem (raw + k) = byte_at mem' (raw + k)" if "k < 594" for k
    using assms that by (simp add: byte_at_def)
  have n: "net16 mem (raw + k) = net16 mem' (raw + k)" if "k < 593" for k
    using b [of k] b [of "k + 1"] that by (simp add: net16_def add.assoc)
  define h where "h = byte_at mem' (raw + 14) mod 16"
  have "h < 16" by (simp add: h_def)
  then have "net16 mem (raw + 14 + h * 4 + 2) = net16 mem' (raw + 14 + h * 4 + 2)"
    and "net16 mem (raw + 14 + h * 4 + 4) = net16 mem' (raw + 14 + h * 4 + 4)"
    using n [of "14 + h * 4 + 2"] n [of "14 + h * 4 + 4"] by (simp_all only: add.assoc)
  moreover have "raw + 14 + 9 = raw + 23" by simp
  ultimately show ?thesis
    using b [of 14] b [of 23] n [of 12]
    by (simp only: strip_headers_def Let_def header_sizes h_def [symmetric] if_True if_False simp_thms)
qed

lemma strip_headers_xdp_None: "len < 42 \<Longrightarrow> strip_headers_xdp port mem raw len = None"
  by (simp add: strip_headers_xdp_def header_sizes)

subsection \<open>Well-formed datagrams\<close>

definition net16_bytes :: "nat \<Rightarrow> string" where
  "net16_bytes n = [char_of (n div 256), char_of n]"

text \<open>A UDP datagram on Ethernet: addresses, type, an IP header of \<open>ihl\<close> words, UDP header and payload.\<close>

definition udp_frame :: "string \<Rightarrow> string \<Rightarrow> string \<Rightarrow> nat \<Rightarrow> string \<Rightarrow> string \<Rightarrow> string" where
  "udp_frame macs iph src port csum payload =
     macs @ net16_bytes ETH_P_IP @ iph @ src @ net16_bytes port @ net16_bytes (8 + length payload) @ csum @ payload"

definition ip_header_ok :: "string \<Rightarrow> bool" where
  "ip_header_ok iph \<longleftrightarrow> 20 \<le> length iph \<and> length iph = 4 * (of_char (iph ! 0) mod 16) \<and> of_char (iph ! 9) = IPPROTO_UDP"

lemma bytes_at_nth: "\<lbrakk>bytes_at mem a n = xs; i < n\<rbrakk> \<Longrightarrow> mem (a + i) = xs ! i"
  by (auto simp: bytes_at_def)

lemma bytes_at_drop: "\<lbrakk>bytes_at mem a n = xs; k \<le> n\<rbrakk> \<Longrightarrow> bytes_at mem (a + k) (n - k) = drop k xs"
  by (auto simp: bytes_at_def drop_map)

lemma net16_of_bytes:
  assumes "bytes_at mem a (length f) = f" "f = xs @ net16_bytes v @ ys" "v < 65536" "k = length xs"
  shows "net16 mem (a + k) = v"
proof -
  have "mem (a + k) = char_of (v div 256)" "mem (a + (k + 1)) = char_of v"
    using bytes_at_nth [OF assms(1), of k] bytes_at_nth [OF assms(1), of "k + 1"]
    by (simp_all add: assms(2,4) net16_bytes_def nth_append)
  moreover have "v div 256 < 256" using assms(3) by simp
  ultimately show ?thesis by (simp add: net16_def byte_at_def add.assoc)
qed

lemma strip_headers_frame:
  assumes "bytes_at mem raw (length f) = f" "f = udp_frame macs iph src port csum payload"
    and "length macs = 12" "ip_header_ok iph" "length src = 2" "length csum = 2"
    and "0 < length payload" "length payload \<le> MAX_PAYLOAD_LEN" "port < 65536"
  shows "strip_headers port mem raw = Some (raw + 22 + length iph, of_nat (length payload)) \<and>
    bytes_at mem (raw + 22 + length iph) (length payload) = payload"
proof -
  let ?eth = "macs @ net16_bytes ETH_P_IP"
  have f: "f = macs @ net16_bytes ETH_P_IP @ iph @ src @ net16_bytes port @ net16_bytes (8 + length payload) @ csum @ payload"
    using assms(2) by (simp add: udp_frame_def)
  have len: "length f = 22 + length iph + length payload" using f assms(3,5,6) by (simp add: net16_bytes_def)
  have iph: "20 \<le> length iph" "length iph = 4 * (of_char (iph ! 0) mod 16)" "of_char (iph ! 9) = IPPROTO_UDP"
    using assms(4) by (auto simp: ip_header_ok_def)
  have ethtype: "net16 mem (raw + 12) = ETH_P_IP"
    using net16_of_bytes [OF assms(1) f, of 12] assms(3) by (simp add: ETH_P_IP_def)
  have dest: "net16 mem (raw + (14 + length iph + 2)) = port"
    by (rule net16_of_bytes [OF assms(1), where xs = "?eth @ iph @ src"])
      (use f assms(3,5,9) in \<open>simp_all add: net16_bytes_def\<close>)
  have ulen: "net16 mem (raw + (14 + length iph + 4)) = 8 + length payload"
    by (rule net16_of_bytes [OF assms(1), where xs = "?eth @ iph @ src @ net16_bytes port"])
      (use f assms(3,5,8) in \<open>simp_all add: net16_bytes_def header_sizes\<close>)
  have ip: "mem (raw + 14 + i) = iph ! i" if "i < length iph" for i
    using bytes_at_nth [OF assms(1), of "14 + i"] that len assms(3)
    by (simp add: f net16_bytes_def nth_append add.assoc)
  have "bytes_at mem (raw + (22 + length iph)) (length payload) = payload"
  proof -
    let ?hdr = "?eth @ iph @ src @ net16_bytes port @ net16_bytes (8 + length payload) @ csum"
    have "f = ?hdr @ payload" by (simp add: f)
    moreover have "length ?hdr = 22 + length iph" using assms(3,5,6) by (simp add: net16_bytes_def)
    ultimately have "drop (22 + length iph) f = payload" by (metis append_eq_conv_conj)
    then show ?thesis using bytes_at_drop [OF assms(1), of "22 + length iph"] len by simp
  qed
  moreover have "byte_at mem (raw + 14 + 9) = IPPROTO_UDP" "byte_at mem (raw + 14) mod 16 * 4 = length iph"
    using ip [of 9] ip [of 0] iph by (auto simp: byte_at_def)
  moreover have "raw + 14 + length iph + 2 = raw + (14 + length iph + 2)" "raw + 14 + length iph + 4 = raw + (14 + length iph + 4)"
    "raw + 22 + length iph = raw + (22 + length iph)" "raw + 14 + length iph + 8 = raw + (22 + length iph)"
    by simp_all
  moreover have "(of_nat (8 + length payload) - of_nat 8 :: u16) = of_nat (length payload)" by simp
  moreover have "unat (of_nat (length payload) :: u16) = length payload"
    using assms(8) by (simp add: header_sizes unat_of_nat take_bit_nat_eq_self)
  moreover from this have "0 < (of_nat (length payload) :: u16)" using assms(7) by (metis unat_0 word_gt_0 less_irrefl)
  ultimately show ?thesis
    using ethtype dest ulen assms(8)
    unfolding strip_headers_def Let_def sizeof_ethhdr_def sizeof_udphdr_def by (simp only: if_True simp_thms)
qed

text \<open>
  C16. Both receivers recover the payload of every well-formed datagram for their port with a payload of 1 to 512 bytes: whatever
  the addresses, the IP header length (20 to 60 bytes) with its options, the source port and the
  checksum, the filter gives the address just behind the UDP header (22 bytes and the IP header behind the start of the frame)
  and the length of the payload, and the bytes there are the payload.
\<close>

theorem rx_recovers_payload:
  assumes "bytes_at mem raw (length f) = f" "f = udp_frame macs iph src port csum payload"
    and "length macs = 12" "ip_header_ok iph" "length src = 2" "length csum = 2"
    and "0 < length payload" "length payload \<le> MAX_PAYLOAD_LEN" "port < 65536"
  shows "strip_headers port mem raw = Some (raw + 22 + length iph, of_nat (length payload)) \<and>
    strip_headers_xdp port mem raw (length f) = Some (raw + 22 + length iph, of_nat (length payload)) \<and>
    bytes_at mem (raw + 22 + length iph) (length payload) = payload"
proof -
  have "42 \<le> length f"
    using assms(2-7) by (simp add: udp_frame_def net16_bytes_def ip_header_ok_def)
  then show ?thesis
    using strip_headers_frame [OF assms] by (simp add: strip_headers_xdp_def header_sizes)
qed

definition sample_frame :: string where
  "sample_frame = udp_frame (replicate 12 (CHR 0x02))
     (CHR 0x45 # replicate 8 (CHR 0x00) @ CHR 0x11 # replicate 10 (CHR 0x00)) [CHR 0x00, CHR 0x01] 8888
     [CHR 0x00, CHR 0x00] ''34=7''"

lemma rx_recovers_payload_witness:
  "strip_headers 8888 (\<lambda>a. sample_frame ! a) 0 = Some (42, 4) \<and>
    strip_headers_xdp 8888 (\<lambda>a. sample_frame ! a) 0 (length sample_frame) = Some (42, 4) \<and>
    bytes_at (\<lambda>a. sample_frame ! a) 42 4 = ''34=7''"
  using rx_recovers_payload [OF _ sample_frame_def, of "\<lambda>a. sample_frame ! a" 0]
  by (simp add: bytes_at_def map_nth ip_header_ok_def header_sizes nth_append)

text \<open>
  Whatever bytes the kernel left in the slot, a frame that starts at most 1454 bytes into its
  2048-byte slot is filtered without a look outside the slot: the outcome is a function of the slot's
  bytes, and an accepted payload has 1 to 512 bytes, all of them inside the slot.
\<close>

theorem rx_filter_in_slot:
  assumes "tp_mac \<le> 1454"
    and "\<And>a. slot \<le> a \<Longrightarrow> a < slot + 2048 \<Longrightarrow> mem a = mem' a"
  shows "strip_headers port mem (slot + tp_mac) = strip_headers port mem' (slot + tp_mac) \<and>
    (\<forall>a len. strip_headers port mem (slot + tp_mac) = Some (a, len) \<longrightarrow>
       0 < unat len \<and> unat len \<le> 512 \<and> slot \<le> a \<and> a + unat len \<le> slot + 2048)"
proof -
  have "strip_headers port mem (slot + tp_mac) = strip_headers port mem' (slot + tp_mac)"
    by (rule strip_headers_local) (use assms in auto)
  moreover have "0 < unat len \<and> unat len \<le> 512 \<and> slot \<le> a \<and> a + unat len \<le> slot + 2048"
    if "strip_headers port mem (slot + tp_mac) = Some (a, len)" for a len
    using strip_headers_bounds [OF that] assms(1) by linarith
  ultimately show ?thesis by blast
qed

lemma rx_filter_in_slot_witness:
  "\<exists>a len. strip_headers 8888 (\<lambda>a. sample_frame ! (a - 2048)) (2048 + 0) = Some (a, len) \<and> a + unat len \<le> 2048 + 2048"
proof -
  have "strip_headers 8888 (\<lambda>a. sample_frame ! (a - 2048)) (2048 + 0) = Some (2090, 4)"
    by (simp add: strip_headers_def net16_def byte_at_def header_sizes sample_frame_def udp_frame_def net16_bytes_def nth_append)
  with rx_filter_in_slot [of 0 2048 "\<lambda>a. sample_frame ! (a - 2048)" "\<lambda>a. sample_frame ! (a - 2048)" 8888]
  show ?thesis by blast
qed

text \<open>
  The length of the payload is the one the UDP header claims: a frame of 42 captured bytes whose header
  says 512 yields a payload of 504 bytes, all of them behind the captured data.
\<close>

lemma rx_trusts_udp_length:
  "\<exists>frame. length frame = 42 \<and>
     (\<forall>mem. bytes_at mem 0 42 = frame \<longrightarrow> strip_headers_xdp 8888 mem 0 (length frame) = Some (42, 504))"
proof (intro exI conjI allI impI)
  let ?f = "replicate 12 (CHR 0x02) @ [CHR 0x08, CHR 0x00, CHR 0x45] @ replicate 8 (CHR 0x00) @ CHR 0x11 #
    replicate 10 (CHR 0x00) @ [CHR 0x00, CHR 0x01, CHR 0x22, CHR 0xB8, CHR 0x02, CHR 0x00, CHR 0x00, CHR 0x00]"
  show len: "length ?f = 42" by simp
  fix mem
  assume m: "bytes_at mem 0 42 = ?f"
  have "mem i = ?f ! i" if "i < 42" for i using bytes_at_nth [OF m that] by simp
  from this [of 12] this [of 13] this [of 14] this [of 23] this [of 36] this [of 37] this [of 38] this [of 39]
  show "strip_headers_xdp 8888 mem 0 (length ?f) = Some (42, 504)"
    by (simp add: len strip_headers_xdp_def strip_headers_def header_sizes net16_def byte_at_def nth_append)
qed

end
