(* ===== verification/Rx_Ring.thy ===== *)
theory Rx_Ring
  imports Rx_Filter Worker_Types
begin

text \<open>
  \<open>PacketMmapRxConsumer\<close> of \<open>src/networking/RxRingConsumer.cpp\<close>: the set-up of the socket and the mapped
  ring with all its error paths, and the receiving loop with the kernel that fills the frames and the
  worker that empties the queue as the other parties of an interleaving.

  A packet in the queue is a pointer into the ring: its bytes are read when the worker handles it. The
  kernel follows the rule of \<open>PACKET_RX_RING\<close>: it writes only frames whose status is
  \<open>TP_STATUS_KERNEL\<close>, any bytes, with \<open>tp_mac\<close> near the start of the frame. The results of the system
  calls, the flags the loop reads and the cycle counter are inputs.
\<close>

subsection \<open>Set-up and clean-up\<close>

datatype log_level = Info | Warn | Error

datatype mapped_buffer = Null | MAP_FAILED | Mapped nat

text \<open>The results of the system calls of \<open>run\<close>, in the order it makes them.\<close>

record rx_syscalls =
  sc_packet_socket :: int
  sc_inet_socket :: int
  sc_udp_bind :: int
  sc_if_index :: nat
  sc_bind :: int
  sc_allmulti :: int
  sc_busy_poll :: int
  sc_version :: int
  sc_rx_ring :: int
  sc_mmap :: bool

text \<open>
  The members of the consumer and \<open>g_running\<close>, with what the operating system holds for it (open
  descriptors and mapped bytes) and the console lines.
\<close>

record PacketMmapRxConsumer =
  pm_interface_name :: string
  pm_filter_port :: u16
  pm_sockfd :: int
  pm_mapped_buffer :: mapped_buffer
  pm_total_ring_size :: nat
  pm_g_running :: bool
  pm_open_fds :: "int list"
  pm_mappings :: "nat list"
  pm_log :: "(log_level \<times> string) list"

definition packet_mmap_init :: "string \<Rightarrow> u16 \<Rightarrow> PacketMmapRxConsumer" where
  "packet_mmap_init iface port = \<lparr>pm_interface_name = iface, pm_filter_port = port, pm_sockfd = -1,
     pm_mapped_buffer = Null, pm_total_ring_size = 0, pm_g_running = True, pm_open_fds = [], pm_mappings = [], pm_log = []\<rparr>"

definition pm_say :: "log_level \<Rightarrow> string \<Rightarrow> PacketMmapRxConsumer \<Rightarrow> PacketMmapRxConsumer" where
  "pm_say lvl txt c = c\<lparr>pm_log := pm_log c @ [(lvl, ''[RxRingConsumer] '' @ txt)]\<rparr>"

text \<open>\<open>socket\<close> hands out a descriptor unless it fails.\<close>

definition pm_open :: "int \<Rightarrow> PacketMmapRxConsumer \<Rightarrow> PacketMmapRxConsumer" where
  "pm_open fd c = c\<lparr>pm_sockfd := fd, pm_open_fds := (if fd < 0 then pm_open_fds c else fd # pm_open_fds c)\<rparr>"

definition pm_cleanup :: "PacketMmapRxConsumer \<Rightarrow> PacketMmapRxConsumer" where
  "pm_cleanup c =
     (let c1 = (case pm_mapped_buffer c of
                  Mapped a \<Rightarrow> c\<lparr>pm_mappings := remove1 (pm_total_ring_size c) (pm_mappings c), pm_mapped_buffer := Null\<rparr>
                | _ \<Rightarrow> c)
      in if pm_sockfd c1 \<ge> 0
         then c1\<lparr>pm_open_fds := remove1 (pm_sockfd c1) (pm_open_fds c1), pm_sockfd := -1\<rparr> else c1)"

definition pm_fatal :: "string \<Rightarrow> PacketMmapRxConsumer \<Rightarrow> PacketMmapRxConsumer" where
  "pm_fatal txt c = (pm_cleanup (pm_say Error (''Fatal Error: '' @ txt) c))\<lparr>pm_g_running := False\<rparr>"

definition BLOCK_SIZE :: nat where "BLOCK_SIZE = 4 * 1024 * 1024"
definition BLOCK_NR :: nat where "BLOCK_NR = 32"
definition FRAME_SIZE :: nat where "FRAME_SIZE = 2048"
definition FRAME_NR :: nat where "FRAME_NR = BLOCK_SIZE * BLOCK_NR div FRAME_SIZE"

datatype rx_mode = Udp_Fallback | Ring

definition pm_setup_udp :: "rx_syscalls \<Rightarrow> PacketMmapRxConsumer \<Rightarrow> rx_mode option \<times> PacketMmapRxConsumer" where
  "pm_setup_udp sc c =
     (let c1 = pm_open (sc_inet_socket sc)
                 (pm_say Warn ''Note: socket(AF_PACKET) requires ROOT. Falling back to standard AF_INET UDP socket...'' c)
      in if pm_sockfd c1 < 0
         then (None, (pm_say Error ''Fatal Error: socket(AF_INET) failed.'' c1)\<lparr>pm_g_running := False\<rparr>)
         else if sc_udp_bind sc < 0 then (None, pm_fatal ''UDP socket bind() failed.'' c1)
         else (Some Udp_Fallback,
               pm_say Info (''Standard UDP Consumer bound to port '' @ dec_string (unat (pm_filter_port c1))) c1))"

definition pm_setup_ring :: "rx_syscalls \<Rightarrow> PacketMmapRxConsumer \<Rightarrow> rx_mode option \<times> PacketMmapRxConsumer" where
  "pm_setup_ring sc c =
     (if sc_if_index sc = 0 then (None, pm_fatal (''Network interface '' @ CHR 0x27 # pm_interface_name c @ CHR 0x27 # '' not found.'') c)
      else if sc_bind sc < 0 then (None, pm_fatal ''bind() to interface failed.'' c)
      else let c1 = (if sc_allmulti sc < 0 then pm_say Warn ''Warning: Failed to set PACKET_MR_ALLMULTI.'' c else c);
               c2 = (if sc_busy_poll sc < 0 then pm_say Warn ''Note: SO_BUSY_POLL not enabled.'' c1 else c1)
           in if sc_version sc < 0 then (None, pm_fatal ''setsockopt(PACKET_VERSION) failed.'' c2)
              else if sc_rx_ring sc < 0 then (None, pm_fatal ''setsockopt(PACKET_RX_RING) failed.'' c2)
              else let size = BLOCK_SIZE * BLOCK_NR; c3 = c2\<lparr>pm_total_ring_size := size\<rparr>
                   in if \<not> sc_mmap sc
                      then (None, pm_fatal ''mmap() of kernel ring failed.'' (c3\<lparr>pm_mapped_buffer := MAP_FAILED\<rparr>))
                      else (Some Ring,
                            pm_say Info (''Successfully mapped '' @ dec_string (size div (1024 * 1024)) @
                              '' MB kernel ring buffer via DMA Zero-Copy! Monitoring UDP port '' @
                              dec_string (unat (pm_filter_port c)))
                              (c3\<lparr>pm_mapped_buffer := Mapped 0, pm_mappings := size # pm_mappings c3\<rparr>)))"

definition pm_setup :: "rx_syscalls \<Rightarrow> PacketMmapRxConsumer \<Rightarrow> rx_mode option \<times> PacketMmapRxConsumer" where
  "pm_setup sc c =
     (let c1 = pm_open (sc_packet_socket sc) c
      in if pm_sockfd c1 < 0 then pm_setup_udp sc c1 else pm_setup_ring sc c1)"

text \<open>The end of \<open>run\<close>.\<close>

definition pm_finish :: "u64 \<Rightarrow> PacketMmapRxConsumer \<Rightarrow> PacketMmapRxConsumer" where
  "pm_finish rx_count c =
     pm_cleanup (pm_say Info (''Loop finished. Total frames captured and queued: '' @ dec_string (unat rx_count)) c)"

text \<open>What the consumer knows of is what the operating system holds for it.\<close>

definition pm_accounted :: "PacketMmapRxConsumer \<Rightarrow> bool" where
  "pm_accounted c \<longleftrightarrow>
     pm_open_fds c = (if pm_sockfd c \<ge> 0 then [pm_sockfd c] else []) \<and>
     pm_mappings c = (case pm_mapped_buffer c of Mapped a \<Rightarrow> [pm_total_ring_size c] | _ \<Rightarrow> [])"

lemma pm_say_frame [simp]:
  "pm_accounted (pm_say l m c) = pm_accounted c" "pm_g_running (pm_say l m c) = pm_g_running c"
  "pm_sockfd (pm_say l m c) = pm_sockfd c" "pm_open_fds (pm_say l m c) = pm_open_fds c"
  "pm_mappings (pm_say l m c) = pm_mappings c" "pm_mapped_buffer (pm_say l m c) = pm_mapped_buffer c"
  "fst (last (pm_log (pm_say l m c))) = l"
  by (simp_all add: pm_say_def pm_accounted_def split: mapped_buffer.split)

lemma pm_cleanup_log [simp]: "pm_log (pm_cleanup c) = pm_log c"
  by (simp add: pm_cleanup_def Let_def split: mapped_buffer.split)

lemma pm_cleanup_returns:
  assumes "pm_accounted c"
  shows "pm_open_fds (pm_cleanup c) = []" "pm_mappings (pm_cleanup c) = []"
  using assms by (auto simp: pm_accounted_def pm_cleanup_def Let_def split: mapped_buffer.splits if_splits)

lemma pm_fatal_spec:
  assumes "pm_accounted c"
  shows "pm_open_fds (pm_fatal txt c) = []" "pm_mappings (pm_fatal txt c) = []"
    "\<not> pm_g_running (pm_fatal txt c)" "fst (last (pm_log (pm_fatal txt c))) = Error"
  using pm_cleanup_returns [of "pm_say Error (''Fatal Error: '' @ txt) c"] assms by (simp_all add: pm_fatal_def)

definition rx_setup_outcome :: "rx_mode option \<times> PacketMmapRxConsumer \<Rightarrow> bool" where
  "rx_setup_outcome r =
     (case r of
        (None, c) \<Rightarrow> \<not> pm_g_running c \<and> pm_open_fds c = [] \<and> pm_mappings c = [] \<and> fst (last (pm_log c)) = Error
      | (Some m, c) \<Rightarrow> pm_g_running c \<and> pm_open_fds c = [pm_sockfd c] \<and> pm_accounted c \<and>
          pm_mappings c = (case m of Ring \<Rightarrow> [FRAME_NR * FRAME_SIZE] | Udp_Fallback \<Rightarrow> []))"

lemma pm_setup_udp_outcome:
  assumes "pm_g_running c" "pm_open_fds c = []" "pm_mappings c = []" "pm_mapped_buffer c = Null"
  shows "rx_setup_outcome (pm_setup_udp sc c)"
proof -
  have "pm_accounted (pm_open (sc_inet_socket sc) (pm_say l m c))" for l m
    using assms by (simp add: pm_accounted_def pm_open_def)
  then show ?thesis
    using assms by (simp add: pm_setup_udp_def Let_def rx_setup_outcome_def pm_fatal_spec) (simp add: pm_open_def)
qed

lemma pm_setup_ring_outcome:
  assumes "pm_g_running c" "pm_sockfd c \<ge> 0" "pm_open_fds c = [pm_sockfd c]" "pm_mappings c = []" "pm_mapped_buffer c = Null"
  shows "rx_setup_outcome (pm_setup_ring sc c)"
proof -
  define c2 where "c2 = (let c1 = (if sc_allmulti sc < 0 then pm_say Warn ''Warning: Failed to set PACKET_MR_ALLMULTI.'' c else c)
    in (if sc_busy_poll sc < 0 then pm_say Warn ''Note: SO_BUSY_POLL not enabled.'' c1 else c1))"
  have c2: "pm_g_running c2" "pm_sockfd c2 = pm_sockfd c" "pm_open_fds c2 = [pm_sockfd c]" "pm_mappings c2 = []"
      "pm_mapped_buffer c2 = Null"
    using assms by (simp_all add: c2_def Let_def)
  have ac: "pm_accounted c" "pm_accounted c2" "pm_accounted (c2\<lparr>pm_total_ring_size := n, pm_mapped_buffer := MAP_FAILED\<rparr>)"
      "pm_accounted (c2\<lparr>pm_total_ring_size := n, pm_mapped_buffer := Mapped 0, pm_mappings := [n]\<rparr>)" for n
    using assms c2 by (simp_all add: pm_accounted_def)
  have size: "BLOCK_SIZE * BLOCK_NR = FRAME_NR * FRAME_SIZE"
    by (simp add: FRAME_NR_def BLOCK_NR_def BLOCK_SIZE_def FRAME_SIZE_def)
  show ?thesis
    using c2 ac size assms
    by (simp add: pm_setup_ring_def rx_setup_outcome_def pm_fatal_spec Let_def c2_def [unfolded Let_def, symmetric])
qed

lemma pm_setup_outcome: "rx_setup_outcome (pm_setup sc (packet_mmap_init iface port))"
proof (cases "sc_packet_socket sc < 0")
  case True
  then show ?thesis
    by (simp add: pm_setup_def Let_def pm_open_def packet_mmap_init_def pm_setup_udp_outcome)
next
  case False
  then show ?thesis
    by (simp add: pm_setup_def Let_def pm_open_def packet_mmap_init_def pm_setup_ring_outcome)
qed

text \<open>
  C35. Whatever the system calls return, the set-up of the receiver either succeeds with \<open>g_running\<close> still
  up and exactly one open socket, and in ring mode the 128 MB mapping, or reports a fatal error as its
  last line, lowers \<open>g_running\<close>, and holds no socket and no mapping; and after a successful set-up the end
  of \<open>run\<close> returns everything it holds.
\<close>

theorem rx_setup_accounts:
  "case pm_setup sc (packet_mmap_init iface port) of
     (None, c) \<Rightarrow> \<not> pm_g_running c \<and> pm_open_fds c = [] \<and> pm_mappings c = [] \<and> fst (last (pm_log c)) = Error
   | (Some m, c) \<Rightarrow> pm_g_running c \<and> pm_open_fds c = [pm_sockfd c] \<and>
       pm_mappings c = (case m of Ring \<Rightarrow> [FRAME_NR * FRAME_SIZE] | Udp_Fallback \<Rightarrow> []) \<and>
       pm_open_fds (pm_finish n c) = [] \<and> pm_mappings (pm_finish n c) = []"
  using pm_setup_outcome [of sc iface port]
  by (auto simp: rx_setup_outcome_def pm_finish_def pm_cleanup_returns split: prod.splits option.splits)

end
