(* ===== verification/Rx_Loop.thy ===== *)
theory Rx_Loop
  imports Rx_Ring
begin

text \<open>
  The receiving loop of \<open>PacketMmapRxConsumer::run\<close> in ring mode, interleaved with the kernel and the
  worker. The worker pops batches of 32 and handles one packet after the other, reading the payload
  through the pointer and then handing the frame back, as the packet handlers of
  \<open>HftOrderBookEngine::run\<close> and \<open>MatchingWorker::run\<close> do.

  The number of frames is a parameter \<open>nr\<close>, 65536 in the program.
\<close>

subsection \<open>State\<close>

text \<open>\<open>FixMessagePacket\<close> as it is in the queue, with the payload an address and the header a frame number.\<close>

record RxPacket =
  rp_cycles :: u64
  rp_len :: u16
  rp_payload :: nat
  rp_hdr :: "nat option"

text \<open>What a reader sees through the pointer.\<close>

definition view :: "memory \<Rightarrow> RxPacket \<Rightarrow> FixMessagePacket" where
  "view mem p = \<lparr>rx_timestamp_cycles = rp_cycles p, pkt_payload_len = rp_len p,
     pkt_payload = Some (bytes_at mem (rp_payload p) (unat (rp_len p))), ring_hdr = rp_hdr p\<rparr>"

datatype rx_pc = RX_Top | RX_Push RxPacket | RX_Done

text \<open>
  The ring (bytes, and status and \<open>tp_mac\<close> of each frame), the queue, the local variables of the loop,
  the telemetry counter and the worker's batch. The last fields are history: the packet in the push
  loop as it was captured, the packets accepted by the queue as they were captured, the packets as the
  worker saw them, and whether the loop ever came round to a frame that was still with the worker.
\<close>

record rx_state =
  rs_mem :: memory
  rs_status :: "nat \<Rightarrow> frame_status"
  rs_mac :: "nat \<Rightarrow> nat"
  rs_queue :: "RxPacket spsc"
  rs_frame_idx :: nat
  rs_rx_count :: u64
  rs_spin_count :: nat
  rs_empty_checks :: nat
  rs_frames_captured :: u64
  rs_pc :: rx_pc
  rs_batch :: "RxPacket list"
  rs_capture :: FixMessagePacket
  rs_captured :: "FixMessagePacket list"
  rs_seen :: "FixMessagePacket list"
  rs_lapped :: bool

definition rx_init :: "RxPacket list \<Rightarrow> memory \<Rightarrow> rx_state" where
  "rx_init buf mem = \<lparr>rs_mem = mem, rs_status = (\<lambda>_. TP_STATUS_KERNEL), rs_mac = (\<lambda>_. 0), rs_queue = spsc_init buf,
     rs_frame_idx = 0, rs_rx_count = 0, rs_spin_count = 0, rs_empty_checks = 0, rs_frames_captured = 0, rs_pc = RX_Top,
     rs_batch = [], rs_capture = undefined, rs_captured = [], rs_seen = [], rs_lapped = False\<rparr>"

definition pushing :: "rx_state \<Rightarrow> RxPacket list" where
  "pushing s = (case rs_pc s of RX_Push p \<Rightarrow> [p] | _ \<Rightarrow> [])"

definition in_flight :: "nat \<Rightarrow> rx_state \<Rightarrow> RxPacket list" where
  "in_flight cap s = rs_batch s @ spsc_contents cap (rs_queue s)"

subsection \<open>The receiving loop\<close>

definition SPIN_LIMIT :: nat where "SPIN_LIMIT = 2000000"

definition advance :: "nat \<Rightarrow> rx_state \<Rightarrow> rx_state" where
  "advance nr s = s\<lparr>rs_frame_idx := (rs_frame_idx s + 1) AND (nr - 1), rs_pc := RX_Top\<rparr>"

definition rx_idle :: "bool \<Rightarrow> rx_state \<Rightarrow> rx_state" where
  "rx_idle producer_done s =
     (if producer_done
      then let s1 = s\<lparr>rs_empty_checks := rs_empty_checks s + 1\<rparr>
           in if rs_empty_checks s1 \<ge> 100 then s1\<lparr>rs_pc := RX_Done\<rparr> else s1
      else if rs_spin_count s < SPIN_LIMIT then s\<lparr>rs_spin_count := rs_spin_count s + 1\<rparr>
      else if rs_spin_count s < SPIN_LIMIT + 1000 then s\<lparr>rs_spin_count := rs_spin_count s + 1\<rparr>
      else s)"

definition rx_frame :: "nat \<Rightarrow> nat \<Rightarrow> u16 \<Rightarrow> u64 \<Rightarrow> rx_state \<Rightarrow> rx_state" where
  "rx_frame cap nr port rx_ts s =
     (let i = rs_frame_idx s;
          s1 = s\<lparr>rs_spin_count := 0, rs_empty_checks := 0,
                 rs_lapped := (rs_lapped s \<or> Some i \<in> rp_hdr ` set (in_flight cap s))\<rparr>
      in case strip_headers (unat port) (rs_mem s) (i * FRAME_SIZE + rs_mac s i) of
           None \<Rightarrow> advance nr (s1\<lparr>rs_status := (rs_status s)(i := TP_STATUS_KERNEL)\<rparr>)
         | Some (payload, payload_len) \<Rightarrow>
             (let p = \<lparr>rp_cycles = rx_ts, rp_len = payload_len, rp_payload = payload, rp_hdr = Some i\<rparr>
              in s1\<lparr>rs_pc := RX_Push p, rs_capture := view (rs_mem s) p\<rparr>))"

text \<open>One turn of \<open>while (!m_queue.push(pkt) && g_running.load())\<close>, and what follows it.\<close>

definition rx_push :: "nat \<Rightarrow> nat \<Rightarrow> bool \<Rightarrow> RxPacket \<Rightarrow> rx_state \<Rightarrow> rx_state" where
  "rx_push cap nr running p s =
     (let (ok, q) = spsc_push cap p (rs_queue s);
          s1 = s\<lparr>rs_queue := q, rs_captured := (if ok then rs_captured s @ [rs_capture s] else rs_captured s)\<rparr>
      in if \<not> ok \<and> running then s1
         else advance nr (s1\<lparr>rs_rx_count := rs_rx_count s + 1, rs_frames_captured := rs_rx_count s + 1\<rparr>))"

definition rx_step :: "nat \<Rightarrow> nat \<Rightarrow> u16 \<Rightarrow> bool \<Rightarrow> bool \<Rightarrow> u64 \<Rightarrow> rx_state \<Rightarrow> rx_state" where
  "rx_step cap nr port running producer_done rx_ts s =
     (case rs_pc s of
        RX_Done \<Rightarrow> s
      | RX_Push p \<Rightarrow> rx_push cap nr running p s
      | RX_Top \<Rightarrow>
          if \<not> running then s\<lparr>rs_pc := RX_Done\<rparr>
          else if rs_status s (rs_frame_idx s) = TP_STATUS_KERNEL then rx_idle producer_done s
          else rx_frame cap nr port rx_ts s)"

subsection \<open>The kernel and the worker\<close>

text \<open>The kernel fills a frame it owns and gives it to user space.\<close>

definition kernel_step :: "nat \<Rightarrow> nat \<Rightarrow> nat \<Rightarrow> (nat \<Rightarrow> char) \<Rightarrow> rx_state \<Rightarrow> rx_state" where
  "kernel_step nr i mac bytes s =
     (if i < nr \<and> rs_status s i = TP_STATUS_KERNEL \<and> mac \<le> 1454
      then s\<lparr>rs_mem := (\<lambda>a. if i * FRAME_SIZE \<le> a \<and> a < i * FRAME_SIZE + FRAME_SIZE then bytes (a - i * FRAME_SIZE)
                            else rs_mem s a),
             rs_status := (rs_status s)(i := TP_STATUS_USER), rs_mac := (rs_mac s)(i := mac)\<rparr>
      else s)"

definition worker_pop :: "nat \<Rightarrow> rx_state \<Rightarrow> rx_state" where
  "worker_pop cap s =
     (if rs_batch s = []
      then let (batch, q) = spsc_pop_batch cap 32 (rs_queue s) in s\<lparr>rs_batch := batch, rs_queue := q\<rparr>
      else s)"

definition worker_handle :: "rx_state \<Rightarrow> rx_state" where
  "worker_handle s =
     (case rs_batch s of
        [] \<Rightarrow> s
      | p # ps \<Rightarrow> s\<lparr>rs_seen := rs_seen s @ [view (rs_mem s) p],
                   rs_status := release_frame (rp_hdr p) (rs_status s), rs_batch := ps\<rparr>)"

datatype rx_action =
    Kernel nat nat "nat \<Rightarrow> char"
  | Receiver bool bool u64
  | Worker_Pop
  | Worker_Handle

fun rx_act :: "nat \<Rightarrow> nat \<Rightarrow> u16 \<Rightarrow> rx_action \<Rightarrow> rx_state \<Rightarrow> rx_state" where
  "rx_act cap nr port (Kernel i mac bytes) s = kernel_step nr i mac bytes s"
| "rx_act cap nr port (Receiver running producer_done ts) s = rx_step cap nr port running producer_done ts s"
| "rx_act cap nr port Worker_Pop s = worker_pop cap s"
| "rx_act cap nr port Worker_Handle s = worker_handle s"

definition rx_run :: "nat \<Rightarrow> nat \<Rightarrow> u16 \<Rightarrow> RxPacket list \<Rightarrow> memory \<Rightarrow> rx_action list \<Rightarrow> rx_state" where
  "rx_run cap nr port buf mem acts = fold (rx_act cap nr port) acts (rx_init buf mem)"

subsection \<open>A queued packet keeps its bytes\<close>

definition owned :: "nat \<Rightarrow> rx_state \<Rightarrow> RxPacket \<Rightarrow> bool" where
  "owned nr s p \<longleftrightarrow> (\<exists>i < nr. rp_hdr p = Some i \<and> rs_status s i = TP_STATUS_USER \<and>
     i * FRAME_SIZE \<le> rp_payload p \<and> rp_payload p + unat (rp_len p) \<le> i * FRAME_SIZE + FRAME_SIZE)"

definition rx_inv :: "nat \<Rightarrow> nat \<Rightarrow> rx_state \<Rightarrow> bool" where
  "rx_inv cap nr s \<longleftrightarrow> spsc_inv cap (rs_queue s) \<and> rs_frame_idx s < nr \<and> (\<forall>i. rs_mac s i \<le> 1454) \<and>
     (\<forall>p \<in> set (in_flight cap s @ pushing s). owned nr s p) \<and>
     distinct (map rp_hdr (in_flight cap s @ pushing s)) \<and>
     rs_captured s = rs_seen s @ map (view (rs_mem s)) (in_flight cap s) \<and>
     (\<forall>p \<in> set (pushing s). rs_capture s = view (rs_mem s) p)"

text \<open>A frame the kernel owns is no packet's, so filling it changes no packet.\<close>

lemma bytes_at_cong: "(\<And>x. a \<le> x \<Longrightarrow> x < a + n \<Longrightarrow> mem x = mem' x) \<Longrightarrow> bytes_at mem a n = bytes_at mem' a n"
  by (simp add: bytes_at_def)

lemma slot_disjoint:
  assumes "i * FRAME_SIZE \<le> a" "a < i * FRAME_SIZE + FRAME_SIZE" "j * FRAME_SIZE \<le> a" "a < j * FRAME_SIZE + FRAME_SIZE"
  shows "i = j"
proof -
  have "a div FRAME_SIZE = i" "a div FRAME_SIZE = j"
    using assms by (auto intro!: div_nat_eqI simp: mult.commute)
  then show ?thesis by simp
qed

lemma kernel_step_view:
  assumes "owned nr s p"
  shows "owned nr (kernel_step nr i mac bytes s) p \<and> view (rs_mem (kernel_step nr i mac bytes s)) p = view (rs_mem s) p"
proof (cases "i < nr \<and> rs_status s i = TP_STATUS_KERNEL \<and> mac \<le> 1454")
  case True
  obtain j where j: "j < nr" "rp_hdr p = Some j" "rs_status s j = TP_STATUS_USER"
      "j * FRAME_SIZE \<le> rp_payload p" "rp_payload p + unat (rp_len p) \<le> j * FRAME_SIZE + FRAME_SIZE"
    using assms by (auto simp: owned_def)
  with True have "i \<noteq> j" by auto
  have "rs_mem (kernel_step nr i mac bytes s) x = rs_mem s x"
    if "rp_payload p \<le> x" "x < rp_payload p + unat (rp_len p)" for x
    using True j that \<open>i \<noteq> j\<close> slot_disjoint [of i x j] by (auto simp: kernel_step_def)
  then have "bytes_at (rs_mem (kernel_step nr i mac bytes s)) (rp_payload p) (unat (rp_len p)) =
      bytes_at (rs_mem s) (rp_payload p) (unat (rp_len p))" by (rule bytes_at_cong)
  with True j \<open>i \<noteq> j\<close> show ?thesis by (auto simp: view_def kernel_step_def owned_def)
qed (use assms in \<open>auto simp: kernel_step_def\<close>)

lemma kernel_step_frame:
  "in_flight cap (kernel_step nr i mac bytes s) = in_flight cap s" "pushing (kernel_step nr i mac bytes s) = pushing s"
  "rs_queue (kernel_step nr i mac bytes s) = rs_queue s" "rs_frame_idx (kernel_step nr i mac bytes s) = rs_frame_idx s"
  "rs_captured (kernel_step nr i mac bytes s) = rs_captured s" "rs_seen (kernel_step nr i mac bytes s) = rs_seen s"
  "rs_capture (kernel_step nr i mac bytes s) = rs_capture s" "rs_lapped (kernel_step nr i mac bytes s) = rs_lapped s"
  by (simp_all add: kernel_step_def in_flight_def pushing_def)

lemma kernel_step_inv:
  assumes "rx_inv cap nr s"
  shows "rx_inv cap nr (kernel_step nr i mac bytes s)"
proof -
  have own: "\<forall>p \<in> set (in_flight cap s @ pushing s). owned nr s p" using assms by (simp add: rx_inv_def)
  have "map (view (rs_mem (kernel_step nr i mac bytes s))) (in_flight cap s) = map (view (rs_mem s)) (in_flight cap s)"
    using own kernel_step_view by (intro map_cong refl) auto
  moreover have "\<forall>p \<in> set (pushing s). rs_capture s = view (rs_mem (kernel_step nr i mac bytes s)) p"
    using own assms kernel_step_view by (auto simp: rx_inv_def)
  moreover have "rs_mac (kernel_step nr i mac bytes s) j \<le> 1454" for j
    using assms by (auto simp: rx_inv_def kernel_step_def)
  ultimately show ?thesis
    using assms own kernel_step_view unfolding rx_inv_def kernel_step_frame by (auto simp: rx_inv_def)
qed

lemma worker_pop_inv:
  assumes "rx_inv cap nr s"
  shows "rx_inv cap nr (worker_pop cap s)"
proof (cases "rs_batch s = []")
  case True
  have q: "spsc_inv cap (rs_queue s)" using assms by (simp add: rx_inv_def)
  obtain b q' where pop: "spsc_pop_batch cap 32 (rs_queue s) = (b, q')" by fastforce
  have "in_flight cap (worker_pop cap s) = in_flight cap s" "spsc_inv cap q'"
    using spsc.pop_batch_contents [OF q, of 32] spsc.pop_batch_invar [OF q, of 32] True pop
    by (simp_all add: in_flight_def worker_pop_def)
  moreover have "worker_pop cap s = s\<lparr>rs_batch := b, rs_queue := q'\<rparr>" using True pop by (simp add: worker_pop_def)
  ultimately show ?thesis using assms by (simp add: rx_inv_def owned_def pushing_def)
qed (use assms in \<open>simp add: worker_pop_def\<close>)

lemma worker_handle_inv:
  assumes "rx_inv cap nr s"
  shows "rx_inv cap nr (worker_handle s)"
proof (cases "rs_batch s")
  case (Cons p ps)
  have own: "owned nr (worker_handle s) q" if "owned nr s q" "rp_hdr q \<noteq> rp_hdr p" for q
    using that by (auto simp: owned_def worker_handle_def Cons release_frame_def split: option.split)
  have fl: "in_flight cap s = p # in_flight cap (worker_handle s)" "pushing (worker_handle s) = pushing s"
    by (simp_all add: in_flight_def worker_handle_def Cons pushing_def)
  have "\<forall>q \<in> set (in_flight cap (worker_handle s) @ pushing s). owned nr s q \<and> rp_hdr q \<noteq> rp_hdr p"
    using assms unfolding rx_inv_def fl by (force simp: image_iff)
  with assms own show ?thesis
    unfolding rx_inv_def fl by (auto simp: worker_handle_def Cons in_flight_def)
qed (use assms in \<open>simp add: worker_handle_def\<close>)

lemma advance_inv:
  assumes "rx_inv cap nr (s\<lparr>rs_pc := RX_Top\<rparr>)" "pow2_capacity nr"
  shows "rx_inv cap nr (advance nr s)"
proof -
  have "(rs_frame_idx s + 1) AND (nr - 1) < nr"
    using assms(2) by (simp add: pow2_mask pow2_capacity_pos del: One_nat_def)
  with assms(1) show ?thesis by (simp add: rx_inv_def advance_def owned_def in_flight_def pushing_def)
qed

lemma rx_frame_inv:
  assumes inv: "rx_inv cap nr s" and pc: "rs_pc s = RX_Top" and st: "rs_status s (rs_frame_idx s) \<noteq> TP_STATUS_KERNEL"
    and nr: "pow2_capacity nr" and lap: "\<not> rs_lapped (rx_frame cap nr port ts s)"
  shows "rx_inv cap nr (rx_frame cap nr port ts s)"
proof -
  define i where "i = rs_frame_idx s"
  have user: "rs_status s i = TP_STATUS_USER" using st by (cases "rs_status s i") (simp_all add: i_def)
  have i: "Some i \<notin> rp_hdr ` set (in_flight cap s)"
    using lap by (auto simp: rx_frame_def i_def advance_def Let_def split: option.splits)
  show ?thesis
  proof (cases "strip_headers (unat port) (rs_mem s) (i * FRAME_SIZE + rs_mac s i)")
    case None
    have "rx_inv cap nr (s\<lparr>rs_spin_count := 0, rs_empty_checks := 0, rs_lapped := l,
        rs_status := (rs_status s)(i := TP_STATUS_KERNEL), rs_pc := RX_Top\<rparr>)" (is "rx_inv cap nr ?t") for l
    proof -
      have fl: "in_flight cap ?t = in_flight cap s" "pushing ?t = []" "pushing s = []"
        using pc by (simp_all add: in_flight_def pushing_def)
      have "owned nr ?t p" if "p \<in> set (in_flight cap s)" for p
      proof -
        have "rp_hdr p \<noteq> Some i" using i that by force
        moreover have "owned nr s p" using inv that by (simp add: rx_inv_def)
        ultimately show ?thesis by (auto simp: owned_def)
      qed
      with inv show ?thesis unfolding rx_inv_def fl by simp
    qed
    with None nr show ?thesis by (auto simp: rx_frame_def i_def Let_def intro!: advance_inv)
  next
    case (Some r)
    obtain a len where r: "r = (a, len)" by fastforce
    have "rs_mac s i \<le> 1454" "i < nr" using inv by (simp_all add: rx_inv_def i_def)
    with strip_headers_bounds [OF Some [unfolded r]]
    have "i * FRAME_SIZE \<le> a" "a + unat len \<le> i * FRAME_SIZE + FRAME_SIZE" by (simp_all add: FRAME_SIZE_def)
    with Some r inv i pc user \<open>i < nr\<close> show ?thesis
      by (auto simp: rx_frame_def i_def [symmetric] Let_def rx_inv_def in_flight_def pushing_def owned_def)
  qed
qed

lemma rx_push_inv:
  assumes inv: "rx_inv cap nr s" and pc: "rs_pc s = RX_Push p" and nr: "pow2_capacity nr"
  shows "rx_inv cap nr (rx_push cap nr running p s)"
proof -
  have q: "spsc_inv cap (rs_queue s)" using inv by (simp add: rx_inv_def)
  obtain ok q' where push: "spsc_push cap p (rs_queue s) = (ok, q')" by fastforce
  have q': "spsc_inv cap q'" "spsc_contents cap q' = spsc_contents cap (rs_queue s) @ (if ok then [p] else [])"
    using spsc.push_invar [OF q, of p] spsc.push_ok [OF q, of p] spsc.push_contents [OF q, of p] push by auto
  define s1 where "s1 = s\<lparr>rs_queue := q', rs_captured := (if ok then rs_captured s @ [rs_capture s] else rs_captured s)\<rparr>"
  have top: "rx_inv cap nr (s1\<lparr>rs_rx_count := n, rs_frames_captured := m, rs_pc := RX_Top\<rparr>)" for n m
    using inv pc q' by (auto simp: s1_def rx_inv_def in_flight_def pushing_def owned_def)
  have stay: "rx_inv cap nr s1" if "\<not> ok"
    using inv pc q' that by (auto simp: s1_def rx_inv_def in_flight_def pushing_def owned_def)
  show ?thesis
  proof (cases "\<not> ok \<and> running")
    case True
    then have "rx_push cap nr running p s = s1" by (simp add: rx_push_def push s1_def)
    with stay True show ?thesis by simp
  next
    case False
    then have "rx_push cap nr running p s =
        advance nr (s1\<lparr>rs_rx_count := rs_rx_count s + 1, rs_frames_captured := rs_rx_count s + 1\<rparr>)"
      unfolding rx_push_def push s1_def Let_def prod.case by (simp only: if_False)
    with top nr show ?thesis by (simp add: advance_inv)
  qed
qed

lemma rx_idle_inv: "rx_inv cap nr s \<Longrightarrow> rs_pc s = RX_Top \<Longrightarrow> rx_inv cap nr (rx_idle d s)"
  by (auto simp: rx_idle_def Let_def rx_inv_def in_flight_def pushing_def owned_def)

lemma rx_lapped_mono: "rs_lapped s \<Longrightarrow> rs_lapped (rx_act cap nr port a s)"
  by (cases a) (auto simp: rx_step_def rx_push_def rx_idle_def rx_frame_def advance_def kernel_step_frame worker_pop_def
      worker_handle_def Let_def split: rx_pc.split prod.split option.split list.split)

lemma rx_step_inv:
  assumes "rx_inv cap nr s" "pow2_capacity nr" "\<not> rs_lapped (rx_step cap nr port running pd ts s)"
  shows "rx_inv cap nr (rx_step cap nr port running pd ts s)"
proof (cases "rs_pc s")
  case RX_Top
  have "rx_inv cap nr (s\<lparr>rs_pc := RX_Done\<rparr>)"
    using assms(1) RX_Top by (simp add: rx_inv_def in_flight_def pushing_def owned_def)
  with RX_Top assms show ?thesis by (auto simp: rx_step_def intro: rx_idle_inv rx_frame_inv)
qed (use assms in \<open>simp_all add: rx_step_def rx_push_inv\<close>)

lemma rx_act_inv:
  assumes "rs_lapped s \<or> rx_inv cap nr s" "pow2_capacity nr"
  shows "rs_lapped (rx_act cap nr port a s) \<or> rx_inv cap nr (rx_act cap nr port a s)"
proof (cases "rs_lapped s")
  case True
  then show ?thesis by (simp add: rx_lapped_mono)
next
  case False
  with assms show ?thesis
    using rx_step_inv [of cap nr s port]
    by (cases a) (auto simp: kernel_step_inv worker_pop_inv worker_handle_inv)
qed

lemma rx_run_inv:
  assumes "spsc_static_assert cap" "length buf = cap" "pow2_capacity nr"
  shows "rs_lapped (rx_run cap nr port buf mem acts) \<or> rx_inv cap nr (rx_run cap nr port buf mem acts)"
proof -
  have "rx_inv cap nr (rx_init buf mem)"
    using assms spsc_init_inv [of cap buf]
    by (auto simp: rx_inv_def rx_init_def in_flight_def pushing_def)
  then have "rs_lapped (fold (rx_act cap nr port) acts s) \<or> rx_inv cap nr (fold (rx_act cap nr port) acts s)"
    if "rs_lapped s \<or> rx_inv cap nr s" for s
    using that by (induction acts arbitrary: s) (simp_all add: rx_act_inv assms(3))
  with \<open>rx_inv cap nr (rx_init buf mem)\<close> show ?thesis by (simp add: rx_run_def)
qed

subsection \<open>When the receiver cannot lap the worker\<close>

text \<open>
  While the system runs and every frame on the interface is for the receiver's port, the frames in
  flight are the ones just behind the receiver, at most a full queue and one batch of them: with more
  frames than that in the ring the receiver never comes round to one.
\<close>

definition matching :: "u16 \<Rightarrow> rx_action \<Rightarrow> bool" where
  "matching port a \<longleftrightarrow>
     (case a of
        Kernel i mac bytes \<Rightarrow> strip_headers (unat port) (\<lambda>x. bytes (x - i * FRAME_SIZE)) (i * FRAME_SIZE + mac) \<noteq> None
      | Receiver running pd ts \<Rightarrow> running
      | _ \<Rightarrow> True)"

text \<open>The slots \<open>h\<close> of the packets in flight, newest first, are those before \<open>i\<close>.\<close>

definition trail :: "(RxPacket \<Rightarrow> nat option) \<Rightarrow> nat \<Rightarrow> nat \<Rightarrow> RxPacket list \<Rightarrow> bool" where
  "trail h nr i ps \<longleftrightarrow> (\<forall>j < length ps. h (rev ps ! j) = Some ((i + nr - Suc j) mod nr))"

lemma trail_back: "\<lbrakk>Suc j < nr; i < nr\<rbrakk> \<Longrightarrow> (i + nr - Suc j) mod nr \<noteq> (i :: nat)"
proof (cases "Suc j \<le> i")
  case True
  then have "i + nr - Suc j = (i - Suc j) + nr" by simp
  then have "(i + nr - Suc j) mod nr = (i - Suc j) mod nr" by (simp only: mod_add_self2)
  moreover assume "i < nr"
  ultimately show ?thesis using True by simp
next
  case False
  assume "Suc j < nr"
  with False have "i + nr - Suc j < nr" "i + nr - Suc j \<noteq> i" by simp_all
  then show ?thesis by simp
qed

lemma trail_clear:
  assumes "trail h nr i ps" "length ps < nr" "i < nr" "p \<in> set ps"
  shows "h p \<noteq> Some i"
proof -
  obtain j where "j < length ps" "p = rev ps ! j"
    using assms(4) in_set_conv_nth [of p "rev ps"] by auto
  then show ?thesis using assms(1,2,3) trail_back [of j nr i] by (auto simp: trail_def)
qed

lemma trail_pop: "trail h nr i (xs @ ps) \<Longrightarrow> trail h nr i ps"
proof -
  assume t: "trail h nr i (xs @ ps)"
  have "h (rev ps ! j) = Some ((i + nr - Suc j) mod nr)" if "j < length ps" for j
    using t [unfolded trail_def, rule_format, of j] that by (simp add: nth_append)
  then show ?thesis by (simp add: trail_def)
qed

lemma trail_push:
  assumes "trail h nr i ps" "length ps < nr" "i < nr" "h p = Some i"
  shows "trail h nr ((i + 1) mod nr) (ps @ [p])"
  unfolding trail_def
proof (intro allI impI)
  fix j
  assume j: "j < length (ps @ [p])"
  show "h (rev (ps @ [p]) ! j) = Some (((i + 1) mod nr + nr - Suc j) mod nr)"
  proof (cases j)
    case 0
    then show ?thesis using assms(3,4) by (cases "i + 1 = nr") simp_all
  next
    case (Suc k)
    have "((i + 1) mod nr + nr - Suc j) mod nr = (i + nr - Suc k) mod nr"
    proof (cases "i + 1 = nr")
      case True
      have "i + nr - Suc k = (nr - Suc j) + nr" using True j Suc assms(2) by simp
      with True show ?thesis by simp
    next
      case False
      then have "(i + 1) mod nr = i + 1" using assms(3) by simp
      then show ?thesis using Suc by simp
    qed
    with assms(1) j Suc show ?thesis by (simp add: trail_def)
  qed
qed

definition trail_inv :: "nat \<Rightarrow> nat \<Rightarrow> u16 \<Rightarrow> rx_state \<Rightarrow> bool" where
  "trail_inv cap nr port s \<longleftrightarrow> spsc_inv cap (rs_queue s) \<and> rs_frame_idx s < nr \<and> length (rs_batch s) \<le> 32 \<and>
     (\<forall>i < nr. rs_status s i = TP_STATUS_USER \<longrightarrow>
        rs_mac s i \<le> 1454 \<and> strip_headers (unat port) (rs_mem s) (i * FRAME_SIZE + rs_mac s i) \<noteq> None) \<and>
     trail rp_hdr nr (rs_frame_idx s) (in_flight cap s) \<and>
     (\<forall>p \<in> set (pushing s). rp_hdr p = Some (rs_frame_idx s)) \<and> \<not> rs_lapped s"

lemma trail_inv_bound:
  assumes "trail_inv cap nr port s" "cap + 32 \<le> nr"
  shows "length (in_flight cap s) < nr"
proof -
  have "length (spsc_contents cap (rs_queue s)) < cap" "length (rs_batch s) \<le> 32"
    using assms(1) spsc_inv_length [of cap "rs_queue s"] by (simp_all add: trail_inv_def)
  with assms(2) show ?thesis by (simp add: in_flight_def)
qed

lemma kernel_step_trail:
  assumes inv: "trail_inv cap nr port s" and m: "matching port (Kernel i mac bytes)"
  shows "trail_inv cap nr port (kernel_step nr i mac bytes s)"
proof (cases "i < nr \<and> rs_status s i = TP_STATUS_KERNEL \<and> mac \<le> 1454")
  case True
  define t where "t = kernel_step nr i mac bytes s"
  have "strip_headers (unat port) (rs_mem t) (j * FRAME_SIZE + rs_mac t j) \<noteq> None \<and> rs_mac t j \<le> 1454"
    if "j < nr" "rs_status t j = TP_STATUS_USER" for j
  proof (cases "j = i")
    case True
    have "strip_headers (unat port) (rs_mem t) (i * FRAME_SIZE + mac) =
        strip_headers (unat port) (\<lambda>x. bytes (x - i * FRAME_SIZE)) (i * FRAME_SIZE + mac)"
      by (rule strip_headers_local)
        (use \<open>i < nr \<and> rs_status s i = TP_STATUS_KERNEL \<and> mac \<le> 1454\<close> in \<open>simp add: t_def kernel_step_def FRAME_SIZE_def\<close>)
    with m True \<open>i < nr \<and> rs_status s i = TP_STATUS_KERNEL \<and> mac \<le> 1454\<close> show ?thesis
      by (simp add: matching_def t_def kernel_step_def)
  next
    case False
    have st: "rs_status s j = TP_STATUS_USER" "rs_mac t j = rs_mac s j"
      using that(2) False \<open>i < nr \<and> rs_status s i = TP_STATUS_KERNEL \<and> mac \<le> 1454\<close> by (simp_all add: t_def kernel_step_def)
    then have "rs_mac s j \<le> 1454" "strip_headers (unat port) (rs_mem s) (j * FRAME_SIZE + rs_mac s j) \<noteq> None"
      using inv that(1) by (simp_all add: trail_inv_def)
    moreover have "strip_headers (unat port) (rs_mem t) (j * FRAME_SIZE + rs_mac s j) =
        strip_headers (unat port) (rs_mem s) (j * FRAME_SIZE + rs_mac s j)"
    proof (rule strip_headers_local)
      fix a
      assume "j * FRAME_SIZE + rs_mac s j \<le> a" "a < j * FRAME_SIZE + rs_mac s j + 594"
      with \<open>rs_mac s j \<le> 1454\<close> have "j * FRAME_SIZE \<le> a" "a < j * FRAME_SIZE + FRAME_SIZE" by (simp_all add: FRAME_SIZE_def)
      with slot_disjoint [of i a j] False show "rs_mem t a = rs_mem s a" by (auto simp: t_def kernel_step_def)
    qed
    ultimately show ?thesis using st by simp
  qed
  moreover have "rs_batch t = rs_batch s" by (simp add: t_def kernel_step_def)
  ultimately show ?thesis
    using inv unfolding trail_inv_def t_def kernel_step_frame by simp
next
  case False
  then have "kernel_step nr i mac bytes s = s" by (auto simp: kernel_step_def)
  with inv show ?thesis by simp
qed

lemma worker_pop_trail:
  assumes "trail_inv cap nr port s"
  shows "trail_inv cap nr port (worker_pop cap s)"
proof (cases "rs_batch s = []")
  case True
  have q: "spsc_inv cap (rs_queue s)" using assms by (simp add: trail_inv_def)
  obtain b q' where pop: "spsc_pop_batch cap 32 (rs_queue s) = (b, q')" by fastforce
  have "in_flight cap (worker_pop cap s) = in_flight cap s" "spsc_inv cap q'" "length b \<le> 32"
    using spsc.pop_batch_contents [OF q, of 32] spsc.pop_batch_invar [OF q, of 32] spsc.pop_batch_limit [OF q, of 32] True pop
    by (simp_all add: in_flight_def worker_pop_def)
  moreover have "worker_pop cap s = s\<lparr>rs_batch := b, rs_queue := q'\<rparr>" using True pop by (simp add: worker_pop_def)
  ultimately show ?thesis using assms by (simp add: trail_inv_def pushing_def)
qed (use assms in \<open>simp add: worker_pop_def\<close>)

lemma worker_handle_trail:
  assumes "trail_inv cap nr port s"
  shows "trail_inv cap nr port (worker_handle s)"
proof (cases "rs_batch s")
  case (Cons p ps)
  have "in_flight cap s = [p] @ in_flight cap (worker_handle s)" "pushing (worker_handle s) = pushing s"
    by (simp_all add: in_flight_def worker_handle_def Cons pushing_def)
  with assms trail_pop [of rp_hdr nr "rs_frame_idx s" "[p]"] show ?thesis
    by (auto simp: trail_inv_def worker_handle_def Cons release_frame_def split: option.splits if_splits)
qed (use assms in \<open>simp add: worker_handle_def\<close>)

lemma rx_step_trail:
  assumes inv: "trail_inv cap nr port s" and nr: "pow2_capacity nr" "cap + 32 \<le> nr"
  shows "trail_inv cap nr port (rx_step cap nr port True pd ts s)"
proof (cases "rs_pc s")
  case RX_Top
  note bound = trail_inv_bound [OF inv nr(2)]
  define i where "i = rs_frame_idx s"
  have i: "i < nr" "trail rp_hdr nr i (in_flight cap s)" using inv by (simp_all add: trail_inv_def i_def)
  show ?thesis
  proof (cases "rs_status s i")
    case TP_STATUS_KERNEL
    with RX_Top inv show ?thesis
      by (auto simp: rx_step_def rx_idle_def i_def trail_inv_def in_flight_def pushing_def Let_def)
  next
    case TP_STATUS_USER
    have "Some i \<notin> rp_hdr ` set (in_flight cap s)" using trail_clear [OF i(2) bound i(1)] by force
    moreover obtain a len where "strip_headers (unat port) (rs_mem s) (i * FRAME_SIZE + rs_mac s i) = Some (a, len)"
      using inv i(1) TP_STATUS_USER by (auto simp: trail_inv_def)
    ultimately show ?thesis
      using RX_Top inv TP_STATUS_USER
      by (simp add: rx_step_def rx_frame_def i_def [symmetric] Let_def trail_inv_def in_flight_def pushing_def)
  qed
next
  case (RX_Push p)
  have q: "spsc_inv cap (rs_queue s)" and i: "rs_frame_idx s < nr" "trail rp_hdr nr (rs_frame_idx s) (in_flight cap s)"
      "rp_hdr p = Some (rs_frame_idx s)"
    using inv RX_Push by (simp_all add: trail_inv_def pushing_def)
  obtain ok q' where push: "spsc_push cap p (rs_queue s) = (ok, q')" by fastforce
  have q': "spsc_inv cap q'" "spsc_contents cap q' = spsc_contents cap (rs_queue s) @ (if ok then [p] else [])"
    using spsc.push_invar [OF q, of p] spsc.push_ok [OF q, of p] spsc.push_contents [OF q, of p] push by auto
  have idx: "(rs_frame_idx s + 1) AND (nr - 1) = (rs_frame_idx s + 1) mod nr" using nr(1) by (rule pow2_mask)
  have "trail rp_hdr nr ((rs_frame_idx s + 1) mod nr) (in_flight cap s @ [p])"
    by (rule trail_push [OF i(2) trail_inv_bound [OF inv nr(2)] i(1,3)])
  with RX_Push inv push q' nr(1) i(1) show ?thesis
    by (cases ok) (simp_all add: rx_step_def rx_push_def advance_def trail_inv_def in_flight_def pushing_def idx
        del: One_nat_def add_Suc_right)
qed (use inv in \<open>simp add: rx_step_def\<close>)

lemma rx_act_trail:
  assumes "trail_inv cap nr port s" "matching port a" "pow2_capacity nr" "cap + 32 \<le> nr"
  shows "trail_inv cap nr port (rx_act cap nr port a s)"
  using assms by (cases a) (auto simp: kernel_step_trail worker_pop_trail worker_handle_trail rx_step_trail matching_def [of _ "Receiver _ _ _"])

lemma rx_never_lapped:
  assumes "spsc_static_assert cap" "length buf = cap" "pow2_capacity nr" "cap + 32 \<le> nr" "list_all (matching port) acts"
  shows "\<not> rs_lapped (rx_run cap nr port buf mem acts)"
proof -
  have init: "trail_inv cap nr port (rx_init buf mem)"
    using assms(1-3) spsc_init_inv [of cap buf] by (auto simp: trail_inv_def rx_init_def in_flight_def pushing_def trail_def)
  have "trail_inv cap nr port (fold (rx_act cap nr port) acts s)" if "trail_inv cap nr port s" for s
    using that assms(5) by (induction acts arbitrary: s) (simp_all add: rx_act_trail assms(3,4))
  from this [OF init] show ?thesis by (simp add: rx_run_def trail_inv_def)
qed

text \<open>
  C15. Zero-copy delivery is exact: for every interleaving of kernel, receiver and worker in which the
  receiver never comes round to a frame still with the worker, the packets captured (with the bytes
  they had when the headers were stripped) are the packets the worker has seen, in order and unchanged,
  followed by those in its batch and in the queue, whose bytes are still the captured ones. The
  condition holds by itself while the system runs and all frames are for the receiver's port, when the
  ring has 32 frames more than the queue has slots.
\<close>

theorem rx_zero_copy_exact:
  assumes "spsc_static_assert cap" "length buf = cap" "pow2_capacity nr"
    and "s = rx_run cap nr port buf mem acts"
    and "\<not> rs_lapped s \<or> cap + 32 \<le> nr \<and> list_all (matching port) acts"
  shows "rs_captured s = rs_seen s @ map (view (rs_mem s)) (rs_batch s @ spsc_contents cap (rs_queue s))"
  using rx_run_inv [OF assms(1-3), of port mem acts] rx_never_lapped [OF assms(1-3), of port acts mem] assms(4,5)
  by (auto simp: rx_inv_def in_flight_def)

definition blank_packet :: RxPacket where
  "blank_packet = \<lparr>rp_cycles = 0, rp_len = 0, rp_payload = 0, rp_hdr = None\<rparr>"

lemma rx_zero_copy_exact_witness:
  "let acts = [Kernel 0 0 (\<lambda>k. sample_frame ! k), Receiver True False 5, Receiver True False 6, Worker_Pop, Worker_Handle];
       s = rx_run 8192 65536 8888 (replicate 8192 blank_packet) (\<lambda>_. CHR 0x00) acts
   in rs_captured s = rs_seen s @ map (view (rs_mem s)) (rs_batch s @ spsc_contents 8192 (rs_queue s))"
proof -
  have "matching 8888 (Kernel 0 0 (\<lambda>k. sample_frame ! k))"
    by (simp add: matching_def FRAME_SIZE_def strip_headers_def net16_def byte_at_def header_sizes sample_frame_def
        udp_frame_def net16_bytes_def nth_append)
  moreover have "spsc_static_assert 8192" "pow2_capacity (65536 :: nat)"
    using pow2_capacity_exp [of 13] pow2_capacity_exp [of 16] by (simp_all add: spsc_static_assert_def pow2_capacity_def)
  ultimately show ?thesis
    unfolding Let_def
    by (intro rx_zero_copy_exact [OF _ _ _ refl]) (simp_all add: matching_def [of _ "Receiver _ _ _"] matching_def [of _ Worker_Pop] matching_def [of _ Worker_Handle])
qed

text \<open>
  Other traffic on the interface makes a slow worker's frame come round again: one datagram for the
  port, captured and not yet handled, then frames for other ports in every other slot of the ring, and
  the receiver finds the first frame still marked for user space and captures it a second time.
\<close>

definition foreign_frames :: "nat \<Rightarrow> rx_action list" where
  "foreign_frames m = concat (map (\<lambda>i. [Kernel i 0 (\<lambda>_. CHR 0x00), Receiver True False 0]) [1..<m])"

definition lap_state :: "nat \<Rightarrow> nat \<Rightarrow> nat \<Rightarrow> rx_state \<Rightarrow> bool" where
  "lap_state cap nr m s \<longleftrightarrow> rs_pc s = RX_Top \<and> rs_frame_idx s = m mod nr \<and> rs_status s 0 = TP_STATUS_USER \<and>
     (\<forall>i. 0 < i \<longrightarrow> rs_status s i = TP_STATUS_KERNEL) \<and> Some 0 \<in> rp_hdr ` set (in_flight cap s)"

lemma foreign_frame_step:
  assumes "lap_state cap nr m s" "0 < m" "m < nr" "pow2_capacity nr" "port \<noteq> 0"
  shows "lap_state cap nr (Suc m) (fold (rx_act cap nr port) [Kernel m 0 (\<lambda>_. CHR 0x00), Receiver True False 0] s)"
proof -
  have mask: "Suc m AND (nr - Suc 0) = Suc m mod nr" using pow2_mask [OF assms(4), of "Suc m"] by simp
  have "strip_headers (unat port) (\<lambda>a. if m * FRAME_SIZE \<le> a \<and> a < m * FRAME_SIZE + FRAME_SIZE then CHR 0x00 else rs_mem s a)
      (m * FRAME_SIZE + 0) = None"
    by (simp add: strip_headers_def net16_def byte_at_def header_sizes FRAME_SIZE_def)
  with assms mask show ?thesis
    by (simp add: lap_state_def kernel_step_def rx_step_def rx_frame_def advance_def in_flight_def Let_def)
qed

lemma foreign_frames_lap:
  assumes "lap_state cap nr 1 s" "pow2_capacity nr" "port \<noteq> 0" "1 \<le> m" "m \<le> nr"
  shows "lap_state cap nr m (fold (rx_act cap nr port) (foreign_frames m) s)"
  using assms(4,5)
proof (induction m rule: dec_induct)
  case base
  with assms(1) show ?case by (simp add: foreign_frames_def)
next
  case (step m)
  then show ?case
    using foreign_frame_step [of cap nr m _ port] assms(2,3)
    by (simp add: foreign_frames_def del: rx_act.simps)
qed

lemma rx_receiver_laps_worker:
  assumes "spsc_static_assert cap" "length buf = cap" "pow2_capacity nr" "1 < nr"
  shows "\<exists>acts. rs_lapped (rx_run cap nr 8888 buf mem acts)"
proof -
  define fr where "fr = Kernel 0 0 (\<lambda>k. sample_frame ! k)"
  define s1 where "s1 = kernel_step nr 0 0 (\<lambda>k. sample_frame ! k) (rx_init buf mem)"
  define s2 where "s2 = rx_step cap nr 8888 True False 0 s1"
  define s where "s = rx_step cap nr 8888 True False 0 s2"
  define s' where "s' = fold (rx_act cap nr 8888) (foreign_frames nr) s"
  have q: "spsc_inv cap (spsc_init buf)" "spsc_contents cap (spsc_init buf) = []"
    using spsc_init_inv [OF assms(1,2)] by auto
  have cap: "0 < cap - 1" "1 AND (nr - 1) = 1"
    using assms(1,4) pow2_mask [OF assms(3), of 1] by (simp_all add: spsc_static_assert_def)
  have "rs_mem s1 a = sample_frame ! a" if "a < 2048" for a
    using that assms(4) by (simp add: s1_def kernel_step_def rx_init_def FRAME_SIZE_def)
  then have "strip_headers 8888 (rs_mem s1) 0 = strip_headers 8888 (\<lambda>a. sample_frame ! a) 0"
    by (intro strip_headers_local) simp
  also have "\<dots> = Some (42, 4)"
    by (simp add: strip_headers_def net16_def byte_at_def header_sizes sample_frame_def udp_frame_def net16_bytes_def nth_append)
  finally have strip: "strip_headers 8888 (rs_mem s1) 0 = Some (42, 4)" .
  have s1: "rs_pc s1 = RX_Top" "rs_frame_idx s1 = 0" "rs_mac s1 0 = 0" "rs_queue s1 = spsc_init buf" "rs_batch s1 = []"
      "rs_status s1 = (\<lambda>_. TP_STATUS_KERNEL)(0 := TP_STATUS_USER)"
    using assms(4) by (simp_all add: s1_def kernel_step_def rx_init_def)
  then have s2: "rs_pc s2 = RX_Push \<lparr>rp_cycles = 0, rp_len = 4, rp_payload = 42, rp_hdr = Some 0\<rparr>" "rs_frame_idx s2 = 0"
      "rs_queue s2 = spsc_init buf" "rs_batch s2 = []" "rs_status s2 = (\<lambda>_. TP_STATUS_KERNEL)(0 := TP_STATUS_USER)"
    using strip by (simp_all add: s2_def rx_step_def rx_frame_def FRAME_SIZE_def Let_def)
  have "lap_state cap nr 1 s"
    using s2 cap assms(4) q spsc.push_ok [OF q(1), of "\<lparr>rp_cycles = 0, rp_len = 4, rp_payload = 42, rp_hdr = Some 0\<rparr>"]
      spsc.push_contents [OF q(1), of "\<lparr>rp_cycles = 0, rp_len = 4, rp_payload = 42, rp_hdr = Some 0\<rparr>"]
    by (auto simp: s_def rx_step_def rx_push_def lap_state_def advance_def in_flight_def split: prod.splits)
  then have "lap_state cap nr nr s'"
    unfolding s'_def by (rule foreign_frames_lap) (use assms(3,4) in simp_all)
  then have "rs_lapped (rx_step cap nr 8888 True False 0 s')"
    using assms(4) by (auto simp: lap_state_def rx_step_def rx_frame_def advance_def Let_def split: option.split)
  then have "rs_lapped (rx_run cap nr 8888 buf mem
      ([fr, Receiver True False 0, Receiver True False 0] @ foreign_frames nr @ [Receiver True False 0]))"
    by (simp add: rx_run_def s'_def s_def s2_def s1_def fr_def)
  then show ?thesis ..
qed

end
