(* ===== verification/Rx_Udp.thy ===== *)
theory Rx_Udp
  imports Rx_Loop
begin

text \<open>
  The fallback of \<open>PacketMmapRxConsumer::run\<close> (\<open>src/networking/RxRingConsumer.cpp\<close>) without raw sockets:
  datagrams are received with \<open>recv\<close> into the static array \<open>udp_ring\<close>, 8192 slots of 512 bytes used in
  turn, and the queue gets pointers into it. The state is that of the ring receiver, with the array
  as its memory and \<open>udp_slot\<close> as its frame index; nothing is handed back for a slot.
\<close>

definition UDP_SLOT :: nat where "UDP_SLOT = 512"

text \<open>One turn of the push loop and what follows it.\<close>

definition udp_push :: "nat \<Rightarrow> nat \<Rightarrow> bool \<Rightarrow> RxPacket \<Rightarrow> rx_state \<Rightarrow> rx_state" where
  "udp_push cap slots running p s =
     (let (ok, q) = spsc_push cap p (rs_queue s);
          s1 = s\<lparr>rs_queue := q, rs_captured := (if ok then rs_captured s @ [rs_capture s] else rs_captured s)\<rparr>
      in if \<not> ok \<and> running then s1
         else s1\<lparr>rs_frame_idx := (rs_frame_idx s + 1) mod slots, rs_rx_count := rs_rx_count s + 1,
                 rs_frames_captured := rs_rx_count s + 1, rs_pc := RX_Top\<rparr>)"

text \<open>\<open>recv\<close> stores at most 512 bytes of a datagram at the start of the slot.\<close>

definition udp_receive :: "nat \<Rightarrow> u64 \<Rightarrow> string \<Rightarrow> rx_state \<Rightarrow> rx_state" where
  "udp_receive cap rx_ts datagram s =
     (let buf = rs_frame_idx s * UDP_SLOT; n = length (take UDP_SLOT datagram);
          mem = (\<lambda>a. if buf \<le> a \<and> a < buf + n then datagram ! (a - buf) else rs_mem s a);
          p = \<lparr>rp_cycles = rx_ts, rp_len = of_nat n, rp_payload = buf, rp_hdr = None\<rparr>
      in s\<lparr>rs_mem := mem, rs_pc := RX_Push p, rs_capture := view mem p,
           rs_lapped := (rs_lapped s \<or> buf \<in> rp_payload ` set (in_flight cap s))\<rparr>)"

definition udp_step :: "nat \<Rightarrow> nat \<Rightarrow> bool \<Rightarrow> bool \<Rightarrow> u64 \<Rightarrow> string \<Rightarrow> rx_state \<Rightarrow> rx_state" where
  "udp_step cap slots running producer_done rx_ts datagram s =
     (case rs_pc s of
        RX_Done \<Rightarrow> s
      | RX_Push p \<Rightarrow> udp_push cap slots running p s
      | RX_Top \<Rightarrow>
          if \<not> running then s\<lparr>rs_pc := RX_Done\<rparr>
          else if datagram \<noteq> [] then udp_receive cap rx_ts datagram s
          else if producer_done
          then let s1 = s\<lparr>rs_empty_checks := rs_empty_checks s + 1\<rparr>
               in if rs_empty_checks s1 \<ge> 2000 then s1\<lparr>rs_pc := RX_Done\<rparr> else s1
          else s)"

datatype udp_action = Udp_Receiver bool bool u64 string | Udp_Worker_Pop | Udp_Worker_Handle

fun udp_act :: "nat \<Rightarrow> nat \<Rightarrow> udp_action \<Rightarrow> rx_state \<Rightarrow> rx_state" where
  "udp_act cap slots (Udp_Receiver running pd ts datagram) s = udp_step cap slots running pd ts datagram s"
| "udp_act cap slots Udp_Worker_Pop s = worker_pop cap s"
| "udp_act cap slots Udp_Worker_Handle s = worker_handle s"

definition udp_run :: "nat \<Rightarrow> nat \<Rightarrow> RxPacket list \<Rightarrow> memory \<Rightarrow> udp_action list \<Rightarrow> rx_state" where
  "udp_run cap slots buf mem acts = fold (udp_act cap slots) acts (rx_init buf mem)"

subsection \<open>Packets keep their bytes until their slot comes round\<close>

definition udp_slot_of :: "RxPacket \<Rightarrow> nat option" where
  "udp_slot_of p = (if UDP_SLOT dvd rp_payload p \<and> unat (rp_len p) \<le> UDP_SLOT then Some (rp_payload p div UDP_SLOT) else None)"

definition udp_inv :: "nat \<Rightarrow> rx_state \<Rightarrow> bool" where
  "udp_inv cap s \<longleftrightarrow> spsc_inv cap (rs_queue s) \<and>
     (\<forall>p \<in> set (in_flight cap s @ pushing s). udp_slot_of p \<noteq> None) \<and>
     rs_captured s = rs_seen s @ map (view (rs_mem s)) (in_flight cap s) \<and>
     (\<forall>p \<in> set (pushing s). rs_capture s = view (rs_mem s) p)"

lemma udp_slot_of_start:
  "n \<le> UDP_SLOT \<Longrightarrow> udp_slot_of \<lparr>rp_cycles = t, rp_len = of_nat n, rp_payload = i * UDP_SLOT, rp_hdr = h\<rparr> = Some i"
  by (simp add: udp_slot_of_def UDP_SLOT_def unat_of_nat take_bit_nat_eq_self)

lemma udp_receive_view:
  assumes "udp_slot_of p = Some k" "k \<noteq> i" "n \<le> UDP_SLOT"
  shows "view (\<lambda>a. if i * UDP_SLOT \<le> a \<and> a < i * UDP_SLOT + n then d a else mem a) p = view mem p"
proof -
  have p: "rp_payload p = k * UDP_SLOT" "unat (rp_len p) \<le> UDP_SLOT"
    using assms(1) by (auto simp: udp_slot_of_def split: if_splits)
  have "\<not> (i * UDP_SLOT \<le> a \<and> a < i * UDP_SLOT + n)" if "rp_payload p \<le> a" "a < rp_payload p + unat (rp_len p)" for a
  proof
    assume a: "i * UDP_SLOT \<le> a \<and> a < i * UDP_SLOT + n"
    have "a div UDP_SLOT = i" "a div UDP_SLOT = k"
      using a that p assms(3) by (auto intro!: div_nat_eqI simp: mult.commute)
    with assms(2) show False by simp
  qed
  then show ?thesis by (auto simp: view_def intro!: bytes_at_cong)
qed

lemma udp_receive_inv:
  assumes inv: "udp_inv cap s" and pc: "rs_pc s = RX_Top" and lap: "\<not> rs_lapped (udp_receive cap ts d s)"
  shows "udp_inv cap (udp_receive cap ts d s)"
proof -
  define i where "i = rs_frame_idx s"
  define n where "n = length (take UDP_SLOT d)"
  define mem where "mem = (\<lambda>a. if i * UDP_SLOT \<le> a \<and> a < i * UDP_SLOT + n then d ! (a - i * UDP_SLOT) else rs_mem s a)"
  have n: "n \<le> UDP_SLOT" by (simp add: n_def)
  have "view mem p = view (rs_mem s) p" if p: "p \<in> set (in_flight cap s)" for p
  proof -
    obtain k where k: "udp_slot_of p = Some k" using inv p by (auto simp: udp_inv_def)
    have "rp_payload p \<noteq> i * UDP_SLOT" using lap p by (force simp: udp_receive_def Let_def i_def)
    with k have "k \<noteq> i" by (auto simp: udp_slot_of_def split: if_splits)
    from udp_receive_view [OF k this n] show ?thesis by (simp add: mem_def)
  qed
  then have old: "map (view mem) (in_flight cap s) = map (view (rs_mem s)) (in_flight cap s)" by simp
  define p where "p = \<lparr>rp_cycles = ts, rp_len = of_nat n, rp_payload = i * UDP_SLOT, rp_hdr = None\<rparr>"
  have eq: "udp_receive cap ts d s = s\<lparr>rs_mem := mem, rs_pc := RX_Push p, rs_capture := view mem p,
      rs_lapped := (rs_lapped s \<or> i * UDP_SLOT \<in> rp_payload ` set (in_flight cap s))\<rparr>"
    by (simp only: udp_receive_def Let_def i_def n_def mem_def p_def)
  have "udp_slot_of p = Some i" using udp_slot_of_start [OF n] by (simp add: p_def)
  with inv pc old show ?thesis unfolding eq udp_inv_def by (simp add: in_flight_def pushing_def)
qed

lemma udp_push_inv:
  assumes inv: "udp_inv cap s" and pc: "rs_pc s = RX_Push p"
  shows "udp_inv cap (udp_push cap slots running p s)"
proof -
  have q: "spsc_inv cap (rs_queue s)" using inv by (simp add: udp_inv_def)
  obtain ok q' where push: "spsc_push cap p (rs_queue s) = (ok, q')" by fastforce
  have "spsc_inv cap q'" "spsc_contents cap q' = spsc_contents cap (rs_queue s) @ (if ok then [p] else [])"
    using spsc.push_invar [OF q, of p] spsc.push_ok [OF q, of p] spsc.push_contents [OF q, of p] push by auto
  with inv pc show ?thesis
    by (cases ok; cases running) (auto simp: udp_push_def push Let_def udp_inv_def in_flight_def pushing_def)
qed

lemma udp_worker_inv:
  assumes "udp_inv cap s"
  shows "udp_inv cap (worker_pop cap s)" "udp_inv cap (worker_handle s)"
proof -
  have q: "spsc_inv cap (rs_queue s)" using assms by (simp add: udp_inv_def)
  obtain b q' where pop: "spsc_pop_batch cap 32 (rs_queue s) = (b, q')" by fastforce
  have "spsc_inv cap q'" "spsc_contents cap (rs_queue s) = b @ spsc_contents cap q'"
    using spsc.pop_batch_contents [OF q, of 32] spsc.pop_batch_invar [OF q, of 32] pop by simp_all
  then show "udp_inv cap (worker_pop cap s)"
    using assms by (cases "rs_batch s") (simp_all add: worker_pop_def pop udp_inv_def in_flight_def pushing_def)
  show "udp_inv cap (worker_handle s)"
    using assms by (cases "rs_batch s") (simp_all add: worker_handle_def udp_inv_def in_flight_def pushing_def)
qed

lemma udp_lapped_mono: "rs_lapped s \<Longrightarrow> rs_lapped (udp_act cap slots a s)"
  by (cases a) (auto simp: udp_step_def udp_push_def udp_receive_def worker_pop_def worker_handle_def Let_def
      split: rx_pc.split prod.split list.split)

lemma udp_step_inv:
  assumes "udp_inv cap s" "\<not> rs_lapped (udp_step cap slots running pd ts d s)"
  shows "udp_inv cap (udp_step cap slots running pd ts d s)"
proof (cases "rs_pc s")
  case RX_Top
  have "udp_inv cap (s\<lparr>rs_empty_checks := n, rs_pc := RX_Done\<rparr>)" "udp_inv cap (s\<lparr>rs_empty_checks := n\<rparr>)"
    "udp_inv cap (s\<lparr>rs_pc := RX_Done\<rparr>)" for n
    using assms(1) RX_Top by (simp_all add: udp_inv_def in_flight_def pushing_def)
  with RX_Top assms show ?thesis by (auto simp: udp_step_def Let_def intro: udp_receive_inv)
qed (use assms in \<open>simp_all add: udp_step_def udp_push_inv\<close>)

lemma udp_run_inv:
  assumes "spsc_static_assert cap" "length buf = cap"
  shows "rs_lapped (udp_run cap slots buf mem acts) \<or> udp_inv cap (udp_run cap slots buf mem acts)"
proof -
  have step: "rs_lapped (udp_act cap slots a s) \<or> udp_inv cap (udp_act cap slots a s)"
    if "rs_lapped s \<or> udp_inv cap s" for a s
    using that udp_lapped_mono [of s cap slots a] udp_step_inv [of cap s slots] udp_worker_inv [of cap s] by (cases a) auto
  have "rs_lapped (fold (udp_act cap slots) acts s) \<or> udp_inv cap (fold (udp_act cap slots) acts s)"
    if "rs_lapped s \<or> udp_inv cap s" for s
    using that step by (induction acts arbitrary: s) simp_all
  moreover have "udp_inv cap (rx_init buf mem)"
    using assms spsc_init_inv [of cap buf] by (auto simp: udp_inv_def rx_init_def in_flight_def pushing_def)
  ultimately show ?thesis by (simp add: udp_run_def)
qed

text \<open>
  With more slots than the queue and a batch can hold, the slot in turn is never in flight while the
  system runs.
\<close>

definition udp_live :: "udp_action \<Rightarrow> bool" where
  "udp_live a \<longleftrightarrow> (case a of Udp_Receiver running pd ts d \<Rightarrow> running | _ \<Rightarrow> True)"

definition udp_trail_inv :: "nat \<Rightarrow> nat \<Rightarrow> rx_state \<Rightarrow> bool" where
  "udp_trail_inv cap slots s \<longleftrightarrow> spsc_inv cap (rs_queue s) \<and> rs_frame_idx s < slots \<and> length (rs_batch s) \<le> 32 \<and>
     trail udp_slot_of slots (rs_frame_idx s) (in_flight cap s) \<and>
     (\<forall>p \<in> set (pushing s). udp_slot_of p = Some (rs_frame_idx s)) \<and> \<not> rs_lapped s"

lemma udp_trail_bound:
  assumes "udp_trail_inv cap slots s" "cap + 32 \<le> slots"
  shows "length (in_flight cap s) < slots"
proof -
  have "length (spsc_contents cap (rs_queue s)) < cap" "length (rs_batch s) \<le> 32"
    using assms(1) spsc_inv_length [of cap "rs_queue s"] by (simp_all add: udp_trail_inv_def)
  with assms(2) show ?thesis by (simp add: in_flight_def)
qed



lemma trail_slots: "\<lbrakk>trail h nr i ps; p \<in> set ps\<rbrakk> \<Longrightarrow> h p \<noteq> None"
  using in_set_conv_nth [of p "rev ps"] by (auto simp: trail_def)

lemma udp_step_trail:
  assumes inv: "udp_trail_inv cap slots s" and nr: "cap + 32 \<le> slots"
  shows "udp_trail_inv cap slots (udp_step cap slots True pd ts d s)"
proof (cases "rs_pc s")
  case RX_Top
  note bound = udp_trail_bound [OF inv nr]
  define i where "i = rs_frame_idx s"
  have i: "i < slots" "trail udp_slot_of slots i (in_flight cap s)" using inv by (simp_all add: udp_trail_inv_def i_def)
  have "rp_payload p \<noteq> i * UDP_SLOT" if "p \<in> set (in_flight cap s)" for p
    using trail_clear [OF i(2) bound i(1) that] trail_slots [OF i(2) that]
    by (auto simp: udp_slot_of_def UDP_SLOT_def split: if_splits)
  then have "i * UDP_SLOT \<notin> rp_payload ` set (in_flight cap s)" by force
  moreover have "length (take UDP_SLOT d) \<le> UDP_SLOT" by simp
  ultimately show ?thesis
    using RX_Top inv udp_slot_of_start [of "length (take UDP_SLOT d)"]
    by (simp add: udp_step_def udp_receive_def i_def [symmetric] Let_def udp_trail_inv_def in_flight_def pushing_def
        del: length_take)
next
  case (RX_Push p)
  have q: "spsc_inv cap (rs_queue s)" and i: "rs_frame_idx s < slots" "trail udp_slot_of slots (rs_frame_idx s) (in_flight cap s)"
      "udp_slot_of p = Some (rs_frame_idx s)"
    using inv RX_Push by (simp_all add: udp_trail_inv_def pushing_def)
  obtain ok q' where push: "spsc_push cap p (rs_queue s) = (ok, q')" by fastforce
  have q': "spsc_inv cap q'" "spsc_contents cap q' = spsc_contents cap (rs_queue s) @ (if ok then [p] else [])"
    using spsc.push_invar [OF q, of p] spsc.push_ok [OF q, of p] spsc.push_contents [OF q, of p] push by auto
  have "trail udp_slot_of slots ((rs_frame_idx s + 1) mod slots) (in_flight cap s @ [p])"
    by (rule trail_push [OF i(2) udp_trail_bound [OF inv nr] i(1,3)])
  with RX_Push inv push q' i(1) show ?thesis
    by (cases ok) (simp_all add: udp_step_def udp_push_def udp_trail_inv_def in_flight_def pushing_def)
qed (use inv in \<open>simp add: udp_step_def\<close>)

lemma udp_worker_trail:
  assumes "udp_trail_inv cap slots s"
  shows "udp_trail_inv cap slots (worker_pop cap s)" "udp_trail_inv cap slots (worker_handle s)"
proof -
  have q: "spsc_inv cap (rs_queue s)" using assms by (simp add: udp_trail_inv_def)
  obtain b q' where pop: "spsc_pop_batch cap 32 (rs_queue s) = (b, q')" by fastforce
  have "spsc_inv cap q'" "spsc_contents cap (rs_queue s) = b @ spsc_contents cap q'" "length b \<le> 32"
    using spsc.pop_batch_contents [OF q, of 32] spsc.pop_batch_invar [OF q, of 32] spsc.pop_batch_limit [OF q, of 32] pop
    by simp_all
  then show "udp_trail_inv cap slots (worker_pop cap s)"
    using assms by (cases "rs_batch s") (simp_all add: worker_pop_def pop udp_trail_inv_def in_flight_def pushing_def)
  show "udp_trail_inv cap slots (worker_handle s)"
  proof (cases "rs_batch s")
    case (Cons p ps)
    then have "in_flight cap s = [p] @ in_flight cap (worker_handle s)" "pushing (worker_handle s) = pushing s"
      by (simp_all add: in_flight_def worker_handle_def pushing_def)
    with assms trail_pop [of udp_slot_of slots "rs_frame_idx s" "[p]"] Cons show ?thesis
      by (auto simp: udp_trail_inv_def worker_handle_def)
  qed (use assms in \<open>simp add: worker_handle_def\<close>)
qed

lemma udp_never_lapped:
  assumes "spsc_static_assert cap" "length buf = cap" "cap + 32 \<le> slots" "list_all udp_live acts"
  shows "\<not> rs_lapped (udp_run cap slots buf mem acts)"
proof -
  have init: "udp_trail_inv cap slots (rx_init buf mem)"
    using assms(1-3) spsc_init_inv [of cap buf]
    by (auto simp: udp_trail_inv_def rx_init_def in_flight_def pushing_def trail_def spsc_static_assert_def)
  have step: "udp_trail_inv cap slots (udp_act cap slots a s)" if "udp_trail_inv cap slots s" "udp_live a" for a s
    using that udp_step_trail [OF that(1) assms(3)] udp_worker_trail [OF that(1)] by (cases a) (auto simp: udp_live_def)
  have "udp_trail_inv cap slots (fold (udp_act cap slots) acts s)" if "udp_trail_inv cap slots s" for s
    using that assms(4) by (induction acts arbitrary: s) (simp_all add: step)
  from this [OF init] show ?thesis by (simp add: udp_run_def udp_trail_inv_def)
qed

text \<open>
  What the worker sees in fallback mode is what was received, as long as no slot is written while its
  last packet is in flight; 32 slots more than the queue has are enough for that.
\<close>

theorem udp_fallback_exact:
  assumes "spsc_static_assert cap" "length buf = cap" "s = udp_run cap slots buf mem acts"
    and "\<not> rs_lapped s \<or> cap + 32 \<le> slots \<and> list_all udp_live acts"
  shows "rs_captured s = rs_seen s @ map (view (rs_mem s)) (rs_batch s @ spsc_contents cap (rs_queue s))"
  using udp_run_inv [OF assms(1,2), of slots mem acts] udp_never_lapped [OF assms(1,2), of slots acts mem] assms(3,4)
  by (auto simp: udp_inv_def in_flight_def)

text \<open>
  The program has as many slots as its queue, which is 32 too few: with two of each, a worker that
  holds a popped packet while two more arrive reads the bytes of the third in place of the first.
\<close>

lemma udp_fallback_overwrites:
  "let s = udp_run 2 2 [blank_packet, blank_packet] (\<lambda>_. CHR 0x00)
     [Udp_Receiver True False 1 ''a'', Udp_Receiver True False 1 [], Udp_Worker_Pop,
      Udp_Receiver True False 2 ''b'', Udp_Receiver True False 2 [],
      Udp_Receiver True False 3 ''c'', Udp_Worker_Handle]
   in map pkt_payload (rs_captured s) = [Some ''a'', Some ''b''] \<and> map pkt_payload (rs_seen s) = [Some ''c'']"
  by code_simp

end
