(* ===== verification/Af_Xdp.thy ===== *)
theory Af_Xdp
  imports Rx_Loop
begin

text \<open>
  \<open>AfXdpRxConsumer\<close> of \<open>src/networking/AfXdpRxConsumer.cpp\<close>: the set-up of UMEM, fill ring and socket
  with its fallback and error paths, the receiving loop, and the factory of
  \<open>include/hft/networking/RxConsumerFactory.hpp\<close> that falls back to the mapped ring. The rings belong to
  libxdp and the kernel: the calls return what the documentation says, the descriptors peeked are the
  oldest of the RX ring, and a frame is the kernel's to write once its address has been submitted to
  the fill ring.
\<close>

subsection \<open>Set-up\<close>

definition NUM_FRAMES :: nat where "NUM_FRAMES = 4096"
definition BATCH_SIZE :: nat where "BATCH_SIZE = 64"

text \<open>The directory entries of \<open>/sys/class/net/<iface>/queues/\<close>, or \<open>None\<close> when it does not exist.\<close>

definition get_interface_rx_queue_count :: "(bool \<times> string) list option \<Rightarrow> nat" where
  "get_interface_rx_queue_count entries =
     (case entries of
        None \<Rightarrow> 1
      | Some es \<Rightarrow> (let count = length (filter (\<lambda>(is_directory, name). is_directory \<and> take 3 name = ''rx-'') es)
                   in if count > 0 then count else 1))"

record xdp_calls =
  xc_mmap :: bool
  xc_umem_create :: int
  xc_reserve :: nat
  xc_queues :: "(bool \<times> string) list option"
  xc_socket_drv :: int
  xc_socket_skb :: int

record AfXdpRxConsumer =
  ax_interface_name :: string
  ax_filter_port :: u16
  ax_queue_id :: nat
  ax_umem_buffer :: bool
  ax_umem_size :: nat
  ax_umem :: bool
  ax_xsk :: bool
  ax_is_native :: bool
  ax_initialized :: bool
  ax_fill_ring :: "nat list"
  ax_log :: "(log_level \<times> string) list"

definition af_xdp_init :: "string \<Rightarrow> u16 \<Rightarrow> nat \<Rightarrow> AfXdpRxConsumer" where
  "af_xdp_init iface port queue_id = \<lparr>ax_interface_name = iface, ax_filter_port = port, ax_queue_id = queue_id,
     ax_umem_buffer = False, ax_umem_size = 0, ax_umem = False, ax_xsk = False, ax_is_native = False,
     ax_initialized = False, ax_fill_ring = [], ax_log = []\<rparr>"

definition ax_say :: "log_level \<Rightarrow> string \<Rightarrow> AfXdpRxConsumer \<Rightarrow> AfXdpRxConsumer" where
  "ax_say lvl txt c = c\<lparr>ax_log := ax_log c @ [(lvl, ''[AfXdpRxConsumer] '' @ txt)]\<rparr>"

text \<open>Deleting the UMEM deletes its fill ring.\<close>

definition ax_cleanup :: "AfXdpRxConsumer \<Rightarrow> AfXdpRxConsumer" where
  "ax_cleanup c =
     (let c1 = (if ax_xsk c then c\<lparr>ax_xsk := False\<rparr> else c);
          c2 = (if ax_umem c1 then c1\<lparr>ax_umem := False, ax_fill_ring := []\<rparr> else c1);
          c3 = (if ax_umem_buffer c2 then c2\<lparr>ax_umem_buffer := False\<rparr> else c2)
      in c3\<lparr>ax_initialized := False\<rparr>)"

definition show_int :: "int \<Rightarrow> string" where
  "show_int n = (if n < 0 then CHR ''-'' # dec_string (nat (- n)) else dec_string (nat n))"

definition ax_pick_queue :: "nat \<Rightarrow> AfXdpRxConsumer \<Rightarrow> AfXdpRxConsumer" where
  "ax_pick_queue max_queues c =
     (if ax_queue_id c \<ge> max_queues
      then (ax_say Warn (''Warning: Requested queue_id '' @ dec_string (ax_queue_id c) @ '' exceeds interface '' @
              CHR 0x27 # ax_interface_name c @ CHR 0x27 # '' total RX queues ('' @ dec_string max_queues @
              ''). Resetting queue_id to 0.'') c)\<lparr>ax_queue_id := 0\<rparr>
      else c)"

definition ax_open_socket :: "xdp_calls \<Rightarrow> AfXdpRxConsumer \<Rightarrow> bool \<times> AfXdpRxConsumer" where
  "ax_open_socket xc c =
     (if xc_socket_drv xc = 0
      then (True, (ax_say Info (''AF_XDP initialized successfully in NATIVE HARDWARE ZERO-COPY MODE on queue_id '' @
              dec_string (ax_queue_id c) @ ''!'') (c\<lparr>ax_xsk := True, ax_is_native := True\<rparr>))\<lparr>ax_initialized := True\<rparr>)
      else let c1 = ax_say Warn ''Note: Native DRV Zero-Copy not supported by driver/NIC. Trying Generic SKB Mode...'' c
           in if xc_socket_skb xc = 0
              then (True, (ax_say Info (''AF_XDP initialized successfully in GENERIC SKB COPY MODE on queue_id '' @
                      dec_string (ax_queue_id c) @ ''!'') (c1\<lparr>ax_xsk := True, ax_is_native := False\<rparr>))\<lparr>ax_initialized := True\<rparr>)
              else (False, ax_cleanup (ax_say Warn (''Warning: xsk_socket__create failed in Generic SKB Mode (code '' @
                      show_int (xc_socket_skb xc) @ ''). AF_XDP unavailable.'') c1)))"

definition ax_init :: "xdp_calls \<Rightarrow> AfXdpRxConsumer \<Rightarrow> bool \<times> AfXdpRxConsumer" where
  "ax_init xc c =
     (let c0 = c\<lparr>ax_umem_size := NUM_FRAMES * FRAME_SIZE\<rparr>
      in if \<not> xc_mmap xc
         then (False, (ax_say Warn ''Error: Failed to allocate UMEM buffer via mmap.'' c0)\<lparr>ax_umem_buffer := False\<rparr>)
         else let c1 = c0\<lparr>ax_umem_buffer := True\<rparr>
              in if xc_umem_create xc \<noteq> 0
                 then (False, ax_cleanup (ax_say Warn (''Error: xsk_umem__create failed (code '' @
                         show_int (xc_umem_create xc) @ '').'') c1))
                 else let c2 = c1\<lparr>ax_umem := True\<rparr>
                      in if xc_reserve xc \<noteq> NUM_FRAMES
                         then (False, ax_cleanup (ax_say Warn ''Error: Failed to reserve Fill Ring frames.'' c2))
                         else let c3 = c2\<lparr>ax_fill_ring := map (\<lambda>i. i * FRAME_SIZE) [0..<NUM_FRAMES]\<rparr>
                              in ax_open_socket xc (ax_pick_queue (get_interface_rx_queue_count (xc_queues xc)) c3))"

lemma queue_count_pos: "0 < get_interface_rx_queue_count es"
  by (auto simp: get_interface_rx_queue_count_def Let_def split: option.split)

lemma ax_frames [simp]:
  "ax_umem_buffer (ax_say l m c) = ax_umem_buffer c" "ax_umem (ax_say l m c) = ax_umem c" "ax_xsk (ax_say l m c) = ax_xsk c"
  "ax_fill_ring (ax_say l m c) = ax_fill_ring c" "ax_queue_id (ax_say l m c) = ax_queue_id c"
  "ax_initialized (ax_say l m c) = ax_initialized c" "ax_umem_size (ax_say l m c) = ax_umem_size c"
  "ax_umem_buffer (ax_pick_queue n c) = ax_umem_buffer c" "ax_umem (ax_pick_queue n c) = ax_umem c"
  "ax_fill_ring (ax_pick_queue n c) = ax_fill_ring c" "ax_umem_size (ax_pick_queue n c) = ax_umem_size c"
  "ax_umem_buffer (ax_cleanup c) = False" "ax_umem (ax_cleanup c) = False" "ax_xsk (ax_cleanup c) = False"
  "ax_initialized (ax_cleanup c) = False"
  by (simp_all add: ax_say_def ax_pick_queue_def ax_cleanup_def Let_def)

lemma ax_pick_queue_bound: "0 < n \<Longrightarrow> ax_queue_id (ax_pick_queue n c) < n"
  by (simp add: ax_pick_queue_def)

lemma ax_open_socket_spec:
  "case ax_open_socket xc c of
     (True, c') \<Rightarrow> ax_initialized c' \<and> ax_xsk c' \<and> ax_umem c' = ax_umem c \<and> ax_umem_buffer c' = ax_umem_buffer c \<and>
       ax_fill_ring c' = ax_fill_ring c \<and> ax_queue_id c' = ax_queue_id c \<and> ax_umem_size c' = ax_umem_size c
   | (False, c') \<Rightarrow> \<not> ax_initialized c' \<and> \<not> ax_xsk c' \<and> \<not> ax_umem c' \<and> \<not> ax_umem_buffer c'"
  by (simp add: ax_open_socket_def Let_def)

text \<open>
  Whatever the calls return, the set-up of the AF\_XDP receiver succeeds with buffer, UMEM and socket in
  place, an existing RX queue, and the fill ring holding the start of each of the 4096 frames of the
  buffer once, or it fails and holds nothing.
\<close>

theorem xdp_setup_accounts:
  "case ax_init xc (af_xdp_init iface port queue_id) of
     (True, c) \<Rightarrow> ax_initialized c \<and> ax_xsk c \<and> ax_umem c \<and> ax_umem_buffer c \<and>
       ax_queue_id c < get_interface_rx_queue_count (xc_queues xc) \<and>
       distinct (ax_fill_ring c) \<and> set (ax_fill_ring c) = {a. a < ax_umem_size c \<and> FRAME_SIZE dvd a}
   | (False, c) \<Rightarrow> \<not> ax_initialized c \<and> \<not> ax_xsk c \<and> \<not> ax_umem c \<and> \<not> ax_umem_buffer c"
proof -
  have ring: "distinct (map (\<lambda>i. i * FRAME_SIZE) [0..<NUM_FRAMES])"
      "set (map (\<lambda>i. i * FRAME_SIZE) [0..<NUM_FRAMES]) = {a. a < NUM_FRAMES * FRAME_SIZE \<and> FRAME_SIZE dvd a}"
    by (auto simp: distinct_map inj_on_def FRAME_SIZE_def NUM_FRAMES_def dvd_def image_iff mult.commute)
  show ?thesis
  proof (cases "xc_mmap xc \<and> xc_umem_create xc = 0 \<and> xc_reserve xc = NUM_FRAMES")
    case True
    define c where "c = ax_pick_queue (get_interface_rx_queue_count (xc_queues xc))
      ((af_xdp_init iface port queue_id)\<lparr>ax_umem_size := NUM_FRAMES * FRAME_SIZE, ax_umem_buffer := True, ax_umem := True,
        ax_fill_ring := map (\<lambda>i. i * FRAME_SIZE) [0..<NUM_FRAMES]\<rparr>)"
    have "ax_init xc (af_xdp_init iface port queue_id) = ax_open_socket xc c"
      using True by (simp add: ax_init_def c_def)
    then show ?thesis
      using ax_open_socket_spec [where xc = xc and c = c] ring ax_pick_queue_bound [OF queue_count_pos [of "xc_queues xc"]]
      by (auto simp: c_def split: prod.splits bool.splits)
  next
    case False
    then show ?thesis by (auto simp: ax_init_def Let_def af_xdp_init_def ax_say_def ax_cleanup_def)
  qed
qed

subsection \<open>The receiving loop\<close>

text \<open>
  The loop's place: at its top, at a descriptor of the batch (those left, the whole batch, whether the
  fill ring slots were reserved, the time stamp of the batch), in the push loop, or done. The core
  state is that of the ring receiver: UMEM bytes, the owner of each frame, queue, counters and worker.
\<close>

datatype xdp_pc =
    X_Top
  | X_Frames "(nat \<times> nat) list" "(nat \<times> nat) list" bool u64
  | X_Push RxPacket "(nat \<times> nat) list" "(nat \<times> nat) list" bool u64
  | X_Done

record xdp_state =
  xd_core :: rx_state
  xd_rx :: "(nat \<times> nat) list"
  xd_pc :: xdp_pc

definition xdp_init :: "RxPacket list \<Rightarrow> memory \<Rightarrow> xdp_state" where
  "xdp_init buf mem = \<lparr>xd_core = rx_init buf mem, xd_rx = [], xd_pc = X_Top\<rparr>"

definition frame_of :: "nat \<times> nat \<Rightarrow> nat" where
  "frame_of desc = fst desc div FRAME_SIZE"

definition xdp_idle :: "bool \<Rightarrow> xdp_state \<Rightarrow> xdp_state" where
  "xdp_idle producer_done s =
     (let c = xd_core s
      in if producer_done
         then let c1 = c\<lparr>rs_empty_checks := rs_empty_checks c + 1\<rparr>
              in if rs_empty_checks c1 \<ge> 200 then s\<lparr>xd_core := c1, xd_pc := X_Done\<rparr> else s\<lparr>xd_core := c1\<rparr>
         else if rs_spin_count c < SPIN_LIMIT then s\<lparr>xd_core := c\<lparr>rs_spin_count := rs_spin_count c + 1\<rparr>\<rparr>
         else if rs_spin_count c < SPIN_LIMIT + 1000 then s\<lparr>xd_core := c\<lparr>rs_spin_count := rs_spin_count c + 1\<rparr>\<rparr>
         else s)"

definition xdp_top :: "bool \<Rightarrow> bool \<Rightarrow> u64 \<Rightarrow> xdp_state \<Rightarrow> xdp_state" where
  "xdp_top producer_done reserved rx_ts s =
     (let descs = take BATCH_SIZE (xd_rx s); c = xd_core s
      in if descs = [] then xdp_idle producer_done s
         else s\<lparr>xd_core := c\<lparr>rs_spin_count := 0, rs_empty_checks := 0\<rparr>, xd_pc := X_Frames descs descs reserved rx_ts\<rparr>)"

definition xdp_frame :: "u16 \<Rightarrow> nat \<times> nat \<Rightarrow> (nat \<times> nat) list \<Rightarrow> (nat \<times> nat) list \<Rightarrow> bool \<Rightarrow> u64 \<Rightarrow> xdp_state \<Rightarrow> xdp_state" where
  "xdp_frame port desc todo batch reserved rx_ts s =
     (let c = xd_core s; (addr, len) = desc
      in case strip_headers_xdp (unat port) (rs_mem c) addr len of
           None \<Rightarrow> s\<lparr>xd_pc := X_Frames todo batch reserved rx_ts\<rparr>
         | Some (payload, payload_len) \<Rightarrow>
             (let p = \<lparr>rp_cycles = rx_ts, rp_len = payload_len, rp_payload = payload, rp_hdr = None\<rparr>
              in s\<lparr>xd_core := c\<lparr>rs_capture := view (rs_mem c) p\<rparr>, xd_pc := X_Push p todo batch reserved rx_ts\<rparr>))"

definition xdp_push :: "nat \<Rightarrow> bool \<Rightarrow> RxPacket \<Rightarrow> (nat \<times> nat) list \<Rightarrow> (nat \<times> nat) list \<Rightarrow> bool \<Rightarrow> u64 \<Rightarrow> xdp_state \<Rightarrow> xdp_state" where
  "xdp_push cap running p todo batch reserved rx_ts s =
     (let c = xd_core s; (ok, q) = spsc_push cap p (rs_queue c);
          c1 = c\<lparr>rs_queue := q, rs_captured := (if ok then rs_captured c @ [rs_capture c] else rs_captured c)\<rparr>
      in if \<not> ok \<and> running then s\<lparr>xd_core := c1\<rparr>
         else s\<lparr>xd_core := c1\<lparr>rs_rx_count := rs_rx_count c + 1, rs_frames_captured := rs_rx_count c + 1\<rparr>,
                xd_pc := X_Frames todo batch reserved rx_ts\<rparr>)"

text \<open>The batch is released from the RX ring and, when the slots were reserved, submitted to the fill ring.\<close>

definition xdp_recycle :: "(nat \<times> nat) list \<Rightarrow> bool \<Rightarrow> xdp_state \<Rightarrow> xdp_state" where
  "xdp_recycle batch reserved s =
     (let c = xd_core s
      in s\<lparr>xd_rx := drop (length batch) (xd_rx s), xd_pc := X_Top,
           xd_core := (if reserved
             then c\<lparr>rs_status := (\<lambda>i. if i \<in> set (map frame_of batch) then TP_STATUS_KERNEL else rs_status c i)\<rparr> else c)\<rparr>)"

definition xdp_step :: "nat \<Rightarrow> u16 \<Rightarrow> bool \<Rightarrow> bool \<Rightarrow> bool \<Rightarrow> u64 \<Rightarrow> xdp_state \<Rightarrow> xdp_state" where
  "xdp_step cap port running producer_done reserved rx_ts s =
     (case xd_pc s of
        X_Done \<Rightarrow> s
      | X_Top \<Rightarrow> if \<not> running then s\<lparr>xd_pc := X_Done\<rparr> else xdp_top producer_done reserved rx_ts s
      | X_Frames [] batch r ts \<Rightarrow> xdp_recycle batch r s
      | X_Frames (d # todo) batch r ts \<Rightarrow> xdp_frame port d todo batch r ts s
      | X_Push p todo batch r ts \<Rightarrow> xdp_push cap running p todo batch r ts s)"

text \<open>The kernel takes a frame from the fill ring, writes it and posts its descriptor.\<close>

definition xdp_kernel :: "nat \<Rightarrow> nat \<Rightarrow> (nat \<Rightarrow> char) \<Rightarrow> xdp_state \<Rightarrow> xdp_state" where
  "xdp_kernel addr len bytes s =
     (let c = xd_core s; i = addr div FRAME_SIZE
      in if i < NUM_FRAMES \<and> rs_status c i = TP_STATUS_KERNEL
         then s\<lparr>xd_rx := xd_rx s @ [(addr, len)],
                xd_core := c\<lparr>rs_status := (rs_status c)(i := TP_STATUS_USER),
                  rs_mem := (\<lambda>a. if i * FRAME_SIZE \<le> a \<and> a < i * FRAME_SIZE + FRAME_SIZE then bytes (a - i * FRAME_SIZE)
                                 else rs_mem c a)\<rparr>\<rparr>
         else s)"

datatype xdp_action =
    Xdp_Kernel nat nat "nat \<Rightarrow> char"
  | Xdp_Receiver bool bool bool u64
  | Xdp_Worker_Pop
  | Xdp_Worker_Handle

fun xdp_act :: "nat \<Rightarrow> u16 \<Rightarrow> xdp_action \<Rightarrow> xdp_state \<Rightarrow> xdp_state" where
  "xdp_act cap port (Xdp_Kernel addr len bytes) s = xdp_kernel addr len bytes s"
| "xdp_act cap port (Xdp_Receiver running pd reserved ts) s = xdp_step cap port running pd reserved ts s"
| "xdp_act cap port Xdp_Worker_Pop s = s\<lparr>xd_core := worker_pop cap (xd_core s)\<rparr>"
| "xdp_act cap port Xdp_Worker_Handle s = s\<lparr>xd_core := worker_handle (xd_core s)\<rparr>"

definition xdp_run :: "nat \<Rightarrow> u16 \<Rightarrow> RxPacket list \<Rightarrow> memory \<Rightarrow> xdp_action list \<Rightarrow> xdp_state" where
  "xdp_run cap port buf mem acts = fold (xdp_act cap port) acts (xdp_init buf mem)"

subsection \<open>No frame is lost\<close>

definition batch_of :: "xdp_pc \<Rightarrow> (nat \<times> nat) list" where
  "batch_of pc = (case pc of X_Frames todo batch r ts \<Rightarrow> batch | X_Push p todo batch r ts \<Rightarrow> batch | _ \<Rightarrow> [])"

definition reserved_of :: "xdp_pc \<Rightarrow> bool" where
  "reserved_of pc = (case pc of X_Frames todo batch r ts \<Rightarrow> r | X_Push p todo batch r ts \<Rightarrow> r | _ \<Rightarrow> True)"

definition no_handles :: "rx_state \<Rightarrow> nat \<Rightarrow> bool" where
  "no_handles c cap \<longleftrightarrow> spsc_inv cap (rs_queue c) \<and> (\<forall>p \<in> set (in_flight cap c). rp_hdr p = None)"

definition xdp_inv :: "nat \<Rightarrow> xdp_state \<Rightarrow> bool" where
  "xdp_inv cap s \<longleftrightarrow> reserved_of (xd_pc s) \<and> no_handles (xd_core s) cap \<and>
     (case xd_pc s of X_Push p todo batch r ts \<Rightarrow> rp_hdr p = None | _ \<Rightarrow> True) \<and>
     take (length (batch_of (xd_pc s))) (xd_rx s) = batch_of (xd_pc s) \<and>
     distinct (map frame_of (xd_rx s)) \<and>
     (\<forall>i. rs_status (xd_core s) i = TP_STATUS_USER \<longleftrightarrow> i \<in> set (map frame_of (xd_rx s)))"

lemma no_handles_worker:
  assumes "no_handles c cap"
  shows "no_handles (worker_pop cap c) cap" "no_handles (worker_handle c) cap"
    "rs_status (worker_pop cap c) = rs_status c" "rs_status (worker_handle c) = rs_status c"
proof -
  have q: "spsc_inv cap (rs_queue c)" using assms by (simp add: no_handles_def)
  obtain b q' where pop: "spsc_pop_batch cap 32 (rs_queue c) = (b, q')" by fastforce
  have "spsc_inv cap q'" "spsc_contents cap (rs_queue c) = b @ spsc_contents cap q'"
    using spsc.pop_batch_contents [OF q, of 32] spsc.pop_batch_invar [OF q, of 32] pop by simp_all
  with assms show "no_handles (worker_pop cap c) cap" "rs_status (worker_pop cap c) = rs_status c"
    by (cases "rs_batch c"; simp add: no_handles_def worker_pop_def pop in_flight_def)+
  from assms show "no_handles (worker_handle c) cap" "rs_status (worker_handle c) = rs_status c"
    by (cases "rs_batch c"; simp add: no_handles_def worker_handle_def in_flight_def release_frame_def)+
qed

lemma xdp_kernel_inv:
  assumes "xdp_inv cap s"
  shows "xdp_inv cap (xdp_kernel addr len bytes s)"
proof (cases "addr div FRAME_SIZE < NUM_FRAMES \<and> rs_status (xd_core s) (addr div FRAME_SIZE) = TP_STATUS_KERNEL")
  case True
  then have "addr div FRAME_SIZE \<notin> set (map frame_of (xd_rx s))"
    using assms unfolding xdp_inv_def by (metis frame_status.distinct(1))
  moreover have "length (batch_of (xd_pc s)) \<le> length (xd_rx s)"
    using assms unfolding xdp_inv_def by (metis length_take min.absorb_iff2 min.commute)
  ultimately show ?thesis
    using assms True unfolding xdp_inv_def
    by (simp add: xdp_kernel_def Let_def no_handles_def in_flight_def frame_of_def [of "(addr, len)"])
next
  case False
  then have "xdp_kernel addr len bytes s = s" by (auto simp: xdp_kernel_def Let_def)
  with assms show ?thesis by simp
qed

lemma xdp_recycle_inv:
  assumes "xdp_inv cap s" "xd_pc s = X_Frames [] batch r ts"
  shows "xdp_inv cap (xdp_recycle batch r s)"
proof -
  have r: "r" and b: "take (length batch) (xd_rx s) = batch" and d: "distinct (map frame_of (xd_rx s))"
    and st: "\<forall>i. rs_status (xd_core s) i = TP_STATUS_USER \<longleftrightarrow> i \<in> set (map frame_of (xd_rx s))"
    using assms by (simp_all add: xdp_inv_def reserved_of_def batch_of_def)
  define rest where "rest = drop (length batch) (xd_rx s)"
  have split: "xd_rx s = batch @ rest" using b append_take_drop_id [of "length batch" "xd_rx s"] by (simp add: rest_def)
  have "distinct (map frame_of rest)" and dis: "set (map frame_of batch) \<inter> set (map frame_of rest) = {}"
    using d unfolding split by auto
  moreover have "(if i \<in> set (map frame_of batch) then TP_STATUS_KERNEL else rs_status (xd_core s) i) = TP_STATUS_USER \<longleftrightarrow>
      i \<in> set (map frame_of rest)" for i
    using st dis unfolding split by auto
  ultimately show ?thesis
    using assms r by (simp add: xdp_inv_def xdp_recycle_def rest_def [symmetric] reserved_of_def batch_of_def no_handles_def in_flight_def Let_def)
qed

lemma xdp_push_inv:
  assumes "xdp_inv cap s" "xd_pc s = X_Push p todo batch r ts"
  shows "xdp_inv cap (xdp_push cap running p todo batch r ts s)"
proof -
  have q: "spsc_inv cap (rs_queue (xd_core s))" using assms by (simp add: xdp_inv_def no_handles_def)
  obtain ok q' where push: "spsc_push cap p (rs_queue (xd_core s)) = (ok, q')" by fastforce
  have "spsc_inv cap q'" "spsc_contents cap q' = spsc_contents cap (rs_queue (xd_core s)) @ (if ok then [p] else [])"
    using spsc.push_invar [OF q, of p] spsc.push_ok [OF q, of p] spsc.push_contents [OF q, of p] push by auto
  with assms show ?thesis
    by (cases ok; cases running)
      (auto simp: xdp_push_def push Let_def xdp_inv_def no_handles_def in_flight_def reserved_of_def batch_of_def)
qed

lemma xdp_frame_inv:
  assumes "xdp_inv cap s" "xd_pc s = X_Frames (d # todo) batch r ts"
  shows "xdp_inv cap (xdp_frame port d todo batch r ts s)"
  using assms
  by (cases d) (auto simp: xdp_frame_def Let_def xdp_inv_def no_handles_def in_flight_def reserved_of_def batch_of_def
      split: option.split)

lemma xdp_top_inv:
  assumes "xdp_inv cap s" "xd_pc s = X_Top"
  shows "xdp_inv cap (xdp_top pd True ts s)"
  using assms
  by (auto simp: xdp_top_def xdp_idle_def Let_def xdp_inv_def no_handles_def in_flight_def reserved_of_def batch_of_def
      min_def)

lemma xdp_step_inv:
  assumes "xdp_inv cap s"
  shows "xdp_inv cap (xdp_step cap port running pd True ts s)"
proof (cases "xd_pc s")
  case X_Top
  moreover have "xdp_inv cap (s\<lparr>xd_pc := X_Done\<rparr>)"
    using X_Top assms by (simp add: xdp_inv_def reserved_of_def batch_of_def)
  ultimately show ?thesis using assms by (simp add: xdp_step_def xdp_top_inv)
next
  case (X_Frames todo batch r t)
  then show ?thesis using assms by (cases todo) (simp_all add: xdp_step_def xdp_recycle_inv xdp_frame_inv)
next
  case (X_Push p todo batch r t)
  then show ?thesis using assms by (simp add: xdp_step_def xdp_push_inv)
qed (use assms in \<open>simp add: xdp_step_def\<close>)

definition xdp_reserves :: "xdp_action \<Rightarrow> bool" where
  "xdp_reserves a \<longleftrightarrow> (case a of Xdp_Receiver running pd reserved ts \<Rightarrow> reserved | _ \<Rightarrow> True)"

lemma xdp_act_inv:
  assumes "xdp_inv cap s" "xdp_reserves a"
  shows "xdp_inv cap (xdp_act cap port a s)"
proof (cases a)
  case Xdp_Worker_Pop
  with assms no_handles_worker [of "xd_core s" cap] show ?thesis by (simp add: xdp_inv_def)
next
  case Xdp_Worker_Handle
  with assms no_handles_worker [of "xd_core s" cap] show ?thesis by (simp add: xdp_inv_def)
qed (use assms in \<open>simp_all add: xdp_kernel_inv xdp_step_inv xdp_reserves_def\<close>)

text \<open>
  Frame conservation: in every interleaving in which the fill ring has room when asked, each UMEM frame
  is either the kernel's or has exactly one descriptor in the RX ring.
\<close>

theorem xdp_frames_conserved:
  assumes "spsc_static_assert cap" "length buf = cap" "list_all xdp_reserves acts" "s = xdp_run cap port buf mem acts"
  shows "distinct (map frame_of (xd_rx s)) \<and>
    (\<forall>i. rs_status (xd_core s) i = TP_STATUS_USER \<longleftrightarrow> i \<in> set (map frame_of (xd_rx s)))"
proof -
  have "xdp_inv cap (xdp_init buf mem)"
    using assms(1,2) spsc_init_inv [of cap buf]
    by (auto simp: xdp_inv_def xdp_init_def rx_init_def no_handles_def in_flight_def reserved_of_def batch_of_def)
  moreover have "xdp_inv cap (fold (xdp_act cap port) acts t)" if "xdp_inv cap t" for t
    using that assms(3) by (induction acts arbitrary: t) (simp_all add: xdp_act_inv)
  ultimately have "xdp_inv cap s" by (simp add: xdp_run_def assms(4))
  then show ?thesis by (simp add: xdp_inv_def)
qed

text \<open>
  The frame goes back to the fill ring with its batch, not with the packet's handling: the kernel may
  write the next datagram over a payload that is still in the queue, and the worker reads that one.
\<close>

definition xdp_datagram :: "char \<Rightarrow> nat \<Rightarrow> char" where
  "xdp_datagram c k = udp_frame (replicate 12 (CHR 0x02))
     (CHR 0x45 # replicate 8 (CHR 0x00) @ CHR 0x11 # replicate 10 (CHR 0x00)) [CHR 0x00, CHR 0x01] 8888
     [CHR 0x00, CHR 0x00] [c] ! k"

lemma xdp_datagram_strip:
  assumes "\<And>a. a < 2048 \<Longrightarrow> mem a = xdp_datagram c a"
  shows "strip_headers_xdp 8888 mem 0 43 = Some (42, 1)" "bytes_at mem 42 1 = [c]"
proof -
  have "strip_headers 8888 mem 0 = strip_headers 8888 (xdp_datagram c) 0"
    by (rule strip_headers_local) (simp add: assms)
  also have "\<dots> = Some (42, 1)"
    by (simp add: strip_headers_def net16_def byte_at_def header_sizes xdp_datagram_def udp_frame_def net16_bytes_def nth_append)
  finally show "strip_headers_xdp 8888 mem 0 43 = Some (42, 1)" by (simp add: strip_headers_xdp_def header_sizes)
  show "bytes_at mem 42 1 = [c]"
    using assms [of 42] by (simp add: bytes_at_def xdp_datagram_def udp_frame_def net16_bytes_def nth_append)
qed

lemma xdp_kernel_bytes:
  assumes "rs_status (xd_core s) 0 = TP_STATUS_KERNEL"
  obtains m st where "\<And>a. a < 2048 \<Longrightarrow> m a = bytes a"
    "xdp_kernel 0 n bytes s = s\<lparr>xd_rx := xd_rx s @ [(0, n)], xd_core := (xd_core s)\<lparr>rs_status := st, rs_mem := m\<rparr>\<rparr>"
proof
  define m where "m = (\<lambda>a. if a < 2048 then bytes a else rs_mem (xd_core s) a)"
  show "xdp_kernel 0 n bytes s = s\<lparr>xd_rx := xd_rx s @ [(0, n)],
      xd_core := (xd_core s)\<lparr>rs_status := (rs_status (xd_core s))(0 := TP_STATUS_USER), rs_mem := m\<rparr>\<rparr>"
    using assms by (simp add: xdp_kernel_def NUM_FRAMES_def FRAME_SIZE_def Let_def m_def cong: if_cong)
  show "m a = bytes a" if "a < 2048" for a using that by (simp add: m_def)
qed

lemma xdp_overwrites_queued_packet:
  assumes "spsc_static_assert cap" "length buf = cap"
  shows "\<exists>acts. let s = xd_core (xdp_run cap 8888 buf mem acts)
     in map pkt_payload (rs_captured s) = [Some ''a''] \<and> map pkt_payload (rs_seen s) = [Some ''b'']"
proof -
  define p where "p = \<lparr>rp_cycles = 1, rp_len = 1, rp_payload = 42, rp_hdr = None\<rparr>"
  define rcv where "rcv = xdp_step cap 8888 True False True 1"
  define s1 where "s1 = xdp_kernel 0 43 (xdp_datagram (CHR ''a'')) (xdp_init buf mem)"
  define s5 where "s5 = rcv (rcv (rcv (rcv s1)))"
  define s6 where "s6 = xdp_kernel 0 43 (xdp_datagram (CHR ''b'')) s5"
  define s7 where "s7 = worker_handle (worker_pop cap (xd_core s6))"
  have q: "spsc_inv cap (spsc_init buf)" "spsc_contents cap (spsc_init buf) = []" "0 < cap - 1"
    using spsc_init_inv [OF assms] assms(1) by (auto simp: spsc_static_assert_def)
  define q1 where "q1 = snd (spsc_push cap p (spsc_init buf))"
  have push: "spsc_push cap p (spsc_init buf) = (True, q1)" "spsc_inv cap q1" "spsc_contents cap q1 = [p]"
    using q spsc.push_ok [OF q(1), of p] spsc.push_contents [OF q(1), of p] spsc.push_invar [OF q(1), of p]
    by (simp_all add: q1_def prod_eq_iff)
  have k1: "rs_status (xd_core (xdp_init buf mem)) 0 = TP_STATUS_KERNEL" by (simp add: xdp_init_def rx_init_def)
  obtain m st where m: "\<And>a. a < 2048 \<Longrightarrow> m a = xdp_datagram (CHR ''a'') a"
      and k: "s1 = (xdp_init buf mem)\<lparr>xd_rx := xd_rx (xdp_init buf mem) @ [(0, 43)],
        xd_core := (xd_core (xdp_init buf mem))\<lparr>rs_status := st, rs_mem := m\<rparr>\<rparr>"
    unfolding s1_def using xdp_kernel_bytes [OF k1, of "xdp_datagram (CHR ''a'')" 43] by blast
  have s1: "xd_core s1 = (rx_init buf mem)\<lparr>rs_status := st, rs_mem := m\<rparr>" "xd_rx s1 = [(0, 43)]" "xd_pc s1 = X_Top"
    by (simp_all add: k xdp_init_def)
  note a = xdp_datagram_strip [OF m]
  have s5: "rs_captured (xd_core s5) = [view m p]" "rs_queue (xd_core s5) = q1" "rs_batch (xd_core s5) = []"
      "rs_seen (xd_core s5) = []" "rs_status (xd_core s5) 0 = TP_STATUS_KERNEL"
    using s1 a push
    by (simp_all add: s5_def rcv_def xdp_step_def xdp_top_def xdp_frame_def xdp_push_def xdp_recycle_def BATCH_SIZE_def
        rx_init_def frame_of_def p_def [symmetric] Let_def)
  obtain m' st' where m': "\<And>a. a < 2048 \<Longrightarrow> m' a = xdp_datagram (CHR ''b'') a"
      and k': "s6 = s5\<lparr>xd_rx := xd_rx s5 @ [(0, 43)], xd_core := (xd_core s5)\<lparr>rs_status := st', rs_mem := m'\<rparr>\<rparr>"
    unfolding s6_def using xdp_kernel_bytes [OF s5(5), of "xdp_datagram (CHR ''b'')" 43] by blast
  have s6: "xd_core s6 = (xd_core s5)\<lparr>rs_status := st', rs_mem := m'\<rparr>" by (simp add: k')
  note b = xdp_datagram_strip [OF m']
  obtain q2 where pop: "spsc_pop_batch cap 32 q1 = ([p], q2)"
  proof -
    have "fst (spsc_pop_batch cap 32 q1) \<noteq> []" by (rule spsc.pop_batch_progress [OF push(2)]) (simp_all add: push(3))
    moreover have "[p] = fst (spsc_pop_batch cap 32 q1) @ spsc_contents cap (snd (spsc_pop_batch cap 32 q1))"
      using spsc.pop_batch_contents [OF push(2), of 32] push(3) by (simp only:)
    ultimately have "fst (spsc_pop_batch cap 32 q1) = [p]" by (auto simp: Cons_eq_append_conv)
    then show thesis using that by (metis prod.collapse)
  qed
  have "worker_pop cap (xd_core s6) = (xd_core s6)\<lparr>rs_batch := [p], rs_queue := q2\<rparr>"
    using s5 s6 pop by (simp add: worker_pop_def)
  then have "rs_seen s7 = [view m' p]" "rs_captured s7 = [view m p]"
    using s5 s6 by (simp_all add: s7_def worker_handle_def)
  then have "map pkt_payload (rs_captured s7) = [Some ''a''] \<and> map pkt_payload (rs_seen s7) = [Some ''b'']"
    using a(2) b(2) by (simp add: view_def p_def)
  moreover have "s7 = xd_core (xdp_run cap 8888 buf mem ([Xdp_Kernel 0 43 (xdp_datagram (CHR ''a''))] @
      replicate 4 (Xdp_Receiver True False True 1) @
      [Xdp_Kernel 0 43 (xdp_datagram (CHR ''b'')), Xdp_Worker_Pop, Xdp_Worker_Handle]))"
    by (simp add: s7_def s6_def s5_def s1_def rcv_def xdp_run_def numeral_eq_Suc)
  ultimately show ?thesis unfolding Let_def by metis
qed

subsection \<open>The factory\<close>

text \<open>
  With AF\_XDP compiled in, the receiver is the AF\_XDP one when its set-up succeeds and otherwise, or
  without AF\_XDP, the mapped ring, whose own set-up happens in \<open>run\<close>.
\<close>

datatype rx_consumer = Xdp_Consumer AfXdpRxConsumer | Mmap_Consumer PacketMmapRxConsumer

definition create_rx_consumer ::
  "bool \<Rightarrow> xdp_calls \<Rightarrow> string \<Rightarrow> u16 \<Rightarrow> nat \<Rightarrow> rx_consumer \<times> (log_level \<times> string) list" where
  "create_rx_consumer af_xdp_enabled xc iface port queue_id =
     (if af_xdp_enabled
      then let log1 = [(Info, ''[RxConsumerFactory] Attempting Primary Receiver: AF_XDP (XDP Sockets)...'')];
               (ok, c) = ax_init xc (af_xdp_init iface port queue_id)
           in if ok
              then (Xdp_Consumer c, log1 @ ax_log c @
                     [(Info, if ax_is_native c
                             then ''[RxConsumerFactory] Primary Receiver AF_XDP initialized in NATIVE HARDWARE ZERO-COPY MODE.''
                             else ''[RxConsumerFactory] Primary Receiver AF_XDP initialized in GENERIC SKB COPY MODE.'')])
              else (Mmap_Consumer (packet_mmap_init iface port), log1 @ ax_log c @
                     [(Warn, ''[RxConsumerFactory] Primary AF_XDP initialization failed. Triggering Fallback: PACKET_MMAP...'')])
      else (Mmap_Consumer (packet_mmap_init iface port),
            [(Info, ''[RxConsumerFactory] HFT_ENABLE_AF_XDP disabled at compile time. Using PACKET_MMAP...'')]))"

lemma create_rx_consumer_ready:
  "case fst (create_rx_consumer enabled xc iface port queue_id) of
     Xdp_Consumer c \<Rightarrow> ax_initialized c | Mmap_Consumer c \<Rightarrow> c = packet_mmap_init iface port"
proof (cases "ax_init xc (af_xdp_init iface port queue_id)")
  case (Pair ok c)
  have "ok \<Longrightarrow> ax_initialized c"
    using xdp_setup_accounts [where xc = xc and iface = iface and port = port and queue_id = queue_id] Pair by (cases ok) simp_all
  with Pair show ?thesis by (cases ok; cases enabled) (simp_all add: create_rx_consumer_def)
qed

end
