(* ===== verification/Fix_Producer.thy ===== *)
theory Fix_Producer
  imports Worker_Types
begin

text \<open>
  \<open>UdpFixProducer\<close> of \<open>src/networking/FixProducer.cpp\<close>: loading a data set and cutting it into messages,
  the synthetic order it sends when there is none, the direct injection into the queue and the two
  sending loops. What comes from outside is the file's bytes, the values of \<open>g_running\<close> the loops read
  and the results of \<open>sendto\<close>.
\<close>

subsection \<open>Loading a data set\<close>

definition starts_with :: "string \<Rightarrow> string \<Rightarrow> bool" where
  "starts_with s p = (take (length p) s = p)"

definition ends_with :: "string \<Rightarrow> string \<Rightarrow> bool" where
  "ends_with s p = (length p \<le> length s \<and> drop (length s - length p) s = p)"

text \<open>
  The test on the first eight bytes, shared by the constructor and by
  \<open>EngineLauncher::is_binary_dataset\<close>.
\<close>

definition is_binary :: "string \<Rightarrow> string \<Rightarrow> bool" where
  "is_binary path content =
     (let head_view = take 8 content;
          is_fix_ascii = (starts_with head_view ''8=FIX'' \<or> starts_with head_view ''8='')
      in \<not> is_fix_ascii \<and> (ends_with path ''.data'' \<or> (length head_view > 0 \<and> head_view ! 0 = CHR ''O'')))"

definition pkt_size_for :: "nat \<Rightarrow> nat" where
  "pkt_size_for file_size = (if file_size mod 46 = 0 then 46 else 44)"

text \<open>\<open>for (offset = 0; offset + pkt_size <= file_size; offset += pkt_size)\<close>, for a positive size.\<close>

function binary_records :: "nat \<Rightarrow> string \<Rightarrow> nat \<Rightarrow> string list" where
  "binary_records pkt_size data offset =
     (if 0 < pkt_size \<and> offset + pkt_size \<le> length data
      then take pkt_size (drop offset data) # binary_records pkt_size data (offset + pkt_size)
      else [])"
  by pat_completeness auto
termination by (relation "measure (\<lambda>(k, d, offset). length d - offset)") auto

declare binary_records.simps [simp del]

definition is_newline :: "char \<Rightarrow> bool" where
  "is_newline c = (c = CHR 0x0D \<or> c = CHR 0x0A)"

text \<open>\<open>string_view::find_first_of\<close> and \<open>find_first_not_of\<close> from a position, \<open>None\<close> for \<open>npos\<close>.\<close>

definition find_from :: "(char \<Rightarrow> bool) \<Rightarrow> string \<Rightarrow> nat \<Rightarrow> nat option" where
  "find_from P s pos =
     (let i = pos + length (takeWhile (\<lambda>c. \<not> P c) (drop pos s)) in if i < length s then Some i else None)"

lemma find_from_ge: "find_from P s pos = Some i \<Longrightarrow> pos \<le> i \<and> i < length s \<and> P (s ! i)"
proof -
  assume "find_from P s pos = Some i"
  then have i: "i = pos + length (takeWhile (\<lambda>c. \<not> P c) (drop pos s))" "i < length s"
    by (auto simp: find_from_def Let_def split: if_splits)
  then have "length (takeWhile (\<lambda>c. \<not> P c) (drop pos s)) < length (drop pos s)" by simp
  from nth_length_takeWhile [OF this] i show ?thesis by simp
qed

text \<open>The text loop: \<open>end\<close> is the next line break or the end, \<open>start\<close> moves behind the run of breaks.\<close>

function text_records :: "string \<Rightarrow> nat \<Rightarrow> string list" where
  "text_records data start =
     (if start < length data
      then let e = (case find_from is_newline data start of None \<Rightarrow> length data | Some i \<Rightarrow> i);
               here = (if e > start then [take (e - start) (drop start data)] else [])
           in case find_from (\<lambda>c. \<not> is_newline c) data e of
                None \<Rightarrow> here
              | Some i \<Rightarrow> here @ text_records data i
      else [])"
  by pat_completeness auto
termination
proof (relation "measure (\<lambda>(d, start). length d - start)", simp, goal_cases)
  case (1 data start e here i)
  have "start \<le> e"
    using find_from_ge [of is_newline data start] 1(1,2) by (auto split: option.splits)
  moreover have "e \<noteq> start \<or> i \<noteq> start"
  proof (rule ccontr)
    assume "\<not> (e \<noteq> start \<or> i \<noteq> start)"
    then have "e = start" "i = start" by simp_all
    then have "is_newline (data ! start)"
      using find_from_ge [of is_newline data start] 1(1,2) by (auto split: option.splits)
    with find_from_ge [OF 1(4)] \<open>i = start\<close> show False by simp
  qed
  ultimately show ?case using find_from_ge [OF 1(4)] by auto
qed

declare text_records.simps [simp del]

text \<open>
  What the constructor uses of \<open>std::ifstream\<close>: a read that finds fewer bytes than it asks for sets \<open>eofbit\<close> and \<open>failbit\<close>,
  \<open>seekg\<close> clears the first but not the second, and on a stream with \<open>failbit\<close> reads and seeks do nothing and \<open>tellg\<close> is \<open>-1\<close>.
\<close>

record ifstream =
  is_data :: string
  is_pos :: nat
  is_eofbit :: bool
  is_failbit :: bool

definition stream_open :: "string \<Rightarrow> ifstream" where
  "stream_open data = \<lparr>is_data = data, is_pos = 0, is_eofbit = False, is_failbit = False\<rparr>"

definition stream_read :: "nat \<Rightarrow> ifstream \<Rightarrow> string \<times> ifstream" where
  "stream_read n f =
     (if is_eofbit f \<or> is_failbit f then ([], f\<lparr>is_failbit := True\<rparr>)
      else let got = take n (drop (is_pos f) (is_data f)); short = length got < n
           in (got, f\<lparr>is_pos := is_pos f + length got, is_eofbit := short, is_failbit := short\<rparr>))"

definition seekg_to :: "nat \<Rightarrow> ifstream \<Rightarrow> ifstream" where
  "seekg_to n f = (let g = f\<lparr>is_eofbit := False\<rparr> in if is_failbit g then g else g\<lparr>is_pos := n\<rparr>)"

definition tellg :: "ifstream \<Rightarrow> int" where
  "tellg f = (if is_failbit f then -1 else int (is_pos f))"

datatype load_error = Length_Error

text \<open>
  The constructor's loading: no message without a path or when the file does not open (\<open>None\<close>); the exception that leaves it when
  \<open>tellg\<close> fails, since no string can be resized to \<open>size_t (-1)\<close>; otherwise the records or lines of the file. \<open>Inl\<close> is
  the exception.
\<close>

definition load_messages :: "string \<Rightarrow> string option \<Rightarrow> load_error + string list" where
  "load_messages path content =
     (if path = [] then Inr []
      else case content of
             None \<Rightarrow> Inr []
           | Some data \<Rightarrow>
               (let (head_view, f1) = stream_read 8 (stream_open data);
                    binary = is_binary path head_view;
                    f2 = seekg_to (length data) (seekg_to 0 f1);
                    file_size = tellg f2;
                    f3 = seekg_to 0 f2
                in if file_size < 0 then Inl Length_Error
                   else let (raw_file_data, _) = stream_read (nat file_size) f3
                        in Inr (if binary then binary_records (pkt_size_for (nat file_size)) raw_file_data 0
                                else text_records raw_file_data 0)))"

subsection \<open>What the loader makes of a file\<close>

text \<open>The reference: the maximal runs of characters outside \<open>P\<close>.\<close>

function runs :: "(char \<Rightarrow> bool) \<Rightarrow> string \<Rightarrow> string list" where
  "runs P s =
     (case dropWhile P s of
        [] \<Rightarrow> []
      | c # t \<Rightarrow> takeWhile (\<lambda>c. \<not> P c) (c # t) # runs P (dropWhile (\<lambda>c. \<not> P c) (c # t)))"
  by pat_completeness auto
termination
proof (relation "measure (length \<circ> snd)", simp, goal_cases)
  case (1 P s c t)
  have "\<not> P c" using 1 by (metis hd_dropWhile list.sel(1) list.discI)
  then have "length (dropWhile (\<lambda>c. \<not> P c) (c # t)) < length (c # t)"
    using length_dropWhile_le [of "\<lambda>c. \<not> P c" t] by (simp add: le_imp_less_Suc)
  also have "\<dots> \<le> length s" using 1 length_dropWhile_le [of P s] by simp
  finally show ?case by simp
qed

declare runs.simps [simp del]

lemma runs_dropWhile: "runs P (dropWhile P s) = runs P s"
  by (subst (1 2) runs.simps) simp

lemma runs_Nil [simp]: "runs P [] = []"
  by (subst runs.simps) simp

lemma runs_step:
  "runs P s = (let w = takeWhile (\<lambda>c. \<not> P c) s in if w = [] then [] else [w]) @
    runs P (dropWhile P (dropWhile (\<lambda>c. \<not> P c) s))"
proof (cases s)
  case (Cons c t)
  show ?thesis
  proof (cases "P c")
    case True
    with Cons have "takeWhile (\<lambda>c. \<not> P c) s = []" "dropWhile (\<lambda>c. \<not> P c) s = s" by simp_all
    then show ?thesis using runs_dropWhile [of P s] by simp
  next
    case False
    with Cons have "dropWhile P s = c # t" "takeWhile (\<lambda>c. \<not> P c) s \<noteq> []" by simp_all
    then show ?thesis using Cons runs_dropWhile [of P "dropWhile (\<lambda>c. \<not> P c) s"] by (subst (1) runs.simps) simp
  qed
qed simp

lemma find_from_drop:
  assumes "pos \<le> length s"
  shows "drop (case find_from P s pos of None \<Rightarrow> length s | Some i \<Rightarrow> i) s = dropWhile (\<lambda>c. \<not> P c) (drop pos s)"
    "take ((case find_from P s pos of None \<Rightarrow> length s | Some i \<Rightarrow> i) - pos) (drop pos s) = takeWhile (\<lambda>c. \<not> P c) (drop pos s)"
    "find_from P s pos = None \<Longrightarrow> dropWhile (\<lambda>c. \<not> P c) (drop pos s) = []"
proof -
  define n where "n = length (takeWhile (\<lambda>c. \<not> P c) (drop pos s))"
  have le: "pos + n \<le> length s"
    using length_takeWhile_le [of "\<lambda>c. \<not> P c" "drop pos s"] assms by (simp add: n_def)
  have e: "(case find_from P s pos of None \<Rightarrow> length s | Some i \<Rightarrow> i) = pos + n"
    using le by (auto simp: find_from_def n_def [symmetric] Let_def)
  show "drop (case find_from P s pos of None \<Rightarrow> length s | Some i \<Rightarrow> i) s = dropWhile (\<lambda>c. \<not> P c) (drop pos s)"
    using dropWhile_eq_drop [of "\<lambda>c. \<not> P c" "drop pos s"] unfolding e by (simp add: n_def [symmetric] add.commute)
  show "take ((case find_from P s pos of None \<Rightarrow> length s | Some i \<Rightarrow> i) - pos) (drop pos s) = takeWhile (\<lambda>c. \<not> P c) (drop pos s)"
    using takeWhile_eq_take [of "\<lambda>c. \<not> P c" "drop pos s"] unfolding e by (simp add: n_def [symmetric])
  assume "find_from P s pos = None"
  then have "length s \<le> pos + n" by (auto simp: find_from_def n_def Let_def split: if_splits)
  then show "dropWhile (\<lambda>c. \<not> P c) (drop pos s) = []"
    using dropWhile_eq_drop [of "\<lambda>c. \<not> P c" "drop pos s"] by (simp add: n_def [symmetric] add.commute)
qed

lemma text_records_runs: "start \<le> length data \<Longrightarrow> text_records data start = runs is_newline (drop start data)"
proof (induction data start rule: text_records.induct)
  case (1 data start)
  show ?case
  proof (cases "start < length data")
    case True
    define e where "e = (case find_from is_newline data start of None \<Rightarrow> length data | Some i \<Rightarrow> i)"
    have e: "e \<le> length data" "start \<le> e"
      using find_from_ge [of is_newline data start] True by (auto simp: e_def less_imp_le split: option.split)
    have w: "take (e - start) (drop start data) = takeWhile (\<lambda>c. \<not> is_newline c) (drop start data)"
      and r: "drop e data = dropWhile (\<lambda>c. \<not> is_newline c) (drop start data)"
      using find_from_drop [of start data is_newline] True by (simp_all add: e_def)
    have here: "(if e > start then [take (e - start) (drop start data)] else []) =
        (let w = takeWhile (\<lambda>c. \<not> is_newline c) (drop start data) in if w = [] then [] else [w])"
      unfolding w [symmetric] Let_def using True e by auto
    have more: "(case find_from (\<lambda>c. \<not> is_newline c) data e of None \<Rightarrow> [] | Some i \<Rightarrow> text_records data i) =
        runs is_newline (dropWhile is_newline (drop e data))"
    proof (cases "find_from (\<lambda>c. \<not> is_newline c) data e")
      case None
      then have "dropWhile is_newline (drop e data) = []"
        using find_from_drop(3) [of e data "\<lambda>c. \<not> is_newline c"] e by simp
      with None show ?thesis by (simp only: runs_Nil option.case)
    next
      case (Some i)
      with find_from_ge [OF Some] 1 True e_def
      have "text_records data i = runs is_newline (drop i data)" by simp
      with find_from_drop(1) [of e data "\<lambda>c. \<not> is_newline c"] e Some show ?thesis by simp
    qed
    have "text_records data start = (if e > start then [take (e - start) (drop start data)] else []) @
        (case find_from (\<lambda>c. \<not> is_newline c) data e of None \<Rightarrow> [] | Some i \<Rightarrow> text_records data i)"
      using True by (subst text_records.simps) (simp add: e_def Let_def split: option.split)
    then show ?thesis unfolding here more r runs_step [of is_newline "drop start data"] .
  next
    case False
    with 1 show ?thesis by (subst text_records.simps) simp
  qed
qed

lemma runs_lines:
  assumes "list_all P eol" "eol \<noteq> []" "\<forall>m \<in> set ms. m \<noteq> [] \<and> list_all (\<lambda>c. \<not> P c) m"
  shows "runs P (concat (map (\<lambda>m. m @ eol) ms)) = ms"
  using assms(3)
proof (induction ms)
  case (Cons m ms)
  let ?rest = "concat (map (\<lambda>m. m @ eol) ms)"
  have m: "m \<noteq> []" "\<forall>c \<in> set m. \<not> P c" and eol: "\<forall>c \<in> set eol. P c" using Cons.prems assms(1) by (simp_all add: list_all_iff)
  obtain c cs where cs: "eol = c # cs" using assms(2) by (cases eol) auto
  have "takeWhile (\<lambda>c. \<not> P c) (m @ eol @ ?rest) = m" "dropWhile (\<lambda>c. \<not> P c) (m @ eol @ ?rest) = eol @ ?rest"
    using m eol cs by (simp_all add: takeWhile_append2 dropWhile_append2)
  moreover have "dropWhile P (eol @ ?rest) = dropWhile P ?rest" using eol by (simp add: dropWhile_append2)
  ultimately have "runs P (m @ eol @ ?rest) = [m] @ runs P (dropWhile P ?rest)"
    using m by (subst runs_step) simp
  with Cons runs_dropWhile [of P ?rest] show ?case by simp
qed simp

lemma binary_records_drop:
  "0 < k \<Longrightarrow> binary_records k data (length pre + n) = binary_records k (drop (length pre) data) n" if "length pre \<le> length data"
  using that
proof (induction k "drop (length pre) data" n rule: binary_records.induct)
  case (1 k n)
  have le: "length pre + n + k \<le> length data \<longleftrightarrow> n + k \<le> length data - length pre" using 1(3) by linarith
  show ?case
    using 1 le by (subst (1 2) binary_records.simps) (simp add: drop_drop ac_simps)
qed

lemma binary_records_Cons:
  assumes "0 < k" "length r = k"
  shows "binary_records k (r @ data) 0 = r # binary_records k data 0"
  using binary_records_drop [of r "r @ data" k 0] assms by (subst binary_records.simps) simp

lemma binary_records_concat:
  assumes "0 < k" "\<forall>r \<in> set rs. length r = k" "length rest < k"
  shows "binary_records k (concat rs @ rest) 0 = rs"
  using assms(2)
proof (induction rs)
  case Nil
  then show ?case using assms by (subst binary_records.simps) simp
next
  case (Cons r rs)
  with binary_records_Cons [OF assms(1), of r "concat rs @ rest"] show ?case by simp
qed

lemma length_concat_records: "\<forall>r \<in> set rs. length r = k \<Longrightarrow> length (concat rs) = length rs * k"
  by (induction rs) simp_all

lemma is_binary_head: "is_binary path (take 8 data) = is_binary path data"
  by (simp add: is_binary_def)

text \<open>A data set of eight bytes or more is read as a whole; on a shorter one the constructor throws.\<close>

lemma load_messages_whole:
  assumes "path \<noteq> []" "8 \<le> length data"
  shows "load_messages path (Some data) =
    Inr (if is_binary path data then binary_records (pkt_size_for (length data)) data 0 else text_records data 0)"
  using assms is_binary_head [of path data]
  by (simp add: load_messages_def stream_read_def stream_open_def seekg_to_def tellg_def Let_def)

lemma load_messages_short:
  assumes "path \<noteq> []" "length data < 8"
  shows "load_messages path (Some data) = Inl Length_Error"
  using assms by (simp add: load_messages_def stream_read_def stream_open_def seekg_to_def tellg_def Let_def)

lemma load_messages_Inr:
  assumes "load_messages path (Some data) = Inr msgs" "path \<noteq> []"
  shows "8 \<le> length data" "msgs = (if is_binary path data then binary_records (pkt_size_for (length data)) data 0 else text_records data 0)"
  using assms load_messages_short [OF assms(2), of data] load_messages_whole [OF assms(2), of data]
  by (cases "length data < 8"; simp)+

text \<open>
  C36. Loading a data set gives back its messages: a text file of at least eight bytes of non-empty lines, each ended by the
  same break (\<open>\n\<close> or \<open>\r\n\<close>), is cut into exactly those lines, and a non-empty binary file of 46-byte records
  into exactly those records; on a file shorter than the eight bytes of the header the constructor throws \<open>std::length_error\<close>.
\<close>

theorem producer_loads_messages:
  assumes "path \<noteq> []" "eol = [CHR 0x0A] \<or> eol = [CHR 0x0D, CHR 0x0A]"
  shows "(\<not> is_binary path (concat (map (\<lambda>m. m @ eol) ms)) \<and> (\<forall>m \<in> set ms. m \<noteq> [] \<and> list_all (\<lambda>c. \<not> is_newline c) m) \<and>
        8 \<le> length (concat (map (\<lambda>m. m @ eol) ms)) \<longrightarrow>
      load_messages path (Some (concat (map (\<lambda>m. m @ eol) ms))) = Inr ms) \<and>
    (is_binary path (concat rs) \<and> rs \<noteq> [] \<and> (\<forall>r \<in> set rs. length r = 46) \<longrightarrow> load_messages path (Some (concat rs)) = Inr rs) \<and>
    (length data < 8 \<longrightarrow> load_messages path (Some data) = Inl Length_Error)"
proof (intro conjI impI)
  assume "\<not> is_binary path (concat (map (\<lambda>m. m @ eol) ms)) \<and> (\<forall>m \<in> set ms. m \<noteq> [] \<and> list_all (\<lambda>c. \<not> is_newline c) m) \<and>
    8 \<le> length (concat (map (\<lambda>m. m @ eol) ms))"
  then show "load_messages path (Some (concat (map (\<lambda>m. m @ eol) ms))) = Inr ms"
    using assms runs_lines [of is_newline eol ms]
    by (auto simp: load_messages_whole text_records_runs is_newline_def)
next
  assume r: "is_binary path (concat rs) \<and> rs \<noteq> [] \<and> (\<forall>r \<in> set rs. length r = 46)"
  then have len: "length (concat rs) = length rs * 46" by (intro length_concat_records) simp
  with r have "8 \<le> length (concat rs)" "pkt_size_for (length (concat rs)) = 46"
    by (cases rs; simp add: pkt_size_for_def)+
  with r assms(1) binary_records_concat [of 46 rs "[]"]
  show "load_messages path (Some (concat rs)) = Inr rs" by (simp add: load_messages_whole)
qed (rule load_messages_short [OF assms(1)])

lemma producer_loads_messages_witness:
  "load_messages ''a.txt'' (Some (''8=FIX|34=1'' @ [CHR 0x0D, CHR 0x0A] @ ''8=FIX|34=2'' @ [CHR 0x0D, CHR 0x0A])) =
     Inr [''8=FIX|34=1'', ''8=FIX|34=2''] \<and>
   load_messages ''a.txt'' (Some (''8=F'' @ [CHR 0x0A])) = Inl Length_Error"
  using producer_loads_messages [of "''a.txt''" "[CHR 0x0D, CHR 0x0A]" "[''8=FIX|34=1'', ''8=FIX|34=2'']" "[]" "''8=F'' @ [CHR 0x0A]"]
  by (simp add: is_binary_def starts_with_def is_newline_def)

subsection \<open>The synthetic order\<close>

text \<open>The format string with the sequence number in tags 34 and 11, cut by \<open>format_to_n\<close> at 511 bytes.\<close>

definition synthetic_fields :: "nat \<Rightarrow> (nat \<times> string) list" where
  "synthetic_fields i =
     [(8, ''FIX.4.2''), (9, ''95''), (35, ''D''), (49, ''PRODUCER''), (56, ''ENGINE''), (34, dec_string i),
      (52, ''20260717-18:00:00.000''), (11, ''ORD_'' @ dec_string i), (55, ''PETR4''), (54, ''1''), (38, ''1000''),
      (40, ''2''), (44, ''35.85''), (10, ''128'')]"

definition synthetic_message :: "nat \<Rightarrow> string" where
  "synthetic_message i =
     (let formatted = fix_message (CHR 0x01) (synthetic_fields i);
          len = (if length formatted < 512 then length formatted else 512 - 1)
      in take len formatted)"

lemma dec_string_length: "n < 10 ^ k \<Longrightarrow> 0 < k \<Longrightarrow> length (dec_string n) \<le> k"
proof (induction k arbitrary: n)
  case (Suc k)
  show ?case
  proof (cases "n < 10")
    case True
    then show ?thesis by (subst dec_string.simps) simp
  next
    case False
    then have "0 < k" using Suc.prems by (cases k) simp_all
    with Suc.IH [of "n div 10"] Suc.prems have "length (dec_string (n div 10)) \<le> k" by simp
    with False show ?thesis by (subst dec_string.simps) simp
  qed
qed simp

lemma dec_string_literals:
  "dec_string 8 = ''8''" "dec_string 9 = ''9''" "dec_string 35 = ''35''" "dec_string 49 = ''49''" "dec_string 56 = ''56''"
  "dec_string 34 = ''34''" "dec_string 52 = ''52''" "dec_string 11 = ''11''" "dec_string 55 = ''55''" "dec_string 54 = ''54''"
  "dec_string 38 = ''38''" "dec_string 40 = ''40''" "dec_string 44 = ''44''" "dec_string 10 = ''10''"
  by (simp_all add: dec_string.simps)

lemma synthetic_message_whole:
  assumes "i < 2 ^ 64"
  shows "synthetic_message i = fix_message (CHR 0x01) (synthetic_fields i)"
proof -
  have "length (dec_string i) \<le> 20" using assms by (intro dec_string_length) simp_all
  then have "length (fix_message (CHR 0x01) (synthetic_fields i)) < 512"
    by (simp add: fix_message_def fix_field_def synthetic_fields_def dec_string_literals)
  then show ?thesis by (simp add: synthetic_message_def Let_def)
qed

lemma digits_no_delim: "list_all (\<lambda>c. \<not> is_delim c) (dec_string i)"
  using dec_string_digits [of i] by (auto simp: list_all_iff is_delim_def is_digit_def)

lemma synthetic_values:
  "from_chars_int ''1'' n = 1" "from_chars_int ''1000'' n = 1000" "parse_fixed_point_price ''35.85'' = 35850000"
  by (simp_all add: from_chars_int_def is_digit_def dec_value_def digit_val_def in_i32_def parse_fixed_point_price_def
      in_i64_def Let_def)

text \<open>
  What the producer sends is what the engines read: the synthetic message with number \<open>i\<close> fits the
  producer's buffer and a packet, and the FIX parser reads it as the order \<open>ORD_i\<close> with sequence number
  \<open>i\<close>: buy 1000 PETR4 at 35.85.
\<close>

theorem synthetic_message_parses:
  assumes "i < 2 ^ 64"
  shows "fix_parse_in_place (Some (synthetic_message i)) =
      default_order\<lparr>msg_type := ''D'', msg_type_char := CHR ''D'', seq_num := of_nat i, cl_ord_id := ''ORD_'' @ dec_string i,
        symbol := ''PETR4'', side := 1, quantity := 1000, price := 35850000\<rparr> \<and>
    length (synthetic_message i) < 512"
proof -
  have "fix_scan (synthetic_message i @ []) default_order =
      fix_scan [] (fold (\<lambda>(n, v). fix_assign (int n) v) (synthetic_fields i) default_order)"
    unfolding synthetic_message_whole [OF assms]
    by (rule fix_scan_message) (simp_all add: is_delim_def synthetic_fields_def digits_no_delim [unfolded is_delim_def de_Morgan_disj])
  also have "\<dots> = default_order\<lparr>msg_type := ''D'', msg_type_char := CHR ''D'', seq_num := of_nat i,
      cl_ord_id := ''ORD_'' @ dec_string i, symbol := ''PETR4'', side := 1, quantity := 1000, price := 35850000\<rparr>"
    using assms by (simp add: synthetic_fields_def fix_assign_def synthetic_values)
  moreover have "synthetic_message i \<noteq> []"
    by (simp add: synthetic_message_whole [OF assms] fix_message_def synthetic_fields_def fix_field_def)
  moreover have "length (synthetic_message i) < 512" by (simp add: synthetic_message_def Let_def)
  ultimately show ?thesis by (simp add: fix_parse_in_place_def)
qed

lemma synthetic_message_parses_witness:
  "seq_num (fix_parse_in_place (Some (synthetic_message 7))) = 7 \<and> cl_ord_id (fix_parse_in_place (Some (synthetic_message 7))) = ''ORD_7''"
  using synthetic_message_parses [of 7] by (simp add: dec_string.simps)

subsection \<open>Direct injection\<close>

text \<open>
  The loop over the loaded messages in direct queue mode, one step a load of \<open>g_running\<close> at its top or
  one turn of the push loop, interleaved with the worker's \<open>pop_batch\<close>. The last two fields are
  history: the packets the worker popped and the packets given up when \<open>g_running\<close> fell.
\<close>

definition direct_packet :: "u64 \<Rightarrow> string \<Rightarrow> FixMessagePacket" where
  "direct_packet ts msg = \<lparr>rx_timestamp_cycles = ts, pkt_payload_len = of_nat (min (length msg) 512),
     pkt_payload = Some msg, ring_hdr = None\<rparr>"

datatype inject_pc = J_Top | J_Push FixMessagePacket | J_Done

record inject_state =
  ij_todo :: "string list"
  ij_queue :: "FixMessagePacket spsc"
  ij_injected :: nat
  ij_pc :: inject_pc
  ij_producer_done :: bool
  ij_popped :: "FixMessagePacket list"
  ij_dropped :: "FixMessagePacket list"

definition inject_init :: "string list \<Rightarrow> FixMessagePacket list \<Rightarrow> inject_state" where
  "inject_init msgs buf = \<lparr>ij_todo = msgs, ij_queue = spsc_init buf, ij_injected = 0, ij_pc = J_Top,
     ij_producer_done = False, ij_popped = [], ij_dropped = []\<rparr>"

definition inject_step :: "nat \<Rightarrow> bool \<Rightarrow> u64 \<Rightarrow> inject_state \<Rightarrow> inject_state" where
  "inject_step cap running ts s =
     (case ij_pc s of
        J_Done \<Rightarrow> s
      | J_Top \<Rightarrow>
          (case ij_todo s of
             [] \<Rightarrow> s\<lparr>ij_pc := J_Done, ij_producer_done := True\<rparr>
           | msg # rest \<Rightarrow>
               if \<not> running then s\<lparr>ij_pc := J_Done, ij_producer_done := True\<rparr>
               else s\<lparr>ij_todo := rest, ij_pc := J_Push (direct_packet ts msg)\<rparr>)
      | J_Push pkt \<Rightarrow>
          (let (ok, q) = spsc_push cap pkt (ij_queue s); s1 = s\<lparr>ij_queue := q\<rparr>
           in if \<not> ok \<and> running then s1
              else s1\<lparr>ij_injected := ij_injected s + 1, ij_pc := J_Top,
                      ij_dropped := (if ok then ij_dropped s else ij_dropped s @ [pkt])\<rparr>))"

definition inject_pop :: "nat \<Rightarrow> inject_state \<Rightarrow> inject_state" where
  "inject_pop cap s =
     (let (batch, q) = spsc_pop_batch cap 32 (ij_queue s) in s\<lparr>ij_queue := q, ij_popped := ij_popped s @ batch\<rparr>)"

datatype inject_action = Inject bool u64 | Pop

fun inject_act :: "nat \<Rightarrow> inject_action \<Rightarrow> inject_state \<Rightarrow> inject_state" where
  "inject_act cap (Inject running ts) s = inject_step cap running ts s"
| "inject_act cap Pop s = inject_pop cap s"

definition inject_run :: "nat \<Rightarrow> string list \<Rightarrow> FixMessagePacket list \<Rightarrow> inject_action list \<Rightarrow> inject_state" where
  "inject_run cap msgs buf acts = fold (inject_act cap) acts (inject_init msgs buf)"

text \<open>A packet that stands for a whole loaded message, with the length cut at 512 bytes.\<close>

definition is_direct :: "FixMessagePacket \<Rightarrow> bool" where
  "is_direct pkt \<longleftrightarrow> pkt = direct_packet (rx_timestamp_cycles pkt) (the (pkt_payload pkt))"

lemma is_direct_packet [simp]: "is_direct (direct_packet ts msg)"
  by (simp add: is_direct_def direct_packet_def)

lemma is_direct_bytes: "is_direct pkt \<Longrightarrow> pkt_bytes pkt = Some (take 512 (the (pkt_payload pkt)))"
proof -
  have "unat (of_nat (min n 512) :: u16) = min n 512" for n by (simp add: unat_of_nat take_bit_nat_eq_self min_def)
  then have "pkt_bytes (direct_packet ts msg) = Some (take 512 msg)" for ts msg
    by (simp add: pkt_bytes_def direct_packet_def min_def)
  then show "is_direct pkt \<Longrightarrow> pkt_bytes pkt = Some (take 512 (the (pkt_payload pkt)))" unfolding is_direct_def by metis
qed

definition inject_inv :: "nat \<Rightarrow> string list \<Rightarrow> inject_state \<Rightarrow> bool" where
  "inject_inv cap msgs s \<longleftrightarrow> spsc_inv cap (ij_queue s) \<and> ij_dropped s = [] \<and>
     list_all is_direct (ij_popped s @ spsc_contents cap (ij_queue s) @ (case ij_pc s of J_Push pkt \<Rightarrow> [pkt] | _ \<Rightarrow> [])) \<and>
     msgs = map (the \<circ> pkt_payload)
       (ij_popped s @ spsc_contents cap (ij_queue s) @ (case ij_pc s of J_Push pkt \<Rightarrow> [pkt] | _ \<Rightarrow> [])) @ ij_todo s \<and>
     ij_injected s = length (ij_popped s @ spsc_contents cap (ij_queue s)) \<and>
     (ij_pc s = J_Done \<longrightarrow> ij_todo s = [])"

lemma inject_step_inv:
  assumes inv: "inject_inv cap msgs s"
  shows "inject_inv cap msgs (inject_step cap True ts s)"
proof (cases "ij_pc s")
  case J_Top
  with inv show ?thesis
    by (cases "ij_todo s") (simp_all add: inject_inv_def inject_step_def, simp add: direct_packet_def)
next
  case (J_Push pkt)
  have q: "spsc_inv cap (ij_queue s)" using inv by (simp add: inject_inv_def)
  obtain ok q' where push: "spsc_push cap pkt (ij_queue s) = (ok, q')" by fastforce
  have "spsc_inv cap q'" "spsc_contents cap q' = spsc_contents cap (ij_queue s) @ (if ok then [pkt] else [])"
    using spsc.push_invar [OF q, of pkt] spsc.push_ok [OF q, of pkt] spsc.push_contents [OF q, of pkt] push by auto
  with inv J_Push push show ?thesis by (cases ok) (simp_all add: inject_inv_def inject_step_def)
qed (use inv in \<open>simp add: inject_step_def\<close>)

lemma inject_pop_inv:
  assumes "inject_inv cap msgs s"
  shows "inject_inv cap msgs (inject_pop cap s)"
proof -
  have q: "spsc_inv cap (ij_queue s)" using assms by (simp add: inject_inv_def)
  obtain b q' where pop: "spsc_pop_batch cap 32 (ij_queue s) = (b, q')" by fastforce
  have "spsc_inv cap q'" "spsc_contents cap (ij_queue s) = b @ spsc_contents cap q'"
    using spsc.pop_batch_contents [OF q, of 32] spsc.pop_batch_invar [OF q, of 32] pop by simp_all
  with assms show ?thesis by (simp add: inject_inv_def inject_pop_def pop)
qed

definition inject_live :: "inject_action \<Rightarrow> bool" where
  "inject_live a \<longleftrightarrow> (case a of Inject running ts \<Rightarrow> running | Pop \<Rightarrow> True)"

text \<open>
  Direct queue mode loses nothing: while \<open>g_running\<close> is up, in every interleaving with the worker,
  the data set is the messages the worker has popped, those in the queue, the one being pushed and
  those still to come, in order and with their bytes; \<open>injected\<close> counts the ones accepted; and once
  \<open>g_producer_done\<close> is up all of them have been accepted.
\<close>

theorem direct_queue_lossless:
  assumes "spsc_static_assert cap" "length buf = cap" "list_all inject_live acts" "s = inject_run cap msgs buf acts"
  shows "msgs = map (the \<circ> pkt_payload)
      (ij_popped s @ spsc_contents cap (ij_queue s) @ (case ij_pc s of J_Push pkt \<Rightarrow> [pkt] | _ \<Rightarrow> [])) @ ij_todo s \<and>
    ij_injected s = length (ij_popped s @ spsc_contents cap (ij_queue s)) \<and>
    (ij_pc s = J_Done \<longrightarrow> ij_injected s = length msgs)"
proof -
  have "inject_inv cap msgs (inject_init msgs buf)"
    using assms(1,2) spsc_init_inv [of cap buf] by (auto simp: inject_inv_def inject_init_def)
  moreover have step: "inject_inv cap msgs (inject_act cap a t)" if "inject_inv cap msgs t" "inject_live a" for a t
    using that by (cases a) (simp_all add: inject_step_inv inject_pop_inv inject_live_def)
  moreover have "inject_inv cap msgs (fold (inject_act cap) acts t)" if "inject_inv cap msgs t" for t
    using that assms(3) by (induction acts arbitrary: t) (simp_all add: step)
  ultimately have inv: "inject_inv cap msgs s" by (simp add: inject_run_def assms(4))
  have "ij_injected s = length msgs" if "ij_pc s = J_Done"
  proof -
    have "msgs = map (the \<circ> pkt_payload) (ij_popped s @ spsc_contents cap (ij_queue s))"
      using inv that by (simp add: inject_inv_def)
    from arg_cong [OF this, of length] inv show ?thesis by (simp add: inject_inv_def)
  qed
  with inv show ?thesis unfolding inject_inv_def by blast
qed

lemma direct_queue_lossless_witness:
  "let s = inject_run 8192 [''8=FIX|34=1''] (replicate 8192 (direct_packet 0 [])) [Inject True 5, Inject True 6, Pop, Inject True 7]
   in ij_injected s = length (ij_popped s @ spsc_contents 8192 (ij_queue s))"
  unfolding Let_def
  using direct_queue_lossless [of 8192 "replicate 8192 (direct_packet 0 [])"
      "[Inject True 5, Inject True 6, Pop, Inject True 7]" _ "[''8=FIX|34=1'']"]
    pow2_capacity_exp [of 13]
  by (simp add: spsc_static_assert_def pow2_capacity_def inject_live_def)

subsection \<open>Sending over UDP\<close>

text \<open>
  The datagrams handed to \<open>sendto\<close> and the warnings of the failed calls; \<open>running k\<close> is the value the
  loop reads before item \<open>k\<close> and \<open>sendto k\<close> the result for it. Pacing pauses are left out.
\<close>

fun send_loaded :: "(nat \<Rightarrow> bool) \<Rightarrow> (nat \<Rightarrow> int) \<Rightarrow> nat \<Rightarrow> string list \<Rightarrow> string list \<times> string list \<times> nat" where
  "send_loaded running sendto injected [] = ([], [], injected)"
| "send_loaded running sendto injected (msg # rest) =
     (if \<not> running injected then ([], [], injected)
      else let warning = (if sendto injected < 0
                          then [''[FixProducer] Warning: sendto() failed for loaded queue item #'' @ dec_string (injected + 1)]
                          else []);
               (sent, warnings, n) = send_loaded running sendto (injected + 1) rest
           in (msg # sent, warning @ warnings, n))"

function send_synthetic :: "(nat \<Rightarrow> bool) \<Rightarrow> (nat \<Rightarrow> int) \<Rightarrow> nat \<Rightarrow> nat \<Rightarrow> string list \<times> string list" where
  "send_synthetic running sendto count i =
     (if i \<le> count \<and> running i
      then let warning = (if sendto i < 0
                          then [''[FixProducer] Warning: sendto() failed for sequence '' @ dec_string i] else []);
               (sent, warnings) = send_synthetic running sendto count (i + 1)
           in (synthetic_message i # sent, warning @ warnings)
      else ([], []))"
  by pat_completeness auto
termination by (relation "measure (\<lambda>(r, s, count, i). Suc count - i)") auto

declare send_synthetic.simps [simp del]

text \<open>\<open>run\<close> without a direct queue: a socket that cannot be opened ends it, and in every case \<open>g_producer_done\<close> is set.\<close>

definition producer_run :: "int \<Rightarrow> (nat \<Rightarrow> bool) \<Rightarrow> (nat \<Rightarrow> int) \<Rightarrow> nat \<Rightarrow> string list \<Rightarrow> string list \<times> bool" where
  "producer_run sock running sendto count loaded =
     (if sock < 0 then ([], True)
      else if loaded \<noteq> [] then (fst (send_loaded running sendto 0 loaded), True)
      else (fst (send_synthetic running sendto count 1), True))"

lemma send_loaded_all: "(\<And>k. running k) \<Longrightarrow> fst (send_loaded running sendto n msgs) = msgs \<and> snd (snd (send_loaded running sendto n msgs)) = n + length msgs"
  by (induction msgs arbitrary: n) (simp_all add: split_beta)

lemma send_loaded_prefix: "\<exists>k. fst (send_loaded running sendto n msgs) = take k msgs"
proof (induction msgs arbitrary: n)
  case (Cons m ms)
  show ?case
  proof (cases "running n")
    case True
    obtain k where "fst (send_loaded running sendto (n + 1) ms) = take k ms" using Cons.IH by blast
    with True show ?thesis by (intro exI [of _ "Suc k"]) (simp add: split_beta)
  next
    case False
    then show ?thesis by (intro exI [of _ 0]) simp
  qed
qed simp

lemma send_synthetic_all:
  assumes "\<And>k. running k"
  shows "fst (send_synthetic running sendto count i) = map synthetic_message [i..<Suc count]"
proof (induction "Suc count - i" arbitrary: i)
  case 0
  then show ?case by (subst send_synthetic.simps) simp
next
  case (Suc n)
  then have "fst (send_synthetic running sendto count (i + 1)) = map synthetic_message [i + 1..<Suc count]" by simp
  moreover have "[i..<Suc count] = i # [i + 1..<Suc count]" using Suc(2) by (simp add: upt_conv_Cons del: upt_Suc)
  ultimately show ?case
    using assms Suc(2) by (subst send_synthetic.simps) (simp add: split_beta Let_def del: upt_Suc)
qed

lemma producer_run_order:
  assumes "\<And>k. running k" "0 \<le> sock"
  shows "producer_run sock running sendto count loaded =
    (if loaded \<noteq> [] then loaded else map synthetic_message [1..<Suc count], True)"
  using assms send_loaded_all [of running sendto 0 loaded] send_synthetic_all [of running sendto count 1]
  by (simp add: producer_run_def del: upt_Suc)

end
