(* ===== verification/Engine_Launcher.thy ===== *)
theory Engine_Launcher
  imports Fix_Producer Protocol_Parser
begin

text \<open>
  \<open>EngineLauncher::run\<close> of \<open>include/hft/common/EngineLauncher.hpp\<close> up to the start of the threads: the
  command line, the pairing of interfaces, the number of messages to expect, protocol and file names,
  and the assignment of cores. The file system is a function from paths to contents (\<open>None\<close> for a path
  that does not exist), and the number of cores is an input. An exception of \<open>std::stoul\<close> outside a
  \<open>try\<close> ends the program: the result \<open>Uncaught\<close>.
\<close>

subsection \<open>Command line\<close>

definition is_space :: "char \<Rightarrow> bool" where
  "is_space c \<longleftrightarrow> c \<in> {CHR '' '', CHR 0x09, CHR 0x0A, CHR 0x0B, CHR 0x0C, CHR 0x0D}"

text \<open>
  \<open>std::stoul\<close> in base ten: blanks, a sign, digits; text behind the digits is ignored, no digits or a
  value beyond 64 bits throws, and a minus sign negates modulo 2 to the 64.
\<close>

definition stoul :: "string \<Rightarrow> u64 option" where
  "stoul s =
     (let t = dropWhile is_space s;
          negative = (t \<noteq> [] \<and> hd t = CHR ''-'');
          u = (if t \<noteq> [] \<and> (hd t = CHR ''-'' \<or> hd t = CHR ''+'') then tl t else t);
          ds = takeWhile is_digit u
      in if ds = [] \<or> dec_value ds \<ge> 2 ^ 64 then None
         else Some (if negative then - of_nat (dec_value ds) else of_nat (dec_value ds)))"

record launch_options =
  lo_rx_interface :: string
  lo_tx_interface :: string
  lo_direct_queue_mode :: bool
  lo_enable_core_pinning :: bool
  lo_queue_id :: u32
  lo_explicit_protocol_arg :: string
  lo_positional_args :: "string list"

definition no_options :: launch_options where
  "no_options = \<lparr>lo_rx_interface = [], lo_tx_interface = [], lo_direct_queue_mode = False, lo_enable_core_pinning = False,
     lo_queue_id = 0, lo_explicit_protocol_arg = [], lo_positional_args = []\<rparr>"

definition parse_option :: "string \<Rightarrow> launch_options \<Rightarrow> launch_options option" where
  "parse_option arg o1 =
     (if arg = ''--direct-queue'' then Some (o1\<lparr>lo_direct_queue_mode := True\<rparr>)
      else if arg = ''--pin-cores'' then Some (o1\<lparr>lo_enable_core_pinning := True\<rparr>)
      else if starts_with arg ''--rx-iface='' then Some (o1\<lparr>lo_rx_interface := drop 11 arg\<rparr>)
      else if starts_with arg ''--tx-iface='' then Some (o1\<lparr>lo_tx_interface := drop 11 arg\<rparr>)
      else if starts_with arg ''--queue-id='' then map_option (\<lambda>v. o1\<lparr>lo_queue_id := ucast v\<rparr>) (stoul (drop 11 arg))
      else if starts_with arg ''--protocol='' then Some (o1\<lparr>lo_explicit_protocol_arg := drop 11 arg\<rparr>)
      else if \<not> starts_with arg ''--'' then Some (o1\<lparr>lo_positional_args := lo_positional_args o1 @ [arg]\<rparr>)
      else Some o1)"

fun parse_options :: "string list \<Rightarrow> launch_options \<Rightarrow> launch_options option" where
  "parse_options [] o1 = Some o1"
| "parse_options (arg # args) o1 = (case parse_option arg o1 of None \<Rightarrow> None | Some o2 \<Rightarrow> parse_options args o2)"

text \<open>The positional arguments: each step takes the next one, if there is one.\<close>

definition take_rx :: "launch_options \<Rightarrow> string \<times> string list" where
  "take_rx opts =
     (if lo_rx_interface opts = [] \<and> lo_positional_args opts \<noteq> []
      then (hd (lo_positional_args opts), tl (lo_positional_args opts))
      else (lo_rx_interface opts, lo_positional_args opts))"

definition take_tx :: "launch_options \<Rightarrow> string list \<Rightarrow> string \<times> string list" where
  "take_tx opts rest =
     (if lo_tx_interface opts = [] \<and> length (lo_positional_args opts) \<ge> 4 \<and> rest \<noteq> [] \<and> stoul (hd rest) = None
      then (hd rest, tl rest) else (lo_tx_interface opts, rest))"

definition take_port :: "string list \<Rightarrow> (u16 \<times> string list) option" where
  "take_port rest =
     (case rest of [] \<Rightarrow> Some (0, []) | p # rest' \<Rightarrow> map_option (\<lambda>v. (ucast v, rest')) (stoul p))"

definition take_source :: "string list \<Rightarrow> string" where
  "take_source rest = (case rest of [] \<Rightarrow> [] | s # _ \<Rightarrow> s)"

definition pair_interface :: "string \<Rightarrow> string \<Rightarrow> string" where
  "pair_interface rx tx =
     (if tx = [] then (if rx = ''veth0'' then ''veth1'' else if rx = ''veth1'' then ''veth0'' else rx) else tx)"

subsection \<open>How many messages to expect\<close>

definition is_binary_dataset :: "(string \<Rightarrow> string option) \<Rightarrow> string \<Rightarrow> bool" where
  "is_binary_dataset fs path = (case fs path of None \<Rightarrow> False | Some content \<Rightarrow> path \<noteq> [] \<and> is_binary path content)"

text \<open>\<open>std::getline\<close> until the stream is exhausted.\<close>

function getlines :: "string \<Rightarrow> string list" where
  "getlines s =
     (if s = [] then []
      else takeWhile (\<lambda>c. c \<noteq> CHR 0x0A) s # getlines (drop 1 (dropWhile (\<lambda>c. c \<noteq> CHR 0x0A) s)))"
  by pat_completeness auto
termination
proof (relation "measure length", simp, goal_cases)
  case (1 s)
  then show ?case using length_dropWhile_le [of "\<lambda>c. c \<noteq> CHR 0x0A" s] by (cases s) (auto simp: less_Suc_eq_le)
qed

declare getlines.simps [simp del]

definition count_messages :: "(string \<Rightarrow> string option) \<Rightarrow> string \<Rightarrow> nat" where
  "count_messages fs source =
     (case fs source of
        Some content \<Rightarrow>
          if is_binary_dataset fs source
          then (if length content mod 46 = 0 then length content div 46 else length content div 44)
          else length (filter (\<lambda>line. line \<noteq> []) (getlines content))
      | None \<Rightarrow> (case stoul source of Some v \<Rightarrow> unat v | None \<Rightarrow> 50000))"

subsection \<open>The configuration\<close>

record launch_config =
  lc_rx_interface :: string
  lc_tx_interface :: string
  lc_udp_port :: u16
  lc_source :: string
  lc_queue_id :: u32
  lc_direct_queue_mode :: bool
  lc_total_messages :: nat
  lc_fix_file_path :: string
  lc_protocol :: ProtocolType
  lc_log_filename :: string
  lc_csv_filename :: string
  lc_target_ip :: string
  lc_worker_cpu :: int
  lc_consumer_cpu :: int
  lc_producer_cpu :: int
  lc_monitor_cpu :: int

datatype launch_result = Help | Missing_Arguments | Uncaught | Launch launch_config

definition proto_prefix :: "ProtocolType \<Rightarrow> string" where
  "proto_prefix p = (case p of OUCH \<Rightarrow> ''ouch'' | SBE \<Rightarrow> ''sbe'' | FIX \<Rightarrow> ''fix'')"

definition core_for :: "bool \<Rightarrow> nat \<Rightarrow> nat \<Rightarrow> nat \<Rightarrow> int" where
  "core_for pinning cpu_count needed core = (if pinning \<and> cpu_count \<ge> needed then int core else -1)"

definition configure :: "(string \<Rightarrow> string option) \<Rightarrow> nat \<Rightarrow> launch_options \<Rightarrow> launch_result" where
  "configure fs cpu_count opts =
     (let (rx, rest1) = take_rx opts; (tx, rest2) = take_tx opts rest1
      in case take_port rest2 of
           None \<Rightarrow> Uncaught
         | Some (port, rest3) \<Rightarrow>
             (let source = take_source rest3;
                  tx' = pair_interface rx tx;
                  proto = (if lo_explicit_protocol_arg opts \<noteq> [] then parse_protocol_type (lo_explicit_protocol_arg opts)
                           else parse_protocol_type source);
                  pin = lo_enable_core_pinning opts
              in Launch \<lparr>lc_rx_interface = rx, lc_tx_interface = tx', lc_udp_port = port, lc_source = source,
                   lc_queue_id = lo_queue_id opts, lc_direct_queue_mode = lo_direct_queue_mode opts,
                   lc_total_messages = count_messages fs source,
                   lc_fix_file_path = (if fs source \<noteq> None then source else []), lc_protocol = proto,
                   lc_log_filename = proto_prefix proto @ ''_engine.log'',
                   lc_csv_filename = proto_prefix proto @ ''_metrics_time_series.csv'',
                   lc_target_ip = (if tx' = ''lo'' then ''127.0.0.1'' else ''239.255.0.1''),
                   lc_worker_cpu = core_for pin cpu_count 2 1, lc_consumer_cpu = core_for pin cpu_count 3 2,
                   lc_producer_cpu = core_for pin cpu_count 4 3, lc_monitor_cpu = core_for pin cpu_count 5 4\<rparr>))"

definition launch :: "(string \<Rightarrow> string option) \<Rightarrow> nat \<Rightarrow> string list \<Rightarrow> launch_result" where
  "launch fs cpu_count args =
     (if list_ex (\<lambda>arg. arg = ''--help'' \<or> arg = ''-h'') args then Help
      else if length args < 3 then Missing_Arguments
      else case parse_options args no_options of None \<Rightarrow> Uncaught | Some opts \<Rightarrow> configure fs cpu_count opts)"

subsection \<open>The expected number is the number of messages loaded\<close>

lemma runs_cong: "(\<And>c. c \<in> set s \<Longrightarrow> P c = Q c) \<Longrightarrow> runs P s = runs Q s"
proof (induction P s rule: runs.induct)
  case (1 P s)
  have d: "dropWhile P s = dropWhile Q s" by (rule dropWhile_cong [OF refl 1(2)])
  show ?case
  proof (cases "dropWhile P s")
    case Nil
    with d show ?thesis by (subst (1 2) runs.simps) (simp del: dropWhile_eq_Nil_conv)
  next
    case (Cons c t)
    have sub: "P x = Q x" if "x \<in> set (c # t)" for x
    proof -
      from that have "x \<in> set (dropWhile P s)" by (simp only: Cons)
      then show ?thesis by (intro 1(2)) (rule set_dropWhileD)
    qed
    then have "takeWhile (\<lambda>c. \<not> P c) (c # t) = takeWhile (\<lambda>c. \<not> Q c) (c # t)"
      "dropWhile (\<lambda>c. \<not> P c) (c # t) = dropWhile (\<lambda>c. \<not> Q c) (c # t)"
      by (intro takeWhile_cong dropWhile_cong refl; simp only: sub)+
    moreover have "runs P (dropWhile (\<lambda>c. \<not> P c) (c # t)) = runs Q (dropWhile (\<lambda>c. \<not> P c) (c # t))"
      by (rule 1(1) [OF Cons]) (rule sub, erule set_dropWhileD)
    ultimately show ?thesis using Cons d by (subst (1 2) runs.simps) simp
  qed
qed

lemma getlines_runs: "filter (\<lambda>line. line \<noteq> []) (getlines s) = runs (\<lambda>c. c = CHR 0x0A) s"
proof (induction s rule: getlines.induct)
  case (1 s)
  show ?case
  proof (cases "s = []")
    case False
    let ?r = "dropWhile (\<lambda>c. c \<noteq> CHR 0x0A) s"
    have "runs (\<lambda>c. c = CHR 0x0A) (drop 1 ?r) = runs (\<lambda>c. c = CHR 0x0A) (dropWhile (\<lambda>c. c = CHR 0x0A) ?r)"
    proof (cases ?r)
      case Nil
      show ?thesis unfolding Nil by simp
    next
      case (Cons c t)
      then have "c = CHR 0x0A" using hd_dropWhile [of "\<lambda>c. c \<noteq> CHR 0x0A" s] by simp
      with Cons runs_dropWhile [of "\<lambda>c. c = CHR 0x0A" t] show ?thesis by simp
    qed
    moreover have "getlines s = takeWhile (\<lambda>c. c \<noteq> CHR 0x0A) s # getlines (drop 1 ?r)"
      using False by (subst getlines.simps) simp
    ultimately show ?thesis
      using 1 [OF False] unfolding runs_step [of "\<lambda>c. c = CHR 0x0A" s] by (simp add: Let_def del: drop_Suc_Cons)
  qed (simp add: getlines.simps)
qed

lemma length_binary_records: "0 < k \<Longrightarrow> length (binary_records k data off) = (length data - off) div k"
proof (induction k data off rule: binary_records.induct)
  case (1 k data off)
  show ?case
  proof (cases "off + k \<le> length data")
    case True
    with 1 have "length (binary_records k data off) = Suc ((length data - (off + k)) div k)"
      by (subst binary_records.simps) simp
    also have "\<dots> = (length data - off) div k" using True 1(2) by (simp add: le_div_geq diff_diff_left)
    finally show ?thesis .
  next
    case False
    with 1 show ?thesis by (subst binary_records.simps) simp
  qed
qed

text \<open>
  The launcher expects as many messages as the producer loads: for every binary data set, and
  for every text file without carriage returns, that the producer can load, the two independent scans of the file agree.
\<close>

theorem launcher_counts_messages:
  assumes "fs source = Some content" "source \<noteq> []"
    and "is_binary source content \<or> CHR 0x0D \<notin> set content"
    and "load_messages source (Some content) = Inr msgs"
  shows "count_messages fs source = length msgs"
proof (cases "is_binary source content")
  case True
  with assms load_messages_Inr [OF assms(4,2)] show ?thesis
    by (simp add: count_messages_def is_binary_dataset_def length_binary_records pkt_size_for_def)
next
  case False
  with assms have "runs is_newline content = runs (\<lambda>c. c = CHR 0x0A) content"
    by (intro runs_cong) (auto simp: is_newline_def)
  with False assms load_messages_Inr [OF assms(4,2)] show ?thesis
    by (simp add: count_messages_def is_binary_dataset_def text_records_runs getlines_runs)
qed

text \<open>With carriage returns they need not: an empty line of a DOS file is counted but not loaded.\<close>

lemma launcher_miscounts_dos_blank_lines:
  "count_messages (\<lambda>_. Some (''8=FIX.4'' @ [CHR 0x0A, CHR 0x0D, CHR 0x0A])) ''a.txt'' = 2 \<and>
   load_messages ''a.txt'' (Some (''8=FIX.4'' @ [CHR 0x0A, CHR 0x0D, CHR 0x0A])) = Inr [''8=FIX.4'']"
  by (simp add: count_messages_def is_binary_dataset_def is_binary_def starts_with_def ends_with_def getlines.simps
      load_messages_whole text_records_runs runs.simps is_newline_def)

subsection \<open>Positional arguments and cores\<close>

definition plain_arg :: "string \<Rightarrow> bool" where
  "plain_arg s \<longleftrightarrow> \<not> starts_with s ''--'' \<and> s \<noteq> ''-h'' \<and> s \<noteq> []"

lemma plain_arg_parse:
  assumes "plain_arg s"
  shows "parse_option s o1 = Some (o1\<lparr>lo_positional_args := lo_positional_args o1 @ [s]\<rparr>)"
    and "s \<noteq> ''--help'' \<and> s \<noteq> ''-h''"
proof -
  have n: "\<not> starts_with s ''--''" using assms by (simp add: plain_arg_def)
  have pre: "\<not> starts_with s p" if "starts_with p ''--''" for p
  proof
    assume "starts_with s p"
    then have "take (length ''--'') (take (length p) s) = ''--''" using that by (simp add: starts_with_def)
    moreover have "length ''--'' \<le> length p" using that by (cases p rule: remdups_adj.cases) (auto simp: starts_with_def)
    ultimately show False using n by (simp add: starts_with_def min_def)
  qed
  have "s \<noteq> ''--direct-queue''" "s \<noteq> ''--pin-cores''" "s \<noteq> ''--help''" using n by (auto simp: starts_with_def)
  moreover have "\<not> starts_with s ''--rx-iface=''" "\<not> starts_with s ''--tx-iface=''" "\<not> starts_with s ''--queue-id=''"
    "\<not> starts_with s ''--protocol=''" by (rule pre, simp add: starts_with_def)+
  ultimately show "parse_option s o1 = Some (o1\<lparr>lo_positional_args := lo_positional_args o1 @ [s]\<rparr>)"
    "s \<noteq> ''--help'' \<and> s \<noteq> ''-h''"
    using n assms by (simp_all add: parse_option_def plain_arg_def)
qed

text \<open>The two forms of the usage text: with a transmitting interface, and without, when it is paired.\<close>

lemma launch_positional_forms:
  assumes "list_all plain_arg [rx, tx, port, source]" "stoul tx = None" "stoul port = Some p"
  shows "\<exists>c. launch fs n [rx, tx, port, source] = Launch c \<and> lc_rx_interface c = rx \<and> lc_tx_interface c = tx \<and>
      lc_udp_port c = ucast p \<and> lc_source c = source"
    and "\<exists>c. launch fs n [rx, port, source] = Launch c \<and> lc_rx_interface c = rx \<and>
      lc_tx_interface c = (if rx = ''veth0'' then ''veth1'' else if rx = ''veth1'' then ''veth0'' else rx) \<and>
      lc_udp_port c = ucast p \<and> lc_source c = source"
proof -
  have plain: "plain_arg rx" "plain_arg tx" "plain_arg port" "plain_arg source" using assms(1) by simp_all
  then have "rx \<noteq> []" "tx \<noteq> []" by (simp_all add: plain_arg_def)
  with plain assms(2,3) plain_arg_parse(2) [OF plain(1)] plain_arg_parse(2) [OF plain(2)] plain_arg_parse(2) [OF plain(3)]
    plain_arg_parse(2) [OF plain(4)]
  show "\<exists>c. launch fs n [rx, tx, port, source] = Launch c \<and> lc_rx_interface c = rx \<and> lc_tx_interface c = tx \<and>
      lc_udp_port c = ucast p \<and> lc_source c = source"
    and "\<exists>c. launch fs n [rx, port, source] = Launch c \<and> lc_rx_interface c = rx \<and>
      lc_tx_interface c = (if rx = ''veth0'' then ''veth1'' else if rx = ''veth1'' then ''veth0'' else rx) \<and>
      lc_udp_port c = ucast p \<and> lc_source c = source"
    by (simp_all add: launch_def plain_arg_parse(1) no_options_def configure_def take_rx_def take_tx_def take_port_def
        take_source_def pair_interface_def Let_def)
qed

text \<open>
  With the receiving interface given as an option, a transmitting interface among three positional
  arguments is taken for the port and ends the program.
\<close>

lemma launch_rx_option_needs_tx_option:
  "launch fs n [''--rx-iface=veth1'', ''veth0'', ''8888'', ''100''] = Uncaught"
  by (simp add: launch_def parse_option_def starts_with_def no_options_def configure_def take_rx_def take_tx_def
      take_port_def stoul_def is_space_def is_digit_def)

lemma configure_cores:
  assumes "configure fs n opts = Launch c"
  shows "lc_worker_cpu c = core_for (lo_enable_core_pinning opts) n 2 1" "lc_consumer_cpu c = core_for (lo_enable_core_pinning opts) n 3 2"
    "lc_producer_cpu c = core_for (lo_enable_core_pinning opts) n 4 3" "lc_monitor_cpu c = core_for (lo_enable_core_pinning opts) n 5 4"
proof -
  obtain rx rest1 tx rest2 where t: "take_rx opts = (rx, rest1)" "take_tx opts rest1 = (tx, rest2)" by fastforce
  with assms obtain port rest3 where "take_port rest2 = Some (port, rest3)"
    by (cases "take_port rest2") (auto simp: configure_def)
  with t assms show "lc_worker_cpu c = core_for (lo_enable_core_pinning opts) n 2 1"
    "lc_consumer_cpu c = core_for (lo_enable_core_pinning opts) n 3 2"
    "lc_producer_cpu c = core_for (lo_enable_core_pinning opts) n 4 3" "lc_monitor_cpu c = core_for (lo_enable_core_pinning opts) n 5 4"
    unfolding configure_def Let_def by (auto simp only: prod.case option.case launch_result.inject launch_config.select_convs)
qed

lemma launch_cores_distinct:
  assumes "launch fs n args = Launch c"
  shows "\<forall>x \<in> {lc_worker_cpu c, lc_consumer_cpu c, lc_producer_cpu c, lc_monitor_cpu c}. x = -1 \<or> 0 < x \<and> x < int n"
    and "distinct (filter (\<lambda>x. x \<noteq> -1) [lc_worker_cpu c, lc_consumer_cpu c, lc_producer_cpu c, lc_monitor_cpu c])"
proof -
  obtain opts where "configure fs n opts = Launch c"
    using assms by (auto simp: launch_def split: if_splits option.splits)
  from configure_cores [OF this]
  show "\<forall>x \<in> {lc_worker_cpu c, lc_consumer_cpu c, lc_producer_cpu c, lc_monitor_cpu c}. x = -1 \<or> 0 < x \<and> x < int n"
    and "distinct (filter (\<lambda>x. x \<noteq> -1) [lc_worker_cpu c, lc_consumer_cpu c, lc_producer_cpu c, lc_monitor_cpu c])"
    by (simp_all add: core_for_def)
qed

end
