(* ===== verification/System_Setup.thy ===== *)
theory System_Setup
  imports Hft_Prelude
begin

text \<open>
  The helpers of \<open>include/hft/common/SystemOptimizations.hpp\<close>: core pinning with the optional NUMA
  placement, real-time priority, thread names, memory locking and objects on huge pages. The results
  of the system calls are inputs; what a successful call changes is part of the state, with the lines
  written to the error stream.
\<close>

text \<open>
  The machine: what each call returns. \<open>sys_numa\<close> is \<open>None\<close> without \<open>HFT_ENABLE_NUMA\<close> or when the library
  reports no NUMA support, otherwise the node of a core (\<open>numa_node_of_cpu\<close>) and the result of
  \<open>numa_run_on_node\<close>.
\<close>

record machine =
  sys_setaffinity :: "nat \<Rightarrow> int \<Rightarrow> int"
  sys_numa :: "((int \<Rightarrow> int) \<times> (int \<Rightarrow> int)) option"
  sys_setscheduler :: "int \<Rightarrow> int"
  sys_mlockall :: int
  sys_nprocessors :: int

text \<open>Settings of the threads (by number) and of the process, and its address space.\<close>

record process =
  th_affinity :: "nat \<Rightarrow> int option"
  th_numa_node :: "int option"
  th_fifo_priority :: "nat \<Rightarrow> int option"
  th_name :: "nat \<Rightarrow> string"
  mem_locked :: bool
  mem_mapped :: "nat set"
  mem_objects :: "nat set"
  stderr :: "string list"

definition warn :: "string \<Rightarrow> process \<Rightarrow> process" where
  "warn txt s = s\<lparr>stderr := stderr s @ [''[SystemOptimizations] '' @ txt]\<rparr>"

definition pin_native_thread_to_cpu :: "machine \<Rightarrow> nat \<Rightarrow> int \<Rightarrow> process \<Rightarrow> bool \<times> process" where
  "pin_native_thread_to_cpu mc th cpu_id s =
     (let result = sys_setaffinity mc th cpu_id;
          s1 = (if result \<noteq> 0
                then warn (''Warning: Failed to pin thread to CPU '' @ dec_string_int cpu_id @
                           '' (Error: '' @ dec_string_int result @ '')'') s
                else s\<lparr>th_affinity := (th_affinity s)(th \<mapsto> cpu_id)\<rparr>);
          s2 = (case sys_numa mc of
                  None \<Rightarrow> s1
                | Some (node_of_cpu, run_on_node) \<Rightarrow>
                    let node = node_of_cpu cpu_id
                    in if node \<ge> 0
                       then (if run_on_node node \<noteq> 0
                             then warn (''Warning: Failed to set NUMA execution node '' @ dec_string_int node) s1
                             else s1)\<lparr>th_numa_node := Some node\<rparr>
                       else s1)
      in (result = 0, s2))"

text \<open>\<open>self\<close> is the number of the calling thread.\<close>

definition pin_thread_to_cpu :: "machine \<Rightarrow> nat \<Rightarrow> int \<Rightarrow> process \<Rightarrow> bool \<times> process" where
  "pin_thread_to_cpu mc self cpu_id s = pin_native_thread_to_cpu mc self cpu_id s"

definition set_realtime_priority :: "machine \<Rightarrow> nat \<Rightarrow> int \<Rightarrow> process \<Rightarrow> bool \<times> process" where
  "set_realtime_priority mc self prio s =
     (if sys_setscheduler mc prio \<noteq> 0
      then (False, warn ''Warning: SCHED_FIFO setting failed (requires root/CAP_SYS_NICE).'' s)
      else (True, s\<lparr>th_fifo_priority := (th_fifo_priority s)(self \<mapsto> prio)\<rparr>))"

text \<open>\<open>pthread_setname_np\<close> refuses names of more than 15 bytes with \<open>ERANGE\<close> and leaves the name alone.\<close>

definition pthread_setname :: "nat \<Rightarrow> string \<Rightarrow> process \<Rightarrow> process" where
  "pthread_setname th nm s = (if length nm \<le> 15 then s\<lparr>th_name := (th_name s)(th := nm)\<rparr> else s)"

definition apply_realtime_thread_settings ::
  "machine \<Rightarrow> nat \<Rightarrow> int \<Rightarrow> int \<Rightarrow> string option \<Rightarrow> process \<Rightarrow> process" where
  "apply_realtime_thread_settings mc self cpu_id rt_priority thread_name s =
     (let s1 = (if cpu_id \<ge> 0
                then let (ok, t) = pin_thread_to_cpu mc self cpu_id s
                     in if ok then warn (''Thread pinned to CPU core '' @ dec_string_int cpu_id @ ''.'') t else t
                else s);
          s2 = (if rt_priority > 0
                then let (ok, t) = set_realtime_priority mc self rt_priority s1
                     in if ok then warn (''SCHED_FIFO priority '' @ dec_string_int rt_priority @ '' activated.'') t
                        else t
                else s1)
      in case thread_name of Some nm \<Rightarrow> pthread_setname self nm s2 | None \<Rightarrow> s2)"

definition lock_process_memory :: "machine \<Rightarrow> process \<Rightarrow> bool \<times> process" where
  "lock_process_memory mc s =
     (if sys_mlockall mc \<noteq> 0
      then (False, warn (''Warning: mlockall(MCL_CURRENT|MCL_FUTURE) failed. '' @
                    ''Memory pages may be paged out under pressure, causing major page-fault '' @
                    ''latency spikes. Run as root or grant CAP_IPC_LOCK to the binary.'') s)
      else (True, warn ''mlockall: all process memory pages pinned to RAM.'' (s\<lparr>mem_locked := True\<rparr>)))"

text \<open>\<open>sysconf\<close> returns a \<open>long\<close>, which is cut to an \<open>int\<close>.\<close>

definition get_cpu_count :: "machine \<Rightarrow> int" where
  "get_cpu_count mc = wrap_i32 (sys_nprocessors mc)"

subsection \<open>Objects on huge pages\<close>

definition huge_page_size :: u64 where "huge_page_size = 2 * 1024 * 1024"

definition rounded_size :: "u64 \<Rightarrow> u64" where
  "rounded_size sz = ((sz + huge_page_size - 1) div huge_page_size) * huge_page_size"

text \<open>
  The answer of the kernel to the two attempts: with \<open>MAP_HUGETLB\<close> and, if that fails, without. A
  successful \<open>mmap\<close> adds the range to the address space; placement \<open>new\<close> starts the life of the object.
\<close>

definition map_range :: "nat \<Rightarrow> u64 \<Rightarrow> process \<Rightarrow> process" where
  "map_range addr sz s = s\<lparr>mem_mapped := mem_mapped s \<union> {addr ..< addr + unat sz}\<rparr>"

definition allocate_on_huge_pages ::
  "nat option \<Rightarrow> nat option \<Rightarrow> u64 \<Rightarrow> process \<Rightarrow> nat option \<times> process" where
  "allocate_on_huge_pages huge plain sz s =
     (let rounded = rounded_size sz
      in case huge of
           Some ptr \<Rightarrow> (let t = map_range ptr rounded s in (Some ptr, t\<lparr>mem_objects := insert ptr (mem_objects t)\<rparr>))
         | None \<Rightarrow>
             (case plain of
                None \<Rightarrow> (None, s)
              | Some ptr \<Rightarrow>
                  let t = warn ''Warning: Failed to allocate huge pages. Fell back to standard pages.''
                            (map_range ptr rounded s)
                  in (Some ptr, t\<lparr>mem_objects := insert ptr (mem_objects t)\<rparr>)))"

definition deallocate_huge_pages :: "nat option \<Rightarrow> u64 \<Rightarrow> process \<Rightarrow> process" where
  "deallocate_huge_pages p sz s =
     (case p of
        None \<Rightarrow> s
      | Some ptr \<Rightarrow>
          s\<lparr>mem_objects := mem_objects s - {ptr},
            mem_mapped := mem_mapped s - {ptr ..< ptr + unat (rounded_size sz)}\<rparr>)"

subsection \<open>What the settings achieve\<close>

lemma warn_settings [simp]:
  "th_affinity (warn t s) = th_affinity s" "th_fifo_priority (warn t s) = th_fifo_priority s"
  "th_name (warn t s) = th_name s"
  by (simp_all add: warn_def)

lemma pin_native_result:
  "fst (pin_native_thread_to_cpu mc th cpu s) \<longleftrightarrow> sys_setaffinity mc th cpu = 0"
  "th_affinity (snd (pin_native_thread_to_cpu mc th cpu s)) =
     (if sys_setaffinity mc th cpu = 0 then (th_affinity s)(th \<mapsto> cpu) else th_affinity s)"
  "th_fifo_priority (snd (pin_native_thread_to_cpu mc th cpu s)) = th_fifo_priority s"
  "th_name (snd (pin_native_thread_to_cpu mc th cpu s)) = th_name s"
  by (simp_all add: pin_native_thread_to_cpu_def Let_def split: option.split prod.split)

lemma set_realtime_result:
  "fst (set_realtime_priority mc self p s) \<longleftrightarrow> sys_setscheduler mc p = 0"
  "th_affinity (snd (set_realtime_priority mc self p s)) = th_affinity s"
  "th_fifo_priority (snd (set_realtime_priority mc self p s)) =
     (if sys_setscheduler mc p = 0 then (th_fifo_priority s)(self \<mapsto> p) else th_fifo_priority s)"
  "th_name (snd (set_realtime_priority mc self p s)) = th_name s"
  by (simp_all add: set_realtime_priority_def)

lemma setname_settings [simp]:
  "th_affinity (pthread_setname th nm s) = th_affinity s"
  "th_fifo_priority (pthread_setname th nm s) = th_fifo_priority s"
  "th_name (pthread_setname th nm s) = (if length nm \<le> 15 then (th_name s)(th := nm) else th_name s)"
  by (simp_all add: pthread_setname_def)

text \<open>
  The settings of a thread: each step succeeds or fails on its own, a failed step leaves the setting as
  it was and does not prevent the next one, and no other thread is touched.
\<close>

theorem realtime_settings_independent:
  assumes "t = apply_realtime_thread_settings mc self cpu prio (Some nm) s"
  shows "th_affinity t = (if cpu \<ge> 0 \<and> sys_setaffinity mc self cpu = 0 then (th_affinity s)(self \<mapsto> cpu) else th_affinity s)"
    and "th_fifo_priority t = (if prio > 0 \<and> sys_setscheduler mc prio = 0 then (th_fifo_priority s)(self \<mapsto> prio)
           else th_fifo_priority s)"
    and "th_name t = (if length nm \<le> 15 then (th_name s)(self := nm) else th_name s)"
  by (simp_all add: assms apply_realtime_thread_settings_def pin_thread_to_cpu_def Let_def split_beta
      pin_native_result set_realtime_result)

text \<open>The names the workers and the receiver pass are short enough to be set.\<close>

lemma thread_names_fit:
  "\<forall>nm \<in> {''hft_ob_engine'', ''hft_matcher'', ''hft_fix_wkr'', ''hft_rx_ring''}. length nm \<le> 15"
  by simp

subsection \<open>Huge pages\<close>

lemma rounded_size_bounds:
  assumes "unat sz \<le> 2 ^ 63"
  shows "unat sz \<le> unat (rounded_size sz)" "unat (rounded_size sz) < unat sz + 2 * 1024 * 1024"
    "2 * 1024 * 1024 dvd unat (rounded_size sz)"
proof -
  let ?h = "2097152 :: nat"
  have h: "unat huge_page_size = ?h" by (simp add: huge_page_size_def)
  have shift: "sz + huge_page_size - 1 = sz + 2097151" by (simp add: huge_page_size_def)
  have sum: "unat (sz + huge_page_size - 1) = unat sz + ?h - 1"
    unfolding shift using assms by (simp add: unat_word_ariths(1))
  define k where "k = (unat sz + ?h - 1) div ?h"
  have k: "unat ((sz + huge_page_size - 1) div huge_page_size) = k"
    by (simp only: unat_div_distrib sum h k_def)
  have up: "k * ?h \<le> unat sz + ?h - 1" by (simp add: k_def)
  have "unat sz + ?h - 1 < ?h + k * ?h"
    unfolding k_def by (rule dividend_less_div_times) simp
  then have lo: "unat sz \<le> k * ?h" by simp
  have "unat (rounded_size sz) = (k * ?h) mod 2 ^ 64"
    unfolding rounded_size_def by (simp add: unat_word_ariths(2) k h)
  also have "\<dots> = k * ?h" using up assms by simp
  finally have r: "unat (rounded_size sz) = k * ?h" .
  show "unat sz \<le> unat (rounded_size sz)" using lo r by simp
  show "unat (rounded_size sz) < unat sz + 2 * 1024 * 1024" using up r by simp
  show "2 * 1024 * 1024 dvd unat (rounded_size sz)" using r by simp
qed

text \<open>
  Huge-page allocation: whichever of the two attempts succeeds, the object lies inside the mapped
  range, which is a whole number of huge pages; if neither does, nothing is mapped. The matching
  deallocation unmaps exactly what was mapped: when the kernel had chosen a free range, the address
  space and the set of live objects are as before.
\<close>

theorem huge_page_roundtrip:
  assumes sz: "unat sz \<le> 2 ^ 63"
    and free: "\<And>ptr. huge = Some ptr \<or> plain = Some ptr \<Longrightarrow>
       {ptr ..< ptr + unat (rounded_size sz)} \<inter> mem_mapped s = {} \<and> ptr \<notin> mem_objects s"
    and alloc: "allocate_on_huge_pages huge plain sz s = (p, t)"
  shows "p = (if huge \<noteq> None then huge else plain) \<and>
    (case p of None \<Rightarrow> t = s
     | Some ptr \<Rightarrow> {ptr ..< ptr + unat sz} \<subseteq> mem_mapped t \<and> ptr \<in> mem_objects t \<and>
         2 * 1024 * 1024 dvd card (mem_mapped t - mem_mapped s)) \<and>
    mem_mapped (deallocate_huge_pages p sz t) = mem_mapped s \<and>
    mem_objects (deallocate_huge_pages p sz t) = mem_objects s"
proof (intro conjI)
  show p: "p = (if huge \<noteq> None then huge else plain)"
    using alloc by (auto simp: allocate_on_huge_pages_def Let_def split: option.splits)
  have none: "p = None \<Longrightarrow> t = s"
    using alloc by (auto simp: allocate_on_huge_pages_def Let_def split: option.splits)
  have some: "mem_mapped t = mem_mapped s \<union> {ptr ..< ptr + unat (rounded_size sz)}"
      "mem_objects t = insert ptr (mem_objects s)" if "p = Some ptr" for ptr
    using alloc that by (auto simp: allocate_on_huge_pages_def map_range_def warn_def Let_def split: option.splits)
  have ok: "{ptr ..< ptr + unat (rounded_size sz)} \<inter> mem_mapped s = {}" "ptr \<notin> mem_objects s" if "p = Some ptr" for ptr
    using that p free [of ptr] by (auto split: if_splits)
  have grown: "mem_mapped t - mem_mapped s = {ptr ..< ptr + unat (rounded_size sz)}" if "p = Some ptr" for ptr
    using some [OF that] ok [OF that] by auto
  show "case p of None \<Rightarrow> t = s
         | Some ptr \<Rightarrow> {ptr ..< ptr + unat sz} \<subseteq> mem_mapped t \<and> ptr \<in> mem_objects t \<and>
             2 * 1024 * 1024 dvd card (mem_mapped t - mem_mapped s)"
  proof (cases p)
    case (Some ptr)
    then show ?thesis
      using rounded_size_bounds [OF sz] some [OF Some] grown [OF Some] by auto
  qed (simp add: none)
  have back_to_start: "mem_mapped (deallocate_huge_pages p sz t) = mem_mapped s \<and>
        mem_objects (deallocate_huge_pages p sz t) = mem_objects s"
  proof (cases p)
    case (Some ptr)
    then show ?thesis
      using some [OF Some] ok [OF Some] by (auto simp: deallocate_huge_pages_def)
  qed (simp add: none deallocate_huge_pages_def)
  then show "mem_mapped (deallocate_huge_pages p sz t) = mem_mapped s" by simp
  show "mem_objects (deallocate_huge_pages p sz t) = mem_objects s" using back_to_start by simp
qed

text \<open>Witness: on an empty address space, the huge-page attempt failing and the plain one succeeding.\<close>

definition idle_process :: process where
  "idle_process = \<lparr>th_affinity = (\<lambda>_. None), th_numa_node = None, th_fifo_priority = (\<lambda>_. None),
     th_name = (\<lambda>_. ''''), mem_locked = False, mem_mapped = {}, mem_objects = {}, stderr = []\<rparr>"

theorem huge_page_roundtrip_witness:
  "mem_mapped (deallocate_huge_pages (Some 4096) 262464
     (snd (allocate_on_huge_pages None (Some 4096) 262464 idle_process))) = {}"
  using huge_page_roundtrip [of 262464 None "Some 4096" idle_process "Some 4096"]
  by (simp add: idle_process_def allocate_on_huge_pages_def Let_def)

end
