(* ===== verification/Cpu_Benchmark.thy ===== *)
theory Cpu_Benchmark
  imports System_Setup
begin

text \<open>
  \<open>CpuSchedulerBenchmark\<close> of \<open>include/hft/common/CpuSchedulerBenchmark.hpp\<close>: the statistics it computes
  from the pairs of cycle-counter readings of its loop, which are an input. The conversions of doubles
  are arguments: \<open>p99\<close> for \<open>static_cast<size_t>(iterations * 0.99)\<close> and \<open>to_ns\<close> for the division by 2.5.
\<close>

record 'd CpuBenchmarkResult =
  core_pinning_success :: bool
  realtime_priority_requested :: bool
  total_iterations :: nat
  min_cycles :: u64
  max_cycles :: u64
  avg_cycles :: u64
  p99_cycles :: u64
  preemption_spikes_count :: nat
  min_ns :: 'd
  max_ns :: 'd
  avg_ns :: 'd
  p99_ns :: 'd

definition bench_delta :: "u64 \<times> u64 \<Rightarrow> u64" where
  "bench_delta r = (let (start_c, end_c) = r in if end_c > start_c then end_c - start_c else 1)"

text \<open>One turn of the loop on the samples, their sum, the least and the greatest.\<close>

definition bench_turn :: "u64 \<times> u64 \<Rightarrow> u64 list \<times> u64 \<times> u64 \<times> u64 \<Rightarrow> u64 list \<times> u64 \<times> u64 \<times> u64" where
  "bench_turn r st =
     (let (samples, total_cycles, min_c, max_c) = st; delta = bench_delta r
      in (samples @ [delta], total_cycles + delta,
          if delta < min_c then delta else min_c, if delta > max_c then delta else max_c))"

definition bench_loop :: "(u64 \<times> u64) list \<Rightarrow> u64 list \<times> u64 \<times> u64 \<times> u64" where
  "bench_loop rs = fold bench_turn rs ([], 0, -1, 0)"

text \<open>
  The readings are as many as iterations. Dividing by zero iterations and an index outside the samples
  have no result.
\<close>

definition run_isolation_benchmark ::
  "machine \<Rightarrow> nat \<Rightarrow> (nat \<Rightarrow> nat) \<Rightarrow> (u64 \<Rightarrow> 'd) \<Rightarrow> int \<Rightarrow> (u64 \<times> u64) list \<Rightarrow> process \<Rightarrow>
     'd CpuBenchmarkResult option \<times> process" where
  "run_isolation_benchmark mc self p99 to_ns target_cpu readings s =
     (let iterations = length readings;
          (pinned, s1) = pin_thread_to_cpu mc self target_cpu s;
          (fifo, s2) = set_realtime_priority mc self 50 s1;
          (samples, total_cycles, min_c, max_c) = bench_loop readings;
          sorted_samples = sort samples;
          p99_idx = p99 iterations
      in if iterations = 0 \<or> \<not> p99_idx < length sorted_samples then (None, s2)
         else let avg = total_cycles div of_nat iterations;
                  p99_c = sorted_samples ! p99_idx;
                  spike_threshold = avg * 10
              in (Some \<lparr>core_pinning_success = pinned, realtime_priority_requested = fifo,
                    total_iterations = iterations, min_cycles = min_c, max_cycles = max_c,
                    avg_cycles = avg, p99_cycles = p99_c,
                    preemption_spikes_count = length (filter (\<lambda>x. x > spike_threshold) sorted_samples),
                    min_ns = to_ns min_c, max_ns = to_ns max_c, avg_ns = to_ns avg, p99_ns = to_ns p99_c\<rparr>, s2))"

subsection \<open>The loop\<close>

lemma bench_delta_pos: "0 < bench_delta r"
  by (auto simp: bench_delta_def word_greater_zero_iff split: prod.splits)

lemma bench_fold:
  "fold bench_turn rs (xs, t, lo, hi) =
     (xs @ map bench_delta rs, t + sum_list (map bench_delta rs), foldl min lo (map bench_delta rs),
      foldl max hi (map bench_delta rs))"
  by (induction rs arbitrary: xs t lo hi)
    (auto simp: bench_turn_def Let_def min_def max_def add.assoc not_less intro!: arg_cong2 [of _ _ _ _ "foldl min"] arg_cong2 [of _ _ _ _ "foldl max"])

lemma foldl_min_Min: "foldl min (a :: 'a :: linorder) xs = Min (insert a (set xs))"
proof (induction xs arbitrary: a)
  case (Cons x xs)
  then show ?case
    by (cases "xs = []") (simp_all add: min.assoc insert_commute)
qed simp

lemma foldl_max_Max: "foldl max (a :: 'a :: linorder) xs = Max (insert a (set xs))"
proof (induction xs arbitrary: a)
  case (Cons x xs)
  then show ?case
    by (cases "xs = []") (simp_all add: max.assoc insert_commute)
qed simp

lemma unat_sum_list:
  fixes xs :: "u64 list"
  assumes "sum_list (map unat xs) < 2 ^ 64"
  shows "unat (sum_list xs) = sum_list (map unat xs)"
  using assms
proof (induction xs)
  case (Cons x xs)
  then show ?case by (simp add: unat_word_ariths(1))
qed simp

subsection \<open>Bounds of an average and of the number of outliers\<close>

lemma sum_list_lower:
  fixes xs :: "nat list"
  assumes "\<And>x. x \<in> set xs \<Longrightarrow> a \<le> x"
  shows "length xs * a \<le> sum_list xs"
  using assms by (induction xs) (auto simp: add_mono)

lemma sum_list_upper:
  fixes xs :: "nat list"
  assumes "\<And>x. x \<in> set xs \<Longrightarrow> x \<le> b"
  shows "sum_list xs \<le> length xs * b"
  using assms by (induction xs) (auto simp: add_mono)

lemma average_between:
  fixes xs :: "nat list"
  assumes "xs \<noteq> []" "\<And>x. x \<in> set xs \<Longrightarrow> a \<le> x \<and> x \<le> b"
  shows "a \<le> sum_list xs div length xs \<and> sum_list xs div length xs \<le> b"
proof -
  have "length xs * a \<le> sum_list xs" "sum_list xs \<le> length xs * b"
    using assms(2) by (auto intro: sum_list_lower sum_list_upper)
  then show ?thesis
    using assms(1) div_le_mono [of "length xs * a" "sum_list xs" "length xs"]
      div_le_mono [of "sum_list xs" "length xs * b" "length xs"] by simp
qed

lemma outlier_weight:
  fixes xs :: "nat list"
  shows "length (filter (\<lambda>x. x > c) xs) * Suc c \<le> sum_list xs"
  by (induction xs) auto

lemma outliers_few:
  fixes xs :: "nat list"
  assumes "xs \<noteq> []" "\<And>x. x \<in> set xs \<Longrightarrow> 1 \<le> x"
  defines "avg \<equiv> sum_list xs div length xs"
  shows "5 * length (filter (\<lambda>x. x > avg * 10) xs) < length xs"
proof -
  let ?k = "length (filter (\<lambda>x. x > avg * 10) xs)" and ?n = "length xs"
  have n: "0 < ?n" using assms(1) by simp
  have avg: "1 \<le> avg"
    using sum_list_lower [of xs 1] assms(2) n div_le_mono [of ?n "sum_list xs" ?n] by (simp add: avg_def)
  have "?k * (avg * 10) \<le> ?k * Suc (avg * 10)" by simp
  also have "\<dots> \<le> sum_list xs" by (rule outlier_weight)
  also have "\<dots> < ?n + avg * ?n"
    unfolding avg_def by (rule dividend_less_div_times) (rule n)
  also have "\<dots> \<le> avg * ?n + avg * ?n" using avg by simp
  finally have "avg * (10 * ?k) < avg * (2 * ?n)"
    by (simp only: mult_2 distrib_left mult.assoc mult.commute mult.left_commute)
  then have "10 * ?k < 2 * ?n" using mult_less_cancel1 by blast
  then show ?thesis by simp
qed

subsection \<open>The statistics\<close>

text \<open>
  The benchmark on at least one pair of readings, with sums that fit in 64 bits: it returns a
  result; least, average, 99th percentile and greatest are ordered as they should be and the extremes
  are attained; the average is the exact quotient; the reported spikes are the samples above ten times
  the average, always fewer than a fifth of the iterations.
\<close>

theorem bench_statistics:
  assumes rs: "rs \<noteq> []" and p99: "p99 (length rs) < length rs"
    and fits: "10 * (\<Sum>r\<leftarrow>rs. unat (bench_delta r)) < 2 ^ 64"
  shows "\<exists>r. fst (run_isolation_benchmark mc self p99 to_ns cpu rs s) = Some r \<and>
      min_cycles r \<in> bench_delta ` set rs \<and> max_cycles r \<in> bench_delta ` set rs \<and>
      (\<forall>x \<in> set rs. min_cycles r \<le> bench_delta x \<and> bench_delta x \<le> max_cycles r) \<and>
      unat (avg_cycles r) = (\<Sum>r\<leftarrow>rs. unat (bench_delta r)) div length rs \<and>
      min_cycles r \<le> avg_cycles r \<and> avg_cycles r \<le> max_cycles r \<and>
      min_cycles r \<le> p99_cycles r \<and> p99_cycles r \<le> max_cycles r \<and>
      preemption_spikes_count r = length (filter (\<lambda>x. unat (bench_delta x) > 10 * unat (avg_cycles r)) rs) \<and>
      5 * preemption_spikes_count r < length rs \<and> total_iterations r = length rs"
proof -
  let ?d = "map bench_delta rs" and ?u = "map (unat \<circ> bench_delta) rs"
  define mn mx avg where "mn = foldl min (-1) ?d" and "mx = foldl max 0 ?d"
    and "avg = (sum_list ?d :: u64) div of_nat (length rs)"
  have ne: "?d \<noteq> []" "set ?d \<noteq> {}" using rs by auto
  have mn: "mn = Min (set ?d)"
    using ne by (simp add: mn_def foldl_min_Min Min_insert)
  have mx: "mx = Max (set ?d)"
    using ne by (simp add: mx_def foldl_max_Max Max_insert)
  have ex: "mn \<in> bench_delta ` set rs" "mx \<in> bench_delta ` set rs"
    using mn mx ne Min_in [of "set ?d"] Max_in [of "set ?d"] by auto
  have le: "mn \<le> bench_delta x \<and> bench_delta x \<le> mx" if "x \<in> set rs" for x
    using that by (simp add: mn mx)
  have total: "unat (sum_list ?d) = sum_list ?u"
    using fits by (subst unat_sum_list) (simp_all add: comp_def)
  have pos: "1 \<le> unat (bench_delta x)" for x
    using bench_delta_pos [of x] by (simp add: Suc_le_eq unat_gt_0 word_greater_zero_iff)
  have "length ?u * 1 \<le> sum_list ?u" using pos by (intro sum_list_lower) auto
  then have "length rs < 2 ^ 64" using fits by (simp add: comp_def)
  then have len: "unat (of_nat (length rs) :: u64) = length rs" by (simp add: unat_of_nat)
  have avg: "unat avg = sum_list ?u div length rs"
    unfolding avg_def by (simp add: unat_div_distrib total len)
  have small: "10 * unat avg < 2 ^ 64"
    using fits div_le_dividend [of "sum_list ?u" "length rs"] unfolding avg comp_def by linarith
  have "unat mn \<le> sum_list ?u div length ?u \<and> sum_list ?u div length ?u \<le> unat mx"
    using rs le by (intro average_between) (auto simp: word_le_nat_alt)
  then have avg_le: "mn \<le> avg" "avg \<le> mx"
    by (simp_all add: avg word_le_nat_alt)
  have at: "sort ?d ! p99 (length rs) \<in> bench_delta ` set rs"
    using p99 nth_mem [of "p99 (length rs)" "sort ?d"] by simp
  have "unat (avg * 10) = 10 * unat avg"
    using small by (simp add: unat_word_ariths(2))
  then have thr: "x > avg * 10 \<longleftrightarrow> unat x > 10 * unat avg" for x by (simp add: word_less_nat_alt)
  have cnt: "length (filter (\<lambda>x. x > avg * 10) (sort ?d)) = length (filter (\<lambda>x. unat (bench_delta x) > 10 * unat avg) rs)"
    by (simp add: filter_sort filter_map comp_def thr)
  have few: "5 * length (filter (\<lambda>x. unat (bench_delta x) > 10 * unat avg) rs) < length rs"
  proof -
    have "5 * length (filter (\<lambda>x. x > sum_list ?u div length ?u * 10) ?u) < length ?u"
      using rs pos by (intro outliers_few) auto
    then show ?thesis by (simp add: filter_map comp_def avg mult.commute)
  qed
  have res: "fst (run_isolation_benchmark mc self p99 to_ns cpu rs s) =
      Some \<lparr>core_pinning_success = fst (pin_thread_to_cpu mc self cpu s),
        realtime_priority_requested = fst (set_realtime_priority mc self 50 (snd (pin_thread_to_cpu mc self cpu s))),
        total_iterations = length rs, min_cycles = mn, max_cycles = mx, avg_cycles = avg,
        p99_cycles = sort ?d ! p99 (length rs),
        preemption_spikes_count = length (filter (\<lambda>x. x > avg * 10) (sort ?d)),
        min_ns = to_ns mn, max_ns = to_ns mx, avg_ns = to_ns avg, p99_ns = to_ns (sort ?d ! p99 (length rs))\<rparr>"
    using rs p99 by (simp add: run_isolation_benchmark_def bench_loop_def bench_fold Let_def split_beta
        mn_def mx_def avg_def)
  show ?thesis
    unfolding res using ex le avg avg_le at cnt few by (auto simp: comp_def)
qed

definition plain_machine :: machine where
  "plain_machine = \<lparr>sys_setaffinity = (\<lambda>_ _. 0), sys_numa = None, sys_setscheduler = (\<lambda>_. -1),
     sys_mlockall = 0, sys_nprocessors = 4\<rparr>"

text \<open>Witness: three turns, one of which reads the counter going backwards.\<close>

theorem bench_statistics_witness:
  "\<exists>r. fst (run_isolation_benchmark plain_machine 0 (\<lambda>n. n * 99 div 100) unat 0 [(0, 2), (5, 9), (7, 6)] idle_process) = Some r \<and>
     unat (avg_cycles r) = 2 \<and> min_cycles r \<le> avg_cycles r"
  using bench_statistics [of "[(0, 2), (5, 9), (7, 6)]" "\<lambda>n. n * 99 div 100" plain_machine 0 unat 0 idle_process]
  by (auto simp: bench_delta_def)

text \<open>Without iterations the benchmark divides by zero.\<close>

lemma bench_zero_iterations: "fst (run_isolation_benchmark mc self p99 to_ns cpu [] s) = None"
  by (simp add: run_isolation_benchmark_def bench_loop_def Let_def split_beta)

end
