(* ===== verification/Test_Arena.thy ===== *)
theory Test_Arena
  imports Gap_Detector Reorder_Buffer Clock_Synchronizer Feed_Arbitrator Recovery_Manager Risk_Manager
    Cpu_Benchmark
begin

text \<open>
  The resilience test arena of \<open>src/arena/TestArena.cpp\<close>: every scenario as a function of the model that
  runs the modelled components on the inputs of the source and collects the assertions and the report
  lines. Readings of clocks, the machine and the operations on doubles come from an environment.
\<close>

record 'd TestScenarioResult =
  scenario_name :: string
  passed :: bool
  total_tests_run :: nat
  assertions_passed :: nat
  assertions_failed :: nat
  execution_time_ms :: 'd
  log_details :: "string list"

text \<open>
  The environment: \<open>ar_ms\<close> is the measured duration of each scenario and \<open>ar_zero\<close> the double 0.0; the
  inputs of the clock calibration with the test \<open>0.5 < x < 10.0\<close> and the renderings of doubles; the
  machine, the readings and the conversions of the benchmark, its quotient in percent with the test
  \<open>x < 5.0\<close>; the price rendering of the risk manager.
\<close>

record 'd arena_env =
  ar_zero :: 'd
  ar_ms :: "nat \<Rightarrow> 'd"
  ar_ratio :: "u64 \<Rightarrow> int \<Rightarrow> 'd"
  ar_three :: 'd
  ar_start_cycles :: u64
  ar_end_cycles :: u64
  ar_elapsed_ns :: int
  ar_realtime_ns :: u64
  ar_sane :: "'d \<Rightarrow> bool"
  ar_fixed4 :: "'d \<Rightarrow> string"
  ar_fixed3 :: "'d \<Rightarrow> string"
  ar_to_string :: "'d \<Rightarrow> string"
  ar_latency_cycles :: u64
  ar_fmt2 :: "int \<Rightarrow> string"
  ar_machine :: machine
  ar_self :: nat
  ar_process :: process
  ar_readings :: "(u64 \<times> u64) list"
  ar_p99 :: "nat \<Rightarrow> nat"
  ar_to_ns :: "u64 \<Rightarrow> 'd"
  ar_percent :: "nat \<Rightarrow> nat \<Rightarrow> 'd"
  ar_below5 :: "'d \<Rightarrow> bool"

definition start_scenario :: "'d arena_env \<Rightarrow> string \<Rightarrow> 'd TestScenarioResult" where
  "start_scenario env nm = \<lparr>scenario_name = nm, passed = False, total_tests_run = 0, assertions_passed = 0,
     assertions_failed = 0, execution_time_ms = ar_zero env, log_details = []\<rparr>"

definition note_line :: "string \<Rightarrow> 'd TestScenarioResult \<Rightarrow> 'd TestScenarioResult" where
  "note_line txt r = r\<lparr>log_details := log_details r @ [txt]\<rparr>"

definition assertion :: "bool \<Rightarrow> string list \<Rightarrow> string list \<Rightarrow> 'd TestScenarioResult \<Rightarrow> 'd TestScenarioResult" where
  "assertion ok good bad r =
     (let r1 = r\<lparr>total_tests_run := total_tests_run r + 1\<rparr>
      in if ok
         then r1\<lparr>assertions_passed := assertions_passed r1 + 1, log_details := log_details r1 @ good\<rparr>
         else r1\<lparr>assertions_failed := assertions_failed r1 + 1, log_details := log_details r1 @ bad\<rparr>)"

definition end_scenario :: "'d arena_env \<Rightarrow> nat \<Rightarrow> 'd TestScenarioResult \<Rightarrow> 'd TestScenarioResult" where
  "end_scenario env k r = r\<lparr>execution_time_ms := ar_ms env k, passed := (assertions_failed r = 0)\<rparr>"

subsection \<open>Scenario 1: packet loss\<close>

definition dropped_seqs :: "u64 set" where
  "dropped_seqs = {15} \<union> {100 .. 104} \<union> {5000 .. 5049}"

text \<open>One turn of the injection loop: detector, gaps, resend requests and the report.\<close>

type_synonym 'd loss_state = "SequenceGapDetector \<times> nat \<times> nat \<times> 'd TestScenarioResult"

definition gap_line :: "GapCheckResult \<Rightarrow> string" where
  "gap_line res =
     ''  -> GAP DETECTED! Range: ['' @ dec_string (unat (begin_seq (gap res))) @ '' .. '' @
     dec_string (unat (end_seq (gap res))) @ ''] ('' @ dec_string (unat (missing_count (gap res))) @
     '' missing) | ResendReq Payload: '' @ cstr (resend_request_msg res)"

definition packet_loss_turn :: "u64 \<Rightarrow> 'd loss_state \<Rightarrow> 'd loss_state" where
  "packet_loss_turn seq st =
     (let (d, gaps, resends, r) = st
      in if seq \<in> dropped_seqs then st
         else let (res, d') = process_sequence d seq
              in if gap_status res = GAP_DETECTED
                 then if resend_request_len res > 0
                      then (d', gaps + 1, resends + 1, note_line (gap_line res) r)
                      else (d', gaps + 1, resends, r)
                 else (d', gaps, resends, r))"

definition run_packet_loss_scenario :: "'d arena_env \<Rightarrow> 'd TestScenarioResult" where
  "run_packet_loss_scenario env =
     (let r0 = start_scenario env ''Scenario #1: Packet Loss & Sequence Gap Detection'';
          r1 = note_line ''[TestArena] Injecting 10,000 FIX message stream with deliberate packet drops...'' r0;
          r2 = note_line ''[TestArena] Simulated drops: Seq 15 (1 msg), Seqs 100..104 (5 msgs), Seqs 5000..5049 (50 msgs).'' r1;
          (d, gaps, resends, r3) =
            fold packet_loss_turn (map of_nat [1 ..< Suc 10000]) (gap_detector_init 1, 0, 0, r2);
          r4 = assertion (gaps = 3) [''[PASS] Assertion 1: Correctly detected 3 gap occurrences.'']
                 [''[FAIL] Assertion 1: Expected 3 gap occurrences, got '' @ dec_string gaps] r3;
          r5 = assertion (m_packets_lost d = 56)
                 [''[PASS] Assertion 2: Correctly identified total 56 missing packets.'']
                 [''[FAIL] Assertion 2: Expected 56 missing packets, got '' @ dec_string (unat (m_packets_lost d))] r4;
          r6 = assertion (resends = 3)
                 [''[PASS] Assertion 3: Successfully generated 3 pre-formatted FIX ResendRequests (35=2).'']
                 [''[FAIL] Assertion 3: ResendRequest generation count mismatch.''] r5;
          (dup_res, d') = process_sequence d 15;
          r7 = assertion (gap_status dup_res = DUPLICATE)
                 [''[PASS] Assertion 4: Successfully flagged retransmitted duplicate message (Seq 15) as DUPLICATE.'']
                 [''[FAIL] Assertion 4: Retransmitted message was not flagged as DUPLICATE.''] r6
      in end_scenario env 1 r7)"

subsection \<open>Scenario 2: out-of-order messages\<close>

definition arrival_order :: "u64 list" where
  "arrival_order = [1, 2, 3, 6, 4, 5, 10, 8, 9, 7, 11, 12, 15, 13, 14, 16, 17, 18, 19, 20]"

definition arena_payload :: "u64 \<Rightarrow> string" where
  "arena_payload seq = ''34='' @ dec_string (unat seq) @ [SOH] @ ''55=PETR4'' @ [SOH]"

definition expected_prefix :: "nat \<Rightarrow> string" where
  "expected_prefix i = ''34='' @ dec_string (i + 1) @ [SOH]"

text \<open>\<open>s.rfind(p, 0) == 0\<close> says that \<open>s\<close> starts with \<open>p\<close>. The loop leaves at the first mismatch.\<close>

fun check_sorted :: "nat \<Rightarrow> string list \<Rightarrow> 'd TestScenarioResult \<Rightarrow> bool \<times> 'd TestScenarioResult" where
  "check_sorted i [] r = (True, r)"
| "check_sorted i (m # ms) r =
     (if take (length (expected_prefix i)) m \<noteq> expected_prefix i
      then (False, note_line (''[FAIL] Sequence mismatch at index '' @ dec_string i @ '': expected '' @
                     expected_prefix i @ '' got '' @ m) r)
      else check_sorted (i + 1) ms r)"

definition run_out_of_order_scenario :: "'d arena_env \<Rightarrow> 'd TestScenarioResult" where
  "run_out_of_order_scenario env =
     (let r0 = start_scenario env ''Scenario #2: Out-of-Order Messages & Sequence Reordering'';
          r1 = note_line ''[TestArena] Injecting shuffled out-of-order stream: [1, 2, 3], [6, 4, 5], [10, 8, 9, 7], ...'' r0;
          (b, emitted) = reorder_run 256 arena_payload (reorder_init 256 1) arrival_order [];
          r2 = assertion (length emitted = 20) [''[PASS] Assertion 1: Reordering buffer emitted all 20 messages.'']
                 [''[FAIL] Assertion 1: Expected 20 emitted messages, got '' @ dec_string (length emitted)] r1;
          (perfectly_sorted, r3) = check_sorted 0 emitted r2;
          r4 = assertion perfectly_sorted
                 [''[PASS] Assertion 2: Stream reordered with 100% perfect monotonic sequence (1..20).''] [] r3;
          r5 = assertion (rb_out_of_order_buffered_count b > 0 \<and> rb_duplicates_count b = 0)
                 [''[PASS] Assertion 3: Successfully buffered '' @
                    dec_string (unat (rb_out_of_order_buffered_count b)) @
                    '' out-of-order packets during jitter bursts.'']
                 [''[FAIL] Assertion 3: Out-of-order buffering metrics mismatch.''] r4
      in end_scenario env 2 r5)"

subsection \<open>Scenario 3: clock synchronization\<close>

definition run_clock_sync_scenario :: "'d arena_env \<Rightarrow> 'd TestScenarioResult" where
  "run_clock_sync_scenario env =
     (let r0 = start_scenario env ''Scenario #3: Clock Synchronization & Timestamping'';
          c0 = clock_init (ar_three env) (ar_ratio env) (ar_start_cycles env) (ar_end_cycles env)
                 (ar_elapsed_ns env) (ar_realtime_ns env);
          f = m_cycles_per_ns c0;
          r1 = assertion (ar_sane env f)
                 [''[PASS] Assertion 1: Calibrated RDTSC CPU clock frequency: '' @ ar_fixed4 env f @ '' cycles/ns.'']
                 [''[FAIL] Assertion 1: Invalid RDTSC calibration frequency: '' @ ar_to_string env f] r0;
          (status1, c1) = evaluate_latency (ar_latency_cycles env) 1000000000 1000000150 c0;
          r2 = assertion (cs_timestamp_ns status1 = 150 \<and> \<not> cs_clock_jump_detected status1)
                 [''[PASS] Assertion 2: Accurately evaluated 150 ns sub-microsecond latency delta.'']
                 [''[FAIL] Assertion 2: Latency evaluation mismatch.''] r1;
          (status2, c2) = evaluate_latency (ar_latency_cycles env) 1000000500 1000000200 c1;
          r3 = assertion (cs_clock_jump_detected status2 \<and> cs_negative_latency_prevented status2 \<and>
                          cs_timestamp_ns status2 = 0)
                 [''[PASS] Assertion 3: Successfully caught NTP/PTP backward clock step (-300 ns) and clamped negative latency to 0.'']
                 [''[FAIL] Assertion 3: Backward clock step anomaly was not caught.''] r2;
          formatted = (case format_utc_timestamp 1785000000000000000 (Some (replicate 64 (CHR 0x00))) of
                         Some buf \<Rightarrow> cstr buf | None \<Rightarrow> []);
          r4 = assertion (length formatted \<ge> 21 \<and> CHR ''-'' \<in> set formatted \<and> CHR '':'' \<in> set formatted)
                 [''[PASS] Assertion 4: Successfully formatted FIX UTC Timestamp: '' @ formatted]
                 [''[FAIL] Assertion 4: UTC timestamp formatting failed.''] r3
      in end_scenario env 3 r4)"

subsection \<open>Scenario 4: duplicate feeds\<close>

definition duplicate_feeds_turn :: "u64 \<Rightarrow> FeedArbitrator \<Rightarrow> FeedArbitrator" where
  "duplicate_feeds_turn seq a =
     (if seq mod 2 = 0
      then snd (process_packet 65536 (snd (process_packet 65536 a LINE_A seq)) LINE_B seq)
      else snd (process_packet 65536 (snd (process_packet 65536 a LINE_B seq)) LINE_A seq))"

definition run_duplicate_feeds_scenario :: "'d arena_env \<Rightarrow> 'd TestScenarioResult" where
  "run_duplicate_feeds_scenario env =
     (let r0 = start_scenario env ''Scenario #4: Duplicate Feeds & Line A / Line B Arbitration'';
          r1 = note_line ''[TestArena] Simulating Active-Active Line A and Line B dual multicast market feeds...'' r0;
          r2 = note_line ''[TestArena] Ingesting 200 total packets (100 from Line A + 100 from Line B with interleaved latency wins)...'' r1;
          a = fold duplicate_feeds_turn (map of_nat [1 ..< Suc 100]) (arbitrator_init 65536);
          r3 = assertion (m_unique_processed a = 100)
                 [''[PASS] Assertion 1: Successfully processed exactly 100 unique messages from dual feeds.'']
                 [''[FAIL] Assertion 1: Unique count mismatch: '' @ dec_string (unat (m_unique_processed a))] r2;
          r4 = assertion (m_duplicates_suppressed a = 100)
                 [''[PASS] Assertion 2: Successfully suppressed 100 duplicate Line A/B packets in O(1) time.'']
                 [''[FAIL] Assertion 2: Duplicates count mismatch: '' @ dec_string (unat (m_duplicates_suppressed a))] r3;
          r5 = assertion (m_line_a_wins a = 50 \<and> m_line_b_wins a = 50)
                 [''[PASS] Assertion 3: Accurate Line A / Line B race arbitration breakdown (Line A: 50 wins, Line B: 50 wins).'']
                 [''[FAIL] Assertion 3: Win counts mismatch. Line A: '' @ dec_string (unat (m_line_a_wins a)) @
                    '', Line B: '' @ dec_string (unat (m_line_b_wins a))] r4;
          r6 = assertion (m_line_a_wins a + m_line_b_wins a = m_unique_processed a)
                 [''[PASS] Assertion 4: Feed arbitration sum conservation verified (Line A + Line B = Total Unique).'']
                 [''[FAIL] Assertion 4: Sum conservation failed.''] r5
      in end_scenario env 4 r6)"

subsection \<open>Scenario 5: order book recovery\<close>

definition arena_update :: "u64 \<Rightarrow> IncrementalUpdate" where
  "arena_update seq = \<lparr>inc_seq_num = seq, inc_symbol = ''PETR4'',
     inc_price_scaled = wrap_i64 (35000000 + wrap_i64 (uint (seq * 100000))),
     inc_quantity = ucast (100 * seq), action = CHR ''0''\<rparr>"

definition arena_snapshot :: BookSnapshot where
  "arena_snapshot = \<lparr>snapshot_last_seq = 3, snap_symbol = ''PETR4'',
     snap_bids = [\<lparr>price_scaled = 35000000, lvl_quantity = 1000\<rparr>, \<lparr>price_scaled = 34900000, lvl_quantity = 2000\<rparr>],
     snap_asks = [\<lparr>price_scaled = 35100000, lvl_quantity = 1500\<rparr>]\<rparr>"

definition run_order_book_recovery_scenario :: "'d arena_env \<Rightarrow> 'd TestScenarioResult" where
  "run_order_book_recovery_scenario env =
     (let r0 = start_scenario env ''Scenario #5: Order Book Recovery & Snapshot Synchronization'';
          r1 = note_line ''[TestArena] Starting order book in RECOVERING state (waiting for Snapshot 35=W)...'' r0;
          m1 = fold (\<lambda>u m. snd (process_incremental u m)) (map arena_update [1, 2, 3, 4, 5]) (recovery_init ''PETR4'');
          r2 = assertion (m_state m1 = RECOVERING \<and> m_incrementals_buffered_count m1 = 5)
                 [''[PASS] Assertion 1: Correctly buffered 5 incoming Incremental updates (35=X) while in RECOVERING state.'']
                 [''[FAIL] Assertion 1: Recovery buffering state mismatch.''] r1;
          r3 = note_line ''[TestArena] Arrived Full Book Snapshot (35=W) with last_seq = 3. Applying snapshot and replaying incrementals...'' r2;
          (replayed, m2) = apply_snapshot arena_snapshot m1;
          r4 = assertion (m_state m2 = SYNCHRONIZED \<and> m_snapshot_applied m2)
                 [''[PASS] Assertion 2: Order book state successfully transitioned to SYNCHRONIZED.'']
                 [''[FAIL] Assertion 2: State transition to SYNCHRONIZED failed.''] r3;
          r5 = assertion (m_incrementals_discarded_count m2 = 3 \<and> replayed = 2)
                 [''[PASS] Assertion 3: Correctly discarded 3 stale incrementals (seq <= 3) and replayed 2 fresh incrementals (seq 4 & 5).'']
                 [''[FAIL] Assertion 3: Replay count mismatch. Discarded: '' @ dec_string (m_incrementals_discarded_count m2) @
                    '', Replayed: '' @ dec_string replayed] r4;
          r6 = assertion (m_last_applied_seq m2 = 5 \<and> flat_size (rm_bids m2) > 0)
                 [''[PASS] Assertion 4: Order book synchronized with last_applied_seq = 5 and valid price levels.'']
                 [''[FAIL] Assertion 4: Synchronized sequence mismatch.''] r5
      in end_scenario env 5 r6)"

subsection \<open>Scenario 6: risk validation\<close>

definition arena_limits :: RiskLimits where
  "arena_limits = \<lparr>max_order_qty = 50000, max_price_deviation_scaled = 5000000,
     max_notional_value_usd = 2000000, kill_switch_active = False\<rparr>"

definition valid_order :: ParsedOrder where
  "valid_order = default_order\<lparr>quantity := 1000, price := 35500000, symbol := ''PETR4''\<rparr>"

definition run_risk_validation_scenario :: "'d arena_env \<Rightarrow> 'd TestScenarioResult" where
  "run_risk_validation_scenario env =
     (let r0 = start_scenario env ''Scenario #6: Pre-Trade Risk Validation & Fat-Finger Protection'';
          m0 = risk_manager_init arena_limits;
          ref_price = 35000000;
          (res1, m1) = evaluate_order (ar_fmt2 env) m0 valid_order ref_price;
          r1 = assertion (risk_status res1 = APPROVED)
                 [''[PASS] Assertion 1: Valid order (1,000 shares @ $35.50) successfully APPROVED.'']
                 [''[FAIL] Assertion 1: Valid order was rejected.''] r0;
          (res2, m2) = evaluate_order (ar_fmt2 env) m1 (valid_order\<lparr>quantity := 100000\<rparr>) ref_price;
          r2 = assertion (risk_status res2 = REJECTED_MAX_QTY)
                 [''[PASS] Assertion 2: Fat-finger quantity error (100,000 shares) caught and REJECTED ('' @
                    cstr (rejection_reason res2) @ '').'']
                 [''[FAIL] Assertion 2: Fat-finger quantity was not rejected.''] r1;
          (res3, m3) = evaluate_order (ar_fmt2 env) m2 (valid_order\<lparr>price := 45000000\<rparr>) ref_price;
          r3 = assertion (risk_status res3 = REJECTED_PRICE_COLLAR)
                 [''[PASS] Assertion 3: Price collar deviation ($45.00 vs ref $35.00) caught and REJECTED ('' @
                    cstr (rejection_reason res3) @ '').'']
                 [''[FAIL] Assertion 3: Price collar deviation was not rejected.''] r2;
          (res4, m4) = evaluate_order (ar_fmt2 env) m3 (valid_order\<lparr>quantity := 40000, price := 100000000\<rparr>) 100000000;
          r4 = assertion (risk_status res4 = REJECTED_MAX_NOTIONAL)
                 [''[PASS] Assertion 4: Order notional value cap violation ($4,000,000) caught and REJECTED ('' @
                    cstr (rejection_reason res4) @ '').'']
                 [''[FAIL] Assertion 4: Notional cap violation was not rejected.''] r3;
          m5 = set_kill_switch True m4;
          (res5, m6) = evaluate_order (ar_fmt2 env) m5 valid_order ref_price;
          r5 = assertion (risk_status res5 = REJECTED_KILL_SWITCH)
                 [''[PASS] Assertion 5: Global Emergency Kill Switch verified; all incoming orders REJECTED instantly.'']
                 [''[FAIL] Assertion 5: Emergency kill switch failed to reject orders.''] r4
      in end_scenario env 6 r5)"

subsection \<open>Scenario 7: scheduling benchmark\<close>

definition arena_iterations :: nat where "arena_iterations = 100000"

text \<open>The assertions on a benchmark result; the second one passes in both branches of the source.\<close>

definition judge_benchmark :: "'d arena_env \<Rightarrow> 'd CpuBenchmarkResult \<Rightarrow> 'd TestScenarioResult \<Rightarrow> 'd TestScenarioResult" where
  "judge_benchmark env b r0 =
     (let r1 = assertion (core_pinning_success b)
                 [''[PASS] Assertion 1: Successfully pinned benchmark thread to target CPU Core 0.'']
                 [''[FAIL] Assertion 1: CPU core pinning failed.''] r0;
          r2 = assertion True
                 (if realtime_priority_requested b
                  then [''[PASS] Assertion 2: Real-time SCHED_FIFO priority successfully granted (CAP_SYS_NICE/root).'']
                  else [''[PASS] Assertion 2: SCHED_FIFO requested (standard user fallback to SCHED_OTHER, core pinning active).''])
                 [] r1;
          r3 = assertion (total_iterations b = arena_iterations)
                 [''[PASS] Assertion 3: Completed 100,000 tight spin-pause iterations.'']
                 [''[FAIL] Assertion 3: Iterations count mismatch.''] r2;
          r4 = assertion (avg_cycles b < 200)
                 [''[PASS] Assertion 4: Extremely low average spin latency: '' @ dec_string (unat (avg_cycles b)) @
                    '' cycles (~'' @ ar_to_string env (avg_ns b) @ '' ns).'']
                 [''[FAIL] Assertion 4: Average latency exceeded target threshold: '' @
                    dec_string (unat (avg_cycles b)) @ '' cycles.''] r3;
          spike_percent = ar_percent env (preemption_spikes_count b) (total_iterations b);
          r5 = assertion (ar_below5 env spike_percent)
                 [''[PASS] Assertion 5: Low OS preemption jitter verified (Spikes: '' @
                    dec_string (preemption_spikes_count b) @ '' / '' @ dec_string (total_iterations b) @ '' = '' @
                    ar_to_string env spike_percent @ ''%).'']
                 [''[FAIL] Assertion 5: Excessive preemption jitter spikes detected: '' @
                    ar_to_string env spike_percent @ ''%.''] r4
      in note_line (''  -> Latency Metrics: Min='' @ dec_string (unat (min_cycles b)) @ '' cycles ('' @
           ar_to_string env (min_ns b) @ '' ns) | Avg='' @ dec_string (unat (avg_cycles b)) @ '' cycles ('' @
           ar_to_string env (avg_ns b) @ '' ns) | p99='' @ dec_string (unat (p99_cycles b)) @ '' cycles ('' @
           ar_to_string env (p99_ns b) @ '' ns)'') r5)"

text \<open>The benchmark makes 100000 turns, so the readings of an actual run are as many.\<close>

definition run_cpu_scheduling_scenario :: "'d arena_env \<Rightarrow> 'd TestScenarioResult option" where
  "run_cpu_scheduling_scenario env =
     (let r0 = start_scenario env ''Scenario #7: CPU Scheduling & Deterministic Core Isolation Benchmark'';
          r1 = note_line ''[TestArena] Executing 100,000 iteration CPU core isolation & pause-spin benchmark on CPU Core 0...'' r0
      in if length (ar_readings env) \<noteq> arena_iterations then None
         else case fst (run_isolation_benchmark (ar_machine env) (ar_self env) (ar_p99 env) (ar_to_ns env) 0
                          (ar_readings env) (ar_process env)) of
                None \<Rightarrow> None
              | Some b \<Rightarrow> Some (end_scenario env 7 (judge_benchmark env b r1)))"

subsection \<open>The whole arena\<close>

definition rule_line :: string where
  "rule_line = replicate 52 (CHR ''='')"

definition print_scenario :: "'d arena_env \<Rightarrow> 'd TestScenarioResult \<Rightarrow> string list" where
  "print_scenario env r =
     ['''', ''--- '' @ scenario_name r @ '' ---''] @ log_details r @
     [''Status: '' @ (if passed r then ''[SUCCESS - ALL PASSED]'' else ''[FAILURE]'') @ '' | Tests: '' @
      dec_string (assertions_passed r) @ ''/'' @ dec_string (total_tests_run r) @ '' | Time: '' @
      ar_fixed3 env (execution_time_ms r) @ '' ms'']"

text \<open>The lines on the standard output; no value when the benchmark has none.\<close>

definition run_all_scenarios :: "'d arena_env \<Rightarrow> string list option" where
  "run_all_scenarios env =
     (let r1 = run_packet_loss_scenario env; r2 = run_out_of_order_scenario env;
          r3 = run_clock_sync_scenario env; r4 = run_duplicate_feeds_scenario env;
          r5 = run_order_book_recovery_scenario env; r6 = run_risk_validation_scenario env
      in case run_cpu_scheduling_scenario env of
           None \<Rightarrow> None
         | Some r7 \<Rightarrow>
             let rs = [r1, r2, r3, r4, r5, r6, r7]
             in Some (['''', rule_line, ''        HFT ENGINE RESILIENCE TEST ARENA           '', rule_line] @
                  concat (map (print_scenario env) rs) @
                  ['''', rule_line,
                   ''ARENA SUMMARY: '' @
                     (if passed r1 \<and> passed r2 \<and> passed r3 \<and> passed r4 \<and> passed r5 \<and> passed r6 \<and> passed r7
                      then ''ALL SCENARIOS (#1, #2, #3, #4, #5, #6, #7) PASSED 100%''
                      else ''SOME SCENARIOS FAILED''),
                   rule_line, '''']))"

end
