(* ===== verification/Test_Arena_Results.thy ===== *)
theory Test_Arena_Results
  imports Test_Arena
begin

text \<open>
  What the test arena reports: the six scenarios that do not measure the machine pass all their
  assertions in every environment (up to the plausibility test of the clock calibration), and the
  benchmark scenario passes exactly when the machine pinned the thread and was fast enough. Long
  streams are handled by lemmas on stretches of the stream.
\<close>

definition all_pass :: "nat \<Rightarrow> 'd TestScenarioResult \<Rightarrow> bool" where
  "all_pass n r \<longleftrightarrow> passed r \<and> total_tests_run r = n \<and> assertions_passed r = n \<and> assertions_failed r = 0"

lemma all_pass_end:
  "assertions_failed r = 0 \<Longrightarrow> total_tests_run r = n \<Longrightarrow> assertions_passed r = n \<Longrightarrow> all_pass n (end_scenario env k r)"
  by (simp add: all_pass_def end_scenario_def)

lemma assertion_counts [simp]:
  "total_tests_run (assertion c g b r) = Suc (total_tests_run r)"
  "assertions_passed (assertion c g b r) = (if c then Suc (assertions_passed r) else assertions_passed r)"
  "assertions_failed (assertion c g b r) = (if c then assertions_failed r else Suc (assertions_failed r))"
  by (simp_all add: assertion_def Let_def)

lemma note_line_counts [simp]:
  "total_tests_run (note_line t r) = total_tests_run r"
  "assertions_passed (note_line t r) = assertions_passed r"
  "assertions_failed (note_line t r) = assertions_failed r"
  by (simp_all add: note_line_def)

lemma start_scenario_counts [simp]:
  "total_tests_run (start_scenario env nm) = 0" "assertions_passed (start_scenario env nm) = 0"
  "assertions_failed (start_scenario env nm) = 0"
  by (simp_all add: start_scenario_def)

subsection \<open>Packet loss\<close>

lemma dropped_nat:
  assumes "n < 2 ^ 63"
  shows "(of_nat n :: u64) \<in> dropped_seqs \<longleftrightarrow> n = 15 \<or> 100 \<le> n \<and> n \<le> 104 \<or> 5000 \<le> n \<and> n \<le> 5049"
proof -
  have u: "unat (of_nat n :: u64) = n" using assms by (simp add: unat_of_nat)
  then have "(of_nat n :: u64) = 15 \<longleftrightarrow> n = 15" by (simp add: word_unat_eq_iff)
  with u show ?thesis by (auto simp: dropped_seqs_def word_le_nat_alt)
qed

lemma upt_split: "i \<le> j \<Longrightarrow> j \<le> k \<Longrightarrow> [i ..< k] = [i ..< j] @ [j ..< k]"
  by (metis le_Suc_ex upt_add_eq_append)

lemma fold_dropped: "\<forall>s \<in> set ss. s \<in> dropped_seqs \<Longrightarrow> fold packet_loss_turn ss st = st"
  by (induction ss) (auto simp: packet_loss_turn_def split: prod.splits)

lemma turn_in_sequence:
  "seq \<notin> dropped_seqs \<Longrightarrow> m_expected_seq d = seq \<Longrightarrow>
   packet_loss_turn seq (d, g, q, r) = (d\<lparr>m_expected_seq := seq + 1\<rparr>, g, q, r)"
  by (simp add: packet_loss_turn_def process_sequence_def Let_def)

lemma turn_gap:
  assumes "seq \<notin> dropped_seqs" "m_expected_seq d < seq"
  shows "packet_loss_turn seq (d, g, q, r) =
    (d\<lparr>m_gaps_detected := m_gaps_detected d + 1, m_packets_lost := m_packets_lost d + (seq - m_expected_seq d),
       m_expected_seq := seq + 1\<rparr>, Suc g, Suc q, note_line (gap_line (fst (process_sequence d seq))) r)"
proof -
  have "seq \<noteq> m_expected_seq d" using assms(2) by blast
  with assms show ?thesis
    by (simp add: packet_loss_turn_def process_sequence_def Let_def split_beta snprintf_def resend_request_length)
qed

lemma fold_in_sequence:
  assumes "m_expected_seq d = of_nat a" "\<And>k. a \<le> k \<Longrightarrow> k < b \<Longrightarrow> of_nat k \<notin> dropped_seqs" "a \<le> b"
  shows "fold packet_loss_turn (map of_nat [a ..< b]) (d, g, q, r) = (d\<lparr>m_expected_seq := of_nat b\<rparr>, g, q, r)"
  using assms(3,2)
proof (induction b rule: dec_induct)
  case base
  show ?case by (simp flip: assms(1))
next
  case (step n)
  have "of_nat n \<notin> dropped_seqs" using step(1) step(4) [of n] by simp
  moreover have "fold packet_loss_turn (map of_nat [a ..< n]) (d, g, q, r) = (d\<lparr>m_expected_seq := of_nat n\<rparr>, g, q, r)"
    using step by simp
  ultimately show ?case
    using step(1) by (simp add: turn_in_sequence add.commute)
qed

text \<open>A burst of lost packets followed by the packet that reveals the gap.\<close>

lemma fold_burst:
  assumes "m_expected_seq d = of_nat a" "\<And>k. a \<le> k \<Longrightarrow> k < b \<Longrightarrow> of_nat k \<in> dropped_seqs"
    and "of_nat b \<notin> dropped_seqs" "a < b" "b < 2 ^ 63"
  shows "fold packet_loss_turn (map of_nat [a ..< Suc b]) (d, g, q, r) =
    (d\<lparr>m_gaps_detected := m_gaps_detected d + 1, m_packets_lost := m_packets_lost d + of_nat (b - a),
       m_expected_seq := of_nat (Suc b)\<rparr>, Suc g, Suc q,
     note_line (gap_line (fst (process_sequence d (of_nat b)))) r)"
proof -
  have "unat (of_nat a :: u64) = a" "unat (of_nat b :: u64) = b"
    using assms(4,5) by (simp_all add: unat_of_nat)
  then have less: "m_expected_seq d < of_nat b"
    using assms(1,4) by (simp add: word_less_nat_alt)
  have skip: "fold packet_loss_turn (map of_nat [a ..< b]) (d, g, q, r) = (d, g, q, r)"
    using assms(2) by (intro fold_dropped) auto
  have diff: "of_nat b - m_expected_seq d = of_nat (b - a)"
    using assms(1,4) by (simp add: of_nat_diff)
  show ?thesis
    using assms(4) turn_gap [OF assms(3) less] by (simp add: skip diff add.commute)
qed

text \<open>One period of the stream: packets in sequence from \<open>a\<close>, a burst lost from \<open>b\<close>, and the packet \<open>c\<close> after it.\<close>

lemma fold_period:
  assumes "m_expected_seq d = of_nat a" "a \<le> b" "b < c" "c < 2 ^ 63"
    and "\<And>k. a \<le> k \<Longrightarrow> k < b \<Longrightarrow> of_nat k \<notin> dropped_seqs" "\<And>k. b \<le> k \<Longrightarrow> k < c \<Longrightarrow> of_nat k \<in> dropped_seqs"
    and "of_nat c \<notin> dropped_seqs"
  shows "\<exists>txt. fold packet_loss_turn (map of_nat [a ..< Suc c]) (d, g, q, r) =
    (d\<lparr>m_gaps_detected := m_gaps_detected d + 1, m_packets_lost := m_packets_lost d + of_nat (c - b),
       m_expected_seq := of_nat (Suc c)\<rparr>, g + 1, q + 1, note_line txt r)"
proof -
  have "[a ..< Suc c] = [a ..< b] @ [b ..< Suc c]" using assms(2,3) by (intro upt_split) simp_all
  moreover have "fold packet_loss_turn (map of_nat [a ..< b]) (d, g, q, r) = (d\<lparr>m_expected_seq := of_nat b\<rparr>, g, q, r)"
    using assms by (intro fold_in_sequence) auto
  moreover have "m_expected_seq (d\<lparr>m_expected_seq := of_nat b\<rparr>) = of_nat b" by simp
  note fold_burst [OF this assms(6) assms(7) assms(3,4), of g q r]
  ultimately show ?thesis by (simp del: upt_Suc) blast
qed

text \<open>The whole stream of scenario 1.\<close>

definition after_loss :: SequenceGapDetector where
  "after_loss = \<lparr>m_expected_seq = 10001, m_gaps_detected = 3, m_packets_lost = 56, m_duplicates_count = 0\<rparr>"

lemma run_packet_loss:
  "\<exists>t1 t2 t3. fold packet_loss_turn (map of_nat [1 ..< Suc 10000]) (gap_detector_init 1, 0, 0, r) =
     (after_loss, 3, 3, note_line t3 (note_line t2 (note_line t1 r)))"
proof -
  have D: "(of_nat k :: u64) \<in> dropped_seqs \<longleftrightarrow> k = 15 \<or> 100 \<le> k \<and> k \<le> 104 \<or> 5000 \<le> k \<and> k \<le> 5049"
    if "k < 20000" for k using that by (intro dropped_nat) simp
  have out: "16 \<notin> dropped_seqs" "105 \<notin> dropped_seqs" "5050 \<notin> dropped_seqs"
    by (simp_all add: dropped_seqs_def)
  let ?d = "\<lambda>g l e. \<lparr>m_expected_seq = e, m_gaps_detected = g, m_packets_lost = l, m_duplicates_count = 0\<rparr> :: SequenceGapDetector"
  have "\<exists>t. fold packet_loss_turn (map of_nat [1 ..< Suc 16]) (?d 0 0 1, 0, 0, r) = (?d 1 1 17, 1, 1, note_line t r)"
    using fold_period [of "?d 0 0 1" 1 15 16 0 0 r] D out by (simp del: upt_Suc upt_rec_numeral)
  then obtain t1 where
    1: "fold packet_loss_turn (map of_nat [1 ..< Suc 16]) (?d 0 0 1, 0, 0, r) = (?d 1 1 17, 1, 1, note_line t1 r)" ..
  have "\<exists>t. fold packet_loss_turn (map of_nat [Suc 16 ..< Suc 105]) (?d 1 1 17, 1, 1, r') = (?d 2 6 106, 1 + 1, 1 + 1, note_line t r')" for r' :: "'a TestScenarioResult"
    using fold_period [of "?d 1 1 17" "Suc 16" 100 105 1 1 r'] D out by (simp del: upt_Suc upt_rec_numeral)
  then obtain t2 where
    2: "fold packet_loss_turn (map of_nat [Suc 16 ..< Suc 105]) (?d 1 1 17, 1, 1, note_line t1 r) =
      (?d 2 6 106, 2, 2, note_line t2 (note_line t1 r))" unfolding one_add_one by blast
  have "\<exists>t. fold packet_loss_turn (map of_nat [Suc 105 ..< Suc 5050]) (?d 2 6 106, 2, 2, r') = (?d 3 56 5051, 3, 3, note_line t r')" for r' :: "'a TestScenarioResult"
    using fold_period [of "?d 2 6 106" "Suc 105" 5000 5050 2 2 r'] D out by (simp del: upt_Suc upt_rec_numeral)
  then obtain t3 where
    3: "fold packet_loss_turn (map of_nat [Suc 105 ..< Suc 5050]) (?d 2 6 106, 2, 2, note_line t2 (note_line t1 r)) =
      (?d 3 56 5051, 3, 3, note_line t3 (note_line t2 (note_line t1 r)))" by blast
  have 4: "fold packet_loss_turn (map of_nat [Suc 5050 ..< Suc 10000]) (?d 3 56 5051, 3, 3, r') = (after_loss, 3, 3, r')" for r' :: "'a TestScenarioResult"
    using fold_in_sequence [of "?d 3 56 5051" "Suc 5050" "Suc 10000" 3 3 r'] D by (simp del: upt_Suc upt_rec_numeral add: after_loss_def)
  have "[1 ..< Suc 10000] = [1 ..< Suc 16] @ [Suc 16 ..< Suc 10000]" by (rule upt_split) simp_all
  moreover have "[Suc 16 ..< Suc 10000] = [Suc 16 ..< Suc 105] @ [Suc 105 ..< Suc 10000]" by (rule upt_split) simp_all
  moreover have "[Suc 105 ..< Suc 10000] = [Suc 105 ..< Suc 5050] @ [Suc 5050 ..< Suc 10000]" by (rule upt_split) simp_all
  ultimately have "fold packet_loss_turn (map of_nat [1 ..< Suc 10000]) (?d 0 0 1, 0, 0, r) =
      (after_loss, 3, 3, note_line t3 (note_line t2 (note_line t1 r)))"
    by (simp only: map_append fold_append comp_apply 1 2 3 4)
  then show ?thesis unfolding gap_detector_init_def by blast
qed

theorem packet_loss_scenario_passes: "all_pass 4 (run_packet_loss_scenario env)"
proof -
  let ?r = "note_line ''[TestArena] Simulated drops: Seq 15 (1 msg), Seqs 100..104 (5 msgs), Seqs 5000..5049 (50 msgs).''
    (note_line ''[TestArena] Injecting 10,000 FIX message stream with deliberate packet drops...''
      (start_scenario env ''Scenario #1: Packet Loss & Sequence Gap Detection''))"
  obtain t1 t2 t3 where run: "fold packet_loss_turn (map of_nat [1 ..< Suc 10000]) (gap_detector_init 1, 0, 0, ?r) =
      (after_loss, 3, 3, note_line t3 (note_line t2 (note_line t1 ?r)))"
    using run_packet_loss [of ?r] by blast
  have dup: "gap_status (fst (process_sequence after_loss 15)) = DUPLICATE" and lost: "m_packets_lost after_loss = 56"
    by (simp_all add: after_loss_def process_sequence_def Let_def)
  show ?thesis
    unfolding run_packet_loss_scenario_def Let_def run
    by (simp add: split_beta dup lost all_pass_end)
qed

subsection \<open>Reordering\<close>

lemma check_sorted_ok:
  assumes "\<And>k. k < length ms \<Longrightarrow> take (length (expected_prefix (i + k))) (ms ! k) = expected_prefix (i + k)"
  shows "check_sorted i ms r = (True, r)"
  using assms
proof (induction ms arbitrary: i)
  case (Cons m ms)
  have "take (length (expected_prefix i)) m = expected_prefix i" using Cons.prems [of 0] by simp
  moreover have "check_sorted (i + 1) ms r = (True, r)"
    using Cons.prems [of "Suc _"] by (intro Cons.IH) auto
  ultimately show ?case by simp
qed simp

lemma arrival_order_block:
  "distinct arrival_order" "set arrival_order = (\<lambda>k. 1 + of_nat k) ` {..<20}"
  "early_arrivals 1 [] arrival_order = 5" "\<forall>s \<in> set arrival_order. unat s \<le> 20"
proof -
  show "distinct arrival_order" "early_arrivals 1 [] arrival_order = 5" "\<forall>s \<in> set arrival_order. unat s \<le> 20"
    by code_simp+
  have "{..<20} = set [0 ..< 20 :: nat]" by auto
  then show "set arrival_order = (\<lambda>k. 1 + of_nat k) ` {..<20}"
    by (simp add: arrival_order_def upt_rec) blast
qed

lemma length_dec_string_small: "n < 100 \<Longrightarrow> length (dec_string n) \<le> 2"
  by (simp add: dec_string.simps less_mult_imp_div_less)

lemma run_out_of_order:
  "\<exists>b. reorder_run 256 arena_payload (reorder_init 256 1) arrival_order [] =
     (b, map (\<lambda>k. arena_payload (1 + of_nat k)) [0 ..< 20]) \<and>
     rb_out_of_order_buffered_count b = 5 \<and> rb_duplicates_count b = 0"
proof -
  obtain b out where run: "reorder_run 256 arena_payload (reorder_init 256 1) arrival_order [] = (b, out)"
    by fastforce
  have "\<forall>s \<in> set arrival_order. 0 < length (arena_payload s) \<and> length (arena_payload s) \<le> 512"
  proof
    fix s
    assume "s \<in> set arrival_order"
    then have "length (dec_string (unat s)) \<le> 2"
      using arrival_order_block(4) by (intro length_dec_string_small) auto
    then show "0 < length (arena_payload s) \<and> length (arena_payload s) \<le> 512" by (simp add: arena_payload_def)
  qed
  from reorder_shuffled_block [OF _ _ _ arrival_order_block(1,2) this run] pow2_capacity_exp [of 8]
  show ?thesis by (simp add: run arrival_order_block(3))
qed

theorem out_of_order_scenario_passes: "all_pass 3 (run_out_of_order_scenario env)"
proof -
  let ?out = "map (\<lambda>k. arena_payload (1 + of_nat k)) [0 ..< 20]"
  obtain b where run: "reorder_run 256 arena_payload (reorder_init 256 1) arrival_order [] = (b, ?out)"
    and cnt: "rb_out_of_order_buffered_count b = 5" "rb_duplicates_count b = 0"
    using run_out_of_order by blast
  have "unat (1 + of_nat k :: u64) = k + 1" if "k < 20" for k
    using that by (simp add: unat_word_ariths(1) unat_of_nat)
  then have srt: "check_sorted 0 ?out r = (True, r)" for r :: "'b TestScenarioResult"
    by (intro check_sorted_ok) (simp add: arena_payload_def expected_prefix_def)
  show ?thesis
    unfolding run_out_of_order_scenario_def Let_def run
    by (simp add: split_beta srt cnt all_pass_end del: upt_rec_numeral)
qed

subsection \<open>Clock\<close>

lemma utc_text_marks: "CHR ''-'' \<in> set (utc_text ns)" "CHR '':'' \<in> set (utc_text ns)"
  by (simp_all add: utc_text_def Let_def)

lemma dec_string_no_NUL: "CHR 0x00 \<notin> set (dec_string n)"
proof
  assume "CHR 0x00 \<in> set (dec_string n)"
  then have "is_digit (CHR 0x00)" using dec_string_digits [of n] by (auto simp: list_all_iff)
  then show False by (simp add: is_digit_def)
qed

lemma utc_text_cstr:
  assumes "length buf = 64" "ns < 2 ^ 64"
  shows "cstr (fst (snprintf buf (utc_text ns))) = utc_text ns"
proof -
  have "CHR 0x00 \<notin> set (utc_text ns)"
    by (simp add: utc_text_def Let_def pad_dec_def dec_string_no_NUL)
  moreover have "length (utc_text ns) = 21" using utc_text_spec [OF assms(2)] by simp
  ultimately show ?thesis
    using assms(1) by (simp add: snprintf_def Let_def cstr_NUL) (auto simp: cstr_def)
qed

theorem clock_sync_scenario_passes:
  assumes "ar_sane env (m_cycles_per_ns (clock_init (ar_three env) (ar_ratio env) (ar_start_cycles env) (ar_end_cycles env)
             (ar_elapsed_ns env) (ar_realtime_ns env)))"
  shows "all_pass 4 (run_clock_sync_scenario env)"
proof -
  let ?t = "utc_text (unat (1785000000000000000 :: u64))"
  have stamp: "(case format_utc_timestamp 1785000000000000000 (Some (replicate 64 (CHR 0x00))) of
      Some buf \<Rightarrow> cstr buf | None \<Rightarrow> []) = ?t"
    using utc_text_cstr [of "replicate 64 (CHR 0x00)" "unat (1785000000000000000 :: u64)"]
    by (simp add: format_utc_timestamp_def)
  have len: "length ?t = 21" using utc_text_spec [of "unat (1785000000000000000 :: u64)"] by simp
  show ?thesis
    unfolding run_clock_sync_scenario_def Let_def stamp
    using assms len utc_text_marks [of "unat (1785000000000000000 :: u64)"]
    by (simp add: split_beta evaluate_latency_def all_pass_end)
qed

subsection \<open>Duplicate feeds\<close>

text \<open>The same number on both lines: the first is counted as a win of its line, the second as a duplicate.\<close>

lemma process_packet_twice:
  fixes l l' :: FeedLine
  assumes "arb_wf W a" "pow2_capacity W" "\<not> arb_seen W a s"
  defines "a1 \<equiv> snd (process_packet W a l s)"
  defines "a2 \<equiv> snd (process_packet W a1 l' s)"
  shows "arb_wf W a2" "m_unique_processed a2 = m_unique_processed a + 1"
    "m_duplicates_suppressed a2 = m_duplicates_suppressed a + 1"
    "m_line_a_wins a2 = m_line_a_wins a + (if l = LINE_A then 1 else 0)"
    "m_line_b_wins a2 = m_line_b_wins a + (if l = LINE_A then 0 else 1)"
    "\<And>k. window_index W k \<noteq> window_index W s \<Longrightarrow> arb_seen W a2 k = arb_seen W a k"
proof -
  have idx: "window_index W s < W" using assms(2) by (rule window_index_less)
  have a1: "arb_wf W a1" "m_unique_processed a1 = m_unique_processed a + 1"
    "m_duplicates_suppressed a1 = m_duplicates_suppressed a"
    "m_line_a_wins a1 = m_line_a_wins a + (if l = LINE_A then 1 else 0)"
    "m_line_b_wins a1 = m_line_b_wins a + (if l = LINE_A then 0 else 1)"
    "m_seen_sequences a1 = (m_seen_sequences a)[window_index W s := s]"
    using assms(1,3) by (auto simp: a1_def process_packet_def arb_wf_def arb_seen_def Let_def)
  then have "m_seen_sequences a1 ! window_index W s = s" using assms(1) idx by (simp add: arb_wf_def)
  then have "a2 = a1\<lparr>m_duplicates_suppressed := m_duplicates_suppressed a1 + 1\<rparr>"
    by (simp add: a2_def process_packet_def Let_def)
  with a1 show "arb_wf W a2" "m_unique_processed a2 = m_unique_processed a + 1"
    "m_duplicates_suppressed a2 = m_duplicates_suppressed a + 1"
    "m_line_a_wins a2 = m_line_a_wins a + (if l = LINE_A then 1 else 0)"
    "m_line_b_wins a2 = m_line_b_wins a + (if l = LINE_A then 0 else 1)"
    "\<And>k. window_index W k \<noteq> window_index W s \<Longrightarrow> arb_seen W a2 k = arb_seen W a k"
    by (simp_all add: arb_wf_def arb_seen_def)
qed

lemma duplicate_feeds_run:
  assumes "n < 65536"
  defines "a \<equiv> fold duplicate_feeds_turn (map of_nat [1 ..< Suc n]) (arbitrator_init 65536)"
  shows "arb_wf 65536 a \<and> m_unique_processed a = of_nat n \<and> m_duplicates_suppressed a = of_nat n \<and>
    m_line_a_wins a = of_nat (n div 2) \<and> m_line_b_wins a = of_nat (Suc n div 2) \<and>
    (\<forall>k. n < k \<and> k < 65536 \<longrightarrow> \<not> arb_seen 65536 a (of_nat k))"
  using assms(1) unfolding a_def
proof (induction n)
  case 0
  have "pow2_capacity 65536" using pow2_capacity_exp [of 16] by simp
  moreover have "(of_nat k :: u64) \<noteq> 0" if "0 < k" "k < 65536" for k
    using that by (simp add: word_unat_eq_iff unat_of_nat)
  ultimately have "\<forall>k. 0 < k \<and> k < 65536 \<longrightarrow> \<not> arb_seen 65536 (arbitrator_init 65536) (of_nat k)"
    by (simp add: arb_init_unseen)
  then show ?case by (simp add: arb_wf_def) (simp add: arbitrator_init_def)
next
  case (Suc n)
  let ?a = "fold duplicate_feeds_turn (map of_nat [1 ..< Suc n]) (arbitrator_init 65536)" and ?s = "of_nat (Suc n) :: u64"
  have IH: "arb_wf 65536 ?a" "m_unique_processed ?a = of_nat n" "m_duplicates_suppressed ?a = of_nat n"
    "m_line_a_wins ?a = of_nat (n div 2)" "m_line_b_wins ?a = of_nat (Suc n div 2)"
    "\<And>k. n < k \<Longrightarrow> k < 65536 \<Longrightarrow> \<not> arb_seen 65536 ?a (of_nat k)"
    using Suc by auto
  have P: "pow2_capacity 65536" using pow2_capacity_exp [of 16] by simp
  have new: "\<not> arb_seen 65536 ?a ?s" using IH(6) [of "Suc n"] Suc.prems by simp
  have par: "?s mod 2 = 0 \<longleftrightarrow> even (Suc n)"
    using Suc.prems by (simp add: word_unat_eq_iff unat_mod_distrib unat_of_nat even_iff_mod_2_eq_zero del: of_nat_Suc)
  have idx: "window_index 65536 (of_nat k) \<noteq> window_index 65536 ?s" if "Suc n < k" "k < 65536" for k
    using that Suc.prems P window_index_inj [of 65536 "of_nat k" 0 ?s]
    by (auto simp: seq_window_def word_unat_eq_iff unat_of_nat simp del: of_nat_Suc)
  note T = process_packet_twice [OF IH(1) P new]
  have turn: "fold duplicate_feeds_turn (map of_nat [1 ..< Suc (Suc n)]) (arbitrator_init 65536) = duplicate_feeds_turn ?s ?a"
    by simp
  have "(of_nat (Suc n div 2) :: u64) = of_nat (n div 2) + (if even (Suc n) then 1 else 0)"
    "(of_nat (Suc (Suc n) div 2) :: u64) = of_nat (Suc n div 2) + (if even (Suc n) then 0 else 1)"
    by (auto elim!: evenE oddE)
  with T IH idx par show ?case
    unfolding turn duplicate_feeds_turn_def by auto
qed

theorem duplicate_feeds_scenario_passes: "all_pass 4 (run_duplicate_feeds_scenario env)"
  unfolding run_duplicate_feeds_scenario_def Let_def
  using duplicate_feeds_run [of 100] by (simp add: all_pass_end del: upt_Suc upt_rec_numeral)

subsection \<open>Recovery\<close>

definition arena_updates :: "IncrementalUpdate list" where
  "arena_updates = map arena_update [1, 2, 3, 4, 5]"

lemma arena_updates_split:
  "fresh 3 arena_updates = [arena_update 4, arena_update 5]"
  "length (filter (\<lambda>u. \<not> 3 < inc_seq_num u) arena_updates) = 3" "length arena_updates = 5"
  by (simp_all add: fresh_def arena_updates_def arena_update_def)

lemma apply_incremental_snapshot_flag: "m_snapshot_applied (apply_incremental u m) = m_snapshot_applied m"
  by (simp add: apply_incremental_def)

lemma flat_nonempty: "flat_map b p = Some q \<Longrightarrow> 0 < flat_size b"
  by (cases "m_count b") (auto simp: flat_size_def flat_map_def ladder_map_def levels_def)

theorem order_book_recovery_scenario_passes: "all_pass 4 (run_order_book_recovery_scenario env)"
proof -
  define m1 where "m1 = fold (\<lambda>u m. snd (process_incremental u m)) arena_updates (recovery_init ''PETR4'')"
  have m1: "m1 = (recovery_init ''PETR4'')\<lparr>m_buffered_incrementals := arena_updates, m_incrementals_buffered_count := 5\<rparr>"
    unfolding m1_def by (subst incrementals_buffer) (simp_all add: recovery_init_def arena_updates_split)
  then have st: "m_state m1 = RECOVERING" "m_incrementals_buffered_count m1 = 5" "m_buffered_incrementals m1 = arena_updates"
    and inv: "flat_inv 1024 True (rm_bids m1)"
    by (simp_all add: recovery_init_def flat_init_inv)
  define m2 where "m2 = snd (apply_snapshot arena_snapshot m1)"
  have last3: "snapshot_last_seq arena_snapshot = 3" by (simp add: arena_snapshot_def)
  have res: "fst (apply_snapshot arena_snapshot m1) = 2" "m_state m2 = SYNCHRONIZED" "m_snapshot_applied m2"
      "m_incrementals_discarded_count m2 = 3"
    by (simp_all add: m2_def apply_snapshot_def Let_def split_beta replay_fold st last3 arena_updates_split
        apply_incremental_snapshot_flag)
  have last5: "m_last_applied_seq m2 = 5"
    by (simp add: m2_def apply_snapshot_def Let_def split_beta replay_fold st last3 arena_updates_split arena_update_def)
  define ops where "ops = map level_op (snap_bids arena_snapshot) @ concat (map inc_ops [arena_update 4, arena_update 5])"
  have bids: "rm_bids m2 = fold (ladder_op (insert_or_update 1024 True) erase) ops (flat_clear (rm_bids m1))"
    using apply_snapshot_books [of arena_snapshot m1] by (simp add: m2_def last3 st(3) arena_updates_split ops_def)
  have four: "ops = [(35000000, Some 1000), (34900000, Some 2000),
      (inc_price_scaled (arena_update 4), Some 400), (inc_price_scaled (arena_update 5), Some 500)]"
    by (simp add: ops_def arena_snapshot_def level_op_def inc_ops_def arena_update_def)
  have "card (fst ` set ops) \<le> length ops" by (metis card_image_le card_length finite_set le_trans)
  then have "card (fst ` set ops) \<le> 1024" by (simp add: four)
  then have "flat_map (rm_bids m2) = fold (\<lambda>x m. m(fst x := snd x)) ops Map.empty"
    using flat.ops_rep [OF flat.clear_inv [OF inv], of ops] flat.clear_rep [OF inv] by (simp add: bids)
  then have "flat_map (rm_bids m2) (inc_price_scaled (arena_update 5)) = Some 500" by (simp add: four)
  then have depth: "0 < flat_size (rm_bids m2)" by (rule flat_nonempty)
  show ?thesis
    unfolding run_order_book_recovery_scenario_def Let_def arena_updates_def [symmetric] m1_def [symmetric]
    using st(1,2) res last5 depth by (simp add: split_beta m2_def all_pass_end)
qed

subsection \<open>Risk\<close>

lemma arena_verdicts:
  assumes "m_limits m = arena_limits"
  shows "risk_status (fst (evaluate_order fmt m valid_order 35000000)) = APPROVED"
    and "risk_status (fst (evaluate_order fmt m (valid_order\<lparr>quantity := 100000\<rparr>) 35000000)) = REJECTED_MAX_QTY"
    and "risk_status (fst (evaluate_order fmt m (valid_order\<lparr>price := 45000000\<rparr>) 35000000)) = REJECTED_PRICE_COLLAR"
    and "risk_status (fst (evaluate_order fmt m (valid_order\<lparr>quantity := 40000, price := 100000000\<rparr>) 100000000)) =
      REJECTED_MAX_NOTIONAL"
    and "risk_status (fst (evaluate_order fmt (set_kill_switch True m) valid_order 35000000)) = REJECTED_KILL_SWITCH"
  by (simp_all add: evaluate_order_def risk_reject_def assms arena_limits_def valid_order_def set_kill_switch_def
      price_deviation_def notional_usd_def wrap_i64_def Let_def)

lemma evaluate_keeps_limits: "evaluate_order fmt m ord ref = (res, m') \<Longrightarrow> m_limits m' = m_limits m"
  by (auto simp: evaluate_order_def risk_reject_def Let_def split: if_splits)

theorem risk_validation_scenario_passes: "all_pass 5 (run_risk_validation_scenario env)"
proof -
  let ?f = "ar_fmt2 env"
  define m0 where "m0 = risk_manager_init arena_limits"
  obtain res1 m1 where e1: "evaluate_order ?f m0 valid_order 35000000 = (res1, m1)" by fastforce
  obtain res2 m2 where e2: "evaluate_order ?f m1 (valid_order\<lparr>quantity := 100000\<rparr>) 35000000 = (res2, m2)" by fastforce
  obtain res3 m3 where e3: "evaluate_order ?f m2 (valid_order\<lparr>price := 45000000\<rparr>) 35000000 = (res3, m3)" by fastforce
  obtain res4 m4 where e4: "evaluate_order ?f m3 (valid_order\<lparr>quantity := 40000, price := 100000000\<rparr>) 100000000 = (res4, m4)"
    by fastforce
  obtain res5 m5 where e5: "evaluate_order ?f (set_kill_switch True m4) valid_order 35000000 = (res5, m5)" by fastforce
  have "m_limits m0 = arena_limits" by (simp add: m0_def risk_manager_init_def)
  then have lim: "m_limits m0 = arena_limits" "m_limits m1 = arena_limits" "m_limits m2 = arena_limits"
    "m_limits m3 = arena_limits" "m_limits m4 = arena_limits"
    using e1 e2 e3 e4 by (auto dest!: evaluate_keeps_limits)
  have "risk_status res1 = APPROVED" "risk_status res2 = REJECTED_MAX_QTY" "risk_status res3 = REJECTED_PRICE_COLLAR"
    "risk_status res4 = REJECTED_MAX_NOTIONAL" "risk_status res5 = REJECTED_KILL_SWITCH"
    using arena_verdicts(1) [OF lim(1), of ?f] arena_verdicts(2) [OF lim(2), of ?f] arena_verdicts(3) [OF lim(3), of ?f]
      arena_verdicts(4) [OF lim(4), of ?f] arena_verdicts(5) [OF lim(5), of ?f] by (simp_all add: e1 e2 e3 e4 e5)
  then show ?thesis
    unfolding run_risk_validation_scenario_def Let_def m0_def [symmetric]
    by (simp add: e1 e2 e3 e4 e5 all_pass_end)
qed

subsection \<open>The benchmark and the summary\<close>

definition bench_good :: "'d arena_env \<Rightarrow> 'd CpuBenchmarkResult \<Rightarrow> bool" where
  "bench_good env b \<longleftrightarrow> core_pinning_success b \<and> avg_cycles b < 200 \<and>
     ar_below5 env (ar_percent env (preemption_spikes_count b) (total_iterations b))"

abbreviation arena_bench :: "'d arena_env \<Rightarrow> 'd CpuBenchmarkResult option" where
  "arena_bench env \<equiv> fst (run_isolation_benchmark (ar_machine env) (ar_self env) (ar_p99 env) (ar_to_ns env) 0
     (ar_readings env) (ar_process env))"

lemma bench_defined:
  assumes "rs \<noteq> []" "p99 (length rs) < length rs"
  shows "\<exists>b. fst (run_isolation_benchmark mc self p99 to_ns cpu rs s) = Some b \<and> total_iterations b = length rs"
  using assms by (simp add: run_isolation_benchmark_def bench_loop_def bench_fold Let_def split_beta)

lemma judge_benchmark_passes:
  assumes "total_iterations b = arena_iterations"
  shows "assertions_failed (judge_benchmark env b r) = 0 \<longleftrightarrow> assertions_failed r = 0 \<and> bench_good env b"
  using assms by (auto simp: judge_benchmark_def bench_good_def Let_def)

lemma cpu_scheduling_scenario:
  assumes "length (ar_readings env) = arena_iterations" "ar_p99 env arena_iterations < arena_iterations"
  shows "\<exists>b r. arena_bench env = Some b \<and> run_cpu_scheduling_scenario env = Some r \<and> passed r = bench_good env b"
proof -
  have "ar_readings env \<noteq> []" using assms(1) by (auto simp: arena_iterations_def)
  with bench_defined [of "ar_readings env" "ar_p99 env"] assms obtain b where
    b: "arena_bench env = Some b" "total_iterations b = arena_iterations" by metis
  then show ?thesis
    using assms(1) by (simp add: run_cpu_scheduling_scenario_def Let_def end_scenario_def judge_benchmark_passes)
qed

text \<open>
  The outcome of the test arena: in every environment whose clock calibration passes the arena's own check of it, with
  100000 benchmark turns and an index of the 99th percentile below that number, the arena runs to its end, its first six
  scenarios pass their assertions, and the summary reports success exactly when the benchmark pinned its thread,
  stayed below 200 cycles on average and below five percent of spikes, the limits in the code.
\<close>

theorem arena_summary:
  assumes "length (ar_readings env) = arena_iterations" "ar_p99 env arena_iterations < arena_iterations"
    and "ar_sane env (m_cycles_per_ns (clock_init (ar_three env) (ar_ratio env) (ar_start_cycles env) (ar_end_cycles env)
           (ar_elapsed_ns env) (ar_realtime_ns env)))"
  shows "(\<exists>b. arena_bench env = Some b \<and>
     (\<exists>front. run_all_scenarios env = Some (front @
        [''ARENA SUMMARY: '' @ (if bench_good env b then ''ALL SCENARIOS (#1, #2, #3, #4, #5, #6, #7) PASSED 100%''
                                else ''SOME SCENARIOS FAILED''), rule_line, '''']))) \<and>
     all_pass 4 (run_packet_loss_scenario env) \<and> all_pass 3 (run_out_of_order_scenario env) \<and>
     all_pass 4 (run_clock_sync_scenario env) \<and> all_pass 4 (run_duplicate_feeds_scenario env) \<and>
     all_pass 4 (run_order_book_recovery_scenario env) \<and> all_pass 5 (run_risk_validation_scenario env)"
proof -
  obtain b r where b: "arena_bench env = Some b" "run_cpu_scheduling_scenario env = Some r" "passed r = bench_good env b"
    using cpu_scheduling_scenario [OF assms(1,2)] by blast
  note six = packet_loss_scenario_passes [of env] out_of_order_scenario_passes [of env]
    clock_sync_scenario_passes [OF assms(3)] duplicate_feeds_scenario_passes [of env]
    order_book_recovery_scenario_passes [of env] risk_validation_scenario_passes [of env]
  then have ok: "passed (run_packet_loss_scenario env)" "passed (run_out_of_order_scenario env)"
    "passed (run_clock_sync_scenario env)" "passed (run_duplicate_feeds_scenario env)"
    "passed (run_order_book_recovery_scenario env)" "passed (run_risk_validation_scenario env)"
    by (simp_all add: all_pass_def)
  have "\<exists>front. run_all_scenarios env = Some (front @
        [''ARENA SUMMARY: '' @ (if bench_good env b then ''ALL SCENARIOS (#1, #2, #3, #4, #5, #6, #7) PASSED 100%''
                                else ''SOME SCENARIOS FAILED''), rule_line, ''''])"
    unfolding run_all_scenarios_def Let_def b(2) using ok b(3)
    by (intro exI [of _ "['''', rule_line, ''        HFT ENGINE RESILIENCE TEST ARENA           '', rule_line] @
          concat (map (print_scenario env) [run_packet_loss_scenario env, run_out_of_order_scenario env,
            run_clock_sync_scenario env, run_duplicate_feeds_scenario env, run_order_book_recovery_scenario env,
            run_risk_validation_scenario env, r]) @ ['''', rule_line]"]) simp
  with b(1) six show ?thesis by blast
qed

text \<open>Witness: integers in place of doubles, a machine that refuses to pin.\<close>

definition arena_example :: "nat arena_env" where
  "arena_example = \<lparr>ar_zero = 0, ar_ms = id, ar_ratio = (\<lambda>c e. 3), ar_three = 3, ar_start_cycles = 0,
     ar_end_cycles = 300, ar_elapsed_ns = 100, ar_realtime_ns = 0, ar_sane = (\<lambda>x. 1 \<le> x \<and> x < 10),
     ar_fixed4 = dec_string, ar_fixed3 = dec_string, ar_to_string = dec_string, ar_latency_cycles = 0,
     ar_fmt2 = (\<lambda>_. ''''), ar_machine = plain_machine\<lparr>sys_setaffinity := (\<lambda>_ _. 22)\<rparr>, ar_self = 0,
     ar_process = idle_process, ar_readings = replicate arena_iterations (0, 40),
     ar_p99 = (\<lambda>n. n * 99 div 100), ar_to_ns = unat, ar_percent = (\<lambda>a b. a * 100 div b), ar_below5 = (\<lambda>x. x < 5)\<rparr>"

theorem arena_summary_witness:
  "\<exists>front. run_all_scenarios arena_example = Some (front @ [''ARENA SUMMARY: SOME SCENARIOS FAILED'', rule_line, ''''])"
proof -
  have h: "length (ar_readings arena_example) = arena_iterations"
    "ar_p99 arena_example arena_iterations < arena_iterations"
    "ar_sane arena_example (m_cycles_per_ns (clock_init (ar_three arena_example) (ar_ratio arena_example)
       (ar_start_cycles arena_example) (ar_end_cycles arena_example) (ar_elapsed_ns arena_example) (ar_realtime_ns arena_example)))"
    by (simp_all add: arena_example_def arena_iterations_def clock_init_def calibrate_def Let_def)
  from arena_summary [OF h] obtain b front where b: "arena_bench arena_example = Some b"
    and out: "run_all_scenarios arena_example = Some (front @
        [''ARENA SUMMARY: '' @ (if bench_good arena_example b then ''ALL SCENARIOS (#1, #2, #3, #4, #5, #6, #7) PASSED 100%''
                                else ''SOME SCENARIOS FAILED''), rule_line, ''''])" by blast
  have "\<not> core_pinning_success b"
    using b by (auto simp: run_isolation_benchmark_def pin_thread_to_cpu_def pin_native_result
        arena_example_def Let_def split_beta split: if_splits)
  with out show ?thesis by (simp add: bench_good_def)
qed

end
