(* ===== verification/Performance_Monitor.thy ===== *)
theory Performance_Monitor
  imports Worker_Types System_Setup
begin

text \<open>
  \<open>CsvPerformanceMonitor\<close> of \<open>src/monitoring/PerformanceMonitor.cpp\<close>: the sampling loop and the CSV file it
  writes. A sample is what one turn of the loop reads: the flag \<open>g_running\<close>, the steady clock in
  nanoseconds, the telemetry counters (each a relaxed load of its own) and the depth of the queue. The
  operations on doubles and their renderings are given by a record.
\<close>

record 'd doubles =
  d_zero :: 'd
  d_seconds :: "int \<Rightarrow> 'd"
  d_positive :: "'d \<Rightarrow> bool"
  d_of_u64 :: "u64 \<Rightarrow> 'd"
  d_div :: "'d \<Rightarrow> 'd \<Rightarrow> 'd"
  d_fixed :: "nat \<Rightarrow> 'd \<Rightarrow> string"

record perf_sample =
  ps_running :: bool
  ps_now :: int
  ps_metrics :: WorkerMetrics
  ps_rx :: u64
  ps_queue_len :: nat

definition csv_header :: "string list" where
  "csv_header = [''elapsed_sec'', ''throughput_msg_sec'', ''avg_latency_ns'', ''min_latency_ns'', ''max_latency_ns'',
     ''spsc_queue_depth'', ''rx_frames_captured'', ''total_processed'', ''risk_approved'', ''risk_rejected'',
     ''approved_avg_latency_ns'', ''rejected_avg_latency_ns'']"

fun csv_join :: "string list \<Rightarrow> string" where
  "csv_join [] = []"
| "csv_join [f] = f"
| "csv_join (f # fs) = f @ CHR '','' # csv_join fs"

definition csv_line :: "string list \<Rightarrow> string" where
  "csv_line fs = csv_join fs @ [CHR 0x0A]"

text \<open>A mean that is 0.0 without messages.\<close>

definition mean_latency :: "'d doubles \<Rightarrow> u64 \<Rightarrow> u64 \<Rightarrow> 'd" where
  "mean_latency D n t = (if n > 0 then d_div D (d_of_u64 D t) (d_of_u64 D n) else d_zero D)"

definition delta_processed :: "u64 \<Rightarrow> u64 \<Rightarrow> u64" where
  "delta_processed last_processed current = (if current \<ge> last_processed then current - last_processed else 0)"

text \<open>The row of one turn of the loop.\<close>

definition sample_row :: "'d doubles \<Rightarrow> int \<Rightarrow> u64 \<Rightarrow> int \<Rightarrow> perf_sample \<Rightarrow> string list" where
  "sample_row D start_time last_processed last_sample_time s =
     (let m = ps_metrics s;
          elapsed_total_sec = d_seconds D (ps_now s - start_time);
          delta_sec = d_seconds D (ps_now s - last_sample_time);
          current_processed = tm_messages_processed m;
          delta = delta_processed last_processed current_processed;
          throughput = (if d_positive D delta_sec then d_div D (d_of_u64 D delta) delta_sec else d_zero D);
          overall_avg = mean_latency D current_processed (tm_total_latency_ns m);
          approved_avg = mean_latency D (tm_risk_approved m) (tm_approved_total_latency_ns m);
          rejected_avg = mean_latency D (tm_risk_rejected m) (tm_rejected_total_latency_ns m);
          min_lat = (if tm_min_latency_ns m = -1 then 0 else tm_min_latency_ns m)
      in [d_fixed D 4 elapsed_total_sec, d_fixed D 2 throughput, d_fixed D 2 overall_avg,
          dec_string (unat min_lat), dec_string (unat (tm_max_latency_ns m)), dec_string (ps_queue_len s),
          dec_string (unat (ps_rx s)), dec_string (unat current_processed), dec_string (unat (tm_risk_approved m)),
          dec_string (unat (tm_risk_rejected m)), d_fixed D 2 approved_avg, d_fixed D 2 rejected_avg])"

text \<open>The last row: the precision of 4 is still set when the mean latency is written.\<close>

definition final_row :: "'d doubles \<Rightarrow> int \<Rightarrow> perf_sample \<Rightarrow> string list" where
  "final_row D start_time s =
     (let m = ps_metrics s;
          final_avg = mean_latency D (tm_messages_processed m) (tm_total_latency_ns m);
          approved_avg = mean_latency D (tm_risk_approved m) (tm_approved_total_latency_ns m);
          rejected_avg = mean_latency D (tm_risk_rejected m) (tm_rejected_total_latency_ns m)
      in [d_fixed D 4 (d_seconds D (ps_now s - start_time)), ''0.0'', d_fixed D 4 final_avg, ''0'', ''0'',
          dec_string (ps_queue_len s), dec_string (unat (ps_rx s)), dec_string (unat (tm_messages_processed m)),
          dec_string (unat (tm_risk_approved m)), dec_string (unat (tm_risk_rejected m)),
          d_fixed D 2 approved_avg, d_fixed D 2 rejected_avg])"

text \<open>
  The sampling loop and the final row. The first sample that finds \<open>g_running\<close> false is the one of the
  final row; without one the thread is still running and there is no result.
\<close>

fun sampling_loop :: "'d doubles \<Rightarrow> int \<Rightarrow> u64 \<Rightarrow> int \<Rightarrow> perf_sample list \<Rightarrow> string list list option" where
  "sampling_loop D start_time last_processed last_sample_time [] = None"
| "sampling_loop D start_time last_processed last_sample_time (s # ss) =
     (if ps_running s
      then map_option (\<lambda>rows. sample_row D start_time last_processed last_sample_time s # rows)
             (sampling_loop D start_time (tm_messages_processed (ps_metrics s)) (ps_now s) ss)
      else Some [final_row D start_time s])"

text \<open>
  \<open>run\<close>: the content of the file (\<open>None\<close> inside when it cannot be opened), the console lines (with
  whether they are errors) and the settings of the thread.
\<close>

definition monitor_run ::
  "machine \<Rightarrow> nat \<Rightarrow> 'd doubles \<Rightarrow> string \<Rightarrow> nat \<Rightarrow> int \<Rightarrow> bool \<Rightarrow> int \<Rightarrow> perf_sample list \<Rightarrow> process \<Rightarrow>
     (string option \<times> (bool \<times> string) list \<times> process) option" where
  "monitor_run mc self D csv_filename sample_interval_ms cpu_pin opened start_time samples s =
     (let (log1, s1) = (if cpu_pin \<ge> 0
                        then ([(False, ''[PerformanceMonitor] Thread pinned to CPU core '' @ dec_string_int cpu_pin)],
                              snd (pin_thread_to_cpu mc self cpu_pin s))
                        else ([], s))
      in if \<not> opened
         then Some (None, log1 @ [(True, ''[PerformanceMonitor] Error: Could not open destination CSV file '' @ [CHR 0x27] @
                     csv_filename @ [CHR 0x27])], s1)
         else let log2 = log1 @ [(False, ''[PerformanceMonitor] Sampling active every '' @ dec_string sample_interval_ms @
                            '' ms. Recording time-series to: '' @ csv_filename)]
              in map_option (\<lambda>rows.
                   (Some (csv_line csv_header @ concat (map csv_line rows)),
                    log2 @ [(False, ''[PerformanceMonitor] Time-series recording complete ('' @ csv_filename @ '').'')],
                    s1))
                 (sampling_loop D start_time 0 start_time samples))"

subsection \<open>Reading the file back\<close>

fun split_char :: "char \<Rightarrow> string \<Rightarrow> string list" where
  "split_char c [] = [[]]"
| "split_char c (x # xs) =
     (if x = c then [] # split_char c xs
      else case split_char c xs of [] \<Rightarrow> [[x]] | f # fs \<Rightarrow> (x # f) # fs)"

definition csv_read :: "string \<Rightarrow> string list list" where
  "csv_read content = map (split_char (CHR '','')) (butlast (split_char (CHR 0x0A) content))"

lemma split_char_free: "c \<notin> set f \<Longrightarrow> split_char c f = [f]"
  by (induction f) auto

lemma split_char_append: "c \<notin> set f \<Longrightarrow> split_char c (f @ c # xs) = f # split_char c xs"
  by (induction f) auto

lemma split_char_nonempty: "split_char c xs \<noteq> []"
  by (induction xs) (auto split: list.splits)

lemma split_csv_join:
  assumes "fs \<noteq> []" "\<forall>f \<in> set fs. CHR '','' \<notin> set f"
  shows "split_char (CHR '','') (csv_join fs) = fs"
  using assms by (induction fs rule: csv_join.induct) (auto simp: split_char_free split_char_append)

lemma set_csv_join: "set (csv_join fs) \<subseteq> insert (CHR '','') (\<Union>(set ` set fs))"
  by (induction fs rule: csv_join.induct) auto

definition csv_clean :: "string \<Rightarrow> bool" where
  "csv_clean f \<longleftrightarrow> CHR '','' \<notin> set f \<and> CHR 0x0A \<notin> set f"

lemma split_csv_lines:
  assumes "\<forall>row \<in> set rows. \<forall>f \<in> set row. csv_clean f"
  shows "split_char (CHR 0x0A) (concat (map csv_line rows)) = map csv_join rows @ [[]]"
  using assms
proof (induction rows)
  case (Cons row rows)
  have "CHR 0x0A \<notin> set (csv_join row)"
    using set_csv_join [of row] Cons.prems by (auto simp: csv_clean_def)
  with Cons show ?case by (simp add: csv_line_def split_char_append)
qed simp

lemma csv_read_write:
  assumes "\<forall>row \<in> set rows. row \<noteq> [] \<and> (\<forall>f \<in> set row. csv_clean f)"
  shows "csv_read (concat (map csv_line rows)) = rows"
proof -
  have "map (split_char (CHR '','')) (map csv_join rows) = rows"
    using assms by (induction rows) (auto simp: split_csv_join csv_clean_def)
  then show ?thesis
    using split_csv_lines [of rows] assms by (simp add: csv_read_def)
qed

lemma dec_string_clean: "csv_clean (dec_string n)"
proof -
  have "is_digit c" if "c \<in> set (dec_string n)" for c
    using that dec_string_digits [of n] by (auto simp: list_all_iff)
  moreover have "\<not> is_digit (CHR '','')" "\<not> is_digit (CHR 0x0A)" by (simp_all add: is_digit_def)
  ultimately show ?thesis by (auto simp: csv_clean_def)
qed

subsection \<open>Properties\<close>

lemma sampling_loop_rows:
  "sampling_loop D t0 lp lt ss = Some rows \<Longrightarrow>
   \<exists>pre fin post. ss = pre @ fin # post \<and> (\<forall>s \<in> set pre. ps_running s) \<and> \<not> ps_running fin \<and>
     length rows = Suc (length pre) \<and> rows ! length pre = final_row D t0 fin \<and>
     (\<forall>i < length pre. \<exists>a b. rows ! i = sample_row D t0 a b (pre ! i))"
proof (induction ss arbitrary: lp lt rows)
  case (Cons s ss)
  show ?case
  proof (cases "ps_running s")
    case True
    then obtain rs where rs: "sampling_loop D t0 (tm_messages_processed (ps_metrics s)) (ps_now s) ss = Some rs"
      and rows: "rows = sample_row D t0 lp lt s # rs" using Cons.prems by auto
    from Cons.IH [OF rs] obtain pre fin post where *: "ss = pre @ fin # post" "\<forall>s \<in> set pre. ps_running s"
      "\<not> ps_running fin" "length rs = Suc (length pre)" "rs ! length pre = final_row D t0 fin"
      "\<forall>i < length pre. \<exists>a b. rs ! i = sample_row D t0 a b (pre ! i)" by blast
    then show ?thesis
      using True by (intro exI [of _ "s # pre"] exI [of _ fin] exI [of _ post])
        (auto simp: rows nth_Cons split: nat.split)
  next
    case False
    then show ?thesis
      using Cons.prems by (intro exI [of _ "[]"] exI [of _ s] exI [of _ ss]) auto
  qed
qed simp

lemma sampling_loop_stops:
  "(\<exists>s \<in> set ss. \<not> ps_running s) \<longleftrightarrow> (\<exists>rows. sampling_loop D t0 lp lt ss = Some rows)"
  by (induction ss arbitrary: lp lt) auto

text \<open>The counters a row carries in clear: queue depth, captured frames, processed, approved and rejected.\<close>

definition row_counters :: "string list \<Rightarrow> nat list" where
  "row_counters row = map dec_value (take 5 (drop 5 row))"

definition sample_counters :: "perf_sample \<Rightarrow> nat list" where
  "sample_counters s = [ps_queue_len s, unat (ps_rx s), unat (tm_messages_processed (ps_metrics s)),
     unat (tm_risk_approved (ps_metrics s)), unat (tm_risk_rejected (ps_metrics s))]"

lemma row_shapes:
  "length (sample_row D t0 a b s) = 12" "length (final_row D t0 s) = 12"
  "row_counters (sample_row D t0 a b s) = sample_counters s" "row_counters (final_row D t0 s) = sample_counters s"
  by (simp_all add: sample_row_def final_row_def row_counters_def sample_counters_def Let_def)

lemma rows_clean:
  assumes "\<forall>p x. csv_clean (d_fixed D p x)"
  shows "\<forall>f \<in> set (sample_row D t0 a b s). csv_clean f" "\<forall>f \<in> set (final_row D t0 s). csv_clean f"
  using assms dec_string_clean by (auto simp: sample_row_def final_row_def Let_def) (auto simp: csv_clean_def)

text \<open>
  The time series can be read back: once the running flag is seen false the monitor ends with a
  file which, cut at newlines and commas, is the header followed by one row of twelve fields for each
  sample and one for the shutdown, and whose counter columns are the sampled values, in order. The
  renderings of doubles are assumed to contain neither a comma nor a newline.
\<close>

theorem monitor_csv_roundtrip:
  assumes "\<forall>p x. csv_clean (d_fixed D p x)" "\<exists>s \<in> set samples. \<not> ps_running s"
  shows "\<exists>content log s' rows pre fin post.
    monitor_run mc self D fname interval cpu True t0 samples s = Some (Some content, log, s') \<and>
    samples = pre @ fin # post \<and> (\<forall>x \<in> set pre. ps_running x) \<and> \<not> ps_running fin \<and>
    csv_read content = csv_header # rows \<and> (\<forall>row \<in> set rows. length row = length csv_header) \<and>
    map row_counters rows = map sample_counters (pre @ [fin])"
proof -
  obtain rows where loop: "sampling_loop D t0 0 t0 samples = Some rows"
    using assms(2) sampling_loop_stops [of samples D t0 0 t0] by blast
  obtain pre fin post where P: "samples = pre @ fin # post" "\<forall>x \<in> set pre. ps_running x" "\<not> ps_running fin"
    "length rows = Suc (length pre)" "rows ! length pre = final_row D t0 fin"
    "\<forall>i < length pre. \<exists>a b. rows ! i = sample_row D t0 a b (pre ! i)"
    using sampling_loop_rows [OF loop] by blast
  have row: "length (rows ! i) = 12 \<and> row_counters (rows ! i) = sample_counters ((pre @ [fin]) ! i) \<and>
      (\<forall>f \<in> set (rows ! i). csv_clean f)" if i: "i < length rows" for i
  proof (cases "i = length pre")
    case True
    then show ?thesis using P(5) rows_clean [OF assms(1)] by (simp add: row_shapes nth_append)
  next
    case False
    then have "i < length pre" using i P(4) by simp
    then show ?thesis using P(6) rows_clean [OF assms(1)] by (auto simp: row_shapes nth_append)
  qed
  have rows: "\<forall>r \<in> set rows. length r = 12 \<and> (\<forall>f \<in> set r. csv_clean f)"
    using row by (metis in_set_conv_nth)
  have hdr: "length csv_header = 12" "\<forall>f \<in> set csv_header. csv_clean f"
    by (simp_all add: csv_header_def csv_clean_def)
  have "\<forall>r \<in> set (csv_header # rows). r \<noteq> [] \<and> (\<forall>f \<in> set r. csv_clean f)"
    using rows hdr by auto
  from csv_read_write [OF this]
  have read: "csv_read (csv_line csv_header @ concat (map csv_line rows)) = csv_header # rows" by simp
  have "map row_counters rows = map sample_counters (pre @ [fin])"
    using row P(4) by (intro nth_equalityI) (auto simp: nth_append)
  moreover have "\<exists>log s'. monitor_run mc self D fname interval cpu True t0 samples s =
      Some (Some (csv_line csv_header @ concat (map csv_line rows)), log, s')"
    by (simp add: monitor_run_def loop Let_def split_beta)
  moreover have "\<forall>row \<in> set rows. length row = length csv_header" using rows hdr(1) by simp
  ultimately show ?thesis using P(1-3) read by blast
qed

text \<open>
  The throughput column accounts for every message: with counters that only grow, the differences the
  periodic rows are computed from add up to the last count sampled.
\<close>

fun perf_deltas :: "u64 \<Rightarrow> perf_sample list \<Rightarrow> u64 list" where
  "perf_deltas last_processed [] = []"
| "perf_deltas last_processed (s # ss) =
     delta_processed last_processed (tm_messages_processed (ps_metrics s)) #
     perf_deltas (tm_messages_processed (ps_metrics s)) ss"

theorem throughput_accounts:
  assumes "sorted (lp # map (\<lambda>s. tm_messages_processed (ps_metrics s)) ss)"
  shows "lp + sum_list (perf_deltas lp ss) = last (lp # map (\<lambda>s. tm_messages_processed (ps_metrics s)) ss)"
  using assms
proof (induction ss arbitrary: lp)
  case (Cons s ss)
  let ?p = "tm_messages_processed (ps_metrics s)"
  have "lp \<le> ?p" using Cons.prems by simp
  then have "lp + sum_list (perf_deltas lp (s # ss)) = ?p + sum_list (perf_deltas ?p ss)"
    by (simp add: delta_processed_def)
  with Cons show ?case by simp
qed simp

text \<open>The row of the shutdown shows no latency extremes and no throughput, whatever the counters hold.\<close>

lemma final_row_hides_extremes:
  "final_row D t0 s ! 1 = ''0.0'' \<and> final_row D t0 s ! 3 = ''0'' \<and> final_row D t0 s ! 4 = ''0''"
  by (simp add: final_row_def Let_def)

text \<open>Witness: integers in place of doubles, one periodic sample and the shutdown.\<close>

definition int_doubles :: "int doubles" where
  "int_doubles = \<lparr>d_zero = 0, d_seconds = (\<lambda>n. n div 1000000000), d_positive = (\<lambda>x. 0 < x), d_of_u64 = uint,
     d_div = (div), d_fixed = (\<lambda>p x. dec_string (nat x))\<rparr>"

definition sample_at :: "bool \<Rightarrow> int \<Rightarrow> u64 \<Rightarrow> perf_sample" where
  "sample_at running t n = \<lparr>ps_running = running, ps_now = t,
     ps_metrics = worker_metrics_init\<lparr>tm_messages_processed := n\<rparr>, ps_rx = n, ps_queue_len = 0\<rparr>"

theorem monitor_csv_roundtrip_witness:
  "\<exists>content log s' rows. monitor_run \<lparr>sys_setaffinity = (\<lambda>_ _. 0), sys_numa = None, sys_setscheduler = (\<lambda>_. 0),
       sys_mlockall = 0, sys_nprocessors = 4\<rparr> 0 int_doubles ''m.csv'' 10 (-1) True 0
       [sample_at True 10000000 3, sample_at False 20000000 7] idle_process = Some (Some content, log, s') \<and>
     csv_read content = csv_header # rows \<and> (\<forall>row \<in> set rows. length row = length csv_header)"
  using monitor_csv_roundtrip [of int_doubles "[sample_at True 10000000 3, sample_at False 20000000 7]"]
  by (simp add: int_doubles_def dec_string_clean sample_at_def) blast

end
