(* ===== verification/Tsc_Clock.thy ===== *)
theory Tsc_Clock
  imports Clock_Synchronizer Performance_Monitor "HOL-Library.Monad_Syntax"
begin

text \<open>
  Calibration of the cycle counter, \<open>calibrate_rdtsc\<close> of \<open>include/hft/common/Types.hpp\<close>. The monotonic clock is
  the list of its readings as \<open>(tv_sec, tv_nsec)\<close>, each call of \<open>get_timestamp_ns\<close> taking the next one; a list that
  is too short is a calibration that has not returned yet. The two readings of the counter are arguments.
\<close>

type_synonym monotonic = "(u64 \<times> u64) list"

definition get_timestamp_ns :: "u64 \<times> u64 \<Rightarrow> u64" where
  "get_timestamp_ns ts = timespec_ns (fst ts) (snd ts)"

text \<open>A \<open>pause\<close> loop: one reading for each test of its condition.\<close>

fun spin_until :: "u64 \<Rightarrow> u64 \<Rightarrow> monotonic \<Rightarrow> monotonic option" where
  "spin_until span start_time [] = None"
| "spin_until span start_time (ts # clock) =
     (if get_timestamp_ns ts - start_time < span then spin_until span start_time clock else Some clock)"

fun next_reading :: "monotonic \<Rightarrow> (u64 \<times> monotonic) option" where
  "next_reading [] = None"
| "next_reading (ts # clock) = Some (get_timestamp_ns ts, clock)"

text \<open>\<open>one\<close> is the double 1.0.\<close>

definition calibrate_rdtsc ::
  "'d doubles \<Rightarrow> 'd \<Rightarrow> u64 \<Rightarrow> u64 \<Rightarrow> monotonic \<Rightarrow> ('d \<times> monotonic) option" where
  "calibrate_rdtsc D one start_cycles end_cycles clock = do {
     (warm, clock) \<leftarrow> next_reading clock;
     clock \<leftarrow> spin_until 10000000 warm clock;
     (start_time, clock) \<leftarrow> next_reading clock;
     clock \<leftarrow> spin_until 100000000 start_time clock;
     (end_time, clock) \<leftarrow> next_reading clock;
     let elapsed_ns = end_time - start_time; elapsed_cycles = end_cycles - start_cycles
     in Some (if elapsed_ns = 0 then one else d_div D (d_of_u64 D elapsed_cycles) (d_of_u64 D elapsed_ns), clock)
   }"

subsection \<open>What the calibration measures\<close>

lemma spin_until_Some:
  "spin_until span start clock = Some rest \<longleftrightarrow>
     (\<exists>pre t. clock = pre @ t # rest \<and> (\<forall>x \<in> set pre. get_timestamp_ns x - start < span) \<and>
        span \<le> get_timestamp_ns t - start)"
proof (induction clock)
  case (Cons ts clock)
  show ?case
  proof (cases "get_timestamp_ns ts - start < span")
    case True
    then show ?thesis
      using Cons by (auto simp: Cons_eq_append_conv)
  next
    case False
    then show ?thesis by (cases ts) (auto simp: Cons_eq_append_conv not_less)
  qed
qed simp

lemma next_reading_Some [simp]:
  "next_reading clock = Some (t, rest) \<longleftrightarrow> (\<exists>ts. clock = ts # rest \<and> t = get_timestamp_ns ts)"
  by (cases clock) auto

lemma spin_until_returns:
  assumes "t \<in> set clock" "span \<le> get_timestamp_ns t - start"
  shows "\<exists>rest. spin_until span start clock = Some rest"
  using assms by (induction clock) auto

text \<open>
  On a clock that never goes backwards, a calibration that returns has measured at least 100 milliseconds
  and yields the quotient of the cycles and the nanoseconds of that stretch: the division is never by zero, and the
  replacement value 1.0 is never used.
\<close>

theorem calibration_quotient:
  assumes "calibrate_rdtsc D one c0 c1 clock = Some (r, rest)" "sorted (map get_timestamp_ns clock)"
  shows "\<exists>t0 t1. {t0, t1} \<subseteq> set clock \<and> 100000000 \<le> get_timestamp_ns t1 - get_timestamp_ns t0 \<and>
    r = d_div D (d_of_u64 D (c1 - c0)) (d_of_u64 D (get_timestamp_ns t1 - get_timestamp_ns t0))"
proof -
  from assms(1) obtain w a where 1: "clock = w # a" and
    "\<exists>b s c d e. spin_until 10000000 (get_timestamp_ns w) a = Some b \<and> b = s # c \<and>
       spin_until 100000000 (get_timestamp_ns s) c = Some d \<and> d = e # rest \<and>
       r = (if get_timestamp_ns e - get_timestamp_ns s = 0 then one
            else d_div D (d_of_u64 D (c1 - c0)) (d_of_u64 D (get_timestamp_ns e - get_timestamp_ns s)))"
    by (auto simp: calibrate_rdtsc_def Let_def bind_eq_Some_conv)
  then obtain s c e where 2: "spin_until 10000000 (get_timestamp_ns w) a = Some (s # c)"
    "spin_until 100000000 (get_timestamp_ns s) c = Some (e # rest)"
    and r: "r = (if get_timestamp_ns e - get_timestamp_ns s = 0 then one
       else d_div D (d_of_u64 D (c1 - c0)) (d_of_u64 D (get_timestamp_ns e - get_timestamp_ns s)))" by blast
  from 2(1) obtain pre x where a: "a = pre @ x # s # c" by (auto simp: spin_until_Some)
  from 2(2) obtain pre' y where c: "c = pre' @ y # e # rest"
    and y: "100000000 \<le> get_timestamp_ns y - get_timestamp_ns s" by (auto simp: spin_until_Some)
  have order: "get_timestamp_ns s \<le> get_timestamp_ns y" "get_timestamp_ns y \<le> get_timestamp_ns e"
    using assms(2) by (auto simp: 1 a c sorted_append)
  then have "get_timestamp_ns y - get_timestamp_ns s \<le> get_timestamp_ns e - get_timestamp_ns s"
    by (simp add: word_le_nat_alt unat_sub)
  with y have long: "100000000 \<le> get_timestamp_ns e - get_timestamp_ns s" by (rule order_trans)
  then have "get_timestamp_ns e - get_timestamp_ns s \<noteq> 0" by auto
  with r long show ?thesis
    by (intro exI [of _ s] exI [of _ e]) (auto simp: 1 a c)
qed

text \<open>It does return as soon as the readings pass the two marks: the witness is a clock that jumps over both.\<close>

lemma calibration_returns:
  "calibrate_rdtsc D one c0 c1 ((0, 0) # (0, 10000000) # (0, 10000001) # (0, 110000001) # (0, 110000002) # rest) =
     Some (d_div D (d_of_u64 D (c1 - c0)) (d_of_u64 D 100000001), rest)"
  by (simp add: calibrate_rdtsc_def get_timestamp_ns_def timespec_ns_def)

end
