(* ===== verification/Protocol_Arena.thy ===== *)
theory Protocol_Arena
  imports Tsc_Clock Fix_Producer Matching_Engine Risk_Manager
begin

text \<open>
  The multi-protocol benchmark of \<open>src/protocol_arena_main.cpp\<close>: the same orders are written as FIX text, as OUCH and
  as SBE records, and each stream is parsed, risk-checked and matched. The readings of the cycle counter around each
  parse and the wall-clock time of each run are inputs; operations on doubles are fields of a record.
\<close>

record 'd arena_ops =
  ao_doubles :: "'d doubles"
  ao_one :: 'd
  ao_fmt2 :: "int \<Rightarrow> string"
  ao_cycles_to_ns :: "'d \<Rightarrow> u64 \<Rightarrow> u64"
  ao_rate :: "u64 \<Rightarrow> 'd \<Rightarrow> u64"
  ao_at_least_tenth :: "'d \<Rightarrow> 'd"
  ao_show :: "'d \<Rightarrow> string"

record 'd BenchmarkResult =
  br_protocol_name :: string
  br_total_messages :: nat
  br_risk_approved :: u64
  br_risk_rejected :: u64
  br_matched_trades :: u64
  br_total_time_ms :: 'd
  br_throughput_msgs_sec :: u64
  br_min_latency_ns :: u64
  br_avg_latency_ns :: 'd
  br_max_latency_ns :: u64
  br_speedup_vs_fix :: 'd

text \<open>The locals of \<open>run_protocol_benchmark\<close>.\<close>

record bench_state =
  bs_risk_mgr :: PreTradeRiskManager
  bs_engine :: MatchingEngine
  bs_trades :: "TradeExecution list"
  bs_total_latency_ns :: u64
  bs_min_latency_ns :: u64
  bs_max_latency_ns :: u64
  bs_risk_approved :: u64

definition protocol_limits :: RiskLimits where
  "protocol_limits = \<lparr>max_order_qty = 50000, max_price_deviation_scaled = 5000000,
     max_notional_value_usd = 2000000, kill_switch_active = False\<rparr>"

definition bench_start :: bench_state where
  "bench_start = \<lparr>bs_risk_mgr = set_limits protocol_limits (risk_manager_init default_limits),
     bs_engine = matching_engine_init, bs_trades = [], bs_total_latency_ns = 0, bs_min_latency_ns = -1,
     bs_max_latency_ns = 0, bs_risk_approved = 0\<rparr>"

text \<open>One turn of the loop, with the readings of the cycle counter before and after the parse.\<close>

definition bench_turn :: "(int \<Rightarrow> string) \<Rightarrow> (u64 \<Rightarrow> u64) \<Rightarrow> ProtocolType \<Rightarrow> string \<Rightarrow> u64 \<times> u64 \<Rightarrow> bench_state \<Rightarrow> bench_state" where
  "bench_turn fmt2 to_ns type pkt tsc s =
     (let (t0, t1) = tsc;
          order = parse_in_place type (Some pkt);
          elapsed_cycles = (if t1 > t0 then t1 - t0 else 0);
          lat_ns = to_ns elapsed_cycles;
          s1 = s\<lparr>bs_total_latency_ns := bs_total_latency_ns s + lat_ns,
                 bs_min_latency_ns := (if lat_ns < bs_min_latency_ns s then lat_ns else bs_min_latency_ns s),
                 bs_max_latency_ns := (if lat_ns > bs_max_latency_ns s then lat_ns else bs_max_latency_ns s)\<rparr>;
          (risk_res, mgr) = evaluate_order fmt2 (bs_risk_mgr s1) order 35000000;
          s2 = s1\<lparr>bs_risk_mgr := mgr\<rparr>
      in if risk_status risk_res = APPROVED
         then let s3 = s2\<lparr>bs_risk_approved := bs_risk_approved s2 + 1\<rparr>
              in if msg_type order = ''D''
                 then let (_, eng, trades) = process_order order 0 (bs_engine s3) (bs_trades s3)
                      in s3\<lparr>bs_engine := eng, bs_trades := trades\<rparr>
                 else s3
         else s2)"

text \<open>
  The run over a stream. \<open>tsc i\<close> are the readings of turn \<open>i\<close> and \<open>total_time_ms\<close> the wall-clock time; the thread is
  pinned first. Packets are \<open>Some\<close>: an empty one parses alike whether or not its data pointer is null.
\<close>

definition run_protocol_benchmark ::
  "'d arena_ops \<Rightarrow> machine \<Rightarrow> nat \<Rightarrow> 'd \<Rightarrow> ProtocolType \<Rightarrow> string list \<Rightarrow> (nat \<Rightarrow> u64 \<times> u64) \<Rightarrow> 'd \<Rightarrow> process \<Rightarrow>
     'd BenchmarkResult \<times> process" where
  "run_protocol_benchmark ops mc self cycles_per_ns type raw_packets tsc total_time_ms proc =
     (let D = ao_doubles ops;
          proc' = snd (pin_thread_to_cpu mc self 0 proc);
          total_msgs = length raw_packets;
          s = fold (\<lambda>i. bench_turn (ao_fmt2 ops) (ao_cycles_to_ns ops cycles_per_ns) type (raw_packets ! i) (tsc i))
                [0 ..< total_msgs] bench_start
      in (\<lparr>br_protocol_name = protocol_type_to_string type, br_total_messages = total_msgs,
           br_risk_approved = bs_risk_approved s, br_risk_rejected = m_rejected_count (bs_risk_mgr s),
           br_matched_trades = total_trades (bs_engine s), br_total_time_ms = total_time_ms,
           br_throughput_msgs_sec = (if d_positive D total_time_ms then ao_rate ops (of_nat total_msgs) total_time_ms else 0),
           br_min_latency_ns = (if bs_min_latency_ns s = -1 then 0 else bs_min_latency_ns s),
           br_avg_latency_ns = mean_latency D (of_nat total_msgs) (bs_total_latency_ns s),
           br_max_latency_ns = bs_max_latency_ns s, br_speedup_vs_fix = ao_one ops\<rparr>, proc'))"

subsection \<open>The three streams\<close>

definition arena_qty :: "nat \<Rightarrow> nat" where
  "arena_qty i = (if i mod 7 = 0 then 100000 else 500)"

definition arena_side :: "nat \<Rightarrow> nat" where
  "arena_side i = (if i mod 2 = 1 then 1 else 2)"

definition arena_fix_fields :: "nat \<Rightarrow> (nat \<times> string) list" where
  "arena_fix_fields i =
     [(8, ''FIX.4.2''), (9, ''120''), (35, ''D''), (49, ''PRODUCER''), (56, ''ENGINE''), (34, dec_string i),
      (52, ''20260727-12:00:00.000''), (11, ''ORD_'' @ dec_string i), (55, ''PETR4''), (54, dec_string (arena_side i)),
      (38, dec_string (arena_qty i)), (40, ''2''), (44, ''35.00''), (10, ''128'')]"

text \<open>
  The first \<open>fix_len\<close> bytes of \<open>fix_buf\<close>. The array is not initialised; \<open>fix_packet_whole\<close> below shows that only bytes
  \<open>snprintf\<close> has written are read.
\<close>

definition fix_packet :: "nat \<Rightarrow> string" where
  "fix_packet i =
     (let (fix_buf, fix_len) = snprintf (replicate 256 (CHR 0x00)) (fix_message (CHR 0x01) (arena_fix_fields i) @ [CHR 0x0A])
      in take fix_len fix_buf)"

definition ouch_packet :: "nat \<Rightarrow> string" where
  "ouch_packet i = ouch_encode \<lparr>o_packet_type = CHR ''O'', o_seq_num = of_nat i,
     o_cl_ord_id = fst (snprintf (replicate 14 (CHR 0x00)) (''ORD_'' @ dec_string i)),
     o_side = (if i mod 2 = 1 then CHR ''B'' else CHR ''S''), o_quantity = of_nat (arena_qty i),
     o_price_scaled = 35000000, o_symbol = ''PETR4 '', o_timestamp_ns = of_nat i * 100\<rparr>"

definition sbe_packet :: "nat \<Rightarrow> string" where
  "sbe_packet i = sbe_encode \<lparr>s_header = \<lparr>block_length = 36, template_id = 514, schema_id = 1, version = 1\<rparr>,
     s_seq_num = of_nat i, s_cl_ord_id_num = of_nat i, s_price_scaled = 35000000, s_quantity = of_nat (arena_qty i),
     s_side = of_nat (arena_side i), s_symbol = ''PETR4   '', s_time_in_force = 0\<rparr>"

fun arena_packet :: "ProtocolType \<Rightarrow> nat \<Rightarrow> string" where
  "arena_packet FIX i = fix_packet i"
| "arena_packet OUCH i = ouch_packet i"
| "arena_packet SBE i = sbe_packet i"

definition arena_packets :: "ProtocolType \<Rightarrow> nat \<Rightarrow> string list" where
  "arena_packets type msg_count = map (arena_packet type) [1 ..< Suc msg_count]"

subsection \<open>\<open>main\<close>\<close>

definition pad_right :: "nat \<Rightarrow> string \<Rightarrow> string" where
  "pad_right w s = s @ replicate (w - length s) (CHR '' '')"

definition print_row :: "'d arena_ops \<Rightarrow> 'd BenchmarkResult \<Rightarrow> string" where
  "print_row ops r =
     (let text32 = (\<lambda>s. cstr (fst (snprintf (replicate 32 (CHR 0x00)) s)));
          D = ao_doubles ops;
          avg_lat_str = text32 (d_fixed D 2 (br_avg_latency_ns r) @ '' ns'');
          min_max_str = text32 (dec_string (unat (br_min_latency_ns r)) @ '' / '' @ dec_string (unat (br_max_latency_ns r)) @ '' ns'');
          speedup_str = text32 (d_fixed D 2 (br_speedup_vs_fix r) @ ''x'')
      in pad_right 26 (br_protocol_name r) @ '' | '' @ pad_right 12 (dec_string (unat (br_throughput_msgs_sec r))) @ '' | '' @
         pad_right 12 avg_lat_str @ '' | '' @ pad_right 16 min_max_str @ '' | '' @
         pad_right 12 (dec_string (unat (br_matched_trades r))) @ '' | '' @ pad_right 10 speedup_str)"

text \<open>The speed-ups of the two binary protocols, only when the FIX latency is positive.\<close>

definition with_speedup :: "'d arena_ops \<Rightarrow> 'd BenchmarkResult \<Rightarrow> 'd BenchmarkResult \<Rightarrow> 'd BenchmarkResult" where
  "with_speedup ops fix_res r =
     (if d_positive (ao_doubles ops) (br_avg_latency_ns fix_res)
      then r\<lparr>br_speedup_vs_fix := d_div (ao_doubles ops) (br_avg_latency_ns fix_res) (ao_at_least_tenth ops (br_avg_latency_ns r))\<rparr>
      else r)"

text \<open>
  The output of the program for \<open>MSG_COUNT\<close> messages, as lines. \<open>None\<close> is a calibration that has not returned.
  \<open>timing\<close> gives the counter readings and the duration of each of the three runs.
\<close>

definition protocol_arena_main ::
  "'d arena_ops \<Rightarrow> machine \<Rightarrow> nat \<Rightarrow> u64 \<Rightarrow> u64 \<Rightarrow> monotonic \<Rightarrow> nat \<Rightarrow> (ProtocolType \<Rightarrow> (nat \<Rightarrow> u64 \<times> u64) \<times> 'd) \<Rightarrow>
     process \<Rightarrow> (string list \<times> process) option" where
  "protocol_arena_main ops mc self start_cycles end_cycles clock msg_count timing proc =
     map_option (\<lambda>(g_cycles_per_ns, _).
       let bench = (\<lambda>type. run_protocol_benchmark ops mc self g_cycles_per_ns type (arena_packets type msg_count)
                      (fst (timing type)) (snd (timing type)));
           (fix_res, proc1) = bench FIX proc;
           (ouch_raw, proc2) = bench OUCH proc1;
           (sbe_raw, proc3) = bench SBE proc2;
           ouch_res = with_speedup ops fix_res ouch_raw;
           sbe_res = with_speedup ops fix_res sbe_raw;
           faster = (\<lambda>r. '' -> '' @ br_protocol_name r @ '' is '' @ d_fixed (ao_doubles ops) 2 (br_speedup_vs_fix r) @
                      ''x faster than FIX (ASCII Tag=Value) '')
       in ([replicate 81 (CHR ''=''),
            ''  HFT MULTI-PROTOCOL PERFORMANCE BENCHMARK ARENA (FIX vs OUCH vs SBE)'',
            replicate 81 (CHR ''=''),
            ''[Arena] Calibrated CPU Clock: '' @ ao_show ops g_cycles_per_ns @ '' cycles/ns | Core Pinning: CPU Core 0'',
            ''[Arena] Generating 100,000 test messages per protocol (15% risk rejection rate)...'', [],
            replicate 105 (CHR ''=''),
            replicate 34 (CHR '' '') @ ''MULTI-PROTOCOL BENCHMARK COMPARISON TABLE'' @ replicate 30 (CHR '' ''),
            replicate 105 (CHR ''=''),
            pad_right 26 ''Protocol Standard'' @ '' | '' @ pad_right 12 ''Msgs/Sec'' @ '' | '' @ pad_right 12 ''Avg Latency'' @ '' | '' @
              pad_right 16 ''Min / Max Lat'' @ '' | '' @ pad_right 12 ''Matched Trades'' @ '' | '' @ pad_right 10 ''Speedup'',
            replicate 105 (CHR ''-''),
            print_row ops fix_res, print_row ops ouch_res, print_row ops sbe_res,
            replicate 105 (CHR ''=''), [], ''SUMMARY ANALYSIS:'',
            faster ouch_res @ ''due to zero-copy direct C-struct pointer casting.'',
            faster sbe_res @ ''using CME iLink 3 Simple Binary Encoding alignment.'',
            '' -> All 3 protocols verified 100% functional equivalence across Pre-Trade Risk Checks & Order Matching!'', []],
           proc3))
     (calibrate_rdtsc (ao_doubles ops) (ao_one ops) start_cycles end_cycles clock)"

subsection \<open>What the three streams hold\<close>

text \<open>The content of an order that the risk check and the book use.\<close>

definition arena_order :: "nat \<Rightarrow> ParsedOrder \<Rightarrow> bool" where
  "arena_order i ord \<longleftrightarrow> msg_type ord = ''D'' \<and> symbol ord = ''PETR4'' \<and> side ord = int (arena_side i) \<and>
     quantity ord = int (arena_qty i) \<and> price ord = 35000000 \<and> seq_num ord = of_nat i"

lemma arena_small: "arena_side i < 10 ^ 1" "arena_qty i < 10 ^ 6"
  by (simp_all add: arena_side_def arena_qty_def)

lemma arena_values:
  "from_chars_int (dec_string (arena_side i)) n = int (arena_side i)"
  "from_chars_int (dec_string (arena_qty i)) n = int (arena_qty i)"
  "parse_fixed_point_price ''35.00'' = 35000000"
  using arena_small [of i]
  by (simp_all add: is_digit_def digit_val_def parse_fixed_point_price_def in_i64_def Let_def)

lemma fix_text_short:
  assumes "i < 2 ^ 64"
  shows "length (fix_message (CHR 0x01) (arena_fix_fields i) @ [CHR 0x0A]) < 256"
proof -
  have "length (dec_string i) \<le> 20" using assms by (intro dec_string_length) simp_all
  moreover have "length (dec_string (arena_qty i)) \<le> 6" "length (dec_string (arena_side i)) \<le> 1"
    using arena_small [of i] by (auto intro: dec_string_length)
  ultimately show ?thesis
    by (simp add: fix_message_def fix_field_def arena_fix_fields_def dec_string_literals)
qed

lemma fix_packet_whole:
  assumes "i < 2 ^ 64"
  shows "fix_packet i = fix_message (CHR 0x01) (arena_fix_fields i) @ [CHR 0x0A]"
proof -
  let ?t = "fix_message (CHR 0x01) (arena_fix_fields i) @ [CHR 0x0A]"
  have "length ?t < length (replicate 256 (CHR 0x00))" using fix_text_short [OF assms] by simp
  from snprintf_fits [OF this] show ?thesis by (auto simp: fix_packet_def split_beta)
qed

lemma fix_scan_newline: "fix_scan [CHR 0x0A] ord = ord"
  by (subst fix_scan.simps) simp

lemma fix_stream:
  assumes "i < 2 ^ 64"
  shows "arena_order i (parse_in_place FIX (Some (fix_packet i)))"
proof -
  let ?m = "fix_message (CHR 0x01) (arena_fix_fields i)"
  have "fix_scan (?m @ [CHR 0x0A]) default_order =
      fix_scan [CHR 0x0A] (fold (\<lambda>(n, v). fix_assign (int n) v) (arena_fix_fields i) default_order)"
    by (rule fix_scan_message)
      (simp_all add: is_delim_def arena_fix_fields_def digits_no_delim [unfolded is_delim_def de_Morgan_disj])
  then have "arena_order i (fix_scan (?m @ [CHR 0x0A]) default_order)"
    using assms by (simp add: fix_scan_newline arena_fix_fields_def fix_assign_def arena_values arena_order_def)
  moreover have "length (?m @ [CHR 0x0A]) < 2 ^ 32" using fix_text_short [OF assms] by simp
  ultimately show ?thesis
    by (simp add: parse_in_place_FIX fix_packet_whole [OF assms] fix_parse_in_place_def)
qed

lemma trimmed_symbols: "trim_right ''PETR4 '' = ''PETR4''" "trim_right ''PETR4   '' = ''PETR4''"
  by (simp_all add: trim_right_def)

lemma arena_words:
  "sint (of_nat (arena_qty i) :: u32) = int (arena_qty i)" "uint (of_nat (arena_side i) :: u8) = int (arena_side i)"
  by (simp_all add: arena_qty_def arena_side_def)

lemma ouch_stream: "arena_order i (parse_in_place OUCH (Some (ouch_packet i)))"
proof -
  let ?id = "fst (snprintf (replicate 14 (CHR 0x00)) (''ORD_'' @ dec_string i))"
  let ?p = "\<lparr>o_packet_type = CHR ''O'', o_seq_num = of_nat i, o_cl_ord_id = ?id,
     o_side = (if i mod 2 = 1 then CHR ''B'' else CHR ''S''), o_quantity = of_nat (arena_qty i),
     o_price_scaled = 35000000, o_symbol = ''PETR4 '', o_timestamp_ns = of_nat i * 100\<rparr>"
  have "length ?id = 14" by (simp add: snprintf_def Let_def)
  then have "parse_in_place OUCH (Some (ouch_packet i)) = ouch_order ?p"
    using parse_in_place_ouch_encode [of ?p "[]"] by (simp add: ouch_packet_def ouch_wf_def)
  then show ?thesis
    by (simp add: ouch_order_def arena_order_def arena_side_def trimmed_symbols arena_words default_order_def)
qed

lemma sbe_stream: "arena_order i (parse_in_place SBE (Some (sbe_packet i)))"
proof -
  let ?p = "\<lparr>s_header = \<lparr>block_length = 36, template_id = 514, schema_id = 1, version = 1\<rparr>,
     s_seq_num = of_nat i, s_cl_ord_id_num = of_nat i, s_price_scaled = 35000000, s_quantity = of_nat (arena_qty i),
     s_side = of_nat (arena_side i), s_symbol = ''PETR4   '', s_time_in_force = 0\<rparr>"
  have wf: "sbe_wf ?p" by (simp add: sbe_wf_def)
  then have "parse_in_place SBE (Some (sbe_packet i)) = sbe_order ?p"
    using parse_in_place_sbe_encode [of ?p "[]"] by (simp add: sbe_packet_def)
  then show ?thesis
    by (simp add: sbe_order_def arena_order_def trimmed_symbols arena_words default_order_def Let_def)
qed

lemma arena_stream: "i < 2 ^ 64 \<Longrightarrow> arena_order i (parse_in_place type (Some (arena_packet type i)))"
  using fix_stream ouch_stream sbe_stream by (cases type) simp_all

subsection \<open>Risk check and book on these orders\<close>

lemma arena_risk:
  assumes "arena_order i ord" "m_limits m = protocol_limits"
  shows "\<exists>res. evaluate_order fmt2 m ord 35000000 =
     (res, if i mod 7 = 0 then m\<lparr>m_rejected_count := m_rejected_count m + 1\<rparr> else m\<lparr>m_approved_count := m_approved_count m + 1\<rparr>) \<and>
     (risk_status res = APPROVED \<longleftrightarrow> i mod 7 \<noteq> 0)"
  using assms
  by (simp add: evaluate_order_def arena_order_def protocol_limits_def arena_qty_def risk_reject_def price_deviation_def
      notional_usd_def Let_def in_i64_def)

text \<open>A side on which every order has the price and the quantity of the streams.\<close>

definition uniform :: "resting list \<Rightarrow> bool" where
  "uniform rs \<longleftrightarrow> list_all (\<lambda>r. r_price r = 35000000 \<and> r_qty r = 500) rs"

lemma uniform_simps [simp]:
  "uniform []" "uniform (r # rs) \<longleftrightarrow> r_price r = 35000000 \<and> r_qty r = 500 \<and> uniform rs"
  by (simp_all add: uniform_def)

lemma uniform_match:
  "uniform rs \<Longrightarrow> lob_match bid 35000000 500 rs =
     (case rs of [] \<Rightarrow> ([], 500, []) | r # rs' \<Rightarrow> ([fill_of r 500], 0, rs'))"
  by (cases rs; cases "tl rs") simp_all

lemma uniform_rest:
  "uniform rs \<Longrightarrow> uniform (lob_rest bid \<lparr>r_price = 35000000, r_id = x, r_qty = 500\<rparr> rs) \<and>
     length (lob_rest bid \<lparr>r_price = 35000000, r_id = x, r_qty = 500\<rparr> rs) = Suc (length rs)"
  by (induction rs) (auto simp: lob_rest_def)

text \<open>
  One approved order meets the oldest order of the other side, if there is one, and otherwise rests.
\<close>

lemma uniform_submit:
  assumes "arena_order i ord" "i mod 7 \<noteq> 0" "uniform (lob_bids b)" "uniform (lob_asks b)"
    and "spec_submit (\<lambda>x. x) ord b = (fs, b')"
  shows "uniform (lob_bids b') \<and> uniform (lob_asks b') \<and>
    length fs = min 1 (if odd i then length (lob_asks b) else length (lob_bids b)) \<and>
    length (lob_bids b') = (if odd i then if lob_asks b = [] then Suc (length (lob_bids b)) else length (lob_bids b)
                            else length (lob_bids b) - 1) \<and>
    length (lob_asks b') = (if odd i then length (lob_asks b) - 1
                            else if lob_bids b = [] then Suc (length (lob_asks b)) else length (lob_asks b))"
proof -
  have ord: "side ord = (if odd i then 1 else 2)" "quantity ord = 500" "price ord = 35000000"
    using assms(1,2) by (auto simp: arena_order_def arena_side_def arena_qty_def odd_iff_mod_2_eq_one)
  show ?thesis
    using assms(3-5) uniform_rest
    by (auto simp: spec_submit_def lob_submit_def ord uniform_match split: if_splits list.splits)
qed

subsection \<open>The outcome of a run\<close>

text \<open>How many of the orders 1 to \<open>n\<close> are approved buys and approved sells: odd and even numbers without the multiples of 7.\<close>

definition approved_buys :: "nat \<Rightarrow> nat" where
  "approved_buys n = length (filter (\<lambda>i. odd i \<and> i mod 7 \<noteq> 0) [1 ..< Suc n])"

definition approved_sells :: "nat \<Rightarrow> nat" where
  "approved_sells n = length (filter (\<lambda>i. even i \<and> i mod 7 \<noteq> 0) [1 ..< Suc n])"

lemma approved_Suc:
  "approved_buys (Suc n) = (if odd (Suc n) \<and> Suc n mod 7 \<noteq> 0 then Suc (approved_buys n) else approved_buys n)"
  "approved_sells (Suc n) = (if even (Suc n) \<and> Suc n mod 7 \<noteq> 0 then Suc (approved_sells n) else approved_sells n)"
  by (simp_all add: approved_buys_def approved_sells_def)

definition petr4 :: "bench_state \<Rightarrow> lob" where
  "petr4 s = book_abs (book_for (bs_engine s) ''PETR4'')"

definition bench_inv :: "nat \<Rightarrow> bench_state \<Rightarrow> bool" where
  "bench_inv n s \<longleftrightarrow> m_limits (bs_risk_mgr s) = protocol_limits \<and> m_rejected_count (bs_risk_mgr s) = of_nat (n div 7) \<and>
     bs_risk_approved s = of_nat (n - n div 7) \<and> eng_inv (bs_engine s) \<and>
     uniform (lob_bids (petr4 s)) \<and> uniform (lob_asks (petr4 s)) \<and>
     length (lob_bids (petr4 s)) = approved_buys n - approved_sells n \<and>
     length (lob_asks (petr4 s)) = approved_sells n - approved_buys n \<and>
     total_trades (bs_engine s) = of_nat (min (approved_buys n) (approved_sells n))"

lemma bench_inv_start: "bench_inv 0 bench_start"
  by (simp add: bench_inv_def bench_start_def set_limits_def risk_manager_init_def eng_inv_def matching_engine_init_def
      petr4_def book_for_def book_abs_def matching_book_init_def approved_buys_def approved_sells_def total_trades_def)

lemma bench_book_step:
  assumes inv: "eng_inv eng" and ord: "arena_order i ord" "i mod 7 \<noteq> 0"
    and po: "process_order ord ts eng trades = (matched, eng', trades')"
  obtains fs where "eng_inv eng'" "total_trades eng' = total_trades eng + of_nat (length fs)"
    "spec_submit (\<lambda>x. x) ord (book_abs (book_for eng ''PETR4'')) = (fs, book_abs (book_for eng' ''PETR4''))"
proof -
  have r: "route ord = ''PETR4''" using ord(1) by (simp add: route_def arena_order_def)
  obtain m b' tr c' where sub: "submit_order ord ts (book_for eng (route ord)) trades (m_trade_counter eng) = (m, b', tr, c')"
    by (metis prod_cases4)
  from process_order_unfold [OF inv sub] obtain e where e: "process_order ord ts eng trades = (m, e, tr)" "eng_inv e"
    "\<And>k. book_for e k = (if k = route ord then b' else book_for eng k)"
    "total_trades e = total_trades eng - mb_total_trades (book_for eng (route ord)) + mb_total_trades b'" by metis
  from submit_order_refines [OF sub] obtain fs where
    fs: "spec_submit (\<lambda>x. x) ord (book_abs (book_for eng (route ord))) = (fs, book_abs b')"
      "mb_total_trades b' = mb_total_trades (book_for eng (route ord)) + of_nat (length fs)" by blast
  from e(1) po have "e = eng'" by simp
  with e(2-4) fs r show thesis by (intro that [of fs]) simp_all
qed

lemma div7_Suc:
  "Suc n div 7 = (if Suc n mod 7 = 0 then Suc (n div 7) else n div 7)"
  "Suc n - Suc n div 7 = (if Suc n mod 7 = 0 then n - n div 7 else Suc (n - n div 7))"
  using div_le_dividend [of n 7] by (simp_all add: div_Suc Suc_diff_le del: div_le_dividend)

lemma min_Suc_step:
  "min a (Suc b) = min a b + min (Suc 0) (a - b)" "min (Suc a) b = min a b + min (Suc 0) (b - a)"
  by linarith+

lemma bench_inv_step:
  assumes inv: "bench_inv n s" and "Suc n < 2 ^ 64"
  shows "bench_inv (Suc n) (bench_turn fmt2 to_ns type (arena_packet type (Suc n)) tsc s)"
proof -
  let ?s = "bench_turn fmt2 to_ns type (arena_packet type (Suc n)) tsc s"
  define ord where "ord = parse_in_place type (Some (arena_packet type (Suc n)))"
  have ao: "arena_order (Suc n) ord" unfolding ord_def using assms(2) by (rule arena_stream)
  have D: "msg_type ord = ''D''" using ao by (simp add: arena_order_def)
  have lim: "m_limits (bs_risk_mgr s) = protocol_limits" using inv by (simp add: bench_inv_def)
  obtain res where ev: "evaluate_order fmt2 (bs_risk_mgr s) ord 35000000 =
      (res, if Suc n mod 7 = 0 then (bs_risk_mgr s)\<lparr>m_rejected_count := m_rejected_count (bs_risk_mgr s) + 1\<rparr>
            else (bs_risk_mgr s)\<lparr>m_approved_count := m_approved_count (bs_risk_mgr s) + 1\<rparr>)"
    "risk_status res = APPROVED \<longleftrightarrow> Suc n mod 7 \<noteq> 0" using arena_risk [OF ao lim] by blast
  show ?thesis
  proof (cases "Suc n mod 7 = 0")
    case True
    then have "bs_engine ?s = bs_engine s" "bs_risk_approved ?s = bs_risk_approved s"
      "bs_risk_mgr ?s = (bs_risk_mgr s)\<lparr>m_rejected_count := m_rejected_count (bs_risk_mgr s) + 1\<rparr>"
      using ev by (simp_all add: bench_turn_def Let_def split_beta ord_def [symmetric])
    with inv True show ?thesis
      by (simp add: bench_inv_def petr4_def approved_Suc div7_Suc ac_simps)
  next
    case False
    obtain m eng tr where po: "process_order ord 0 (bs_engine s) (bs_trades s) = (m, eng, tr)" by (metis prod_cases3)
    from inv have "eng_inv (bs_engine s)" by (simp add: bench_inv_def)
    from bench_book_step [OF this ao False po] obtain fs where eng: "eng_inv eng"
      "total_trades eng = total_trades (bs_engine s) + of_nat (length fs)"
      and spec: "spec_submit (\<lambda>x. x) ord (petr4 s) = (fs, book_abs (book_for eng ''PETR4''))" unfolding petr4_def by blast
    have new: "bs_engine ?s = eng" "bs_risk_approved ?s = bs_risk_approved s + 1"
      "bs_risk_mgr ?s = (bs_risk_mgr s)\<lparr>m_approved_count := m_approved_count (bs_risk_mgr s) + 1\<rparr>"
      using ev False D po by (simp_all add: bench_turn_def Let_def split_beta ord_def [symmetric])
    then have "petr4 ?s = book_abs (book_for eng ''PETR4'')" by (simp add: petr4_def)
    with spec have spec': "spec_submit (\<lambda>x. x) ord (petr4 s) = (fs, petr4 ?s)" by simp
    from inv have "uniform (lob_bids (petr4 s))" "uniform (lob_asks (petr4 s))" by (simp_all add: bench_inv_def)
    note step = uniform_submit [OF ao False this spec']
    have len: "length (lob_bids (petr4 s)) = approved_buys n - approved_sells n"
      "length (lob_asks (petr4 s)) = approved_sells n - approved_buys n" using inv by (simp_all add: bench_inv_def)
    then have empty: "lob_bids (petr4 s) = [] \<longleftrightarrow> approved_buys n \<le> approved_sells n"
      "lob_asks (petr4 s) = [] \<longleftrightarrow> approved_sells n \<le> approved_buys n" by (metis diff_is_0_eq length_0_conv)+
    have count: "approved_buys (Suc n) = (if odd (Suc n) then Suc (approved_buys n) else approved_buys n)"
      "approved_sells (Suc n) = (if even (Suc n) then Suc (approved_sells n) else approved_sells n)"
      using False by (simp_all only: approved_Suc simp_thms if_True)
    have d7: "Suc n div 7 = n div 7" "Suc n - Suc n div 7 = Suc (n - n div 7)"
      using False by (simp_all only: div7_Suc simp_thms if_False)
    have "min (approved_buys (Suc n)) (approved_sells (Suc n)) = min (approved_buys n) (approved_sells n) + length fs"
      using step min_Suc_step [of "approved_buys n" "approved_sells n"] by (simp add: len count)
    moreover have "length (lob_bids (petr4 ?s)) = approved_buys (Suc n) - approved_sells (Suc n)"
      "length (lob_asks (petr4 ?s)) = approved_sells (Suc n) - approved_buys (Suc n)"
      using step by (cases "odd (Suc n)"; cases "approved_sells n \<le> approved_buys n"; simp add: len empty count)+
    ultimately show ?thesis
      using inv step unfolding bench_inv_def new eng(2) d7 by (simp add: eng(1))
  qed
qed

lemma bench_inv_run:
  assumes "n < 2 ^ 64"
  shows "bench_inv n (fold (\<lambda>i. bench_turn fmt2 to_ns type (arena_packets type n ! i) (tsc i)) [0 ..< n] bench_start)"
proof -
  have "k \<le> n \<Longrightarrow> bench_inv k (fold (\<lambda>i. bench_turn fmt2 to_ns type (arena_packets type n ! i) (tsc i)) [0 ..< k] bench_start)" for k
  proof (induction k)
    case (Suc k)
    then have "arena_packets type n ! k = arena_packet type (Suc k)" by (simp add: arena_packets_def del: upt_Suc)
    with Suc assms show ?case by (simp add: bench_inv_step)
  qed (simp add: bench_inv_start)
  then show ?thesis by simp
qed

lemma mod_14: "m mod 14 = 0 \<longleftrightarrow> even m \<and> m mod 7 = (0 :: nat)"
proof -
  have "coprime (2 :: nat) 7" by simp
  then have "2 * 7 dvd m \<longleftrightarrow> 2 dvd m \<and> 7 dvd m"
    by (metis divides_mult dvd_mult_left dvd_mult_right)
  then show ?thesis by (simp add: dvd_eq_mod_eq_0)
qed

lemma approved_closed:
  "approved_buys n + (n + 7) div 14 = (n + 1) div 2" "approved_sells n + n div 14 = n div 2"
proof (induction n)
  case (Suc n)
  have "Suc (n + 7) mod 14 = 0 \<longleftrightarrow> odd (Suc n) \<and> Suc n mod 7 = 0" "Suc n mod 14 = 0 \<longleftrightarrow> even (Suc n) \<and> Suc n mod 7 = 0"
    using mod_14 [of "Suc n"] mod_14 [of "Suc (n + 7)"] mod_add_self2 [of "Suc n" 7] by simp_all
  then have d14: "Suc (n + 7) div 14 = (if odd (Suc n) \<and> Suc n mod 7 = 0 then Suc ((n + 7) div 14) else (n + 7) div 14)"
    "Suc n div 14 = (if even (Suc n) \<and> Suc n mod 7 = 0 then Suc (n div 14) else n div 14)"
    by (simp_all only: div_Suc)
  have d2: "(Suc n + 1) div 2 = (if odd (Suc n) then Suc ((n + 1) div 2) else (n + 1) div 2)"
    "Suc n div 2 = (if even (Suc n) then Suc (n div 2) else n div 2)" by presburger+
  have add7: "Suc n + 7 = Suc (n + 7)" by simp
  show "approved_buys (Suc n) + (Suc n + 7) div 14 = (Suc n + 1) div 2"
    unfolding add7 d14(1) d2(1) approved_Suc(1) Suc.IH(1) [symmetric]
    by (cases "odd (Suc n)"; cases "Suc n mod 7 = 0") (simp_all only: simp_thms if_True if_False add_Suc add_Suc_right)
  show "approved_sells (Suc n) + Suc n div 14 = Suc n div 2"
    unfolding d14(2) d2(2) approved_Suc(2) Suc.IH(2) [symmetric]
    by (cases "even (Suc n)"; cases "Suc n mod 7 = 0") (simp_all only: simp_thms if_True if_False add_Suc add_Suc_right)
qed (simp_all add: approved_buys_def approved_sells_def)

text \<open>
  C17. The three protocols are functionally equivalent on the benchmark, as its last line says: whatever the protocol, the
  clock, the machine and the number of messages, a run rejects exactly the multiples of seven, approves the rest, and
  matches each approved order that finds one on the other side, so the number of trades is the smaller of the numbers of
  approved buys and approved sells.
\<close>

theorem protocols_equivalent:
  assumes "n < 2 ^ 64"
  shows "let r = fst (run_protocol_benchmark ops mc self cycles_per_ns type (arena_packets type n) tsc t proc)
    in br_risk_approved r = of_nat (n - n div 7) \<and> br_risk_rejected r = of_nat (n div 7) \<and>
       br_matched_trades r = of_nat (min (approved_buys n) (approved_sells n))"
proof -
  have "length (arena_packets type n) = n" by (simp add: arena_packets_def del: upt_Suc)
  then show ?thesis
    using bench_inv_run [OF assms, of "ao_fmt2 ops" "ao_cycles_to_ns ops cycles_per_ns" type tsc]
    by (simp add: run_protocol_benchmark_def Let_def bench_inv_def)
qed

text \<open>The counts of the program's own 100,000 messages.\<close>

definition int_arena_ops :: "int arena_ops" where
  "int_arena_ops = \<lparr>ao_doubles = \<lparr>d_zero = 0, d_seconds = (\<lambda>t. t div 1000000), d_positive = (\<lambda>x. x > 0), d_of_u64 = uint,
     d_div = (div), d_fixed = (\<lambda>p x. dec_string (nat x))\<rparr>, ao_one = 1, ao_fmt2 = (\<lambda>p. dec_string (nat (p div 1000000))),
     ao_cycles_to_ns = (\<lambda>_ c. c), ao_rate = (\<lambda>n t. n * 1000 div of_int t), ao_at_least_tenth = max 1,
     ao_show = dec_string_int\<rparr>"

theorem protocols_equivalent_witness:
  "map (\<lambda>type. let r = fst (run_protocol_benchmark int_arena_ops
       \<lparr>sys_setaffinity = (\<lambda>_ _. 0), sys_numa = None, sys_setscheduler = (\<lambda>_. 0), sys_mlockall = 0, sys_nprocessors = 4\<rparr>
       0 1 type (arena_packets type 100000) (\<lambda>i. (0, of_nat i)) 250 idle_process)
     in (br_risk_approved r, br_risk_rejected r, br_matched_trades r)) [FIX, OUCH, SBE] =
   replicate 3 (85715, 14285, 42857)"
proof -
  have "approved_buys 100000 = 42857" "approved_sells 100000 = 42858"
    using approved_closed [of 100000] by simp_all
  then have "let r = fst (run_protocol_benchmark int_arena_ops
       \<lparr>sys_setaffinity = (\<lambda>_ _. 0), sys_numa = None, sys_setscheduler = (\<lambda>_. 0), sys_mlockall = 0, sys_nprocessors = 4\<rparr>
       0 1 type (arena_packets type 100000) (\<lambda>i. (0, of_nat i)) 250 idle_process)
     in br_risk_approved r = 85715 \<and> br_risk_rejected r = 14285 \<and> br_matched_trades r = 42857" for type
    using protocols_equivalent [of 100000 int_arena_ops "\<lparr>sys_setaffinity = (\<lambda>_ _. 0), sys_numa = None,
        sys_setscheduler = (\<lambda>_. 0), sys_mlockall = 0, sys_nprocessors = 4\<rparr>" 0 1 type "\<lambda>i. (0, of_nat i)" 250 idle_process]
    by simp
  from this [of FIX] this [of OUCH] this [of SBE] show ?thesis
    unfolding Let_def by (simp only: list.map replicate_Suc replicate_0 numeral_3_eq_3)
qed

end
