(* ===== verification/Producer_Network.thy ===== *)
theory Producer_Network
  imports Fix_Producer System_Setup
begin

text \<open>
  The whole of \<open>UdpFixProducer::run\<close> in network mode (\<open>src/networking/FixProducer.cpp\<close>): pinning, the socket and its
  options, the target address, the sending loops and the log lines. The results of the system calls are inputs; so is
  \<open>inet_pton\<close>. The options that were set are kept as state of the socket. Pauses have no effect here.
\<close>

record sock_answers =
  sa_socket :: int
  sa_sndbuf :: int
  sa_ttl :: int
  sa_bind_device :: int
  sa_ifaddr :: "u32 option"
  sa_multicast_if :: int
  sa_inet_pton :: "string \<Rightarrow> u32 option"

record udp_socket =
  us_fd :: int
  us_sndbuf :: "nat option"
  us_ttl :: "nat option"
  us_device :: "string option"
  us_multicast_if :: "u32 option"
  us_closed :: bool

datatype producer_log = P_Info string | P_Warn string | P_Error string

record sockaddr_in =
  sin_port :: u16
  sin_addr :: u32

text \<open>\<open>htons\<close> on a little-endian machine exchanges the two bytes.\<close>

definition htons :: "u16 \<Rightarrow> u16" where
  "htons p = or (push_bit 8 p) (drop_bit 8 p)"

definition target_address :: "sock_answers \<Rightarrow> string \<Rightarrow> u16 \<Rightarrow> sockaddr_in" where
  "target_address sa target_ip target_port =
     \<lparr>sin_port = htons target_port, sin_addr = (case sa_inet_pton sa target_ip of None \<Rightarrow> 0 | Some a \<Rightarrow> a)\<rparr>"

text \<open>An option takes effect when its call succeeds; the results of the first and the last one are not looked at.\<close>

definition configure_socket :: "sock_answers \<Rightarrow> string \<Rightarrow> udp_socket \<Rightarrow> producer_log list \<times> udp_socket" where
  "configure_socket sa bind_iface s0 =
     (let s1 = (if sa_sndbuf sa < 0 then s0 else s0\<lparr>us_sndbuf := Some (32 * 1024 * 1024)\<rparr>);
          (log1, s2) = (if sa_ttl sa < 0
                        then ([P_Warn ''[FixProducer] Warning: Failed to set IP_MULTICAST_TTL option.''], s1)
                        else ([], s1\<lparr>us_ttl := Some 1\<rparr>))
      in if bind_iface \<noteq> []
         then let (log2, s3) = (if sa_bind_device sa < 0
                    then ([P_Warn (''[FixProducer] Warning: Failed to bind UDP producer to device '' @ [CHR 0x27] @ bind_iface @
                            [CHR 0x27] @ ''. Ensure root/sudo privileges.'')], s2)
                    else ([], s2\<lparr>us_device := Some bind_iface\<rparr>));
                  s4 = (case sa_ifaddr sa of
                          Some a \<Rightarrow> if sa_multicast_if sa < 0 then s3 else s3\<lparr>us_multicast_if := Some a\<rparr>
                        | None \<Rightarrow> s3)
              in (log1 @ log2, s4)
         else (log1, s2))"

record producer_result =
  pr_log :: "producer_log list"
  pr_datagrams :: "(sockaddr_in \<times> string) list"
  pr_socket :: "udp_socket option"
  pr_producer_done :: bool
  pr_process :: process

definition producer_network_run ::
  "machine \<Rightarrow> nat \<Rightarrow> sock_answers \<Rightarrow> (nat \<Rightarrow> bool) \<Rightarrow> (nat \<Rightarrow> int) \<Rightarrow> string \<Rightarrow> string \<Rightarrow> u16 \<Rightarrow> nat \<Rightarrow> string list \<Rightarrow> int \<Rightarrow>
     process \<Rightarrow> producer_result" where
  "producer_network_run mc self sa running sendto iface target_ip target_port total_messages loaded cpu_pin proc =
     (let (log0, proc') = (if cpu_pin \<ge> 0
            then ([P_Info (''[FixProducer] Thread pinned to CPU core '' @ dec_string_int cpu_pin)],
                  snd (pin_thread_to_cpu mc self cpu_pin proc))
            else ([], proc))
      in if sa_socket sa < 0
         then \<lparr>pr_log = log0 @ [P_Error ''[FixProducer] Fatal Error: socket(AF_INET, SOCK_DGRAM) failed.''], pr_datagrams = [],
               pr_socket = None, pr_producer_done = True, pr_process = proc'\<rparr>
         else let (log1, sock) = configure_socket sa iface \<lparr>us_fd = sa_socket sa, us_sndbuf = None, us_ttl = None,
                                   us_device = None, us_multicast_if = None, us_closed = False\<rparr>;
                  target = target_address sa target_ip target_port;
                  destination = target_ip @ '':'' @ dec_string (unat target_port) @ ''...'';
                  (log2, sent) =
                    (if loaded \<noteq> []
                     then let (sent, warnings, injected) = send_loaded running sendto 0 loaded
                          in ([P_Info (''[FixProducer] Starting injection of '' @ dec_string (length loaded) @
                                 '' loaded trade messages from queue to '' @ destination)] @ map P_Warn warnings @
                              [P_Info (''[FixProducer] Queue injection complete ('' @ dec_string injected @
                                 '' injected). Producer thread terminating.'')], sent)
                     else let (sent, warnings) = send_synthetic running sendto total_messages 1
                          in ([P_Info (''[FixProducer] Starting injection of '' @ dec_string total_messages @
                                 '' synthetic FIX messages to '' @ destination)] @ map P_Warn warnings @
                              [P_Info ''[FixProducer] Synthetic injection completed successfully.''], sent))
              in \<lparr>pr_log = log0 @ log1 @ log2, pr_datagrams = map (Pair target) sent,
                  pr_socket = Some (sock\<lparr>us_closed := True\<rparr>), pr_producer_done = True, pr_process = proc'\<rparr>)"

subsection \<open>What is sent\<close>

lemma htons_bytes: "unat (htons p) = (unat p mod 256) * 256 + unat p div 256"
proof -
  have "and (push_bit 8 p) (drop_bit 8 p) = 0"
    by (rule bit_eqI) (auto simp: bit_and_iff bit_push_bit_iff bit_drop_bit_eq dest: bit_imp_le_length)
  then have "htons p = push_bit 8 p + drop_bit 8 p" by (simp add: htons_def disjunctive_add_eq_or)
  moreover have "unat (drop_bit 8 p) = unat p div 256" by (simp add: drop_bit_eq_div unat_div)
  moreover have "unat (push_bit 8 p) = (unat p mod 256) * 256"
    by (simp add: push_bit_eq_mult unat_word_ariths(2) mult_mod_left)
  moreover have "unat p div 256 < 256"
  proof -
    have "unat p < 2 ^ LENGTH(16)" by (rule unsigned_less)
    then show ?thesis by (simp add: less_mult_imp_div_less)
  qed
  moreover have "unat p mod 256 \<le> 255" by simp
  ultimately show ?thesis by (simp add: unat_word_ariths(1))
qed

text \<open>
  The network producer always finishes its duties: whatever the system calls answer, it raises \<open>g_producer_done\<close> and leaves
  no socket open; it sends something only when the socket could be opened, and then, as long as the flag stays up, exactly
  the loaded messages in order (or the synthetic ones when nothing is loaded), each to the configured port; failed options
  and failed \<open>sendto\<close> calls only add warnings.
\<close>

theorem producer_network_complete:
  assumes "\<And>k. running k" and r_def: "r = producer_network_run mc self sa running sendto iface ip port n loaded cpu proc"
  shows "pr_producer_done r \<and> (case pr_socket r of None \<Rightarrow> sa_socket sa < 0 | Some s \<Rightarrow> us_closed s \<and> us_fd s = sa_socket sa) \<and>
    map snd (pr_datagrams r) = (if sa_socket sa < 0 then [] else if loaded \<noteq> [] then loaded else map synthetic_message [1 ..< Suc n]) \<and>
    (\<forall>d \<in> set (pr_datagrams r). unat (sin_port (fst d)) = (unat port mod 256) * 256 + unat port div 256)"
proof -
  have fd: "us_fd (snd (configure_socket sa iface s)) = us_fd s" for s
    by (simp add: configure_socket_def Let_def split: option.split)
  obtain log1 sock where c: "configure_socket sa iface \<lparr>us_fd = sa_socket sa, us_sndbuf = None, us_ttl = None,
      us_device = None, us_multicast_if = None, us_closed = False\<rparr> = (log1, sock)" by fastforce
  have "us_fd sock = sa_socket sa" using fd [of "\<lparr>us_fd = sa_socket sa, us_sndbuf = None, us_ttl = None,
      us_device = None, us_multicast_if = None, us_closed = False\<rparr>"] c by simp
  moreover have "fst (send_loaded running sendto 0 loaded) = loaded"
    "fst (send_synthetic running sendto n 1) = map synthetic_message [1 ..< Suc n]"
    using send_loaded_all [of running] send_synthetic_all [of running] assms(1) by blast+
  ultimately show ?thesis
    unfolding r_def producer_network_run_def
    by (auto simp: c Let_def split_beta comp_def target_address_def htons_bytes simp del: upt_Suc)
qed

end
