(* ===== verification/Engine_Run.thy ===== *)
theory Engine_Run
  imports Fix_Producer Order_Book_Engine Performance_Monitor
begin

text \<open>
  The threads that \<open>EngineLauncher::run\<close> starts and joins, with the three global flags, as actions that
  interleave in any order: the producer in direct queue mode (the steps of theory \<open>Fix_Producer\<close>), the
  receiver reduced to the packets it will capture and the flags it reads and sets, the worker loop with
  each flag and queue access a step of its own, the monitor, the main thread between its joins, and the
  signal handler. The worker's packet handler is a parameter, instantiated by \<open>engine_handle\<close>.
\<close>

datatype worker_pc = W_Top | W_Top_Empty | W_Pop | W_Check | W_Check_Empty | W_Exit

text \<open>
  The three receiving loops: the mapped ring and the UDP fallback of \<open>RxRingConsumer::run\<close>, and \<open>AfXdpRxConsumer::run\<close>.
  They differ in how often they may find nothing, once the producer is done, before they leave.
\<close>

datatype rx_kind = Ring_Loop | Udp_Loop | Xdp_Loop

definition idle_limit :: "rx_kind \<Rightarrow> nat" where
  "idle_limit k = (case k of Ring_Loop \<Rightarrow> 100 | Udp_Loop \<Rightarrow> 2000 | Xdp_Loop \<Rightarrow> 200)"

datatype rx_pc =
    R_Setup | R_Top | R_Recv | R_Push FixMessagePacket | R_Push_Running FixMessagePacket | R_Check | R_Leave | R_Ended

datatype main_pc =
    M_Join_Producer | M_Consumer_Done | M_Join_Consumer | M_Join_Worker | M_Stop | M_Join_Monitor | M_Report

record 's engine_threads =
  et_producer :: inject_state
  et_rx_kind :: rx_kind
  et_rx_pc :: rx_pc
  et_rx_pending :: "FixMessagePacket list"
  et_rx_pushed :: "FixMessagePacket list"
  et_rx_empty_checks :: nat
  et_worker_pc :: worker_pc
  et_worker :: 's
  et_monitor_ended :: bool
  et_main :: main_pc
  et_running :: bool
  et_consumer_done :: bool

text \<open>
  The threads are started: \<open>msgs\<close> are the producer's messages, \<open>pending\<close> the packets that will reach the receiver, which
  is started in direct queue mode too.
\<close>

definition threads_start ::
  "rx_kind \<Rightarrow> string list \<Rightarrow> FixMessagePacket list \<Rightarrow> FixMessagePacket list \<Rightarrow> 's \<Rightarrow> 's engine_threads" where
  "threads_start kind msgs buf pending w = \<lparr>et_producer = inject_init msgs buf, et_rx_kind = kind, et_rx_pc = R_Setup,
     et_rx_pending = pending, et_rx_pushed = [], et_rx_empty_checks = 0, et_worker_pc = W_Top, et_worker = w,
     et_monitor_ended = False, et_main = M_Join_Producer, et_running = True, et_consumer_done = False\<rparr>"

abbreviation et_rx_ended :: "'s engine_threads \<Rightarrow> bool" where
  "et_rx_ended s \<equiv> et_rx_pc s = R_Ended"

abbreviation et_queue :: "'s engine_threads \<Rightarrow> FixMessagePacket spsc" where
  "et_queue s \<equiv> ij_queue (et_producer s)"

abbreviation et_handled :: "'s engine_threads \<Rightarrow> FixMessagePacket list" where
  "et_handled s \<equiv> ij_popped (et_producer s)"

definition producer_act :: "nat \<Rightarrow> u64 \<Rightarrow> 's engine_threads \<Rightarrow> 's engine_threads" where
  "producer_act cap ts s = s\<lparr>et_producer := inject_step cap (et_running s) ts (et_producer s)\<rparr>"

text \<open>
  The receiver, packet by packet, each access to a flag or to the queue a step of its own: it reads \<open>g_running\<close>, takes the
  next pending packet and pushes it, reading \<open>g_running\<close> after every failed attempt, or finds nothing; then, when the
  producer is done, it counts the check and leaves at the limit of its loop. The ring and AF_XDP loops start the count anew
  when there is a packet, the UDP loop does not. Behind the loop it sets \<open>g_consumer_done\<close>. The bytes of the packets and
  the frames the filter drops are the subject of the receiver theories. A failed set-up takes \<open>g_running\<close> down and returns.
\<close>

definition receiver_act :: "nat \<Rightarrow> 's engine_threads \<Rightarrow> 's engine_threads" where
  "receiver_act cap s =
     (case et_rx_pc s of
        R_Setup \<Rightarrow> s\<lparr>et_rx_pc := R_Top\<rparr>
      | R_Top \<Rightarrow> s\<lparr>et_rx_pc := (if et_running s then R_Recv else R_Leave)\<rparr>
      | R_Recv \<Rightarrow>
          (case et_rx_pending s of
             [] \<Rightarrow> s\<lparr>et_rx_pc := R_Check\<rparr>
           | p # ps \<Rightarrow> s\<lparr>et_rx_pending := ps, et_rx_pc := R_Push p,
               et_rx_empty_checks := (if et_rx_kind s = Udp_Loop then et_rx_empty_checks s else 0)\<rparr>)
      | R_Push p \<Rightarrow>
          (let (ok, q) = spsc_push cap p (et_queue s);
               s1 = s\<lparr>et_producer := (et_producer s)\<lparr>ij_queue := q\<rparr>\<rparr>
           in if ok then s1\<lparr>et_rx_pushed := et_rx_pushed s @ [p], et_rx_pc := R_Top\<rparr>
              else s1\<lparr>et_rx_pc := R_Push_Running p\<rparr>)
      | R_Push_Running p \<Rightarrow> s\<lparr>et_rx_pc := (if et_running s then R_Push p else R_Top)\<rparr>
      | R_Check \<Rightarrow>
          if ij_producer_done (et_producer s)
          then s\<lparr>et_rx_empty_checks := et_rx_empty_checks s + 1,
                 et_rx_pc := (if et_rx_empty_checks s + 1 \<ge> idle_limit (et_rx_kind s) then R_Leave else R_Top)\<rparr>
          else s\<lparr>et_rx_pc := R_Top\<rparr>
      | R_Leave \<Rightarrow> s\<lparr>et_consumer_done := True, et_rx_pc := R_Ended\<rparr>
      | R_Ended \<Rightarrow> s)"

definition receiver_fails :: "'s engine_threads \<Rightarrow> 's engine_threads" where
  "receiver_fails s = (if et_rx_pc s = R_Setup then s\<lparr>et_running := False, et_rx_pc := R_Ended\<rparr> else s)"

text \<open>One step of \<open>HftOrderBookEngine::run\<close>.\<close>

definition worker_act :: "nat \<Rightarrow> (FixMessagePacket \<Rightarrow> 's \<Rightarrow> 's) \<Rightarrow> 's engine_threads \<Rightarrow> 's engine_threads" where
  "worker_act cap handle s =
     (case et_worker_pc s of
        W_Top \<Rightarrow> s\<lparr>et_worker_pc := (if et_running s then W_Pop else W_Top_Empty)\<rparr>
      | W_Top_Empty \<Rightarrow> s\<lparr>et_worker_pc := (if spsc_empty (et_queue s) then W_Exit else W_Pop)\<rparr>
      | W_Pop \<Rightarrow>
          (let (batch, q) = spsc_pop_batch cap 32 (et_queue s);
               s1 = s\<lparr>et_producer := (et_producer s)\<lparr>ij_queue := q, ij_popped := et_handled s @ batch\<rparr>\<rparr>
           in if batch = [] then s1\<lparr>et_worker_pc := W_Check\<rparr>
              else s1\<lparr>et_worker := fold handle batch (et_worker s), et_worker_pc := W_Top\<rparr>)
      | W_Check \<Rightarrow> s\<lparr>et_worker_pc := (if et_consumer_done s then W_Check_Empty else W_Top)\<rparr>
      | W_Check_Empty \<Rightarrow> s\<lparr>et_worker_pc := (if spsc_empty (et_queue s) then W_Exit else W_Top)\<rparr>
      | W_Exit \<Rightarrow> s)"

definition monitor_act :: "'s engine_threads \<Rightarrow> 's engine_threads" where
  "monitor_act s = (if et_running s then s else s\<lparr>et_monitor_ended := True\<rparr>)"

text \<open>The main thread: each join waits for its thread.\<close>

definition main_act :: "'s engine_threads \<Rightarrow> 's engine_threads" where
  "main_act s =
     (case et_main s of
        M_Join_Producer \<Rightarrow> if ij_pc (et_producer s) = J_Done then s\<lparr>et_main := M_Consumer_Done\<rparr> else s
      | M_Consumer_Done \<Rightarrow> s\<lparr>et_consumer_done := True, et_main := M_Join_Consumer\<rparr>
      | M_Join_Consumer \<Rightarrow> if et_rx_ended s then s\<lparr>et_main := M_Join_Worker\<rparr> else s
      | M_Join_Worker \<Rightarrow> if et_worker_pc s = W_Exit then s\<lparr>et_main := M_Stop\<rparr> else s
      | M_Stop \<Rightarrow> s\<lparr>et_running := False, et_main := M_Join_Monitor\<rparr>
      | M_Join_Monitor \<Rightarrow> if et_monitor_ended s then s\<lparr>et_main := M_Report\<rparr> else s
      | M_Report \<Rightarrow> s)"

definition handle_signal :: "'s engine_threads \<Rightarrow> 's engine_threads" where
  "handle_signal s = s\<lparr>et_running := False\<rparr>"

datatype thread_action =
    Producer u64 | Receiver | Receiver_Fails | Worker | Monitor | Main | Signal

fun thread_act :: "nat \<Rightarrow> (FixMessagePacket \<Rightarrow> 's \<Rightarrow> 's) \<Rightarrow> thread_action \<Rightarrow> 's engine_threads \<Rightarrow> 's engine_threads" where
  "thread_act cap handle (Producer ts) s = producer_act cap ts s"
| "thread_act cap handle Receiver s = receiver_act cap s"
| "thread_act cap handle Receiver_Fails s = receiver_fails s"
| "thread_act cap handle Worker s = worker_act cap handle s"
| "thread_act cap handle Monitor s = monitor_act s"
| "thread_act cap handle Main s = main_act s"
| "thread_act cap handle Signal s = handle_signal s"

definition threads_run ::
  "nat \<Rightarrow> (FixMessagePacket \<Rightarrow> 's \<Rightarrow> 's) \<Rightarrow> thread_action list \<Rightarrow> 's engine_threads \<Rightarrow> 's engine_threads" where
  "threads_run cap handle acts s = fold (thread_act cap handle) acts s"

text \<open>Runs without a stop from outside.\<close>

definition undisturbed :: "thread_action list \<Rightarrow> bool" where
  "undisturbed acts \<longleftrightarrow> Receiver_Fails \<notin> set acts \<and> Signal \<notin> set acts"

subsection \<open>The invariant of direct queue mode\<close>

definition main_after :: "main_pc \<Rightarrow> nat" where
  "main_after pc = (case pc of M_Join_Producer \<Rightarrow> 0 | M_Consumer_Done \<Rightarrow> 1 | M_Join_Consumer \<Rightarrow> 2
     | M_Join_Worker \<Rightarrow> 3 | M_Stop \<Rightarrow> 4 | M_Join_Monitor \<Rightarrow> 5 | M_Report \<Rightarrow> 6)"

text \<open>Without traffic the receiver never holds a packet, and it leaves no later than at its limit.\<close>

definition rx_quiet :: "'s engine_threads \<Rightarrow> bool" where
  "rx_quiet s \<longleftrightarrow> et_rx_pending s = [] \<and> (\<forall>p. et_rx_pc s \<noteq> R_Push p \<and> et_rx_pc s \<noteq> R_Push_Running p) \<and>
     (et_rx_pc s \<in> {R_Leave, R_Ended} \<or> et_rx_empty_checks s < idle_limit (et_rx_kind s))"

lemma rx_quiet_start: "rx_quiet (threads_start kind msgs buf [] w)"
  by (cases kind) (simp_all add: rx_quiet_def threads_start_def idle_limit_def)

lemma rx_quiet_frame [simp]:
  "rx_quiet (s\<lparr>et_producer := p\<rparr>) = rx_quiet s" "rx_quiet (s\<lparr>et_worker_pc := pc\<rparr>) = rx_quiet s"
  "rx_quiet (s\<lparr>et_worker := w\<rparr>) = rx_quiet s" "rx_quiet (s\<lparr>et_monitor_ended := e\<rparr>) = rx_quiet s"
  "rx_quiet (s\<lparr>et_main := m\<rparr>) = rx_quiet s" "rx_quiet (s\<lparr>et_running := r\<rparr>) = rx_quiet s"
  "rx_quiet (s\<lparr>et_consumer_done := d\<rparr>) = rx_quiet s"
  by (simp_all add: rx_quiet_def)

text \<open>What a turn of a receiver without traffic changes, and when it decides to leave.\<close>

lemma receiver_quiet:
  assumes "rx_quiet s"
  shows "rx_quiet (receiver_act cap s)"
    and "\<exists>pc n d. receiver_act cap s = s\<lparr>et_rx_pc := pc, et_rx_empty_checks := n, et_consumer_done := d\<rparr> \<and>
      (pc = R_Leave \<longrightarrow> et_rx_pc s = R_Leave \<or> \<not> et_running s \<or> ij_producer_done (et_producer s)) \<and>
      (d \<longrightarrow> et_consumer_done s \<or> et_rx_pc s = R_Leave) \<and> (et_consumer_done s \<longrightarrow> d) \<and> (et_rx_ended s \<longrightarrow> pc = R_Ended)"
proof -
  show "rx_quiet (receiver_act cap s)"
    using assms by (cases "et_rx_pc s") (auto simp: rx_quiet_def receiver_act_def)
  have same: "s = s\<lparr>et_rx_pc := et_rx_pc s, et_rx_empty_checks := et_rx_empty_checks s, et_consumer_done := et_consumer_done s\<rparr>"
    by simp
  show "\<exists>pc n d. receiver_act cap s = s\<lparr>et_rx_pc := pc, et_rx_empty_checks := n, et_consumer_done := d\<rparr> \<and>
      (pc = R_Leave \<longrightarrow> et_rx_pc s = R_Leave \<or> \<not> et_running s \<or> ij_producer_done (et_producer s)) \<and>
      (d \<longrightarrow> et_consumer_done s \<or> et_rx_pc s = R_Leave) \<and> (et_consumer_done s \<longrightarrow> d) \<and> (et_rx_ended s \<longrightarrow> pc = R_Ended)"
    using assms
    by (intro exI [of _ "et_rx_pc (receiver_act cap s)"] exI [of _ "et_rx_empty_checks (receiver_act cap s)"]
        exI [of _ "et_consumer_done (receiver_act cap s)"])
      (cases "et_rx_pc s"; auto simp: rx_quiet_def receiver_act_def)
qed

definition direct_inv :: "nat \<Rightarrow> (FixMessagePacket \<Rightarrow> 's \<Rightarrow> 's) \<Rightarrow> string list \<Rightarrow> 's \<Rightarrow> 's engine_threads \<Rightarrow> bool" where
  "direct_inv cap handle msgs w0 s \<longleftrightarrow>
     inject_inv cap msgs (et_producer s) \<and> rx_quiet s \<and> (et_rx_pc s = R_Leave \<longrightarrow> ij_pc (et_producer s) = J_Done) \<and>
     (ij_producer_done (et_producer s) \<longleftrightarrow> ij_pc (et_producer s) = J_Done) \<and>
     (et_running s \<longleftrightarrow> main_after (et_main s) < 5) \<and> et_worker_pc s \<noteq> W_Top_Empty \<and>
     (0 < main_after (et_main s) \<longrightarrow> ij_pc (et_producer s) = J_Done) \<and>
     (1 < main_after (et_main s) \<longrightarrow> et_consumer_done s) \<and>
     (2 < main_after (et_main s) \<longrightarrow> et_rx_ended s) \<and>
     (3 < main_after (et_main s) \<longrightarrow> et_worker_pc s = W_Exit) \<and>
     (et_consumer_done s \<longrightarrow> ij_pc (et_producer s) = J_Done) \<and>
     (et_worker_pc s = W_Check_Empty \<longrightarrow> et_consumer_done s) \<and>
     (et_worker_pc s = W_Exit \<longrightarrow> ij_pc (et_producer s) = J_Done \<and> spsc_contents cap (et_queue s) = []) \<and>
     et_worker s = fold handle (et_handled s) w0"

lemma inject_inv_queue: "inject_inv cap msgs p \<Longrightarrow> spsc_inv cap (ij_queue p)"
  by (simp add: inject_inv_def)

lemma inject_step_done: "ij_pc p = J_Done \<Longrightarrow> inject_step cap run ts p = p"
  by (simp add: inject_step_def)

lemma inject_step_flags:
  "ij_producer_done p = (ij_pc p = J_Done) \<Longrightarrow>
   ij_producer_done (inject_step cap run ts p) = (ij_pc (inject_step cap run ts p) = J_Done)"
  by (auto simp: inject_step_def Let_def split: inject_pc.splits list.splits prod.splits)

lemma inject_step_popped: "ij_popped (inject_step cap run ts p) = ij_popped p"
  by (auto simp: inject_step_def Let_def split: inject_pc.splits list.splits prod.splits)

lemma direct_inv_start:
  assumes "spsc_static_assert cap" "length buf = cap"
  shows "direct_inv cap handle msgs w0 (threads_start kind msgs buf [] w0)"
  using assms spsc_init_inv [of cap buf] rx_quiet_start [of kind msgs buf w0]
  by (auto simp: direct_inv_def threads_start_def main_after_def inject_inv_def inject_init_def)

lemma direct_producer:
  assumes "direct_inv cap handle msgs w0 s"
  shows "direct_inv cap handle msgs w0 (producer_act cap ts s)"
proof (cases "ij_pc (et_producer s) = J_Done")
  case True
  then show ?thesis using assms by (simp add: producer_act_def inject_step_done)
next
  case False
  then have m: "main_after (et_main s) = 0" "et_running s" "\<not> et_consumer_done s" "et_worker_pc s \<noteq> W_Exit"
    "et_worker_pc s \<noteq> W_Check_Empty" "et_rx_pc s \<noteq> R_Leave"
    using assms by (auto simp: direct_inv_def)
  with assms inject_step_inv [of cap msgs "et_producer s" ts] inject_step_flags [of "et_producer s" cap True ts]
  show ?thesis by (simp add: direct_inv_def producer_act_def inject_step_popped)
qed

lemma direct_worker:
  assumes "direct_inv cap handle msgs w0 s"
  shows "direct_inv cap handle msgs w0 (worker_act cap handle s)"
proof -
  have inv: "inject_inv cap msgs (et_producer s)" using assms by (simp add: direct_inv_def)
  have q: "spsc_inv cap (et_queue s)" using inv by (rule inject_inv_queue)
  show ?thesis
  proof (cases "et_worker_pc s")
    case W_Top
    then have "et_running s" using assms by (auto simp: direct_inv_def)
    with W_Top assms show ?thesis by (simp add: worker_act_def direct_inv_def)
  next
    case W_Pop
    obtain batch q' where pop: "spsc_pop_batch cap 32 (et_queue s) = (batch, q')" by fastforce
    have "inject_inv cap msgs ((et_producer s)\<lparr>ij_queue := q', ij_popped := et_handled s @ batch\<rparr>)"
      using inject_pop_inv [OF inv] by (simp add: inject_pop_def pop)
    with W_Pop assms pop show ?thesis
      by (cases "batch = []") (simp_all add: worker_act_def direct_inv_def)
  next
    case W_Check
    with assms show ?thesis by (simp add: worker_act_def direct_inv_def)
  next
    case W_Check_Empty
    with assms show ?thesis
      using spsc_empty_contents [OF q] by (auto simp: worker_act_def direct_inv_def)
  next
    case W_Exit
    with assms show ?thesis by (simp add: worker_act_def)
  qed (use assms in \<open>simp add: direct_inv_def\<close>)
qed

lemma direct_main:
  assumes "direct_inv cap handle msgs w0 s"
  shows "direct_inv cap handle msgs w0 (main_act s)"
  using assms by (cases "et_main s") (auto simp: main_act_def direct_inv_def main_after_def)

lemma direct_receiver:
  assumes "direct_inv cap handle msgs w0 s"
  shows "direct_inv cap handle msgs w0 (receiver_act cap s)"
proof -
  have q: "rx_quiet s" using assms by (simp add: direct_inv_def)
  obtain pc n d where r: "receiver_act cap s = s\<lparr>et_rx_pc := pc, et_rx_empty_checks := n, et_consumer_done := d\<rparr>"
    "pc = R_Leave \<longrightarrow> et_rx_pc s = R_Leave \<or> \<not> et_running s \<or> ij_producer_done (et_producer s)"
    "d \<longrightarrow> et_consumer_done s \<or> et_rx_pc s = R_Leave" "et_consumer_done s \<longrightarrow> d" "et_rx_ended s \<longrightarrow> pc = R_Ended"
    using receiver_quiet(2) [OF q] by blast
  have "\<not> et_running s \<longrightarrow> ij_pc (et_producer s) = J_Done" using assms by (auto simp: direct_inv_def)
  then show ?thesis
    using assms r(2-5) receiver_quiet(1) [OF q, of cap] unfolding r(1) by (auto simp: direct_inv_def)
qed

lemma direct_act:
  assumes "direct_inv cap handle msgs w0 s" "a \<noteq> Receiver_Fails" "a \<noteq> Signal"
  shows "direct_inv cap handle msgs w0 (thread_act cap handle a s)"
proof (cases a)
  case Receiver
  show ?thesis unfolding Receiver thread_act.simps by (rule direct_receiver [OF assms(1)])
next
  case Monitor
  then show ?thesis using assms(1) by (simp add: monitor_act_def direct_inv_def)
qed (use assms direct_producer direct_worker direct_main in auto)

lemma direct_run:
  assumes "direct_inv cap handle msgs w0 s" "undisturbed acts"
  shows "direct_inv cap handle msgs w0 (threads_run cap handle acts s)"
  using assms
proof (induction acts arbitrary: s)
  case (Cons a acts)
  then show ?case using direct_act [OF Cons.prems(1), of a] by (auto simp: threads_run_def undisturbed_def)
qed (simp add: threads_run_def)

subsection \<open>The run can always be completed\<close>

definition producer_todo :: "inject_state \<Rightarrow> nat" where
  "producer_todo p = (case ij_pc p of J_Done \<Rightarrow> 0 | J_Top \<Rightarrow> 1 + 2 * length (ij_todo p)
     | J_Push _ \<Rightarrow> 2 + 2 * length (ij_todo p))"

lemma producer_todo_frame [simp]:
  "producer_todo (p\<lparr>ij_queue := q\<rparr>) = producer_todo p" "producer_todo (p\<lparr>ij_popped := xs\<rparr>) = producer_todo p"
  by (simp_all add: producer_todo_def cong: inject_pc.case_cong)

definition receiver_todo :: "'s engine_threads \<Rightarrow> nat" where
  "receiver_todo s = (let left = 3 * (idle_limit (et_rx_kind s) - et_rx_empty_checks s)
     in case et_rx_pc s of R_Setup \<Rightarrow> left + 4 | R_Top \<Rightarrow> left + 3 | R_Recv \<Rightarrow> left + 2 | R_Check \<Rightarrow> left + 1
          | R_Leave \<Rightarrow> 1 | R_Ended \<Rightarrow> 0 | _ \<Rightarrow> left)"

lemma receiver_todo_frame [simp]:
  "receiver_todo (s\<lparr>et_producer := p\<rparr>) = receiver_todo s" "receiver_todo (s\<lparr>et_worker_pc := pc\<rparr>) = receiver_todo s"
  "receiver_todo (s\<lparr>et_worker := w\<rparr>) = receiver_todo s" "receiver_todo (s\<lparr>et_monitor_ended := e\<rparr>) = receiver_todo s"
  "receiver_todo (s\<lparr>et_main := m\<rparr>) = receiver_todo s" "receiver_todo (s\<lparr>et_running := r\<rparr>) = receiver_todo s"
  "receiver_todo (s\<lparr>et_consumer_done := d\<rparr>) = receiver_todo s"
  by (simp_all add: receiver_todo_def)

text \<open>Once the producer is done, every turn of a receiver without traffic brings it nearer to its end.\<close>

lemma receiver_turn_lowers:
  assumes "rx_quiet s" "ij_producer_done (et_producer s)" "\<not> et_rx_ended s"
  shows "receiver_todo (receiver_act cap s) < receiver_todo s"
  using assms by (cases "et_rx_pc s") (auto simp: rx_quiet_def receiver_act_def receiver_todo_def Let_def)

definition threads_todo :: "nat \<Rightarrow> 's engine_threads \<Rightarrow> nat" where
  "threads_todo cap s = (6 - main_after (et_main s)) +
     (2 * producer_todo (et_producer s) + length (spsc_contents cap (et_queue s)) +
     receiver_todo s +
     (if et_worker_pc s = W_Exit then 0 else 1) + (if et_monitor_ended s then 0 else 1))"

definition advances :: "nat \<Rightarrow> (FixMessagePacket \<Rightarrow> 's \<Rightarrow> 's) \<Rightarrow> 's engine_threads \<Rightarrow> bool" where
  "advances cap handle s \<longleftrightarrow> (\<exists>acts. undisturbed acts \<and> threads_todo cap (threads_run cap handle acts s) < threads_todo cap s)"

lemma advances_one:
  "a \<noteq> Receiver_Fails \<Longrightarrow> a \<noteq> Signal \<Longrightarrow> threads_todo cap (thread_act cap handle a s) < threads_todo cap s \<Longrightarrow>
   advances cap handle s"
  unfolding advances_def by (intro exI [of _ "[a]"]) (simp add: undisturbed_def threads_run_def)

lemma advances_worker:
  assumes "threads_todo cap ((worker_act cap handle ^^ n) s) < threads_todo cap s"
  shows "advances cap handle s"
proof -
  have "fold (thread_act cap handle) (replicate n Worker) t = (worker_act cap handle ^^ n) t" for t
    by (induction n arbitrary: t) (simp_all add: funpow_swap1)
  with assms show ?thesis
    unfolding advances_def by (intro exI [of _ "replicate n Worker"]) (simp add: undisturbed_def threads_run_def)
qed

text \<open>A worker that has not left pops the packets that are there.\<close>

lemma worker_pops:
  assumes inv: "direct_inv cap handle msgs w0 s" and pc: "et_worker_pc s = W_Pop" and ne: "spsc_contents cap (et_queue s) \<noteq> []"
  shows "threads_todo cap (worker_act cap handle s) < threads_todo cap s"
proof -
  have q: "spsc_inv cap (et_queue s)" using inv by (simp add: direct_inv_def inject_inv_def)
  obtain batch q' where pop: "spsc_pop_batch cap 32 (et_queue s) = (batch, q')" by fastforce
  have "batch \<noteq> []" "length (spsc_contents cap q') < length (spsc_contents cap (et_queue s))"
    using spsc.pop_batch_progress [OF q _ ne, of 32] spsc.pop_batch_shrinks [OF q _ ne, of 32] pop by simp_all
  with pc pop show ?thesis by (simp add: worker_act_def threads_todo_def)
qed



lemma todo_pc:
  "et_worker_pc s \<noteq> W_Exit \<Longrightarrow> pc \<noteq> W_Exit \<Longrightarrow> threads_todo cap (s\<lparr>et_worker_pc := pc\<rparr>) = threads_todo cap s"
  by (simp add: threads_todo_def)

lemma direct_inv_pc:
  "direct_inv cap handle msgs w0 s \<Longrightarrow> et_worker_pc s \<noteq> W_Exit \<Longrightarrow> pc \<notin> {W_Exit, W_Check_Empty, W_Top_Empty} \<Longrightarrow>
   direct_inv cap handle msgs w0 (s\<lparr>et_worker_pc := pc\<rparr>)"
  by (simp add: direct_inv_def)

lemma advances_drain:
  assumes inv: "direct_inv cap handle msgs w0 s" and ne: "spsc_contents cap (et_queue s) \<noteq> []"
  shows "advances cap handle s"
proof -
  have q: "spsc_inv cap (et_queue s)" using inv by (simp add: direct_inv_def inject_inv_def)
  have emp: "\<not> spsc_empty (et_queue s)" using spsc_empty_contents [OF q] ne by simp
  have out: "et_worker_pc s \<noteq> W_Exit" "et_worker_pc s \<noteq> W_Top_Empty" and run: "et_running s"
    using inv ne by (auto simp: direct_inv_def)
  let ?pop = "s\<lparr>et_worker_pc := W_Pop\<rparr>" and ?top = "s\<lparr>et_worker_pc := W_Top\<rparr>"
  have pop: "threads_todo cap (worker_act cap handle ?pop) < threads_todo cap s"
    using worker_pops [OF direct_inv_pc [OF inv out(1), of W_Pop]] ne out todo_pc [OF out(1), of W_Pop cap] by simp
  have top: "worker_act cap handle ?top = ?pop" using run by (simp add: worker_act_def)
  show ?thesis
  proof (cases "et_worker_pc s")
    case W_Top
    then have "?top = s" by simp
    with top pop show ?thesis by (intro advances_worker [where n = 2]) (simp add: numeral_2_eq_2)
  next
    case W_Pop
    then have "?pop = s" by simp
    with pop show ?thesis by (intro advances_worker [where n = 1]) simp
  next
    case W_Check_Empty
    then have "worker_act cap handle s = ?top" using emp by (simp add: worker_act_def)
    with top pop show ?thesis by (intro advances_worker [where n = 3]) (simp add: numeral_3_eq_3)
  next
    case W_Check
    show ?thesis
    proof (cases "et_consumer_done s")
      case True
      then have "worker_act cap handle s = s\<lparr>et_worker_pc := W_Check_Empty\<rparr>"
        "worker_act cap handle (s\<lparr>et_worker_pc := W_Check_Empty\<rparr>) = ?top"
        using W_Check emp by (simp_all add: worker_act_def)
      with top pop show ?thesis by (intro advances_worker [where n = 4]) (simp add: eval_nat_numeral)
    next
      case False
      then have "worker_act cap handle s = ?top" using W_Check by (simp add: worker_act_def)
      with top pop show ?thesis by (intro advances_worker [where n = 3]) (simp add: numeral_3_eq_3)
    qed
  qed (use out in simp_all)
qed

lemma advances_produce:
  assumes inv: "direct_inv cap handle msgs w0 s" and cap: "1 < cap" and emp: "spsc_contents cap (et_queue s) = []"
    and pc: "ij_pc (et_producer s) \<noteq> J_Done"
  shows "advances cap handle s"
proof (rule advances_one [of "Producer 0"])
  have q: "spsc_inv cap (et_queue s)" using inv by (simp add: direct_inv_def inject_inv_def)
  have run: "et_running s" using inv pc by (auto simp: direct_inv_def)
  show "threads_todo cap (thread_act cap handle (Producer 0) s) < threads_todo cap s"
  proof (cases "ij_pc (et_producer s)")
    case J_Top
    with run show ?thesis
      by (cases "ij_todo (et_producer s)") (simp_all add: producer_act_def inject_step_def threads_todo_def producer_todo_def)
  next
    case (J_Push p)
    obtain ok q' where push: "spsc_push cap p (et_queue s) = (ok, q')" by fastforce
    have "ok" "spsc_contents cap q' = [p]"
      using spsc.push_ok [OF q, of p] spsc.push_contents [OF q, of p] cap emp push by simp_all
    with J_Push push run emp show ?thesis
      by (simp add: producer_act_def inject_step_def threads_todo_def producer_todo_def)
  qed (use pc in simp)
qed simp_all

text \<open>With everything accepted and handled, the worker leaves once \<open>g_consumer_done\<close> is up.\<close>

lemma advances_leave:
  assumes inv: "direct_inv cap handle msgs w0 s" and emp: "spsc_contents cap (et_queue s) = []"
    and run: "et_running s" "et_consumer_done s" and pc: "et_worker_pc s \<noteq> W_Exit"
  shows "advances cap handle s"
proof -
  have q: "spsc_inv cap (et_queue s)" using inv by (simp add: direct_inv_def inject_inv_def)
  have e: "spsc_empty (et_queue s)" using spsc_empty_contents [OF q] emp by simp
  obtain batch q' where pop: "spsc_pop_batch cap 32 (et_queue s) = (batch, q')" by fastforce
  have q': "spsc_inv cap q'" "batch = []" "spsc_contents cap q' = []"
    using spsc.pop_batch_invar [OF q, of 32] spsc.pop_batch_contents [OF q, of 32] emp pop by simp_all
  then have e': "spsc_empty q'" using spsc_empty_contents by blast
  have exit: "threads_todo cap (t\<lparr>et_worker_pc := W_Exit\<rparr>) < threads_todo cap t" if "et_worker_pc t \<noteq> W_Exit" for t :: "'a engine_threads"
    using that by (simp add: threads_todo_def)
  let ?s = "s\<lparr>et_producer := (et_producer s)\<lparr>ij_queue := q', ij_popped := et_handled s\<rparr>\<rparr>"
  have same: "threads_todo cap ?s = threads_todo cap s" by (simp add: threads_todo_def q'(3) emp)
  have less: "threads_todo cap (?s\<lparr>et_worker_pc := W_Exit\<rparr>) < threads_todo cap s"
    using exit [of ?s] pc same by simp
  have last: "worker_act cap handle (t\<lparr>et_worker_pc := W_Check_Empty\<rparr>) = t\<lparr>et_worker_pc := W_Exit\<rparr>"
    if "spsc_empty (et_queue t)" for t :: "'a engine_threads" using that by (simp add: worker_act_def)
  have chk: "worker_act cap handle (t\<lparr>et_worker_pc := W_Check\<rparr>) = t\<lparr>et_worker_pc := W_Check_Empty\<rparr>"
    if "et_consumer_done t" for t :: "'a engine_threads" using that by (simp add: worker_act_def)
  have popped: "worker_act cap handle (s\<lparr>et_worker_pc := W_Pop\<rparr>) = ?s\<lparr>et_worker_pc := W_Check\<rparr>"
    by (simp add: worker_act_def pop q'(2))
  have top: "worker_act cap handle (s\<lparr>et_worker_pc := W_Top\<rparr>) = s\<lparr>et_worker_pc := W_Pop\<rparr>"
    using run(1) by (simp add: worker_act_def)
  show ?thesis
  proof (cases "et_worker_pc s")
    case W_Top
    then have "s = s\<lparr>et_worker_pc := W_Top\<rparr>" by simp
    with top popped chk [of ?s] last [of ?s] e' run less show ?thesis
      by (intro advances_worker [where n = 4]) (simp add: eval_nat_numeral)
  next
    case W_Pop
    then have "s = s\<lparr>et_worker_pc := W_Pop\<rparr>" by simp
    with popped chk [of ?s] last [of ?s] e' run less show ?thesis
      by (intro advances_worker [where n = 3]) (simp add: eval_nat_numeral)
  next
    case W_Check
    then have "s = s\<lparr>et_worker_pc := W_Check\<rparr>" by simp
    with chk [of s] last [of s] e run exit [OF pc] show ?thesis
      by (intro advances_worker [where n = 2]) (simp add: eval_nat_numeral)
  next
    case W_Check_Empty
    then have "s = s\<lparr>et_worker_pc := W_Check_Empty\<rparr>" by simp
    with last [of s] e exit [OF pc] show ?thesis
      by (intro advances_worker [where n = 1]) simp
  qed (use pc inv in \<open>simp_all add: direct_inv_def\<close>)
qed

lemma advances_until_report:
  assumes inv: "direct_inv cap handle msgs w0 s" and cap: "1 < cap" and main: "et_main s \<noteq> M_Report"
  shows "advances cap handle s"
proof (cases "spsc_contents cap (et_queue s) = [] \<and> ij_pc (et_producer s) = J_Done")
  case False
  then show ?thesis using advances_drain [OF inv] advances_produce [OF inv cap] by blast
next
  case True
  have less: "threads_todo cap (s\<lparr>et_main := m\<rparr>) < threads_todo cap s" if "main_after m = Suc (main_after (et_main s))" "main_after (et_main s) < 6" for m
  proof -
    have "6 - main_after m < 6 - main_after (et_main s)" using that by simp
    then show ?thesis unfolding threads_todo_def by (intro add_less_le_mono) simp_all
  qed
  show ?thesis
  proof (cases "et_main s")
    case M_Join_Producer
    with True show ?thesis by (intro advances_one [of Main]) (simp_all add: main_act_def less main_after_def)
  next
    case M_Consumer_Done
    then show ?thesis
      by (intro advances_one [of Main]) (simp_all add: main_act_def threads_todo_def main_after_def)
  next
    case M_Join_Consumer
    show ?thesis
    proof (cases "et_rx_ended s")
      case False
      have q: "rx_quiet s" "ij_producer_done (et_producer s)" using inv True by (simp_all add: direct_inv_def)
      then obtain pc n d where r: "receiver_act cap s = s\<lparr>et_rx_pc := pc, et_rx_empty_checks := n, et_consumer_done := d\<rparr>"
        using receiver_quiet(2) [OF q(1)] by blast
      have "threads_todo cap (receiver_act cap s) < threads_todo cap s"
        using receiver_turn_lowers [OF q False, of cap] by (simp add: threads_todo_def r)
      then show ?thesis by (intro advances_one [of Receiver]) simp_all
    qed (use M_Join_Consumer in \<open>intro advances_one [of Main]; simp add: main_act_def less main_after_def\<close>)
  next
    case M_Join_Worker
    have run: "et_running s" "et_consumer_done s"
      using inv M_Join_Worker by (auto simp: direct_inv_def main_after_def)
    show ?thesis
    proof (cases "et_worker_pc s = W_Exit")
      case True
      with M_Join_Worker show ?thesis by (intro advances_one [of Main]) (simp_all add: main_act_def less main_after_def)
    qed (use advances_leave [OF inv _ run] \<open>spsc_contents cap (et_queue s) = [] \<and> _\<close> in blast)
  next
    case M_Stop
    then show ?thesis
      by (intro advances_one [of Main]) (simp_all add: main_act_def threads_todo_def main_after_def)
  next
    case M_Join_Monitor
    then have "\<not> et_running s" using inv by (simp add: direct_inv_def main_after_def)
    with M_Join_Monitor show ?thesis
      by (cases "et_monitor_ended s", intro advances_one [of Main])
        (auto simp: main_act_def less main_after_def monitor_act_def threads_todo_def intro!: advances_one [of Monitor])
  qed (use main in simp)
qed

lemma threads_run_append: "threads_run cap handle (xs @ ys) s = threads_run cap handle ys (threads_run cap handle xs s)"
  by (simp add: threads_run_def)

lemma undisturbed_append: "undisturbed (xs @ ys) \<longleftrightarrow> undisturbed xs \<and> undisturbed ys"
  by (auto simp: undisturbed_def)

lemma reaches_report:
  assumes "direct_inv cap handle msgs w0 s" "1 < cap"
  shows "\<exists>acts. undisturbed acts \<and> et_main (threads_run cap handle acts s) = M_Report"
  using assms(1)
proof (induction "threads_todo cap s" arbitrary: s rule: less_induct)
  case less
  show ?case
  proof (cases "et_main s = M_Report")
    case True
    then show ?thesis by (intro exI [of _ "[]"]) (simp add: undisturbed_def threads_run_def)
  next
    case False
    from advances_until_report [OF less.prems assms(2) this] obtain acts where
      acts: "undisturbed acts" "threads_todo cap (threads_run cap handle acts s) < threads_todo cap s"
      by (auto simp: advances_def)
    from less.hyps [OF acts(2) direct_run [OF less.prems acts(1)]] obtain more where
      "undisturbed more" "et_main (threads_run cap handle more (threads_run cap handle acts s)) = M_Report" by blast
    with acts(1) show ?thesis
      by (intro exI [of _ "acts @ more"]) (simp add: threads_run_append undisturbed_append)
  qed
qed

subsection \<open>Properties of a run\<close>

text \<open>
  A direct queue run processes the whole data set: in every interleaving of the producer, the
  receiver (of any kind, without traffic), the worker, the monitor and the main thread that is not stopped from
  outside, when the main thread has joined the worker, every message of the data set has been handled by the
  engine, once and in order, and the engine is in the state of the sequential run over those packets.
\<close>

lemma direct_run_complete:
  assumes "spsc_static_assert cap" "length buf = cap" "undisturbed acts"
    and "s = threads_run cap (engine_handle env) acts (threads_start kind msgs buf [] e0)"
    and "et_main s \<in> {M_Stop, M_Join_Monitor, M_Report}"
  shows "map (the \<circ> pkt_payload) (et_handled s) = msgs \<and> list_all is_direct (et_handled s) \<and>
    et_worker s = engine_run env (et_handled s) e0 \<and>
    spsc_contents cap (et_queue s) = [] \<and> ij_injected (et_producer s) = length msgs"
proof -
  have inv: "direct_inv cap (engine_handle env) msgs e0 s"
    unfolding assms(4) by (rule direct_run [OF direct_inv_start [OF assms(1,2)] assms(3)])
  moreover have "main_after (et_main s) > 3" using assms(5) by (auto simp: main_after_def)
  ultimately have d: "ij_pc (et_producer s) = J_Done" "spsc_contents cap (et_queue s) = []" "inject_inv cap msgs (et_producer s)"
    "et_worker s = fold (engine_handle env) (et_handled s) e0"
    unfolding direct_inv_def by blast+
  then have m: "msgs = map (the \<circ> pkt_payload) (et_handled s)" and dir: "list_all is_direct (et_handled s)"
    by (simp_all add: inject_inv_def)
  moreover have "ij_injected (et_producer s) = length (et_handled s)" using d by (simp add: inject_inv_def)
  moreover have "length msgs = length (et_handled s)" using arg_cong [OF m, of length] by simp
  ultimately show ?thesis using d(2,4) dir by (simp add: engine_run_def)
qed

text \<open>
  C38. The launcher's joins end in direct queue mode: whichever of the three receiving loops is started, as long as no packet
  reaches the receiver, which this mode starts too, from every point of a run that is neither stopped by a signal nor by a
  failed receiver set-up there is a continuation in which all threads end and the main thread reaches its report.
\<close>

theorem direct_run_can_finish:
  assumes "spsc_static_assert cap" "length buf = cap" "undisturbed acts" "traffic = []"
  shows "\<exists>more. undisturbed more \<and>
    et_main (threads_run cap (engine_handle env) (acts @ more) (threads_start kind msgs buf traffic e0)) = M_Report"
  using reaches_report [OF direct_run [OF direct_inv_start [OF assms(1,2)] assms(3)]] assms(1,4)
  by (simp add: threads_run_append spsc_static_assert_def)

text \<open>Checks of the receiver that find nothing only count: three turns each.\<close>

definition idle_turns :: "nat \<Rightarrow> thread_action list" where
  "idle_turns n = concat (replicate n [Receiver, Receiver, Receiver])"

lemma idle_turns_undisturbed: "undisturbed (idle_turns n)"
  by (auto simp: undisturbed_def idle_turns_def)

lemma receiver_idles:
  assumes "et_rx_pc s = R_Top" "et_running s" "et_rx_pending s = []" "ij_producer_done (et_producer s)"
    and "et_rx_empty_checks s + n < idle_limit (et_rx_kind s)"
  shows "threads_run cap handle (idle_turns n) s = s\<lparr>et_rx_empty_checks := et_rx_empty_checks s + n\<rparr>"
  using assms
proof (induction n arbitrary: s)
  case (Suc n)
  have "receiver_act cap (receiver_act cap (receiver_act cap s)) = s\<lparr>et_rx_empty_checks := et_rx_empty_checks s + 1\<rparr>"
    using Suc.prems by (simp add: receiver_act_def)
  with Suc.IH [of "s\<lparr>et_rx_empty_checks := et_rx_empty_checks s + 1\<rparr>"] Suc.prems show ?case
    by (simp add: threads_run_def idle_turns_def)
qed (simp add: threads_run_def idle_turns_def)

text \<open>One message through a queue of four slots, with the loop over the mapped ring.\<close>

definition one_message_start :: "string \<Rightarrow> OrderBookEngine engine_threads" where
  "one_message_start msg =
     threads_start Ring_Loop [msg] (replicate 4 (direct_packet 0 [])) [] (order_book_engine_init (\<lambda>_. TP_STATUS_USER))"

definition one_message_early :: "thread_action list" where
  "one_message_early = [Receiver, Producer 5, Producer 5, Producer 5, Worker, Worker, Main, Main, Worker, Worker, Worker, Worker]"

definition one_message_acts :: "thread_action list" where
  "one_message_acts = one_message_early @ idle_turns 99 @ [Receiver, Receiver, Receiver, Receiver, Main, Main]"

lemma one_message_reaches_stop:
  "et_main (threads_run 4 (engine_handle env) one_message_acts (one_message_start msg)) = M_Stop"
proof -
  let ?run = "threads_run 4 (engine_handle env)"
  define s where "s = ?run one_message_early (one_message_start msg)"
  have s: "et_rx_pc s = R_Top" "et_running s" "et_rx_pending s = []" "ij_producer_done (et_producer s)" "et_rx_kind s = Ring_Loop"
    "et_rx_empty_checks s = 0" "et_main s = M_Join_Consumer" "et_worker_pc s = W_Exit"
    by (simp_all add: s_def one_message_early_def one_message_start_def threads_run_def threads_start_def producer_act_def
        main_act_def worker_act_def receiver_act_def inject_step_def inject_init_def spsc_init_def spsc_pop_batch_def spsc_push_def
        spsc_empty_def Let_def)
  have "?run (idle_turns 99) s = s\<lparr>et_rx_empty_checks := 99\<rparr>"
    using receiver_idles [of s 99 4 "engine_handle env"] s by (simp add: idle_limit_def)
  then have "?run one_message_acts (one_message_start msg) =
      ?run [Receiver, Receiver, Receiver, Receiver, Main, Main] (s\<lparr>et_rx_empty_checks := 99\<rparr>)"
    by (simp only: one_message_acts_def threads_run_append s_def [symmetric])
  with s show ?thesis by (simp add: threads_run_def main_act_def receiver_act_def idle_limit_def)
qed

theorem direct_run_can_finish_witness:
  "\<exists>more. et_main (threads_run 4 (engine_handle sample_env) ([Producer 5, Worker] @ more) (one_message_start ''8=FIX'')) = M_Report"
  using direct_run_can_finish [of 4 "replicate 4 (direct_packet 0 [])" "[Producer 5, Worker]" "[]" sample_env Ring_Loop "[''8=FIX'']"
      "order_book_engine_init (\<lambda>_. TP_STATUS_USER)"]
  by (auto simp: one_message_start_def spsc_static_assert_def undisturbed_def)

subsection \<open>Why the joins need a quiet receiver\<close>

text \<open>Whatever the threads do, the queue stays well formed.\<close>

lemma threads_run_queue: "spsc_inv cap (et_queue s) \<Longrightarrow> spsc_inv cap (et_queue (threads_run cap handle acts s))"
proof (induction acts arbitrary: s)
  case (Cons a acts)
  note q = Cons.prems and steps = spsc.push_invar [OF Cons.prems] spsc.pop_batch_invar [OF Cons.prems, of 32]
  have "spsc_inv cap (et_queue (thread_act cap handle a s))"
  proof (cases a)
    case (Producer ts)
    with q steps show ?thesis
      by (simp add: producer_act_def inject_step_def split_beta Let_def split: inject_pc.split list.split)
  next
    case Receiver
    with q steps show ?thesis
      by (simp add: receiver_act_def split_beta Let_def split: rx_pc.split list.split)
  next
    case Worker
    with q steps show ?thesis by (simp add: worker_act_def split_beta Let_def split: worker_pc.split)
  next
    case Main
    with q show ?thesis by (simp add: main_act_def split: main_pc.split)
  qed (use q in \<open>simp_all add: receiver_fails_def monitor_act_def handle_signal_def\<close>)
  from Cons.IH [OF this] show ?case by (simp add: threads_run_def)
qed (simp add: threads_run_def)

text \<open>The receiver moves packets into the queue as long as there is room, three turns for each.\<close>

lemma receiver_fills:
  assumes "et_rx_pc s = R_Top" "et_running s" "spsc_inv cap (et_queue s)" "et_rx_pending s = ps @ rest"
    and "length (spsc_contents cap (et_queue s)) + length ps \<le> cap - 1"
  shows "\<exists>q n. spsc_inv cap q \<and> spsc_contents cap q = spsc_contents cap (et_queue s) @ ps \<and>
    threads_run cap handle (idle_turns (length ps)) s = s\<lparr>et_producer := (et_producer s)\<lparr>ij_queue := q\<rparr>, et_rx_pending := rest,
      et_rx_pushed := et_rx_pushed s @ ps, et_rx_empty_checks := n\<rparr>"
  using assms
proof (induction ps arbitrary: s)
  case Nil
  then show ?case
    by (intro exI [of _ "et_queue s"] exI [of _ "et_rx_empty_checks s"]) (simp add: idle_turns_def threads_run_def)
next
  case (Cons p ps)
  obtain q where push: "spsc_push cap p (et_queue s) = (True, q)"
    using spsc.push_ok [OF Cons.prems(3), of p] Cons.prems(5) by (cases "spsc_push cap p (et_queue s)") simp
  have q: "spsc_inv cap q" "spsc_contents cap q = spsc_contents cap (et_queue s) @ [p]"
    using spsc.push_invar [OF Cons.prems(3), of p] spsc.push_contents [OF Cons.prems(3), of p] push Cons.prems(5) by simp_all
  define n where "n = (if et_rx_kind s = Udp_Loop then et_rx_empty_checks s else 0)"
  let ?t = "s\<lparr>et_producer := (et_producer s)\<lparr>ij_queue := q\<rparr>, et_rx_pending := ps @ rest,
    et_rx_pushed := et_rx_pushed s @ [p], et_rx_empty_checks := n\<rparr>"
  have three: "receiver_act cap (receiver_act cap (receiver_act cap s)) = ?t"
    using Cons.prems(1,2,4) push by (simp add: receiver_act_def n_def)
  from Cons.IH [of ?t] Cons.prems q obtain q' n' where "spsc_inv cap q'" "spsc_contents cap q' = spsc_contents cap q @ ps"
    "threads_run cap handle (idle_turns (length ps)) ?t = ?t\<lparr>et_producer := (et_producer ?t)\<lparr>ij_queue := q'\<rparr>,
      et_rx_pending := rest, et_rx_pushed := et_rx_pushed ?t @ ps, et_rx_empty_checks := n'\<rparr>" by auto
  with q(2) three show ?case
    by (intro exI [of _ q'] exI [of _ n']) (simp add: idle_turns_def threads_run_def)
qed

text \<open>A receiver that holds a packet for a full queue whose reader is gone.\<close>

definition rx_stuck :: "nat \<Rightarrow> 's engine_threads \<Rightarrow> bool" where
  "rx_stuck cap s \<longleftrightarrow> et_running s \<and> et_worker_pc s = W_Exit \<and> et_main s = M_Join_Consumer \<and> ij_pc (et_producer s) = J_Done \<and>
     spsc_inv cap (et_queue s) \<and> cap - 1 \<le> length (spsc_contents cap (et_queue s)) \<and>
     (\<exists>p. et_rx_pc s = R_Push p \<or> et_rx_pc s = R_Push_Running p)"

lemma rx_stuck_act:
  assumes "rx_stuck cap s" "a \<noteq> Signal" "a \<noteq> Receiver_Fails"
  shows "rx_stuck cap (thread_act cap handle a s)"
proof (cases a)
  case (Producer ts)
  then show ?thesis using assms(1) by (auto simp: rx_stuck_def producer_act_def inject_step_done)
next
  case Receiver
  have q: "spsc_inv cap (et_queue s)" "cap - 1 \<le> length (spsc_contents cap (et_queue s))" using assms(1) by (simp_all add: rx_stuck_def)
  have "\<not> fst (spsc_push cap p (et_queue s))" "spsc_inv cap (snd (spsc_push cap p (et_queue s)))"
    "spsc_contents cap (snd (spsc_push cap p (et_queue s))) = spsc_contents cap (et_queue s)" for p
    using spsc.push_ok [OF q(1)] spsc.push_invar [OF q(1)] spsc.push_contents [OF q(1)] q(2) by simp_all
  then show ?thesis
    using assms(1) unfolding Receiver by (auto simp: rx_stuck_def receiver_act_def split_beta Let_def)
qed (use assms in \<open>auto simp: rx_stuck_def worker_act_def monitor_act_def main_act_def\<close>)

text \<open>
  C39. The joins of the order book program can wait for ever on the receiver. Take any state in which \<open>g_running\<close> is up, the worker
  has left with an empty queue (it does as soon as it sees \<open>g_consumer_done\<close>, which the main thread raises once the producer has
  ended), the main thread is in the join of the receiver, the receiver is at the head of its loop and at least as many packets as
  the queue has slots still reach it: there is a continuation after which the main thread never passes that join,
  whatever the threads do without a signal, because the receiver waits for room in a queue that nobody reads.
\<close>

theorem receiver_join_can_hang:
  assumes "et_rx_pc s = R_Top" "et_running s" "et_worker_pc s = W_Exit" "et_main s = M_Join_Consumer"
    and "ij_pc (et_producer s) = J_Done" "spsc_inv cap (et_queue s)" "spsc_contents cap (et_queue s) = []"
    and "cap \<le> length (et_rx_pending s)" "1 < cap"
  shows "\<exists>acts. undisturbed acts \<and>
    (\<forall>more. undisturbed more \<longrightarrow> et_main (threads_run cap handle (acts @ more) s) = M_Join_Consumer)"
proof -
  let ?ps = "take (cap - 1) (et_rx_pending s)"
  obtain p rest where rest: "drop (cap - 1) (et_rx_pending s) = p # rest"
    using assms(8,9) by (cases "drop (cap - 1) (et_rx_pending s)") auto
  have len: "length ?ps = cap - 1" using assms(8) by simp
  have pending: "et_rx_pending s = ?ps @ p # rest" using rest by (metis append_take_drop_id)
  have room: "length (spsc_contents cap (et_queue s)) + length ?ps \<le> cap - 1" using assms(7) len by simp
  from receiver_fills [OF assms(1,2,6) pending room, of handle] obtain q n where q: "spsc_inv cap q" "spsc_contents cap q = ?ps"
    and run: "threads_run cap handle (idle_turns (cap - 1)) s = s\<lparr>et_producer := (et_producer s)\<lparr>ij_queue := q\<rparr>,
      et_rx_pending := p # rest, et_rx_pushed := et_rx_pushed s @ ?ps, et_rx_empty_checks := n\<rparr>"
    using assms(7) len by auto
  let ?acts = "idle_turns (cap - 1) @ [Receiver, Receiver]"
  have "rx_stuck cap (threads_run cap handle ?acts s)"
    using assms(1-5) q len unfolding threads_run_append run
    by (simp add: threads_run_def receiver_act_def rx_stuck_def)
  moreover have "rx_stuck cap (threads_run cap handle more t)" if "rx_stuck cap t" "undisturbed more" for more t
    using that by (induction more arbitrary: t) (auto simp: threads_run_def undisturbed_def rx_stuck_act)
  ultimately have "\<forall>more. undisturbed more \<longrightarrow> rx_stuck cap (threads_run cap handle (?acts @ more) s)"
    unfolding threads_run_append by blast
  moreover have "undisturbed ?acts" using idle_turns_undisturbed by (simp add: undisturbed_append) (simp add: undisturbed_def)
  ultimately show ?thesis unfolding rx_stuck_def by blast
qed

text \<open>Witness: one message is injected and handled, the worker leaves, and four packets arrive for a queue of four slots.\<close>

theorem receiver_join_can_hang_witness:
  "\<exists>acts. undisturbed acts \<and> (\<forall>more. undisturbed more \<longrightarrow>
     et_main (threads_run 4 (engine_handle sample_env) (acts @ more)
       (threads_run 4 (engine_handle sample_env) one_message_early
         (threads_start Ring_Loop [''8=FIX''] (replicate 4 (direct_packet 0 [])) (replicate 4 (direct_packet 7 ''8=FIX''))
           (order_book_engine_init (\<lambda>_. TP_STATUS_USER))))) = M_Join_Consumer)"
proof -
  define s where "s = threads_run 4 (engine_handle sample_env) one_message_early
    (threads_start Ring_Loop [''8=FIX''] (replicate 4 (direct_packet 0 [])) (replicate 4 (direct_packet 7 ''8=FIX''))
      (order_book_engine_init (\<lambda>_. TP_STATUS_USER)))"
  note defs = s_def one_message_early_def threads_run_def threads_start_def producer_act_def main_act_def worker_act_def
    receiver_act_def inject_step_def inject_init_def spsc_init_def spsc_pop_batch_def spsc_push_def spsc_empty_def Let_def
  have s: "et_rx_pc s = R_Top" "et_running s" "et_worker_pc s = W_Exit" "et_main s = M_Join_Consumer"
    "ij_pc (et_producer s) = J_Done" "length (et_rx_pending s) = 4" "spsc_empty (et_queue s)"
    by (simp_all add: defs)
  moreover have "spsc_inv 4 (et_queue s)"
    unfolding s_def by (intro threads_run_queue) (simp add: threads_start_def inject_init_def spsc_init_inv spsc_static_assert_def)
  ultimately show ?thesis
    using receiver_join_can_hang [of s 4 "engine_handle sample_env"] spsc_empty_contents [of 4 "et_queue s"]
    by (simp add: s_def [symmetric])
qed

text \<open>
  In network mode the main thread raises \<open>g_consumer_done\<close> when the producer has ended, not when the
  receiver has: there is an undisturbed run in which the receiver captures a packet after the worker
  has left, and the report is reached with the packet still in the queue.
\<close>

theorem network_run_may_lose:
  fixes e0 :: OrderBookEngine
  shows "\<exists>acts. undisturbed acts \<and>
     (let s = threads_run 4 (engine_handle env) acts
        (threads_start Ring_Loop [] (replicate 4 (direct_packet 0 [])) [direct_packet 7 ''8=FIX''] e0)
      in et_main s = M_Report \<and> et_rx_pushed s = [direct_packet 7 ''8=FIX''] \<and> et_handled s = [])"
proof -
  let ?run = "threads_run 4 (engine_handle env)"
  let ?start = "threads_start Ring_Loop [] (replicate 4 (direct_packet 0 [])) [direct_packet 7 ''8=FIX''] e0"
  define early where "early = [Producer 0, Main, Main, Worker, Worker, Worker, Worker, Receiver, Receiver, Receiver, Receiver]"
  define late where "late = [Receiver, Receiver, Receiver, Receiver, Main, Main, Main, Monitor, Main]"
  define s where "s = ?run early ?start"
  have s: "et_rx_pc s = R_Top" "et_running s" "et_rx_pending s = []" "ij_producer_done (et_producer s)" "et_rx_kind s = Ring_Loop"
    "et_rx_empty_checks s = 0" "et_main s = M_Join_Consumer" "et_worker_pc s = W_Exit" "et_handled s = []"
    "et_rx_pushed s = [direct_packet 7 ''8=FIX'']"
    by (simp_all add: s_def early_def threads_run_def threads_start_def producer_act_def main_act_def worker_act_def
      receiver_act_def inject_step_def inject_init_def spsc_init_def spsc_pop_batch_def spsc_push_def spsc_empty_def Let_def)
  have idle: "?run (idle_turns 99) s = s\<lparr>et_rx_empty_checks := 99\<rparr>"
    using receiver_idles [of s 99 4 "engine_handle env"] s by (simp add: idle_limit_def)
  define t where "t = ?run late (s\<lparr>et_rx_empty_checks := 99\<rparr>)"
  have "et_main t = M_Report \<and> et_rx_pushed t = [direct_packet 7 ''8=FIX''] \<and> et_handled t = []"
    using s by (simp add: t_def late_def threads_run_def main_act_def receiver_act_def monitor_act_def idle_limit_def)
  moreover have "?run (early @ idle_turns 99 @ late) ?start = t"
    by (simp only: threads_run_append s_def [symmetric] idle t_def)
  moreover have "undisturbed (early @ idle_turns 99 @ late)"
    using idle_turns_undisturbed by (simp add: undisturbed_def early_def late_def)
  ultimately show ?thesis by (metis (no_types, lifting))
qed

text \<open>
  A receiver whose set-up fails takes \<open>g_running\<close> down even when the messages do not come from the
  network: the producer gives up and the run ends with messages that were never queued.
\<close>

theorem failed_receiver_cuts_direct_run:
  "\<exists>acts. Signal \<notin> set acts \<and>
     (let s = threads_run 4 (engine_handle env) acts (threads_start kind [''8=FIX''] (replicate 4 (direct_packet 0 [])) [] e0)
      in et_main s = M_Report \<and> et_handled s = [] \<and> ij_injected (et_producer s) = 0)"
  by (intro exI [of _ "[Receiver_Fails, Producer 0, Main, Main, Worker, Worker, Main, Main, Main, Monitor, Main]"])
    (simp add: threads_run_def threads_start_def producer_act_def main_act_def worker_act_def
      receiver_fails_def monitor_act_def inject_step_def inject_init_def spsc_init_def spsc_empty_def Let_def)

subsection \<open>Memory of the launcher and its report\<close>

text \<open>
  Before the threads: the memory is locked and the queue and the telemetry counters are allocated on
  huge pages (\<open>qa\<close> and \<open>ta\<close> are the answers of the kernel to the two attempts for each, \<open>qsz\<close> and \<open>tsz\<close>
  the sizes of the objects). Without one of them the launcher returns \<open>EXIT_FAILURE\<close>.
\<close>

definition launcher_memory ::
  "machine \<Rightarrow> nat option \<times> nat option \<Rightarrow> nat option \<times> nat option \<Rightarrow> u64 \<Rightarrow> u64 \<Rightarrow> process \<Rightarrow> (nat \<times> nat) option \<times> process" where
  "launcher_memory mc qa ta qsz tsz s =
     (let (_, s0) = lock_process_memory mc s;
          (shared_queue, s1) = allocate_on_huge_pages (fst qa) (snd qa) qsz s0;
          (shared_telemetry, s2) = allocate_on_huge_pages (fst ta) (snd ta) tsz s1
      in case (shared_queue, shared_telemetry) of
           (Some q, Some t) \<Rightarrow> (Some (q, t), s2)
         | _ \<Rightarrow> (None, s2\<lparr>stderr := stderr s2 @
                     [''[EngineLauncher] Fatal Error: Failed to allocate HugePage memory structures.'']\<rparr>))"

definition launcher_release :: "u64 \<Rightarrow> u64 \<Rightarrow> nat \<times> nat \<Rightarrow> process \<Rightarrow> process" where
  "launcher_release qsz tsz p s = deallocate_huge_pages (Some (snd p)) tsz (deallocate_huge_pages (Some (fst p)) qsz s)"

text \<open>The summary lines, with the double arithmetic and its renderings as arguments.\<close>

definition launcher_summary ::
  "'d doubles \<Rightarrow> ('d \<Rightarrow> 'd) \<Rightarrow> 'd \<Rightarrow> u64 \<Rightarrow> WorkerMetrics \<Rightarrow> string \<Rightarrow> string list" where
  "launcher_summary D per_thousand duration_sec final_rx m csv_filename =
     (let final_proc = tm_messages_processed m;
          avg_lat_ns = mean_latency D final_proc (tm_total_latency_ns m);
          min_lat_ns = (if tm_min_latency_ns m = -1 then d_zero D else d_of_u64 D (tm_min_latency_ns m));
          max_lat_ns = d_of_u64 D (tm_max_latency_ns m);
          throughput = (if d_positive D duration_sec then d_div D (d_of_u64 D final_proc) duration_sec else d_zero D)
      in ['''', replicate 52 (CHR ''=''), ''           ENGINE RUN SUMMARY METRICS               '', replicate 52 (CHR ''=''),
          ''  Total Packets Ingested : '' @ dec_string (unat final_rx),
          ''  Messages Processed     : '' @ dec_string (unat final_proc),
          ''  Orders Risk Approved   : '' @ dec_string (unat (tm_risk_approved m)),
          ''  Orders Risk Rejected   : '' @ dec_string (unat (tm_risk_rejected m)),
          ''  Effective Throughput   : '' @ d_fixed D 2 throughput @ '' msgs/sec'',
          ''  Average Latency        : '' @ d_fixed D 2 avg_lat_ns @ '' ns ('' @ d_fixed D 4 (per_thousand avg_lat_ns) @ '' us)'',
          ''  Min Latency            : '' @ d_fixed D 2 min_lat_ns @ '' ns'',
          ''  Max Latency (Tail)     : '' @ d_fixed D 2 max_lat_ns @ '' ns ('' @ d_fixed D 4 (per_thousand max_lat_ns) @ '' us)'',
          ''  CSV Telemetry Saved    : '' @ csv_filename, replicate 52 (CHR ''=''), ''''])"

lemma allocate_memory:
  "allocate_on_huge_pages huge plain sz s = (p, t) \<Longrightarrow>
   mem_mapped t = mem_mapped s \<union> (case p of None \<Rightarrow> {} | Some a \<Rightarrow> {a ..< a + unat (rounded_size sz)}) \<and>
   mem_objects t = mem_objects s \<union> set_option p \<and> p = (if huge \<noteq> None then huge else plain)"
  by (auto simp: allocate_on_huge_pages_def map_range_def warn_def Let_def split: option.splits)

lemma lock_memory_frame:
  "mem_mapped (snd (lock_process_memory mc s)) = mem_mapped s" "mem_objects (snd (lock_process_memory mc s)) = mem_objects s"
  by (simp_all add: lock_process_memory_def warn_def)

text \<open>
  The launcher gives its memory back: when both objects are allocated, in ranges that were free and do
  not overlap, releasing them at the end of the run restores the address space and the live objects.
\<close>

theorem launcher_memory_restored:
  assumes "launcher_memory mc qa ta qsz tsz s = (Some (q, t), s')"
    and "{q ..< q + unat (rounded_size qsz)} \<inter> mem_mapped s = {}" "q \<notin> mem_objects s"
    and "{t ..< t + unat (rounded_size tsz)} \<inter> (mem_mapped s \<union> {q ..< q + unat (rounded_size qsz)}) = {}" "t \<notin> mem_objects s" "t \<noteq> q"
  shows "mem_mapped (launcher_release qsz tsz (q, t) s') = mem_mapped s \<and>
    mem_objects (launcher_release qsz tsz (q, t) s') = mem_objects s"
proof -
  obtain s0 where s0: "lock_process_memory mc s = (fst (lock_process_memory mc s), s0)" by (metis prod.collapse)
  obtain p1 s1 where a1: "allocate_on_huge_pages (fst qa) (snd qa) qsz s0 = (p1, s1)" by fastforce
  obtain p2 s2 where a2: "allocate_on_huge_pages (fst ta) (snd ta) tsz s1 = (p2, s2)" by fastforce
  have "p1 = Some q" "p2 = Some t" "s' = s2"
    using assms(1) by (auto simp: launcher_memory_def a1 a2 split_beta Let_def s0 [THEN arg_cong [of _ _ snd]] split: option.splits)
  with allocate_memory [OF a1] allocate_memory [OF a2] lock_memory_frame [of mc s] s0 [THEN arg_cong [of _ _ snd]]
  have "mem_mapped s' = mem_mapped s \<union> {q ..< q + unat (rounded_size qsz)} \<union> {t ..< t + unat (rounded_size tsz)}"
    "mem_objects s' = insert t (insert q (mem_objects s))" by auto
  with assms(2-6) show ?thesis
    by (auto simp: launcher_release_def deallocate_huge_pages_def)
qed

text \<open>When only the second allocation fails, the launcher returns with the queue still mapped.\<close>

lemma launcher_memory_leaks:
  assumes "launcher_memory mc (Some q, None) (None, None) qsz tsz s = (r, s')"
  shows "r = None \<and> {q ..< q + unat (rounded_size qsz)} \<subseteq> mem_mapped s' \<and> q \<in> mem_objects s'"
  using assms by (auto simp: launcher_memory_def allocate_on_huge_pages_def map_range_def warn_def Let_def split_beta)

text \<open>A run without messages reports zero means and a zero minimum instead of dividing by zero.\<close>

lemma launcher_summary_idle:
  "launcher_summary D f d 0 worker_metrics_init csv ! 9 =
     ''  Average Latency        : '' @ d_fixed D 2 (d_zero D) @ '' ns ('' @ d_fixed D 4 (f (d_zero D)) @ '' us)'' \<and>
   launcher_summary D f d 0 worker_metrics_init csv ! 10 = ''  Min Latency            : '' @ d_fixed D 2 (d_zero D) @ '' ns''"
  by (simp add: launcher_summary_def worker_metrics_init_def mean_latency_def Let_def)

end
