(* ===== verification/Counted_Run.thy ===== *)
theory Counted_Run
  imports Engine_Run Matching_Worker Fix_Worker
begin

text \<open>
  The threads of \<open>EngineLauncher::run\<close> with a worker that counts messages, \<open>MatchingWorker\<close> or \<open>FixWorker\<close>. Its loop also
  ends on the expected number, in the middle of a batch if need be, and when its \<open>run\<close> returns it takes \<open>g_running\<close> down.
  Between the end of the loop and that store the report is written, so the two are separate steps and the thread can be
  joined only after the second. The other threads act as in theory \<open>Engine_Run\<close>.
\<close>

record 's counted_threads =
  ct_threads :: "'s engine_threads"
  ct_left :: "FixMessagePacket list"
  ct_ended :: bool

definition counted_start ::
  "rx_kind \<Rightarrow> string list \<Rightarrow> FixMessagePacket list \<Rightarrow> FixMessagePacket list \<Rightarrow> 's \<Rightarrow> 's counted_threads" where
  "counted_start kind msgs buf pending w =
     \<lparr>ct_threads = threads_start kind msgs buf pending w, ct_left = [], ct_ended = False\<rparr>"

text \<open>
  One step of the worker. Only the step that pops differs from the order book engine's: the batch is handled up to the
  expected number, and what is left of it is lost.
\<close>

definition counted_worker_act ::
  "nat \<Rightarrow> (FixMessagePacket \<Rightarrow> 's \<Rightarrow> bool \<times> 's) \<Rightarrow> ('s \<Rightarrow> bool) \<Rightarrow> 's counted_threads \<Rightarrow> 's counted_threads" where
  "counted_worker_act cap handle finished c =
     (let s = ct_threads c
      in case et_worker_pc s of
           W_Pop \<Rightarrow>
             (let (batch, q) = spsc_pop_batch cap 32 (et_queue s);
                  s1 = s\<lparr>et_producer := (et_producer s)\<lparr>ij_queue := q, ij_popped := et_handled s @ batch\<rparr>\<rparr>
              in if batch = [] then c\<lparr>ct_threads := s1\<lparr>et_worker_pc := W_Check\<rparr>\<rparr>
                 else let (left, w) = handle_batch handle finished batch (et_worker s)
                      in c\<lparr>ct_threads := s1\<lparr>et_worker := w, et_worker_pc := (if finished w then W_Exit else W_Top)\<rparr>,
                           ct_left := left\<rparr>)
         | W_Exit \<Rightarrow> if ct_ended c then c else c\<lparr>ct_threads := s\<lparr>et_running := False\<rparr>, ct_ended := True\<rparr>
         | _ \<Rightarrow> c\<lparr>ct_threads := worker_act cap (\<lambda>_ w. w) s\<rparr>)"

definition counted_main_act :: "'s counted_threads \<Rightarrow> 's counted_threads" where
  "counted_main_act c =
     (if et_main (ct_threads c) = M_Join_Worker \<and> \<not> ct_ended c then c else c\<lparr>ct_threads := main_act (ct_threads c)\<rparr>)"

fun counted_act ::
  "nat \<Rightarrow> (FixMessagePacket \<Rightarrow> 's \<Rightarrow> bool \<times> 's) \<Rightarrow> ('s \<Rightarrow> bool) \<Rightarrow> thread_action \<Rightarrow> 's counted_threads \<Rightarrow> 's counted_threads" where
  "counted_act cap handle finished Worker c = counted_worker_act cap handle finished c"
| "counted_act cap handle finished Main c = counted_main_act c"
| "counted_act cap handle finished a c = c\<lparr>ct_threads := thread_act cap (\<lambda>_ w. w) a (ct_threads c)\<rparr>"

definition counted_run ::
  "nat \<Rightarrow> (FixMessagePacket \<Rightarrow> 's \<Rightarrow> bool \<times> 's) \<Rightarrow> ('s \<Rightarrow> bool) \<Rightarrow> thread_action list \<Rightarrow> 's counted_threads \<Rightarrow> 's counted_threads" where
  "counted_run cap handle finished acts c = fold (counted_act cap handle finished) acts c"

subsection \<open>A worker that counts at most what it handles\<close>

text \<open>The producer will push nothing more.\<close>

definition produced :: "inject_state \<Rightarrow> bool" where
  "produced p \<longleftrightarrow> ij_todo p = [] \<and> ij_pc p \<in> {J_Top, J_Done}"

lemma inject_step_inv_any:
  assumes "inject_inv cap msgs p" "run \<or> produced p"
  shows "inject_inv cap msgs (inject_step cap run ts p)"
proof (cases run)
  case True
  with inject_step_inv [OF assms(1), of ts] show ?thesis by simp
next
  case False
  with assms have "inject_step cap run ts p = inject_step cap True ts p"
    by (auto simp: produced_def inject_step_def)
  with inject_step_inv [OF assms(1), of ts] show ?thesis by simp
qed

lemma produced_step: "produced p \<Longrightarrow> produced (inject_step cap run ts p)"
  "produced p \<Longrightarrow> ij_queue (inject_step cap run ts p) = ij_queue p"
  by (auto simp: produced_def inject_step_def)

lemma produced_frame [simp]:
  "produced (p\<lparr>ij_queue := q\<rparr>) = produced p" "produced (p\<lparr>ij_popped := xs\<rparr>) = produced p"
  by (simp_all add: produced_def)

lemma done_produced: "inject_inv cap msgs p \<Longrightarrow> ij_pc p = J_Done \<Longrightarrow> produced p"
  by (simp add: inject_inv_def produced_def)

text \<open>Once as many packets are popped as there are messages, nothing is left anywhere.\<close>

lemma all_popped:
  assumes "inject_inv cap msgs p" "length msgs \<le> length (ij_popped p)"
  shows "produced p \<and> spsc_contents cap (ij_queue p) = [] \<and> length (ij_popped p) = length msgs"
proof -
  have "length msgs = length (ij_popped p) + length (spsc_contents cap (ij_queue p)) +
      (case ij_pc p of J_Push pkt \<Rightarrow> 1 | _ \<Rightarrow> 0) + length (ij_todo p)"
    using arg_cong [of msgs _ length] assms(1) unfolding inject_inv_def by (fastforce split: inject_pc.split)
  with assms(2) show ?thesis by (cases "ij_pc p") (simp_all add: produced_def)
qed

locale counted_worker =
  fixes handle :: "FixMessagePacket \<Rightarrow> 's \<Rightarrow> bool \<times> 's"
    and finished :: "'s \<Rightarrow> bool"
    and w0 :: 's
    and expected :: nat
  assumes counts_at_most: "finished (handle_all handle ps w0) \<Longrightarrow> expected \<le> length ps"
begin

definition counted_inv :: "nat \<Rightarrow> string list \<Rightarrow> 's counted_threads \<Rightarrow> bool" where
  "counted_inv cap msgs c \<longleftrightarrow>
     (let s = ct_threads c; p = et_producer s
      in inject_inv cap msgs p \<and> rx_quiet s \<and> (et_rx_pc s = R_Leave \<longrightarrow> produced p) \<and> et_worker_pc s \<noteq> W_Top_Empty \<and> ct_left c = [] \<and>
         (ij_producer_done p \<longrightarrow> ij_pc p = J_Done) \<and>
         (\<not> et_running s \<longrightarrow> ct_ended c) \<and> (ct_ended c \<longrightarrow> et_worker_pc s = W_Exit) \<and>
         (et_worker_pc s = W_Exit \<longrightarrow> produced p \<and> spsc_contents cap (ij_queue p) = []) \<and>
         (0 < main_after (et_main s) \<longrightarrow> produced p) \<and> (3 < main_after (et_main s) \<longrightarrow> ct_ended c) \<and>
         (et_consumer_done s \<longrightarrow> produced p) \<and> (et_worker_pc s = W_Check_Empty \<longrightarrow> produced p) \<and>
         et_worker s = handle_all handle (ij_popped p) w0)"

lemma counted_inv_start:
  assumes "spsc_static_assert cap" "length buf = cap"
  shows "counted_inv cap msgs (counted_start kind msgs buf [] w0)"
  using assms spsc_init_inv [of cap buf] rx_quiet_start [of kind msgs buf w0]
  by (auto simp: counted_inv_def counted_start_def threads_start_def main_after_def inject_inv_def inject_init_def handle_all_def)

lemma counted_producer:
  assumes "counted_inv cap msgs c"
  shows "counted_inv cap msgs (c\<lparr>ct_threads := producer_act cap ts (ct_threads c)\<rparr>)"
proof -
  let ?p = "et_producer (ct_threads c)"
  have "et_running (ct_threads c) \<or> produced ?p" using assms by (auto simp: counted_inv_def Let_def)
  then have "inject_inv cap msgs (inject_step cap (et_running (ct_threads c)) ts ?p)"
    using assms inject_step_inv_any by (auto simp: counted_inv_def Let_def)
  moreover have "ij_producer_done (inject_step cap r ts ?p) \<longrightarrow> ij_pc (inject_step cap r ts ?p) = J_Done" for r
    using assms by (auto simp: counted_inv_def inject_step_def Let_def split: inject_pc.splits list.splits prod.splits)
  ultimately show ?thesis
    using assms produced_step [of ?p cap _ ts]
    by (auto simp: counted_inv_def producer_act_def inject_step_popped Let_def)
qed

lemma counted_pop:
  assumes inv: "counted_inv cap msgs c" and pc: "et_worker_pc (ct_threads c) = W_Pop" and n: "length msgs \<le> expected"
  shows "counted_inv cap msgs (counted_worker_act cap handle finished c)"
proof -
  let ?s = "ct_threads c"
  obtain batch q' where pop: "spsc_pop_batch cap 32 (et_queue ?s) = (batch, q')" by fastforce
  define p' where "p' = (et_producer ?s)\<lparr>ij_queue := q', ij_popped := et_handled ?s @ batch\<rparr>"
  have "inject_inv cap msgs (et_producer ?s)" using inv by (simp add: counted_inv_def Let_def)
  then have inj: "inject_inv cap msgs p'"
    using inject_pop_inv [of cap msgs "et_producer ?s"] by (simp add: inject_pop_def pop p'_def)
  show ?thesis
  proof (cases "batch = []")
    case True
    with inv inj pop pc show ?thesis by (auto simp: counted_worker_act_def counted_inv_def Let_def p'_def)
  next
    case False
    obtain left w where hb: "handle_batch handle finished batch (et_worker ?s) = (left, w)" by fastforce
    let ?done = "take (length batch - length left) batch"
    have ws: "batch = ?done @ left" "w = handle_all handle (et_handled ?s @ ?done) w0" "left \<noteq> [] \<Longrightarrow> finished w"
      using handle_batch_spec [OF hb] inv by (auto simp: counted_inv_def handle_all_def Let_def)
    have fin: "left = [] \<and> produced p' \<and> spsc_contents cap q' = []" if "finished w"
    proof -
      have "expected \<le> length (et_handled ?s @ ?done)" using counts_at_most that ws(2) by blast
      moreover from this have "length msgs \<le> length (ij_popped p')" using n by (simp add: p'_def)
      note all = all_popped [OF inj this]
      ultimately have "length batch \<le> length ?done" using n by (simp add: p'_def)
      then have "left = []" using arg_cong [OF ws(1), of length] by simp
      with all show ?thesis by (simp add: p'_def)
    qed
    then have left: "left = []" using ws(3) by blast
    with ws(1,2) have "w = handle_all handle (et_handled ?s @ batch) w0" by simp
    with inv inj pop pc False hb left fin show ?thesis
      by (auto simp: counted_worker_act_def counted_inv_def Let_def p'_def)
  qed
qed

lemma counted_worker_inv:
  assumes inv: "counted_inv cap msgs c" and n: "length msgs \<le> expected"
  shows "counted_inv cap msgs (counted_worker_act cap handle finished c)"
proof (cases "et_worker_pc (ct_threads c)")
  case W_Top
  then have "et_running (ct_threads c)" using inv by (auto simp: counted_inv_def Let_def)
  with W_Top inv show ?thesis by (auto simp: counted_worker_act_def worker_act_def counted_inv_def Let_def)
next
  case W_Pop
  then show ?thesis using counted_pop [OF inv _ n] by simp
next
  case W_Check
  with inv show ?thesis by (auto simp: counted_worker_act_def worker_act_def counted_inv_def Let_def)
next
  case W_Check_Empty
  have "spsc_inv cap (et_queue (ct_threads c))" using inv by (simp add: counted_inv_def inject_inv_def Let_def)
  with W_Check_Empty inv show ?thesis
    using spsc_empty_contents by (auto simp: counted_worker_act_def worker_act_def counted_inv_def Let_def)
next
  case W_Exit
  with inv show ?thesis by (auto simp: counted_worker_act_def counted_inv_def Let_def)
qed (use inv in \<open>simp add: counted_inv_def Let_def\<close>)

lemma counted_main_inv:
  assumes "counted_inv cap msgs c"
  shows "counted_inv cap msgs (counted_main_act c)"
  using assms done_produced [of cap msgs "et_producer (ct_threads c)"]
  by (cases "et_main (ct_threads c)") (auto simp: counted_main_act_def main_act_def counted_inv_def main_after_def Let_def)

lemma counted_receiver:
  assumes inv: "counted_inv cap msgs c"
  shows "counted_inv cap msgs (c\<lparr>ct_threads := receiver_act cap (ct_threads c)\<rparr>)"
proof -
  let ?s = "ct_threads c"
  have q: "rx_quiet ?s" using inv by (simp add: counted_inv_def Let_def)
  obtain pc n d where r: "receiver_act cap ?s = ?s\<lparr>et_rx_pc := pc, et_rx_empty_checks := n, et_consumer_done := d\<rparr>"
    "pc = R_Leave \<longrightarrow> et_rx_pc ?s = R_Leave \<or> \<not> et_running ?s \<or> ij_producer_done (et_producer ?s)"
    "d \<longrightarrow> et_consumer_done ?s \<or> et_rx_pc ?s = R_Leave"
    using receiver_quiet(2) [OF q, of cap] by blast
  have "\<not> et_running ?s \<longrightarrow> produced (et_producer ?s)" "ij_producer_done (et_producer ?s) \<longrightarrow> produced (et_producer ?s)"
    using inv done_produced [of cap msgs "et_producer ?s"] by (auto simp: counted_inv_def Let_def)
  then show ?thesis
    using inv r(2,3) receiver_quiet(1) [OF q, of cap] unfolding r(1) by (auto simp: counted_inv_def Let_def)
qed

lemma counted_act_inv:
  assumes inv: "counted_inv cap msgs c" and "length msgs \<le> expected" "a \<noteq> Receiver_Fails" "a \<noteq> Signal"
  shows "counted_inv cap msgs (counted_act cap handle finished a c)"
proof (cases a)
  case Receiver
  then show ?thesis using counted_receiver [OF inv] by simp
next
  case Monitor
  then show ?thesis using inv by (simp add: monitor_act_def counted_inv_def Let_def)
qed (use assms counted_producer counted_worker_inv counted_main_inv in auto)

lemma counted_run_inv:
  assumes "counted_inv cap msgs c" "length msgs \<le> expected" "undisturbed acts"
  shows "counted_inv cap msgs (counted_run cap handle finished acts c)"
  using assms
proof (induction acts arbitrary: c)
  case (Cons a acts)
  then show ?case using counted_act_inv [OF Cons.prems(1,2), of a] by (auto simp: counted_run_def undisturbed_def)
qed (simp add: counted_run_def)

lemma counted_complete:
  assumes "spsc_static_assert cap" "length buf = cap" "undisturbed acts" "length msgs \<le> expected"
    and "c = counted_run cap handle finished acts (counted_start kind msgs buf [] w0)"
    and "et_main (ct_threads c) \<in> {M_Stop, M_Join_Monitor, M_Report}"
  shows "map (the \<circ> pkt_payload) (et_handled (ct_threads c)) = msgs \<and> list_all is_direct (et_handled (ct_threads c)) \<and>
    ct_left c = [] \<and> et_worker (ct_threads c) = handle_all handle (et_handled (ct_threads c)) w0 \<and>
    spsc_contents cap (et_queue (ct_threads c)) = []"
proof -
  have inv: "counted_inv cap msgs c"
    unfolding assms(5) by (rule counted_run_inv [OF counted_inv_start [OF assms(1,2)] assms(4,3)])
  moreover have "main_after (et_main (ct_threads c)) > 3" using assms(6) by (auto simp: main_after_def)
  ultimately have "produced (et_producer (ct_threads c))" "spsc_contents cap (et_queue (ct_threads c)) = []"
    "inject_inv cap msgs (et_producer (ct_threads c))" "ct_left c = []"
    "et_worker (ct_threads c) = handle_all handle (et_handled (ct_threads c)) w0"
    by (auto simp: counted_inv_def Let_def)
  then show ?thesis by (auto simp: inject_inv_def produced_def)
qed

end
subsection \<open>The two counting workers\<close>

lemma fw_counts_at_most:
  assumes "fw_finished (handle_all (fw_handle env) ps (fix_worker_init n frames))"
  shows "n \<le> length ps"
  using assms mod_less_eq_dividend [of "length ps" "2 ^ 32"] by (simp add: fw_finished_iff del: mod_less_eq_dividend)

lemma mw_counts_at_most:
  fixes clock :: "'d ClockSynchronizer"
  assumes "mw_finished (handle_all (mw_handle env) ps (matching_worker_init n clock frames))"
  shows "n \<le> length ps"
proof -
  have step: "unat (processed (mw_stats (snd (mw_handle env p w)))) \<le> Suc (unat (processed (mw_stats w)))"
    "mw_expected_messages (snd (mw_handle env p w)) = mw_expected_messages w" for p and w :: "'d MatchingWorker"
  proof -
    have "unat (x + 1) \<le> Suc (unat x)" for x :: u32 by (simp add: unat_word_ariths(1))
    then show "unat (processed (mw_stats (snd (mw_handle env p w)))) \<le> Suc (unat (processed (mw_stats w)))"
      by (simp add: mw_handle_spec(5) [OF refl] count_latency_def count_verdict_def)
    show "mw_expected_messages (snd (mw_handle env p w)) = mw_expected_messages w" by (simp add: mw_handle_spec(9) [OF refl])
  qed
  have "unat (processed (mw_stats (handle_all (mw_handle env) ps w))) \<le> unat (processed (mw_stats w)) + length ps \<and>
      mw_expected_messages (handle_all (mw_handle env) ps w) = mw_expected_messages w" for w :: "'d MatchingWorker"
  proof (induction ps arbitrary: w)
    case (Cons p ps)
    from Cons.IH [of "snd (mw_handle env p w)"] step [of p w] show ?case by (simp add: handle_all_def)
  qed (simp add: handle_all_def)
  from this [of "matching_worker_init n clock frames"] assms show ?thesis
    by (simp add: mw_finished_def worker_stats_init_def) (simp add: matching_worker_init_def)
qed

interpretation fix_counted: counted_worker "fw_handle env" fw_finished "fix_worker_init n frames" n for env n frames
  by unfold_locales (rule fw_counts_at_most)

interpretation matching_counted: counted_worker "mw_handle env" mw_finished "matching_worker_init n clock frames" n
  for env n clock frames
  by unfold_locales (rule mw_counts_at_most)

text \<open>The FIX worker counts every message of the data set, and its telemetry says so.\<close>

lemma fix_counting_run_complete:
  assumes "spsc_static_assert cap" "length buf = cap" "undisturbed acts" "length msgs \<le> n"
    and "c = counted_run cap (fw_handle env) fw_finished acts (counted_start kind msgs buf [] (fix_worker_init n frames))"
    and "et_main (ct_threads c) \<in> {M_Stop, M_Join_Monitor, M_Report}"
  shows "map (the \<circ> pkt_payload) (et_handled (ct_threads c)) = msgs \<and>
    processed (fw_stats (et_worker (ct_threads c))) = of_nat (length msgs)"
proof -
  note run = fix_counted.counted_complete [OF assms]
  then have "length msgs = length (et_handled (ct_threads c))" by (metis length_map)
  with run show ?thesis
    using fw_all(1) [of env "et_handled (ct_threads c)" "fix_worker_init n frames"]
    by (simp add: fix_worker_init_def worker_stats_init_def)
qed

lemma replicate_four: "replicate 4 x = [x, x, x, x]"
  by (simp add: numeral_eq_Suc)

text \<open>
  The bound on the expected number is needed: a worker that expects one message and finds two in a batch handles
  the first and drops the second.
\<close>

lemma counting_run_cuts:
  "ct_left (counted_run 4 (fw_handle env) fw_finished
     [Producer 5, Producer 5, Producer 6, Producer 6, Worker, Worker]
     (counted_start kind [''8=FIX'', ''8=FIY''] (replicate 4 (direct_packet 0 [])) [] (fix_worker_init (Suc 0) frames))) =
   [direct_packet 6 ''8=FIY'']"
proof -
  have "fw_finished (snd (fw_handle env p (fix_worker_init (Suc 0) frames)))" for p
    using fw_finished_iff [of env "[p]" "Suc 0" frames] by (simp add: handle_all_def)
  then have hb: "handle_batch (fw_handle env) fw_finished [p, p'] (fix_worker_init (Suc 0) frames) =
      ([p'], snd (fw_handle env p (fix_worker_init (Suc 0) frames)))" for p p'
    by (simp add: fw_handle_frame split_beta)
  have mask: "and (Suc (Suc 0)) 3 = Suc (Suc 0)" by (simp flip: numeral_2_eq_2)
  show ?thesis
    by (simp add: counted_run_def counted_start_def threads_start_def producer_act_def counted_worker_act_def worker_act_def mask
        inject_step_def inject_init_def spsc_init_def spsc_pop_batch_def spsc_push_def spsc_empty_def Let_def hb replicate_four
        del: handle_batch.simps)
qed

end
