(* ===== verification/Counted_Liveness.thy ===== *)
theory Counted_Liveness
  imports Counted_Run
begin

text \<open>
  A direct queue run of a counting worker can always be completed: whatever the threads have done so far, some continuation
  brings the main thread to its report. The measure below counts what is left to do; from every state before the report some
  turns of one thread lower it.
\<close>

definition counted_todo :: "nat \<Rightarrow> 's counted_threads \<Rightarrow> nat" where
  "counted_todo cap c = threads_todo cap (ct_threads c) + (if ct_ended c then 0 else 1)"

text \<open>The state with the worker at another place of its loop.\<close>

definition worker_at :: "worker_pc \<Rightarrow> 's counted_threads \<Rightarrow> 's counted_threads" where
  "worker_at pc c = c\<lparr>ct_threads := (ct_threads c)\<lparr>et_worker_pc := pc\<rparr>\<rparr>"

lemma worker_at_same: "et_worker_pc (ct_threads c) = pc \<Longrightarrow> worker_at pc c = c"
  by (auto simp: worker_at_def)

lemma worker_at_todo:
  "et_worker_pc (ct_threads c) \<noteq> W_Exit \<Longrightarrow> pc \<noteq> W_Exit \<Longrightarrow> counted_todo cap (worker_at pc c) = counted_todo cap c"
  by (simp add: counted_todo_def worker_at_def todo_pc)

lemma worker_exit_todo:
  "et_worker_pc (ct_threads c) \<noteq> W_Exit \<Longrightarrow> counted_todo cap (worker_at W_Exit c) < counted_todo cap c"
  by (simp add: worker_at_def counted_todo_def threads_todo_def)

lemma worker_at_steps:
  "et_running (ct_threads c) \<Longrightarrow> counted_worker_act cap handle finished (worker_at W_Top c) = worker_at W_Pop c"
  "counted_worker_act cap handle finished (worker_at W_Check c) =
     worker_at (if et_consumer_done (ct_threads c) then W_Check_Empty else W_Top) c"
  "counted_worker_act cap handle finished (worker_at W_Check_Empty c) =
     worker_at (if spsc_empty (et_queue (ct_threads c)) then W_Exit else W_Top) c"
  by (simp_all add: counted_worker_act_def worker_act_def worker_at_def)

definition counted_advances ::
  "nat \<Rightarrow> (FixMessagePacket \<Rightarrow> 's \<Rightarrow> bool \<times> 's) \<Rightarrow> ('s \<Rightarrow> bool) \<Rightarrow> nat \<Rightarrow> 's counted_threads \<Rightarrow> bool" where
  "counted_advances cap handle finished k c \<longleftrightarrow>
     (\<exists>acts. undisturbed acts \<and> counted_todo cap (counted_run cap handle finished acts c) < k)"

lemma advances_now: "counted_todo cap c < k \<Longrightarrow> counted_advances cap handle finished k c"
  unfolding counted_advances_def by (intro exI [of _ "[]"]) (simp add: undisturbed_def counted_run_def)

lemma advances_after:
  assumes "counted_advances cap handle finished k (counted_act cap handle finished a c)" "a \<noteq> Receiver_Fails" "a \<noteq> Signal"
  shows "counted_advances cap handle finished k c"
proof -
  obtain acts where "undisturbed acts"
    "counted_todo cap (counted_run cap handle finished acts (counted_act cap handle finished a c)) < k"
    using assms(1) unfolding counted_advances_def by blast
  with assms(2,3) show ?thesis
    unfolding counted_advances_def by (intro exI [of _ "a # acts"]) (simp add: undisturbed_def counted_run_def)
qed

lemma advances_one_act:
  "a \<noteq> Receiver_Fails \<Longrightarrow> a \<noteq> Signal \<Longrightarrow> counted_todo cap (counted_act cap handle finished a c) < k \<Longrightarrow>
   counted_advances cap handle finished k c"
  by (rule advances_after [OF advances_now])

lemma advances_turn:
  "counted_advances cap handle finished k (counted_worker_act cap handle finished c) \<Longrightarrow> counted_advances cap handle finished k c"
  using advances_after [of cap handle finished k Worker c] by simp

lemma advances_turn_to:
  "counted_worker_act cap handle finished c = d \<Longrightarrow> counted_advances cap handle finished k d \<Longrightarrow>
   counted_advances cap handle finished k c"
  using advances_turn by blast

context counted_worker
begin

text \<open>What holds besides the invariant of the run.\<close>

definition counted_live :: "'s counted_threads \<Rightarrow> bool" where
  "counted_live c \<longleftrightarrow>
     (let s = ct_threads c; p = et_producer s
      in (ij_producer_done p \<longleftrightarrow> ij_pc p = J_Done) \<and>
         (0 < main_after (et_main s) \<longrightarrow> ij_pc p = J_Done) \<and> (1 < main_after (et_main s) \<longrightarrow> et_consumer_done s) \<and>
         (2 < main_after (et_main s) \<longrightarrow> et_rx_ended s) \<and> (4 < main_after (et_main s) \<longrightarrow> \<not> et_running s))"

lemma counted_live_start: "counted_live (counted_start kind msgs buf [] w)"
  by (simp add: counted_live_def counted_start_def threads_start_def main_after_def inject_init_def)

lemma counted_live_act:
  assumes "counted_live c" "a \<noteq> Receiver_Fails" "a \<noteq> Signal" "rx_quiet (ct_threads c)"
  shows "counted_live (counted_act cap handle finished a c)"
proof (cases a)
  case (Producer ts)
  let ?p = "et_producer (ct_threads c)"
  have "ij_pc ?p = J_Done \<Longrightarrow> inject_step cap r ts ?p = ?p" for r by (rule inject_step_done)
  with assms(1) inject_step_flags [of ?p cap _ ts] show ?thesis
    by (auto simp: Producer producer_act_def counted_live_def Let_def)
next
  case Receiver
  obtain pc n d where r: "receiver_act cap (ct_threads c) =
      (ct_threads c)\<lparr>et_rx_pc := pc, et_rx_empty_checks := n, et_consumer_done := d\<rparr>"
    "et_consumer_done (ct_threads c) \<longrightarrow> d" "et_rx_ended (ct_threads c) \<longrightarrow> pc = R_Ended"
    using receiver_quiet(2) [OF assms(4), of cap] by blast
  with Receiver assms(1) show ?thesis by (auto simp: counted_live_def Let_def)
next
  case Worker
  show ?thesis
    using assms(1) unfolding Worker counted_act.simps
    by (cases "et_worker_pc (ct_threads c)")
      (auto simp: counted_worker_act_def worker_act_def counted_live_def Let_def split: prod.split)
next
  case Main
  with assms(1) show ?thesis
    by (cases "et_main (ct_threads c)") (auto simp: counted_main_act_def main_act_def counted_live_def main_after_def Let_def)
next
  case Monitor
  with assms(1) show ?thesis by (auto simp: monitor_act_def counted_live_def Let_def)
qed (use assms in auto)

text \<open>A worker that has not left pops what is there.\<close>

lemma pop_lowers:
  assumes inv: "counted_inv cap msgs c" and pc: "et_worker_pc (ct_threads c) = W_Pop"
    and ne: "spsc_contents cap (et_queue (ct_threads c)) \<noteq> []"
  shows "counted_todo cap (counted_worker_act cap handle finished c) < counted_todo cap c"
proof -
  have q: "spsc_inv cap (et_queue (ct_threads c))" using inv by (simp add: counted_inv_def inject_inv_def Let_def)
  obtain batch q' where pop: "spsc_pop_batch cap 32 (et_queue (ct_threads c)) = (batch, q')" by fastforce
  have "batch \<noteq> []" "length (spsc_contents cap q') < length (spsc_contents cap (et_queue (ct_threads c)))"
    using spsc.pop_batch_progress [OF q _ ne, of 32] spsc.pop_batch_shrinks [OF q _ ne, of 32] pop by simp_all
  with pc pop show ?thesis
    by (cases "handle_batch handle finished batch (et_worker (ct_threads c))")
      (simp add: counted_worker_act_def counted_todo_def threads_todo_def Let_def)
qed

lemma worker_at_inv:
  assumes "counted_inv cap msgs c" "et_worker_pc (ct_threads c) \<noteq> W_Exit" "pc \<notin> {W_Exit, W_Check_Empty, W_Top_Empty}"
  shows "counted_inv cap msgs (worker_at pc c)"
  using assms by (auto simp: counted_inv_def worker_at_def Let_def)

lemma counted_drain:
  assumes inv: "counted_inv cap msgs c" and ne: "spsc_contents cap (et_queue (ct_threads c)) \<noteq> []"
  shows "counted_advances cap handle finished (counted_todo cap c) c"
proof -
  let ?adv = "counted_advances cap handle finished (counted_todo cap c)"
  have q: "spsc_inv cap (et_queue (ct_threads c))" using inv by (simp add: counted_inv_def inject_inv_def Let_def)
  have emp: "\<not> spsc_empty (et_queue (ct_threads c))" using spsc_empty_contents [OF q] ne by simp
  have out: "et_worker_pc (ct_threads c) \<noteq> W_Exit" "et_worker_pc (ct_threads c) \<noteq> W_Top_Empty" and run: "et_running (ct_threads c)"
    using inv ne by (auto simp: counted_inv_def Let_def)
  have "counted_todo cap (counted_worker_act cap handle finished (worker_at W_Pop c)) < counted_todo cap c"
    using pop_lowers [OF worker_at_inv [OF inv out(1), of W_Pop]] ne worker_at_todo [OF out(1), of W_Pop cap]
    by (simp add: worker_at_def)
  then have pop: "?adv (worker_at W_Pop c)" by (rule advances_turn [OF advances_now])
  with run have top: "?adv (worker_at W_Top c)" by (rule advances_turn_to [OF worker_at_steps(1)])
  then have emp': "?adv (worker_at W_Check_Empty c)" by (simp add: advances_turn_to [OF worker_at_steps(3)] emp)
  with top have chk: "?adv (worker_at W_Check c)" by (simp add: advances_turn_to [OF worker_at_steps(2)])
  show ?thesis
    using pop top emp' chk out by (cases "et_worker_pc (ct_threads c)") (simp_all add: worker_at_same)
qed

lemma counted_produce:
  assumes inv: "counted_inv cap msgs c" and cap: "1 < cap" and emp: "spsc_contents cap (et_queue (ct_threads c)) = []"
    and pc: "ij_pc (et_producer (ct_threads c)) \<noteq> J_Done"
  shows "counted_advances cap handle finished (counted_todo cap c) c"
proof (rule advances_one_act [of "Producer 0"])
  let ?s = "ct_threads c"
  have q: "spsc_inv cap (et_queue ?s)" and run: "et_running ?s \<or> produced (et_producer ?s)"
    using inv by (auto simp: counted_inv_def inject_inv_def Let_def)
  show "counted_todo cap (counted_act cap handle finished (Producer 0) c) < counted_todo cap c"
  proof (cases "ij_pc (et_producer ?s)")
    case J_Top
    with run show ?thesis
      by (cases "ij_todo (et_producer ?s)")
        (auto simp: producer_act_def inject_step_def counted_todo_def threads_todo_def producer_todo_def produced_def)
  next
    case (J_Push p)
    obtain ok q' where push: "spsc_push cap p (et_queue ?s) = (ok, q')" by fastforce
    have "ok" "spsc_contents cap q' = [p]"
      using spsc.push_ok [OF q, of p] spsc.push_contents [OF q, of p] cap emp push by simp_all
    with J_Push push emp show ?thesis
      by (simp add: producer_act_def inject_step_def counted_todo_def threads_todo_def producer_todo_def)
  qed (use pc in simp)
qed simp_all

text \<open>With nothing left to handle, the worker leaves once \<open>g_consumer_done\<close> is up, and then takes \<open>g_running\<close> down.\<close>

lemma counted_leave:
  assumes inv: "counted_inv cap msgs c" and emp: "spsc_contents cap (et_queue (ct_threads c)) = []"
    and cons: "et_consumer_done (ct_threads c)" and open_end: "\<not> ct_ended c"
  shows "counted_advances cap handle finished (counted_todo cap c) c"
proof -
  let ?adv = "counted_advances cap handle finished (counted_todo cap c)" and ?s = "ct_threads c"
  have q: "spsc_inv cap (et_queue ?s)" and run: "et_running ?s" and top_pc: "et_worker_pc ?s \<noteq> W_Top_Empty"
    using inv open_end by (auto simp: counted_inv_def inject_inv_def Let_def)
  have e: "spsc_empty (et_queue ?s)" using spsc_empty_contents [OF q] emp by simp
  show ?thesis
  proof (cases "et_worker_pc ?s = W_Exit")
    case True
    with open_end have "counted_todo cap (counted_worker_act cap handle finished c) < counted_todo cap c"
      by (simp add: counted_worker_act_def counted_todo_def threads_todo_def)
    then show ?thesis by (rule advances_turn [OF advances_now])
  next
    case False
    obtain batch q' where pop: "spsc_pop_batch cap 32 (et_queue ?s) = (batch, q')" by fastforce
    have q': "spsc_inv cap q'" "batch = []" "spsc_contents cap q' = []"
      using spsc.pop_batch_invar [OF q, of 32] spsc.pop_batch_contents [OF q, of 32] emp pop by simp_all
    define c' where "c' = c\<lparr>ct_threads := ?s\<lparr>et_producer := (et_producer ?s)\<lparr>ij_queue := q', ij_popped := et_handled ?s\<rparr>\<rparr>\<rparr>"
    have leave: "?adv (worker_at W_Check_Empty d)" "?adv (worker_at W_Check d)"
      if "et_worker_pc (ct_threads d) \<noteq> W_Exit" "counted_todo cap d = counted_todo cap c" "et_consumer_done (ct_threads d)"
        "spsc_empty (et_queue (ct_threads d))" for d
    proof -
      have "counted_todo cap (worker_at W_Exit d) < counted_todo cap c"
        using worker_exit_todo [OF that(1), of cap] that(2) by simp
      then show x: "?adv (worker_at W_Check_Empty d)"
        by (simp add: advances_turn_to [OF worker_at_steps(3)] that(4) advances_now)
      then show "?adv (worker_at W_Check d)" by (simp add: advances_turn_to [OF worker_at_steps(2)] that(3))
    qed
    have "?adv (worker_at W_Check c')"
      using False emp q' cons spsc_empty_contents [OF q'(1)]
      by (intro leave) (simp_all add: c'_def counted_todo_def threads_todo_def)
    moreover have "counted_worker_act cap handle finished (worker_at W_Pop c) = worker_at W_Check c'"
      by (simp add: counted_worker_act_def worker_at_def c'_def pop q'(2))
    ultimately have popped: "?adv (worker_at W_Pop c)" by (simp add: advances_turn_to)
    with run have "?adv (worker_at W_Top c)" by (rule advances_turn_to [OF worker_at_steps(1)])
    with popped leave [of c] False top_pc cons e show ?thesis
      by (cases "et_worker_pc ?s") (simp_all add: worker_at_same)
  qed
qed

lemma counted_advance:
  assumes inv: "counted_inv cap msgs c" and live: "counted_live c" and cap: "1 < cap" and main: "et_main (ct_threads c) \<noteq> M_Report"
  shows "counted_advances cap handle finished (counted_todo cap c) c"
proof (cases "spsc_contents cap (et_queue (ct_threads c)) = [] \<and> ij_pc (et_producer (ct_threads c)) = J_Done")
  case False
  then show ?thesis using counted_drain [OF inv] counted_produce [OF inv cap] by blast
next
  case True
  let ?s = "ct_threads c"
  note defs = counted_main_act_def main_act_def counted_todo_def threads_todo_def main_after_def
  have pd: "ij_producer_done (et_producer ?s)" "rx_quiet ?s"
    using live inv True by (auto simp: counted_live_def counted_inv_def Let_def)
  show ?thesis
  proof (cases "et_main ?s")
    case M_Join_Consumer
    show ?thesis
    proof (cases "et_rx_ended ?s")
      case True
      with M_Join_Consumer show ?thesis by (intro advances_one_act [of Main]) (simp_all add: defs)
    next
      case False
      obtain pc n d where r: "receiver_act cap ?s = ?s\<lparr>et_rx_pc := pc, et_rx_empty_checks := n, et_consumer_done := d\<rparr>"
        using receiver_quiet(2) [OF pd(2)] by blast
      have "counted_todo cap (counted_act cap handle finished Receiver c) < counted_todo cap c"
        using receiver_turn_lowers [OF pd(2,1) False, of cap] by (simp add: counted_todo_def threads_todo_def r)
      then show ?thesis by (intro advances_one_act [of Receiver]) simp_all
    qed
  next
    case M_Join_Worker
    then have cons: "et_consumer_done ?s" using live by (simp add: counted_live_def main_after_def Let_def)
    show ?thesis
    proof (cases "ct_ended c")
      case True
      then have "et_worker_pc ?s = W_Exit" using inv by (simp add: counted_inv_def Let_def)
      with M_Join_Worker True show ?thesis by (intro advances_one_act [of Main]) (simp_all add: defs)
    next
      case False
      with counted_leave [OF inv _ cons] True show ?thesis by blast
    qed
  next
    case M_Join_Monitor
    then have "\<not> et_running ?s" using live by (simp add: counted_live_def main_after_def Let_def)
    then have "counted_todo cap (counted_act cap handle finished (if et_monitor_ended ?s then Main else Monitor) c) < counted_todo cap c"
      using M_Join_Monitor by (simp add: monitor_act_def defs)
    then show ?thesis by (rule advances_one_act [rotated 2]) simp_all
  qed (use True main in \<open>(intro advances_one_act [of Main]; simp add: defs)+\<close>)
qed

lemma counted_live_run:
  assumes "counted_inv cap msgs c" "counted_live c" "length msgs \<le> expected" "undisturbed acts"
  shows "counted_inv cap msgs (counted_run cap handle finished acts c) \<and> counted_live (counted_run cap handle finished acts c)"
  using assms
proof (induction acts arbitrary: c)
  case (Cons a acts)
  have a: "a \<noteq> Receiver_Fails" "a \<noteq> Signal" "undisturbed acts" using Cons.prems(4) by (auto simp: undisturbed_def)
  have "rx_quiet (ct_threads c)" using Cons.prems(1) by (simp add: counted_inv_def Let_def)
  with Cons.IH [OF counted_act_inv [OF Cons.prems(1,3) a(1,2)] counted_live_act [OF Cons.prems(2) a(1,2)] Cons.prems(3) a(3)]
  show ?case by (simp add: counted_run_def)
qed (simp add: counted_run_def)

lemma counted_reaches_report:
  assumes "counted_inv cap msgs c" "counted_live c" "length msgs \<le> expected" "1 < cap"
  shows "\<exists>more. undisturbed more \<and> et_main (ct_threads (counted_run cap handle finished more c)) = M_Report"
  using assms(1,2)
proof (induction "counted_todo cap c" arbitrary: c rule: less_induct)
  case less
  show ?case
  proof (cases "et_main (ct_threads c) = M_Report")
    case True
    then show ?thesis by (intro exI [of _ "[]"]) (simp add: counted_run_def undisturbed_def)
  next
    case False
    from counted_advance [OF less.prems assms(4) False] obtain acts where a: "undisturbed acts"
      "counted_todo cap (counted_run cap handle finished acts c) < counted_todo cap c" unfolding counted_advances_def by blast
    note run = counted_live_run [OF less.prems assms(3) a(1)]
    from less.hyps [OF a(2)] run obtain more where "undisturbed more"
      "et_main (ct_threads (counted_run cap handle finished more (counted_run cap handle finished acts c))) = M_Report" by blast
    with a(1) show ?thesis
      by (intro exI [of _ "acts @ more"]) (auto simp: counted_run_def undisturbed_def)
  qed
qed

lemma counted_can_finish:
  assumes "spsc_static_assert cap" "length buf = cap" "undisturbed acts" "length msgs \<le> expected"
  shows "\<exists>more. undisturbed more \<and>
    et_main (ct_threads (counted_run cap handle finished (acts @ more) (counted_start kind msgs buf [] w0))) = M_Report"
proof -
  let ?c = "counted_run cap handle finished acts (counted_start kind msgs buf [] w0)"
  have "counted_inv cap msgs ?c \<and> counted_live ?c"
    by (rule counted_live_run [OF counted_inv_start [OF assms(1,2)] counted_live_start assms(4,3)])
  moreover have "1 < cap" using assms(1) by (simp add: spsc_static_assert_def)
  ultimately show ?thesis using counted_reaches_report [of cap msgs ?c] assms(4) by (simp add: counted_run_def)
qed

end

end
