(* ===== verification/Data_Set_Run.thy ===== *)
theory Data_Set_Run
  imports Counted_Run Engine_Launcher
begin

text \<open>
  Whole runs in direct queue mode, from the bytes of a data set file to the books. The reference is an exchange in plain
  terms: the messages of the file in order, each parsed once, the first arrival of every sequence number, the risk gate,
  and a price-time priority book for each symbol. It knows no thread, queue, clock or ring. The lemmas below show that
  both matching programs compute it in every interleaving; the properties are in the root theory.
\<close>

subsection \<open>The reference exchange\<close>

text \<open>What a worker parses of a message: direct queue mode hands over at most 512 bytes.\<close>

definition wire_order :: "ProtocolType \<Rightarrow> string \<Rightarrow> ParsedOrder" where
  "wire_order proto msg = parse_in_place proto (Some (take 512 msg))"

text \<open>The first order of each number; unnumbered orders always pass.\<close>

fun first_arrivals :: "u64 set \<Rightarrow> ParsedOrder list \<Rightarrow> ParsedOrder list" where
  "first_arrivals seen [] = []"
| "first_arrivals seen (ord # ords) =
     (if seq_num ord = 0 then ord # first_arrivals seen ords
      else if seq_num ord \<in> seen then first_arrivals seen ords
      else ord # first_arrivals (insert (seq_num ord) seen) ords)"

definition admissible :: "ParsedOrder \<Rightarrow> bool" where
  "admissible ord \<longleftrightarrow> risk_passes default_limits ord \<and> msg_type_char ord = CHR ''D''"

definition admitted_orders :: "ProtocolType \<Rightarrow> string list \<Rightarrow> ParsedOrder list" where
  "admitted_orders proto msgs = filter admissible (first_arrivals {} (map (wire_order proto) msgs))"

record exchange =
  ex_books :: "string \<Rightarrow> lob"
  ex_trades :: nat
  ex_volume :: nat

definition exchange_init :: exchange where
  "exchange_init = \<lparr>ex_books = (\<lambda>_. lob_empty), ex_trades = 0, ex_volume = 0\<rparr>"

definition exchange_step :: "ParsedOrder \<Rightarrow> exchange \<Rightarrow> exchange" where
  "exchange_step ord x =
     (let (fills, book) = spec_submit (\<lambda>i. i) ord (ex_books x (route ord))
      in \<lparr>ex_books = (ex_books x)(route ord := book), ex_trades = ex_trades x + length fills,
          ex_volume = ex_volume x + fill_sum fills\<rparr>)"

definition exchange_run :: "ParsedOrder list \<Rightarrow> exchange" where
  "exchange_run ords = fold exchange_step ords exchange_init"

text \<open>
  The single book of fixed capacity: a residual rests only while its side has fewer than 64 prices and
  fewer than 32 orders at its own.
\<close>

definition lob_room :: "resting list \<Rightarrow> int \<Rightarrow> bool" where
  "lob_room rs p \<longleftrightarrow> card (r_price ` set rs) < 64 \<and> length (filter (\<lambda>r. r_price r = p) rs) < 32"

definition bounded_submit :: "ParsedOrder \<Rightarrow> lob \<Rightarrow> fill list \<times> lob" where
  "bounded_submit ord b =
     (let (fills, book) = spec_submit z_ident ord b
      in (fills, book\<lparr>
        lob_bids := (if side ord = 1 \<and> \<not> lob_room (lob_bids b) (price ord) then lob_bids b else lob_bids book),
        lob_asks := (if side ord = 2 \<and> \<not> lob_room (lob_asks b) (price ord) then lob_asks b else lob_asks book)\<rparr>))"

definition bounded_run :: "ParsedOrder list \<Rightarrow> fill list list \<times> lob" where
  "bounded_run ords = book_run bounded_submit ords lob_empty"

subsection \<open>Arbitration of a whole data set\<close>

text \<open>
  What arbitration by a table of 2048 slots needs of the numbers of a stream, most recent first in \<open>past\<close>: a copy arrives before
  another number of its slot. Streams whose numbers are distinct, and streams within one window, satisfy it.
\<close>

fun copies_in_window :: "u64 list \<Rightarrow> u64 list \<Rightarrow> bool" where
  "copies_in_window past [] = True"
| "copies_in_window past (s # ss) =
     (if s = 0 then copies_in_window past ss
      else (s \<in> set past \<longrightarrow> find (\<lambda>k. window_index 2048 k = window_index 2048 s) past = Some s) \<and>
        copies_in_window (s # past) ss)"

lemma copies_in_window_distinct:
  "distinct (filter (\<lambda>s. s \<noteq> 0) ss) \<Longrightarrow> set past \<inter> set ss = {} \<Longrightarrow> copies_in_window past ss"
  by (induction ss arbitrary: past) auto

lemma copies_in_window_window:
  assumes "set (past @ ss) - {0} \<subseteq> seq_window 2048 lo" "0 \<notin> set past"
  shows "copies_in_window past ss"
  using assms
proof (induction ss arbitrary: past)
  case (Cons s ss)
  have "find (\<lambda>k. window_index 2048 k = window_index 2048 s) past = Some s" if "s \<noteq> 0" "s \<in> set past"
  proof -
    have "window_index 2048 k = window_index 2048 s \<longleftrightarrow> k = s" if "k \<in> set past" for k
      using that Cons.prems \<open>s \<noteq> 0\<close> window_index_inj [of 2048 k lo s] arbitrator_init_wf by fastforce
    then have "find (\<lambda>k. window_index 2048 k = window_index 2048 s) past = find (\<lambda>k. k = s) past"
      by (induction past) auto
    also have "\<dots> = Some s" using that(2) by (induction past) auto
    finally show ?thesis .
  qed
  with Cons show ?case by auto
qed simp

text \<open>The table holds the most recent number of every slot.\<close>

definition arb_recent :: "FeedArbitrator \<Rightarrow> u64 list \<Rightarrow> bool" where
  "arb_recent a past \<longleftrightarrow> arb_wf 2048 a \<and>
     (\<forall>k. k \<noteq> 0 \<longrightarrow> arb_seen 2048 a k \<longleftrightarrow> find (\<lambda>j. window_index 2048 j = window_index 2048 k) past = Some k)"

lemma arb_recent_init: "arb_recent (arbitrator_init 2048) []"
  using arb_init_unseen arbitrator_init_wf by (simp add: arb_recent_def)

lemma arb_recent_step:
  assumes "arb_recent a past" "s \<noteq> 0"
  shows "arb_recent (snd (arb_step 2048 a (LINE_A, s))) (s # past)"
  using assms arbitrator_init_wf arb_step_simps(2) [of 2048 a "(LINE_A, s)"] arb_seen_step [of 2048 a "(LINE_A, s)"]
  by (auto simp: arb_recent_def)

lemma passed_first_arrivals:
  assumes "copies_in_window past (map (\<lambda>ev. seq_num (fst ev)) evs)" "arb_recent a past"
    and "\<And>ord. seq_num (g ord) = seq_num ord"
  shows "map (\<lambda>ev. g (fst ev)) (fst (filter_run feed_event a evs)) =
    first_arrivals (set past) (map (\<lambda>ev. g (fst ev)) evs)"
  using assms(1,2)
proof (induction evs arbitrary: a past)
  case (Cons ev evs)
  let ?s = "seq_num (fst ev)"
  show ?case
  proof (cases "?s = 0")
    case True
    then have "feed_event a ev = (True, a)" by (simp add: feed_event_def feed_step_def)
    with Cons True assms(3) show ?thesis by (simp add: Let_def split_beta)
  next
    case False
    then have step: "feed_event a ev = arb_step 2048 a (LINE_A, ?s)"
      by (simp add: feed_event_def feed_step_def word_gt_0)
    have acc: "fst (arb_step 2048 a (LINE_A, ?s)) \<longleftrightarrow> \<not> arb_seen 2048 a ?s"
      using Cons.prems(2) arbitrator_init_wf arb_step_simps(1) [of 2048 a "(LINE_A, ?s)"] by (simp add: arb_recent_def)
    have seen: "arb_seen 2048 a ?s \<longleftrightarrow> ?s \<in> set past"
      using Cons.prems False by (auto simp: arb_recent_def find_Some_iff)
    have "map (\<lambda>ev. g (fst ev)) (fst (filter_run feed_event (snd (feed_event a ev)) evs)) =
        first_arrivals (set (?s # past)) (map (\<lambda>ev. g (fst ev)) evs)"
      using Cons.prems False by (intro Cons.IH) (simp_all add: step arb_recent_step)
    with False seen acc assms(3) show ?thesis by (simp add: Let_def split_beta step insert_absorb)
  qed
qed simp

subsection \<open>The events of a run against the orders of the data set\<close>

text \<open>An event is an order of the data set but for the measured latency, on which nothing below depends.\<close>

definition unmeasured :: "ParsedOrder \<Rightarrow> ParsedOrder" where
  "unmeasured ord = ord\<lparr>latency_ns := 0\<rparr>"

lemma unmeasured_simps [simp]:
  "seq_num (unmeasured ord) = seq_num ord" "unmeasured (ord\<lparr>latency_ns := l\<rparr>) = unmeasured ord"
  "admissible (unmeasured ord) = admissible ord" "route (unmeasured ord) = route ord"
  "spec_submit f (unmeasured ord) = spec_submit f ord" "bounded_submit (unmeasured ord) = bounded_submit ord"
  "exchange_step (unmeasured ord) = exchange_step ord"
proof -
  show u: "seq_num (unmeasured ord) = seq_num ord" "unmeasured (ord\<lparr>latency_ns := l\<rparr>) = unmeasured ord"
    "route (unmeasured ord) = route ord" for l
    by (simp_all add: unmeasured_def route_def)
  show s: "spec_submit f (unmeasured ord) = spec_submit f ord" for f by (simp add: spec_submit_def unmeasured_def)
  show "bounded_submit (unmeasured ord) = bounded_submit ord"
    by (rule ext) (simp add: bounded_submit_def s, simp add: unmeasured_def)
  show "exchange_step (unmeasured ord) = exchange_step ord" by (rule ext) (simp add: exchange_step_def s u)
  show "admissible (unmeasured ord) = admissible ord"
    by (simp add: admissible_def risk_passes_def evaluate_order_def unmeasured_def Let_def)
qed

lemma filter_admissible_unmeasured: "filter admissible (map unmeasured ords) = map unmeasured (filter admissible ords)"
  by (simp add: filter_map comp_def)

lemma first_arrivals_unmeasured: "first_arrivals S (map unmeasured ords) = map unmeasured (first_arrivals S ords)"
  by (induction ords arbitrary: S) simp_all

text \<open>Packets whose bytes, as a parser is given them, are those of the messages.\<close>

definition carries :: "FixMessagePacket list \<Rightarrow> string list \<Rightarrow> bool" where
  "carries pkts msgs \<longleftrightarrow> list_all2 (\<lambda>pkt msg. pkt_bytes pkt = Some (take 512 msg)) pkts msgs"

lemma direct_carries: "list_all is_direct pkts \<Longrightarrow> carries pkts (map (the \<circ> pkt_payload) pkts)"
  by (simp add: carries_def list_all2_conv_all_nth list_all_length is_direct_bytes)

lemma packet_orders_unmeasured:
  assumes "carries pkts msgs"
  shows "map (\<lambda>ev. unmeasured (fst ev)) (packet_orders env n pkts) = map unmeasured (map (wire_order (we_protocol env)) msgs)"
  using assms unfolding carries_def
  by (induction pkts msgs arbitrary: n rule: list_all2_induct)
    (simp_all add: packet_order_def Let_def split_beta wire_order_def)

text \<open>What reaches a book is what the reference admits.\<close>

lemma booked_events:
  assumes "carries pkts msgs"
    and "copies_in_window [] (map (\<lambda>msg. seq_num (wire_order (we_protocol env) msg)) msgs)"
  shows "map (\<lambda>ev. unmeasured (fst ev)) (filter (bookable default_limits) (passed env (arbitrator_init 2048) 0 pkts)) =
    map unmeasured (admitted_orders (we_protocol env) msgs)"
proof -
  let ?evs = "packet_orders env 0 pkts" and ?ords = "map (wire_order (we_protocol env)) msgs"
  have ords: "map (\<lambda>ev. unmeasured (fst ev)) ?evs = map unmeasured ?ords"
    by (rule packet_orders_unmeasured [OF assms(1)])
  from arg_cong [OF this, of "map seq_num"]
  have seqs: "map (\<lambda>ev. seq_num (fst ev)) ?evs = map (\<lambda>msg. seq_num (wire_order (we_protocol env) msg)) msgs"
    by (simp add: comp_def)
  have book: "filter (bookable default_limits) evs = filter (\<lambda>ev. admissible (unmeasured (fst ev))) evs" for evs
    using unmeasured_simps(3) by (intro filter_cong refl) (simp add: bookable_def flip: admissible_def)
  have "map (\<lambda>ev. unmeasured (fst ev)) (filter (bookable default_limits) (passed env (arbitrator_init 2048) 0 pkts)) =
      filter admissible (map (\<lambda>ev. unmeasured (fst ev)) (passed env (arbitrator_init 2048) 0 pkts))"
    unfolding book filter_map by (simp add: comp_def)
  also have "\<dots> = filter admissible (first_arrivals {} (map unmeasured ?ords))"
    using passed_first_arrivals [of "[]" ?evs _ unmeasured, OF _ arb_recent_init] assms(2) seqs ords
    by (simp add: passed_def)
  also have "\<dots> = map unmeasured (admitted_orders (we_protocol env) msgs)"
    by (simp add: admitted_orders_def first_arrivals_unmeasured filter_admissible_unmeasured del: map_map)
  finally show ?thesis .
qed

subsection \<open>The matching engine is the exchange\<close>

definition exchange_rel :: "MatchingEngine \<Rightarrow> exchange \<Rightarrow> bool" where
  "exchange_rel eng x \<longleftrightarrow> eng_inv eng \<and> (\<forall>k. book_abs (book_for eng k) = ex_books x k) \<and>
     total_trades eng = of_nat (ex_trades x) \<and> m_trade_counter eng = of_nat (ex_trades x) \<and>
     total_volume eng = of_nat (ex_volume x)"

lemma exchange_rel_init: "exchange_rel matching_engine_init exchange_init"
  by (simp add: exchange_rel_def exchange_init_def eng_inv_def matching_engine_init_def book_for_def
      matching_book_init_abs total_trades_def total_volume_def)

lemma exchange_rel_step:
  assumes "exchange_rel eng x"
  shows "exchange_rel (me_event ev eng) (exchange_step (fst ev) x)"
proof -
  obtain fs lb where spec: "spec_submit (\<lambda>i. i) (fst ev) (ex_books x (route (fst ev))) = (fs, lb)" by fastforce
  then have "spec_submit (\<lambda>x. x) (fst ev) (book_abs (book_for eng (route (fst ev)))) = (fs, lb)"
    using assms by (simp add: exchange_rel_def)
  note M = me_event_refines [OF _ this]
  have inv: "eng_inv eng" using assms by (simp add: exchange_rel_def)
  have "book_abs (book_for (me_event ev eng) k) = (if k = route (fst ev) then lb else ex_books x k)" for k
    using M(2,3) [OF inv] assms by (simp add: exchange_rel_def)
  with assms M(1,4,5,6) [OF inv] show ?thesis by (simp add: exchange_rel_def exchange_step_def spec)
qed

lemma exchange_rel_run:
  assumes "exchange_rel eng x" "map (\<lambda>ev. unmeasured (fst ev)) evs = map unmeasured ords"
  shows "exchange_rel (fold me_event evs eng) (fold exchange_step ords x)"
  using assms
proof (induction evs arbitrary: eng x ords)
  case (Cons ev evs)
  then obtain ord ords' where o: "ords = ord # ords'" "unmeasured (fst ev) = unmeasured ord"
    "map (\<lambda>ev. unmeasured (fst ev)) evs = map unmeasured ords'" by (cases ords) auto
  have "exchange_step (fst ev) = exchange_step ord" using arg_cong [OF o(2), of exchange_step] by simp
  with exchange_rel_step [OF Cons.prems(1), of ev] Cons.IH o show ?case by simp
qed simp

subsection \<open>The zero-allocation book is the bounded book\<close>

lemma sorted_wrt_distinct: "sorted_wrt (\<lambda>p q. place_before bid p q) ps \<Longrightarrow> distinct ps"
  by (induction ps) auto

lemma image_single: "S \<noteq> {} \<Longrightarrow> \<forall>x \<in> S. f x = c \<Longrightarrow> f ` S = {c}"
  by auto

lemma level_prices:
  assumes "side_wf bid s"
  shows "distinct (map lvl_price (side_levels s))" and "card (r_price ` set (side_abs s)) = level_count s"
proof -
  let ?ls = "side_levels s"
  have pw: "ptrs_wf s" and ok: "\<forall>l \<in> set ?ls. level_ok l" and srt: "levels_sorted bid ?ls"
    using assms by (simp_all add: side_wf_def list_all_iff)
  have "r_price ` set (level_abs l) = {lvl_price l}" if "l \<in> set ?ls" for l
  proof -
    have l: "level_ok l" using that ok by blast
    then have "set (level_abs l) \<noteq> {}" using level_abs_empty [of l] by (simp add: level_ok_def)
    moreover have "\<forall>r \<in> set (level_abs l). r_price r = lvl_price l" using l by (simp add: level_ok_def)
    ultimately show ?thesis by (rule image_single)
  qed
  then have "r_price ` set (side_abs s) = lvl_price ` set ?ls"
    by (auto simp: side_abs_def image_UN)
  moreover have "sorted_wrt (\<lambda>p q. place_before bid p q) (map lvl_price ?ls)"
    using srt by (simp add: levels_sorted_def sorted_wrt_map)
  then show dist: "distinct (map lvl_price ?ls)" by (rule sorted_wrt_distinct)
  have "card (lvl_price ` set ?ls) = length ?ls" using distinct_card [OF dist] by simp
  ultimately show "card (r_price ` set (side_abs s)) = level_count s" using length_side_levels [OF pw] by simp
qed

lemma level_at_price:
  assumes "side_wf bid s"
  shows "level_room s p \<longleftrightarrow> length (filter (\<lambda>r. r_price r = p) (side_abs s)) < 32"
proof -
  have ok: "\<forall>l \<in> set (side_levels s). \<forall>r \<in> set (level_abs l). r_price r = lvl_price l"
    using assms by (simp add: side_wf_def list_all_iff level_ok_def)
  have none: "filter (\<lambda>r. r_price r = p) (concat (map level_abs ls)) = []"
    if "set ls \<subseteq> set (side_levels s)" "p \<notin> lvl_price ` set ls" for ls
    using that ok by (fastforce simp: filter_empty_conv)
  show ?thesis
  proof (cases "p \<in> lvl_price ` set (side_levels s)")
    case False
    then show ?thesis using none [of "side_levels s"] by (auto simp: level_room_def list_all_iff side_abs_def)
  next
    case True
    then obtain l as bs where l: "lvl_price l = p" "side_levels s = as @ l # bs" by (metis imageE in_set_conv_decomp)
    have out: "p \<notin> lvl_price ` set as" "p \<notin> lvl_price ` set bs" using level_prices(1) [OF assms] l by auto
    moreover have "filter (\<lambda>r. r_price r = p) (level_abs l) = level_abs l" using ok l by (simp add: filter_id_conv)
    moreover have "set as \<subseteq> set (side_levels s)" "set bs \<subseteq> set (side_levels s)" using l(2) by auto
    then have "filter (\<lambda>r. r_price r = p) (concat (map level_abs as)) = []"
      "filter (\<lambda>r. r_price r = p) (concat (map level_abs bs)) = []" using out by (simp_all only: none not_False_eq_True)
    ultimately have "filter (\<lambda>r. r_price r = p) (side_abs s) = level_abs l"
      using l(2) by (simp add: side_abs_def)
    moreover have "level_room s p \<longleftrightarrow> order_count l < 32"
      using l out by (auto simp: level_room_def list_all_iff MAX_ORDERS_PER_LEVEL_def dest: image_eqI [OF sym])
    ultimately show ?thesis by simp
  qed
qed

lemma side_room_lob: "side_wf bid s \<Longrightarrow> side_room s p = lob_room (side_abs s) p"
  using level_prices(2) [of bid s] level_at_price [of bid s p] by (simp add: side_room_def lob_room_def MAX_BOOK_LEVELS_def)

lemma z_abs_sides: "lob_bids (z_abs b) = side_abs (z_bids b)" "lob_asks (z_abs b) = side_abs (z_asks b)"
  by (simp_all add: z_abs_def)

lemma z_event_bounded:
  assumes "core_inv Q mx (arr, c, b)" "z_event ev (arr, c, b) = (arr', c', b')" "bounded_submit (fst ev) (z_abs b) = (fs, lb)"
  shows "z_abs b' = lb" "z_total_trades b' = z_total_trades b + of_nat (length fs)"
    "z_total_volume b' = z_total_volume b + of_nat (fill_sum fs)" "c' = c + of_nat (min 16 (length fs))"
proof -
  have b: "z_inv b" "length arr = 16" using assms(1) by (simp_all add: core_inv_def)
  then have wf: "side_wf True (z_bids b)" "side_wf False (z_asks b)" by (simp_all add: z_inv_def)
  obtain gen out c1 b1 where sub: "z_submit_order (fst ev) (Some arr) 16 c (snd ev) b = (gen, out, c1, b1)" by (metis prod_cases4)
  then have e: "c' = c1" "b' = b1" using assms(2) b(2) by (simp_all add: z_event_def)
  obtain gs lb0 where spec: "spec_submit z_ident (fst ev) (z_abs b) = (gs, lb0)" by fastforce
  have fit: "case Some arr of None \<Rightarrow> True | Some a \<Rightarrow> 16 \<le> length a" using b(2) by simp
  have fs: "fs = gs" "lb = lb0\<lparr>
      lob_bids := (if side (fst ev) = 1 \<and> \<not> side_room (z_bids b) (price (fst ev)) then lob_bids (z_abs b) else lob_bids lb0),
      lob_asks := (if side (fst ev) = 2 \<and> \<not> side_room (z_asks b) (price (fst ev)) then lob_asks (z_abs b) else lob_asks lb0)\<rparr>"
    using assms(3) side_room_lob [OF wf(1)] side_room_lob [OF wf(2)] z_abs_sides [of b]
    by (simp_all add: bounded_submit_def spec)
  from z_submit_order_refines [OF b(1) fit sub spec] fs
  show "z_abs b' = lb" "z_total_trades b' = z_total_trades b + of_nat (length fs)"
    "z_total_volume b' = z_total_volume b + of_nat (fill_sum fs)" "c' = c + of_nat (min 16 (length fs))"
    by (simp_all add: e min.commute)
qed

text \<open>The fills of a whole run, as the counters see them: all in the totals, sixteen of an order in the trade numbers.\<close>

lemma bounded_events:
  assumes "core_inv (\<lambda>_. True) (-1) (arr, c, b)" "fold z_event evs (arr, c, b) = (arr', c', b')"
    and "map (\<lambda>ev. unmeasured (fst ev)) evs = map unmeasured ords" "book_run bounded_submit ords (z_abs b) = (fss, lb)"
  shows "z_abs b' = lb \<and> z_total_trades b' = z_total_trades b + of_nat (sum_list (map length fss)) \<and>
    z_total_volume b' = z_total_volume b + of_nat (sum_list (map fill_sum fss)) \<and>
    c' = c + of_nat (sum_list (map (\<lambda>fs. min 16 (length fs)) fss))"
  using assms
proof (induction evs arbitrary: arr c b ords fss)
  case (Cons ev evs)
  then obtain ord ords' where o: "ords = ord # ords'" "unmeasured (fst ev) = unmeasured ord"
    "map (\<lambda>ev. unmeasured (fst ev)) evs = map unmeasured ords'" by (cases ords) auto
  have same: "bounded_submit (fst ev) = bounded_submit ord" using arg_cong [OF o(2), of bounded_submit] by simp
  obtain fs lb1 where sub: "bounded_submit ord (z_abs b) = (fs, lb1)" by fastforce
  obtain gss where rest: "book_run bounded_submit ords' lb1 = (gss, lb)" "fss = fs # gss"
    using Cons.prems(4) sub o(1) by (auto simp: Let_def split: prod.splits)
  obtain arr1 c1 b1 where e: "z_event ev (arr, c, b) = (arr1, c1, b1)" using prod_cases3 by blast
  note Z = z_event_bounded [OF Cons.prems(1) e sub [folded same]]
  have "core_inv (\<lambda>_. True) (-1) (arr1, c1, b1)" using z_event_inv [OF Cons.prems(1), of ev] by (simp add: e)
  moreover have "fold z_event evs (arr1, c1, b1) = (arr', c', b')" using Cons.prems(2) by (simp add: e)
  moreover have "book_run bounded_submit ords' (z_abs b1) = (gss, lb)" using rest(1) Z(1) by simp
  ultimately have "z_abs b' = lb \<and> z_total_trades b' = z_total_trades b1 + of_nat (sum_list (map length gss)) \<and>
      z_total_volume b' = z_total_volume b1 + of_nat (sum_list (map fill_sum gss)) \<and>
      c' = c1 + of_nat (sum_list (map (\<lambda>fs. min 16 (length fs)) gss))"
    by (rule Cons.IH [OF _ _ o(3)])
  then show ?case unfolding rest(2) Z by simp
qed simp

subsection \<open>The two programs on a data set\<close>

text \<open>What the launcher hands to the producer and to the worker.\<close>

lemma launch_data_set:
  assumes "launch fs cpus args = Launch c"
  shows "lc_total_messages c = count_messages fs (lc_source c)"
    and "lc_fix_file_path c = (if fs (lc_source c) \<noteq> None then lc_source c else [])"
proof -
  obtain opts where "configure fs cpus opts = Launch c"
    using assms by (auto simp: launch_def split: if_splits option.splits)
  then show "lc_total_messages c = count_messages fs (lc_source c)"
    "lc_fix_file_path c = (if fs (lc_source c) \<noteq> None then lc_source c else [])"
    unfolding configure_def Let_def
    by (auto simp only: prod.case option.case launch_result.inject launch_result.distinct launch_config.select_convs split_beta
        split: option.splits)
qed

lemma matching_data_set:
  fixes clock :: "'d ClockSynchronizer"
  assumes "carries pkts msgs"
    and "copies_in_window [] (map (\<lambda>msg. seq_num (wire_order (we_protocol env) msg)) msgs)"
  shows "exchange_rel (mw_matching_engine (handle_all (mw_handle env) pkts (matching_worker_init n clock frames)))
    (exchange_run (admitted_orders (we_protocol env) msgs))"
  unfolding mw_run_core exchange_run_def
  using exchange_rel_run [OF exchange_rel_init booked_events [OF assms]] .

lemma order_book_data_set:
  assumes "carries pkts msgs"
    and "copies_in_window [] (map (\<lambda>msg. seq_num (wire_order (we_protocol env) msg)) msgs)"
    and "bounded_run (admitted_orders (we_protocol env) msgs) = (fss, lb)"
    and e_def: "e = engine_run env pkts (order_book_engine_init frames)"
  shows "z_abs (oe_order_book e) = lb \<and> z_total_trades (oe_order_book e) = of_nat (sum_list (map length fss)) \<and>
    z_total_volume (oe_order_book e) = of_nat (sum_list (map fill_sum fss)) \<and>
    oe_trade_counter e = of_nat (sum_list (map (\<lambda>fs. min 16 (length fs)) fss))"
proof -
  let ?evs = "filter (bookable default_limits) (passed env (arbitrator_init 2048) 0 pkts)"
  define e0 where "e0 = order_book_engine_init frames"
  have run: "fold z_event ?evs (oe_trade_batch e0, oe_trade_counter e0, oe_order_book e0) =
      (oe_trade_batch e, oe_trade_counter e, oe_order_book e)"
    using engine_run_core [of env pkts frames] by (simp add: engine_core_def e_def e0_def)
  have inv: "core_inv (\<lambda>_. True) (-1) (oe_trade_batch e0, oe_trade_counter e0, oe_order_book e0)"
    using engine_core_init by (simp add: engine_core_def e0_def)
  have init: "z_abs (oe_order_book e0) = lob_empty" "z_total_trades (oe_order_book e0) = 0"
    "z_total_volume (oe_order_book e0) = 0" "oe_trade_counter e0 = 0"
    by (simp_all add: e0_def order_book_engine_init_def zero_alloc_init_inv) (simp_all add: zero_alloc_init_def)
  have "book_run bounded_submit (admitted_orders (we_protocol env) msgs) (z_abs (oe_order_book e0)) = (fss, lb)"
    using assms(3) by (simp add: bounded_run_def init)
  from bounded_events [OF inv run booked_events [OF assms(1,2)] this] show ?thesis
    by (simp add: init)
qed

subsection \<open>Example: a data set of one message\<close>

definition sample_line :: string where
  "sample_line = synthetic_message 1"

definition sample_files :: "string \<Rightarrow> string option" where
  "sample_files path = (if path = ''a.txt'' then Some (sample_line @ [CHR 0x0A]) else None)"

definition sample_order :: ParsedOrder where
  "sample_order = default_order\<lparr>msg_type := ''D'', msg_type_char := CHR ''D'', seq_num := 1, cl_ord_id := ''ORD_1'',
     symbol := ''PETR4'', side := 1, quantity := 1000, price := 35850000\<rparr>"

definition sample_resting :: resting where
  "sample_resting = \<lparr>r_price = 35850000, r_id = ''ORD_1'', r_qty = 1000\<rparr>"

lemma sample_line_text:
  "sample_line = fix_message (CHR 0x01) (synthetic_fields 1)" "set sample_line \<inter> {CHR 0x0A, CHR 0x0D} = {}"
  "sample_line \<noteq> []" "take 2 sample_line = ''8=''" "8 \<le> length sample_line"
proof -
  show eq: "sample_line = fix_message (CHR 0x01) (synthetic_fields 1)"
    unfolding sample_line_def by (rule synthetic_message_whole) simp
  show "set sample_line \<inter> {CHR 0x0A, CHR 0x0D} = {}" "sample_line \<noteq> []" "take 2 sample_line = ''8=''" "8 \<le> length sample_line"
    unfolding eq by (simp_all add: fix_message_def fix_field_def synthetic_fields_def dec_string.simps)
qed

lemma sample_line_order: "wire_order FIX sample_line = sample_order"
  using synthetic_message_parses [of 1] sample_line_text(3)
  by (simp add: wire_order_def parse_in_place_FIX sample_line_def sample_order_def dec_string.simps)

lemma sample_content:
  "\<not> is_binary ''a.txt'' (sample_line @ [CHR 0x0A])" "CHR 0x0D \<notin> set (sample_line @ [CHR 0x0A])"
  "load_messages ''a.txt'' (Some (sample_line @ [CHR 0x0A])) = Inr [sample_line]"
proof -
  obtain rest where r: "sample_line = ''8='' @ rest" using sample_line_text(4) append_take_drop_id [of 2 sample_line] by metis
  show nb: "\<not> is_binary ''a.txt'' (sample_line @ [CHR 0x0A])"
    unfolding r by (simp add: is_binary_def starts_with_def)
  show "CHR 0x0D \<notin> set (sample_line @ [CHR 0x0A])" using sample_line_text(2) by auto
  have "runs is_newline (concat (map (\<lambda>m. m @ [CHR 0x0A]) [sample_line])) = [sample_line]"
    using sample_line_text(2,3) by (intro runs_lines) (auto simp: is_newline_def list_all_iff)
  with nb sample_line_text(5) show "load_messages ''a.txt'' (Some (sample_line @ [CHR 0x0A])) = Inr [sample_line]"
    by (simp add: load_messages_whole text_records_runs)
qed

lemma sample_admitted: "admitted_orders FIX [sample_line] = [sample_order]"
  by (simp add: admitted_orders_def sample_line_order)
    (simp add: sample_order_def admissible_def risk_passes_def evaluate_order_def risk_reject_def price_deviation_def
      notional_usd_def risk_manager_init_def default_limits_def reference_price_def Let_def in_i64_def)

lemma sample_exchange: "lob_bids (ex_books (exchange_run [sample_order]) ''PETR4'') = [sample_resting]"
  by (simp add: exchange_run_def exchange_step_def exchange_init_def sample_order_def spec_submit_def lob_submit_def
      lob_empty_def lob_rest_def route_def sample_resting_def)

lemma sample_bounded: "bounded_run [sample_order] = ([[]], \<lparr>lob_bids = [sample_resting], lob_asks = []\<rparr>)"
  by (simp add: bounded_run_def bounded_submit_def sample_order_def spec_submit_def lob_submit_def lob_room_def z_ident_def
      lob_empty_def lob_rest_def sample_resting_def cstr_def)

definition sample_args :: "string list" where
  "sample_args = [''lo'', ''8888'', ''a.txt'', ''--direct-queue'', ''--protocol=FIX'']"

lemma sample_launch:
  "\<exists>c. launch sample_files 4 sample_args = Launch c \<and> lc_source c = ''a.txt'' \<and> lc_fix_file_path c = ''a.txt'' \<and>
     lc_protocol c = FIX \<and> lc_total_messages c = 1"
proof -
  have "parse_protocol_type ''FIX'' = FIX" by code_simp
  moreover have "count_messages sample_files ''a.txt'' = 1"
    using launcher_counts_messages [of sample_files "''a.txt''" "sample_line @ [CHR 0x0A]"] sample_content
    by (simp add: sample_files_def)
  ultimately show ?thesis
    by (simp add: launch_def sample_args_def parse_option_def starts_with_def no_options_def configure_def take_rx_def take_tx_def
        take_port_def take_source_def stoul_def is_space_def is_digit_def dec_value_def digit_val_def Let_def sample_files_def)
qed

definition fix_env :: worker_env where
  "fix_env = sample_env\<lparr>we_protocol := FIX\<rparr>"

lemma fix_env_protocol: "we_protocol fix_env = FIX"
  by (simp add: fix_env_def)

text \<open>The worker finishes on the first packet when it expects one: a fresh arbitrator refuses nothing.\<close>

lemma first_packet_finishes:
  "mw_finished (snd (mw_handle env p (matching_worker_init 1 clock frames)))"
  "handle_batch (mw_handle env) mw_finished [p] (matching_worker_init 1 clock frames) =
     ([], snd (mw_handle env p (matching_worker_init 1 clock frames)))"
proof -
  have "fst (feed_event (arbitrator_init 2048) ev)" for ev
    using arb_init_unseen [of 2048 "seq_num (fst ev)"] arbitrator_init_wf arb_step_simps(1) [of 2048 "arbitrator_init 2048"]
    by (auto simp: feed_event_def feed_step_def)
  then have "processed (mw_stats (snd (mw_handle env p (matching_worker_init 1 clock frames)))) = 1"
    "mw_expected_messages (snd (mw_handle env p (matching_worker_init 1 clock frames))) = 1"
    by (simp_all add: mw_handle_spec [OF refl] count_latency_def count_verdict_def worker_stats_init_def)
      (simp add: matching_worker_init_def)
  then show f: "mw_finished (snd (mw_handle env p (matching_worker_init 1 clock frames)))" by (simp add: mw_finished_def)
  show "handle_batch (mw_handle env) mw_finished [p] (matching_worker_init 1 clock frames) =
     ([], snd (mw_handle env p (matching_worker_init 1 clock frames)))"
    by (simp add: split_beta)
qed

definition sample_counted_acts :: "thread_action list" where
  "sample_counted_acts = [Producer 5, Producer 5, Worker, Worker, Worker, Producer 5, Main, Main, Receiver, Receiver, Receiver, Main, Main]"

lemma sample_counted_stops:
  fixes clock :: "'d ClockSynchronizer"
  shows "et_main (ct_threads (counted_run 4 (mw_handle env) mw_finished sample_counted_acts
     (counted_start kind [m] (replicate 4 (direct_packet 0 [])) [] (matching_worker_init 1 clock frames)))) = M_Stop"
  using first_packet_finishes [of env _ clock frames]
  by (simp add: counted_run_def sample_counted_acts_def counted_start_def threads_start_def producer_act_def counted_main_act_def
      main_act_def counted_worker_act_def worker_act_def receiver_act_def inject_step_def inject_init_def spsc_init_def
      spsc_pop_batch_def spsc_push_def spsc_empty_def Let_def replicate_four del: handle_batch.simps)

text \<open>
  The single book does not look at the symbol: a sell order for another instrument trades with a resting buy order for PETR4.
  The exchange with a book for each symbol keeps them apart.
\<close>

definition foreign_order :: ParsedOrder where
  "foreign_order = sample_order\<lparr>symbol := ''VALE3'', side := 2, cl_ord_id := ''ORD_2'', seq_num := 2\<rparr>"

lemma order_book_ignores_symbol:
  "bounded_run [sample_order, foreign_order] = ([[], [fill_of sample_resting 1000]], lob_empty)"
  "ex_trades (exchange_run [sample_order, foreign_order]) = 0"
  by (simp_all add: foreign_order_def bounded_run_def bounded_submit_def sample_order_def spec_submit_def lob_submit_def lob_room_def
      z_ident_def lob_empty_def lob_rest_def sample_resting_def cstr_def place_before_def exchange_run_def exchange_step_def
      exchange_init_def route_def)

end
