(* ===== verification/Network_Run.thy ===== *)
theory Network_Run
  imports Data_Set_Run Rx_Loop
begin

text \<open>
  Network mode with the order book engine: datagrams arrive in the mapped ring, the receiver of theory \<open>Rx_Loop\<close> captures them,
  and the engine handles the packets it pops. The kernel fills the frames of the ring one after the other and drops a
  datagram that finds its frame not handed back, as \<open>packet_mmap\<close> documents. The system runs: \<open>g_running\<close> is up.
\<close>

text \<open>A datagram as it lies in a frame: its start in the slot, the parts of its headers, its payload, and what else is there.\<close>

record datagram =
  dg_start :: nat
  dg_macs :: string
  dg_iph :: string
  dg_src :: string
  dg_csum :: string
  dg_payload :: string
  dg_rest :: "nat \<Rightarrow> char"

definition dg_frame :: "u16 \<Rightarrow> datagram \<Rightarrow> string" where
  "dg_frame port d = udp_frame (dg_macs d) (dg_iph d) (dg_src d) (unat port) (dg_csum d) (dg_payload d)"

definition datagram_ok :: "datagram \<Rightarrow> bool" where
  "datagram_ok d \<longleftrightarrow> dg_start d \<le> 1454 \<and> length (dg_macs d) = 12 \<and> ip_header_ok (dg_iph d) \<and> length (dg_src d) = 2 \<and>
     length (dg_csum d) = 2 \<and> 0 < length (dg_payload d) \<and> length (dg_payload d) \<le> MAX_PAYLOAD_LEN"

definition slot_bytes :: "u16 \<Rightarrow> datagram \<Rightarrow> nat \<Rightarrow> char" where
  "slot_bytes port d k =
     (if dg_start d \<le> k \<and> k < dg_start d + length (dg_frame port d) then dg_frame port d ! (k - dg_start d) else dg_rest d k)"

text \<open>
  The receiver's state, the frame the kernel fills next, the engine, and as history the payloads of the datagrams
  the ring took.
\<close>

record net_state =
  nt_rx :: rx_state
  nt_next :: nat
  nt_engine :: OrderBookEngine
  nt_taken :: "string list"

datatype net_action = Arrive datagram | Receive bool u64 | Engine_Pop | Engine_Handle

definition net_init :: "RxPacket list \<Rightarrow> memory \<Rightarrow> OrderBookEngine \<Rightarrow> net_state" where
  "net_init buf mem e = \<lparr>nt_rx = rx_init buf mem, nt_next = 0, nt_engine = e, nt_taken = []\<rparr>"

definition net_arrive :: "nat \<Rightarrow> u16 \<Rightarrow> datagram \<Rightarrow> net_state \<Rightarrow> net_state" where
  "net_arrive nr port d t =
     (if rs_status (nt_rx t) (nt_next t) = TP_STATUS_KERNEL
      then t\<lparr>nt_rx := kernel_step nr (nt_next t) (dg_start d) (slot_bytes port d) (nt_rx t),
             nt_next := (nt_next t + 1) mod nr, nt_taken := nt_taken t @ [dg_payload d]\<rparr>
      else t)"

definition net_handle :: "worker_env \<Rightarrow> net_state \<Rightarrow> net_state" where
  "net_handle env t =
     t\<lparr>nt_rx := worker_handle (nt_rx t),
       nt_engine := (case rs_batch (nt_rx t) of [] \<Rightarrow> nt_engine t
                     | p # _ \<Rightarrow> engine_handle env (view (rs_mem (nt_rx t)) p) (nt_engine t))\<rparr>"

fun net_act :: "nat \<Rightarrow> nat \<Rightarrow> u16 \<Rightarrow> worker_env \<Rightarrow> net_action \<Rightarrow> net_state \<Rightarrow> net_state" where
  "net_act cap nr port env (Arrive d) t = net_arrive nr port d t"
| "net_act cap nr port env (Receive pd ts) t = t\<lparr>nt_rx := rx_step cap nr port True pd ts (nt_rx t)\<rparr>"
| "net_act cap nr port env Engine_Pop t = t\<lparr>nt_rx := worker_pop cap (nt_rx t)\<rparr>"
| "net_act cap nr port env Engine_Handle t = net_handle env t"

definition net_run :: "nat \<Rightarrow> nat \<Rightarrow> u16 \<Rightarrow> worker_env \<Rightarrow> net_action list \<Rightarrow> net_state \<Rightarrow> net_state" where
  "net_run cap nr port env acts t = fold (net_act cap nr port env) acts t"

definition arrival_ok :: "net_action \<Rightarrow> bool" where
  "arrival_ok a \<longleftrightarrow> (case a of Arrive d \<Rightarrow> datagram_ok d | _ \<Rightarrow> True)"

subsection \<open>What a frame holds\<close>

definition holds :: "u16 \<Rightarrow> rx_state \<Rightarrow> nat \<Rightarrow> string \<Rightarrow> bool" where
  "holds port s i d \<longleftrightarrow> rs_status s i = TP_STATUS_USER \<and> rs_mac s i \<le> 1454 \<and>
     (\<exists>a len. strip_headers (unat port) (rs_mem s) (i * FRAME_SIZE + rs_mac s i) = Some (a, len) \<and>
        bytes_at (rs_mem s) a (unat len) = d)"

lemma holds_memory:
  assumes "holds port s i d" "rs_status s' i = TP_STATUS_USER" "rs_mac s' i = rs_mac s i"
    and mem: "\<And>a. i * FRAME_SIZE \<le> a \<Longrightarrow> a < i * FRAME_SIZE + FRAME_SIZE \<Longrightarrow> rs_mem s' a = rs_mem s a"
  shows "holds port s' i d"
proof -
  obtain a len where h: "rs_mac s i \<le> 1454" "strip_headers (unat port) (rs_mem s) (i * FRAME_SIZE + rs_mac s i) = Some (a, len)"
    "bytes_at (rs_mem s) a (unat len) = d" using assms(1) by (auto simp: holds_def)
  have slot: "i * FRAME_SIZE + rs_mac s i + 594 \<le> i * FRAME_SIZE + FRAME_SIZE" using h(1) by (simp add: FRAME_SIZE_def)
  have "strip_headers (unat port) (rs_mem s') (i * FRAME_SIZE + rs_mac s i) =
      strip_headers (unat port) (rs_mem s) (i * FRAME_SIZE + rs_mac s i)"
    by (rule strip_headers_local, rule mem) (use slot in linarith)+
  moreover have "bytes_at (rs_mem s') a (unat len) = bytes_at (rs_mem s) a (unat len)"
    using strip_headers_bounds [OF h(2)] slot by (intro bytes_at_cong mem) linarith+
  ultimately show ?thesis using h assms(2,3) by (simp add: holds_def)
qed

lemma holds_kernel_step:
  assumes "holds port s i d"
  shows "holds port (kernel_step nr j mac bytes s) i d"
proof (cases "j < nr \<and> rs_status s j = TP_STATUS_KERNEL \<and> mac \<le> 1454")
  case True
  then have ij: "i \<noteq> j" using assms by (auto simp: holds_def)
  have "rs_mem (kernel_step nr j mac bytes s) a = rs_mem s a" if "i * FRAME_SIZE \<le> a" "a < i * FRAME_SIZE + FRAME_SIZE" for a
    using slot_disjoint [of j a i] that ij by (auto simp: kernel_step_def)
  with assms ij show ?thesis by (intro holds_memory [OF assms]) (simp_all add: kernel_step_def holds_def)
next
  case False
  then have "kernel_step nr j mac bytes s = s" by (auto simp: kernel_step_def)
  with assms show ?thesis by simp
qed

text \<open>The kernel's datagram is there, and the filter finds its payload.\<close>

lemma holds_arrival:
  assumes "datagram_ok d" "i < nr" "rs_status s i = TP_STATUS_KERNEL"
  shows "holds port (kernel_step nr i (dg_start d) (slot_bytes port d) s) i (dg_payload d)"
proof -
  let ?t = "kernel_step nr i (dg_start d) (slot_bytes port d) s" and ?f = "dg_frame port d"
  have ok: "dg_start d \<le> 1454" "length (dg_payload d) \<le> 512" "length (dg_iph d) \<le> 60"
    "length (dg_macs d) = 12" "length (dg_src d) = 2" "length (dg_csum d) = 2"
    using assms(1) by (auto simp: datagram_ok_def ip_header_ok_def header_sizes)
  have mem: "rs_mem ?t a = slot_bytes port d (a - i * FRAME_SIZE)" if "i * FRAME_SIZE \<le> a" "a < i * FRAME_SIZE + FRAME_SIZE" for a
    using assms(2,3) ok(1) that by (simp add: kernel_step_def)
  have "length ?f \<le> 594" using ok by (simp add: dg_frame_def udp_frame_def net16_bytes_def)
  then have fit: "dg_start d + length ?f \<le> FRAME_SIZE" using ok(1) by (simp add: FRAME_SIZE_def)
  have "bytes_at (rs_mem ?t) (i * FRAME_SIZE + dg_start d) (length ?f) = ?f"
  proof (rule nth_equalityI)
    fix k
    assume "k < length (bytes_at (rs_mem ?t) (i * FRAME_SIZE + dg_start d) (length ?f))"
    then have k: "k < length ?f" by (simp add: bytes_at_def)
    have "rs_mem ?t (i * FRAME_SIZE + dg_start d + k) = slot_bytes port d (dg_start d + k)"
      using mem [of "i * FRAME_SIZE + dg_start d + k"] fit k by simp
    then show "bytes_at (rs_mem ?t) (i * FRAME_SIZE + dg_start d) (length ?f) ! k = ?f ! k"
      using k by (simp add: bytes_at_def slot_bytes_def)
  qed (simp add: bytes_at_def)
  note frame = strip_headers_frame [OF this dg_frame_def]
  have "unat port < 65536" using unsigned_less [of port] by simp
  with frame assms(1) have "strip_headers (unat port) (rs_mem ?t) (i * FRAME_SIZE + dg_start d) =
      Some (i * FRAME_SIZE + dg_start d + 22 + length (dg_iph d), of_nat (length (dg_payload d)))"
    "bytes_at (rs_mem ?t) (i * FRAME_SIZE + dg_start d + 22 + length (dg_iph d)) (length (dg_payload d)) = dg_payload d"
    by (simp_all add: datagram_ok_def)
  moreover have "unat (of_nat (length (dg_payload d)) :: u16) = length (dg_payload d)"
    using ok(2) by (simp add: unat_of_nat take_bit_nat_eq_self)
  moreover have "rs_mac ?t i = dg_start d" "rs_status ?t i = TP_STATUS_USER"
    using assms(2,3) ok(1) by (simp_all add: kernel_step_def)
  ultimately show ?thesis using ok(1) by (auto simp: holds_def)
qed

subsection \<open>Frames between the kernel, the receiver and the engine\<close>

text \<open>
  Datagrams are numbered as the ring takes them, and number \<open>g\<close> lies in frame \<open>g mod nr\<close>. The engine has seen the first
  \<open>v\<close>, the numbers from \<open>v\<close> to \<open>r\<close> are in flight, then comes the one being pushed, and from \<open>k\<close> to \<open>n\<close> they wait for the receiver. All of
  them fit the ring, and no other frame is away from the kernel.
\<close>

definition frames_inv :: "nat \<Rightarrow> u16 \<Rightarrow> rx_state \<Rightarrow> string list \<Rightarrow> nat \<Rightarrow> nat \<Rightarrow> bool" where
  "frames_inv nr port s taken v k \<longleftrightarrow>
     v \<le> k \<and> k \<le> length taken \<and> length taken \<le> v + nr \<and>
     (\<forall>g. v \<le> g \<longrightarrow> g < length taken \<longrightarrow> rs_status s (g mod nr) = TP_STATUS_USER) \<and>
     (\<forall>i < nr. rs_status s i = TP_STATUS_USER \<longrightarrow> (\<exists>g. v \<le> g \<and> g < length taken \<and> i = g mod nr)) \<and>
     (\<forall>g. k \<le> g \<longrightarrow> g < length taken \<longrightarrow> holds port s (g mod nr) (taken ! g))"

definition packets_inv :: "nat \<Rightarrow> nat \<Rightarrow> rx_state \<Rightarrow> string list \<Rightarrow> bool" where
  "packets_inv cap nr s taken \<longleftrightarrow>
     map rp_hdr (in_flight cap s @ pushing s) =
       map (\<lambda>g. Some (g mod nr)) [length (rs_seen s) ..< length (rs_seen s) + length (in_flight cap s @ pushing s)] \<and>
     map pkt_bytes (rs_captured s @ map (\<lambda>_. rs_capture s) (pushing s)) =
       map Some (take (length (rs_seen s) + length (in_flight cap s @ pushing s)) taken)"

definition net_inv :: "nat \<Rightarrow> nat \<Rightarrow> u16 \<Rightarrow> worker_env \<Rightarrow> OrderBookEngine \<Rightarrow> net_state \<Rightarrow> bool" where
  "net_inv cap nr port env e0 t \<longleftrightarrow>
     (let s = nt_rx t; v = length (rs_seen s)
      in rx_inv cap nr s \<and> \<not> rs_lapped s \<and> length (rs_batch s) \<le> 32 \<and>
         rs_frame_idx s = (v + length (in_flight cap s)) mod nr \<and> nt_next t = length (nt_taken t) mod nr \<and>
         frames_inv nr port s (nt_taken t) v (v + length (in_flight cap s @ pushing s)) \<and>
         packets_inv cap nr s (nt_taken t) \<and> list_all (\<lambda>d. length d \<le> 512) (nt_taken t) \<and>
         nt_engine t = engine_run env (rs_seen s) e0)"

lemma pkt_bytes_view: "pkt_bytes (view mem p) = Some (bytes_at mem (rp_payload p) (unat (rp_len p)))"
  by (simp add: pkt_bytes_def view_def bytes_at_def)

lemma net_inv_init:
  assumes "spsc_static_assert cap" "length buf = cap" "pow2_capacity nr"
  shows "net_inv cap nr port env e0 (net_init buf mem e0)"
  using assms spsc_init_inv [of cap buf]
  by (auto simp: net_inv_def net_init_def frames_inv_def packets_inv_def rx_inv_def rx_init_def in_flight_def pushing_def
      engine_run_def Let_def)

lemma frames_inv_arrive:
  assumes inv: "frames_inv nr port s taken v k" and d: "datagram_ok d" and nr: "0 < nr"
    and free: "rs_status s (length taken mod nr) = TP_STATUS_KERNEL"
  shows "frames_inv nr port (kernel_step nr (length taken mod nr) (dg_start d) (slot_bytes port d) s)
    (taken @ [dg_payload d]) v k"
proof -
  let ?n = "length taken" let ?t = "kernel_step nr (?n mod nr) (dg_start d) (slot_bytes port d) s"
  have room: "?n < v + nr"
  proof (rule ccontr)
    assume "\<not> ?n < v + nr"
    with inv have "?n = v + nr" by (simp add: frames_inv_def)
    with inv nr have "rs_status s (v mod nr) = TP_STATUS_USER" "?n mod nr = v mod nr" by (simp_all add: frames_inv_def)
    with free show False by simp
  qed
  have "dg_start d \<le> 1454" using d by (simp add: datagram_ok_def)
  with free nr have st: "rs_status ?t = (rs_status s)(?n mod nr := TP_STATUS_USER)" by (simp add: kernel_step_def)
  have new: "holds port ?t (?n mod nr) (dg_payload d)" using holds_arrival [OF d _ free] nr by simp
  have old: "holds port ?t (g mod nr) (taken ! g)" if "k \<le> g" "g < ?n" for g
    using inv that by (intro holds_kernel_step) (simp add: frames_inv_def)
  have "holds port ?t (g mod nr) ((taken @ [dg_payload d]) ! g)" if "k \<le> g" "g < Suc ?n" for g
    using that old new by (cases "g = ?n") (simp_all add: nth_append)
  moreover have "\<exists>g. v \<le> g \<and> g < Suc ?n \<and> i = g mod nr" if "i < nr" "rs_status ?t i = TP_STATUS_USER" for i
  proof (cases "i = ?n mod nr")
    case True
    with inv show ?thesis by (intro exI [of _ ?n]) (simp add: frames_inv_def)
  next
    case False
    with that inv obtain g where "v \<le> g" "g < ?n" "i = g mod nr" by (auto simp: frames_inv_def st)
    then show ?thesis by (intro exI [of _ g]) simp
  qed
  ultimately show ?thesis using inv room by (auto simp: frames_inv_def st less_Suc_eq)
qed

lemma net_arrive_inv:
  assumes inv: "net_inv cap nr port env e0 t" and d: "datagram_ok d" and nr: "0 < nr"
  shows "net_inv cap nr port env e0 (net_arrive nr port d t)"
proof (cases "rs_status (nt_rx t) (nt_next t) = TP_STATUS_KERNEL")
  case True
  let ?s = "nt_rx t" let ?s' = "kernel_step nr (nt_next t) (dg_start d) (slot_bytes port d) ?s"
  have n: "nt_next t = length (nt_taken t) mod nr" using inv by (simp add: net_inv_def Let_def)
  have same: "in_flight cap ?s' = in_flight cap ?s" "pushing ?s' = pushing ?s" "rs_seen ?s' = rs_seen ?s"
    "rs_captured ?s' = rs_captured ?s" "rs_capture ?s' = rs_capture ?s" "rs_lapped ?s' = rs_lapped ?s"
    "rs_batch ?s' = rs_batch ?s" "rs_frame_idx ?s' = rs_frame_idx ?s"
    by (simp_all add: kernel_step_def in_flight_def pushing_def)
  let ?k = "length (rs_seen ?s) + length (in_flight cap ?s @ pushing ?s)"
  have fr: "frames_inv nr port ?s (nt_taken t) (length (rs_seen ?s)) ?k" using inv by (simp add: net_inv_def Let_def)
  have "frames_inv nr port ?s' (nt_taken t @ [dg_payload d]) (length (rs_seen ?s)) ?k"
    unfolding n by (rule frames_inv_arrive [OF fr d nr]) (use True n in simp)
  moreover have "?k \<le> length (nt_taken t)" using fr by (simp add: frames_inv_def)
  moreover have "rx_inv cap nr ?s'" using inv by (intro kernel_step_inv) (simp add: net_inv_def Let_def)
  moreover have "(length (nt_taken t) mod nr + 1) mod nr = Suc (length (nt_taken t)) mod nr" by (simp add: mod_Suc_eq)
  moreover have "length (dg_payload d) \<le> 512" using d by (simp add: datagram_ok_def header_sizes)
  ultimately show ?thesis
    using inv True unfolding net_arrive_def net_inv_def packets_inv_def Let_def
    by (simp add: same [unfolded n] n)
qed (use inv in \<open>simp add: net_arrive_def\<close>)

text \<open>The receiver's frame: if it is away from the kernel, it is the next one that waits.\<close>

lemma receiver_frame:
  assumes fr: "frames_inv nr port s taken v r" and r: "r < v + nr" and nr: "0 < nr"
    and st: "rs_status s (r mod nr) = TP_STATUS_USER"
  shows "r < length taken" "holds port s (r mod nr) (taken ! r)"
proof -
  have "r mod nr < nr" using nr by simp
  with fr st obtain g where g: "v \<le> g" "g < length taken" "r mod nr = g mod nr" unfolding frames_inv_def by blast
  have "v \<le> r" "length taken \<le> v + nr" using fr by (simp_all add: frames_inv_def)
  with g r have "r = g" by (intro mod_window_inj [of r nr g v]) simp_all
  with g show "r < length taken" by simp
  with fr show "holds port s (r mod nr) (taken ! r)" by (simp add: frames_inv_def)
qed

lemma in_flight_bound:
  assumes "rx_inv cap nr s" "length (rs_batch s) \<le> 32" "cap + 32 \<le> nr"
  shows "length (in_flight cap s) < nr"
proof -
  have "length (spsc_contents cap (rs_queue s)) < cap" using assms(1) spsc_inv_length [of cap "rs_queue s"] by (simp add: rx_inv_def)
  with assms(2,3) show ?thesis by (simp add: in_flight_def)
qed

lemma capture_next:
  assumes rx: "rx_inv cap nr s" "\<not> rs_lapped s" "length (rs_batch s) \<le> 32" and nr: "cap + 32 \<le> nr"
    and r: "r = length (rs_seen s) + length (in_flight cap s)" "rs_frame_idx s = r mod nr" and push: "pushing s = []"
    and fr: "frames_inv nr port s taken (length (rs_seen s)) r" and pk: "packets_inv cap nr s taken"
    and st: "rs_status s (rs_frame_idx s) \<noteq> TP_STATUS_KERNEL"
  obtains p where "rx_frame cap nr port ts s = s\<lparr>rs_spin_count := 0, rs_empty_checks := 0, rs_lapped := False,
      rs_pc := RX_Push p, rs_capture := view (rs_mem s) p\<rparr>" "rp_hdr p = Some (r mod nr)" "r < length taken"
    "pkt_bytes (view (rs_mem s) p) = Some (taken ! r)"
proof -
  let ?v = "length (rs_seen s)"
  have lt: "r < ?v + nr" using in_flight_bound [OF rx(1,3) nr] by (simp add: r(1))
  have pos: "0 < nr" using nr in_flight_bound [OF rx(1,3) nr] by simp
  have user: "rs_status s (r mod nr) = TP_STATUS_USER" using st r(2) by (cases "rs_status s (r mod nr)") simp_all
  note waits = receiver_frame [OF fr lt pos user]
  obtain a len where h: "strip_headers (unat port) (rs_mem s) (r mod nr * FRAME_SIZE + rs_mac s (r mod nr)) = Some (a, len)"
    "bytes_at (rs_mem s) a (unat len) = taken ! r" using waits(2) by (auto simp: holds_def)
  have hdrs: "map rp_hdr (in_flight cap s) = map (\<lambda>g. Some (g mod nr)) [?v ..< r]"
    using pk by (simp add: packets_inv_def push r(1))
  have "Some (r mod nr) \<notin> set (map rp_hdr (in_flight cap s))"
  proof
    assume "Some (r mod nr) \<in> set (map rp_hdr (in_flight cap s))"
    then obtain g where "?v \<le> g" "g < r" "r mod nr = g mod nr" unfolding hdrs by auto
    with lt mod_window_inj [of r nr g ?v] show False by simp
  qed
  then have lap: "\<not> (rs_lapped s \<or> Some (rs_frame_idx s) \<in> rp_hdr ` set (in_flight cap s))" using rx(2) r(2) by simp
  show thesis
  proof (rule that [of "\<lparr>rp_cycles = ts, rp_len = len, rp_payload = a, rp_hdr = Some (r mod nr)\<rparr>"])
    show "rx_frame cap nr port ts s = s\<lparr>rs_spin_count := 0, rs_empty_checks := 0, rs_lapped := False,
        rs_pc := RX_Push \<lparr>rp_cycles = ts, rp_len = len, rp_payload = a, rp_hdr = Some (r mod nr)\<rparr>,
        rs_capture := view (rs_mem s) \<lparr>rp_cycles = ts, rp_len = len, rp_payload = a, rp_hdr = Some (r mod nr)\<rparr>\<rparr>"
      using h(1) lap r(2) by (simp add: rx_frame_def Let_def)
  qed (use waits h(2) in \<open>simp_all add: pkt_bytes_view\<close>)
qed

lemma net_capture_inv:
  assumes inv: "net_inv cap nr port env e0 t" and nr: "pow2_capacity nr" "cap + 32 \<le> nr"
    and pc: "rs_pc (nt_rx t) = RX_Top" and st: "rs_status (nt_rx t) (rs_frame_idx (nt_rx t)) \<noteq> TP_STATUS_KERNEL"
  shows "net_inv cap nr port env e0 (t\<lparr>nt_rx := rx_frame cap nr port ts (nt_rx t)\<rparr>)"
proof -
  define s where "s = nt_rx t"
  define r where "r = length (rs_seen s) + length (in_flight cap s)"
  have push: "pushing s = []" using pc by (simp add: pushing_def s_def)
  have I: "rx_inv cap nr s" "\<not> rs_lapped s" "length (rs_batch s) \<le> 32" "rs_frame_idx s = r mod nr"
    "frames_inv nr port s (nt_taken t) (length (rs_seen s)) r" "packets_inv cap nr s (nt_taken t)"
    using inv push by (simp_all add: net_inv_def s_def r_def Let_def)
  define s' where "s' = rx_frame cap nr port ts s"
  obtain p where p: "s' = s\<lparr>rs_spin_count := 0, rs_empty_checks := 0, rs_lapped := False,
      rs_pc := RX_Push p, rs_capture := view (rs_mem s) p\<rparr>" "rp_hdr p = Some (r mod nr)" "r < length (nt_taken t)"
    "pkt_bytes (view (rs_mem s) p) = Some (nt_taken t ! r)"
    using capture_next [OF I(1-3) nr(2) r_def I(4) push I(5,6) st [folded s_def], of ts] unfolding s'_def by blast
  have "\<not> rs_lapped (rx_frame cap nr port ts s)" unfolding s'_def [symmetric] p(1) by simp
  with pc st have rx: "rx_inv cap nr s'" unfolding s'_def by (intro rx_frame_inv [OF I(1) _ _ nr(1)]) (simp_all add: s_def)
  have same: "in_flight cap s' = in_flight cap s" "pushing s' = [p]" "rs_seen s' = rs_seen s" "rs_captured s' = rs_captured s"
    by (simp_all add: p(1) in_flight_def pushing_def)
  have "frames_inv nr port s' (nt_taken t) (length (rs_seen s)) (Suc r)"
    using I(5) p(3) by (simp add: frames_inv_def p(1) holds_def)
  moreover have "packets_inv cap nr s' (nt_taken t)"
  proof -
    have "length (rs_seen s) + Suc (length (in_flight cap s)) = Suc r" by (simp add: r_def)
    moreover have "map pkt_bytes (rs_captured s) = map Some (take r (nt_taken t))"
      "map rp_hdr (in_flight cap s) = map (\<lambda>g. Some (g mod nr)) [length (rs_seen s) ..< r]" "length (rs_seen s) \<le> r"
      using I(6) by (simp_all add: packets_inv_def push r_def)
    ultimately show ?thesis
      using p(2-4) unfolding packets_inv_def same by (simp add: p(1) take_Suc_conv_app_nth)
  qed
  ultimately show ?thesis
    using inv rx I(3,4) unfolding net_inv_def s_def [symmetric] Let_def
    by (simp add: s'_def [symmetric] same) (simp add: p(1) r_def)
qed

lemma net_push_inv:
  assumes inv: "net_inv cap nr port env e0 t" and nr: "pow2_capacity nr" and pc: "rs_pc (nt_rx t) = RX_Push p"
  shows "net_inv cap nr port env e0 (t\<lparr>nt_rx := rx_push cap nr True p (nt_rx t)\<rparr>)"
proof -
  define s where "s = nt_rx t"
  have rx: "rx_inv cap nr s" using inv by (simp add: net_inv_def s_def Let_def)
  then have q: "spsc_inv cap (rs_queue s)" by (simp add: rx_inv_def)
  obtain ok q' where push: "spsc_push cap p (rs_queue s) = (ok, q')" by fastforce
  have q': "spsc_contents cap q' = spsc_contents cap (rs_queue s) @ (if ok then [p] else [])"
    using spsc.push_ok [OF q, of p] spsc.push_contents [OF q, of p] push by auto
  have pu: "pushing s = [p]" using pc by (simp add: pushing_def s_def)
  define s' where "s' = rx_push cap nr True p s"
  have rx': "rx_inv cap nr s'" unfolding s'_def by (rule rx_push_inv [OF rx _ nr]) (use pc in \<open>simp add: s_def\<close>)
  show ?thesis
  proof (cases ok)
    case True
    have fl: "in_flight cap s' = in_flight cap s @ [p]" "pushing s' = []" "rs_seen s' = rs_seen s" "rs_captured s' = rs_captured s @ [rs_capture s]"
      "rs_batch s' = rs_batch s" "rs_lapped s' = rs_lapped s" "rs_status s' = rs_status s" "rs_mem s' = rs_mem s" "rs_mac s' = rs_mac s"
      using True by (simp_all add: s'_def rx_push_def push in_flight_def pushing_def advance_def q')
    have "rs_frame_idx s' = (rs_frame_idx s + 1) mod nr"
      using True pow2_mask [OF nr, of "rs_frame_idx s + 1"] by (simp add: s'_def rx_push_def push advance_def)
    then have "rs_frame_idx s' = (length (rs_seen s) + length (in_flight cap s) + 1) mod nr"
      using inv by (simp add: net_inv_def s_def [symmetric] Let_def mod_Suc_eq)
    moreover have "frames_inv nr port s' x v k = frames_inv nr port s x v k" for x v k
      by (simp add: frames_inv_def holds_def fl)
    ultimately show ?thesis
      using inv rx' unfolding net_inv_def packets_inv_def s_def [symmetric] Let_def
      by (simp add: s'_def [symmetric] fl pu)
  next
    case False
    then have eq: "s' = s\<lparr>rs_queue := q'\<rparr>" by (simp add: s'_def rx_push_def push)
    have "in_flight cap s' = in_flight cap s" "pushing s' = pushing s"
      using False by (simp_all add: eq in_flight_def q' pushing_def)
    moreover have "frames_inv nr port s' x v k = frames_inv nr port s x v k" for x v k
      by (simp add: frames_inv_def holds_def eq)
    ultimately show ?thesis
      using inv rx' unfolding net_inv_def packets_inv_def s_def [symmetric] Let_def
      by (simp add: s'_def [symmetric]) (simp add: eq)
  qed
qed

text \<open>Steps that move no packet.\<close>

lemma net_quiet_inv:
  assumes "net_inv cap nr port env e0 t" "rx_inv cap nr s'" "length (rs_batch s') \<le> 32"
    and "in_flight cap s' = in_flight cap (nt_rx t)" "pushing s' = pushing (nt_rx t)" "rs_lapped s' = rs_lapped (nt_rx t)"
    and "rs_frame_idx s' = rs_frame_idx (nt_rx t)" "rs_seen s' = rs_seen (nt_rx t)" "rs_captured s' = rs_captured (nt_rx t)"
    and "rs_capture s' = rs_capture (nt_rx t)" "rs_status s' = rs_status (nt_rx t)" "rs_mem s' = rs_mem (nt_rx t)"
    and "rs_mac s' = rs_mac (nt_rx t)"
  shows "net_inv cap nr port env e0 (t\<lparr>nt_rx := s'\<rparr>)"
proof -
  have "frames_inv nr port s' x v k = frames_inv nr port (nt_rx t) x v k" for x v k
    by (simp add: frames_inv_def holds_def assms)
  with assms show ?thesis by (simp add: net_inv_def packets_inv_def Let_def)
qed

lemma net_receive_inv:
  assumes inv: "net_inv cap nr port env e0 t" and nr: "pow2_capacity nr" "cap + 32 \<le> nr"
  shows "net_inv cap nr port env e0 (t\<lparr>nt_rx := rx_step cap nr port True pd ts (nt_rx t)\<rparr>)"
proof (cases "rs_pc (nt_rx t)")
  case RX_Top
  show ?thesis
  proof (cases "rs_status (nt_rx t) (rs_frame_idx (nt_rx t)) = TP_STATUS_KERNEL")
    case True
    have rx: "rx_inv cap nr (nt_rx t)" "length (rs_batch (nt_rx t)) \<le> 32" using inv by (simp_all add: net_inv_def Let_def)
    have "net_inv cap nr port env e0 (t\<lparr>nt_rx := rx_idle pd (nt_rx t)\<rparr>)"
      by (rule net_quiet_inv [OF inv rx_idle_inv [OF rx(1) RX_Top]])
        (use rx RX_Top in \<open>simp_all add: rx_idle_def in_flight_def pushing_def Let_def\<close>)
    with RX_Top True show ?thesis by (simp add: rx_step_def)
  next
    case False
    with RX_Top net_capture_inv [OF inv nr RX_Top False] show ?thesis by (simp add: rx_step_def)
  qed
next
  case (RX_Push p)
  with net_push_inv [OF inv nr(1) RX_Push] show ?thesis by (simp add: rx_step_def)
qed (use inv in \<open>simp add: rx_step_def\<close>)

lemma net_pop_inv:
  assumes inv: "net_inv cap nr port env e0 t"
  shows "net_inv cap nr port env e0 (t\<lparr>nt_rx := worker_pop cap (nt_rx t)\<rparr>)"
proof (cases "rs_batch (nt_rx t) = []")
  case True
  have rx: "rx_inv cap nr (nt_rx t)" using inv by (simp add: net_inv_def Let_def)
  then have q: "spsc_inv cap (rs_queue (nt_rx t))" by (simp add: rx_inv_def)
  obtain b q' where pop: "spsc_pop_batch cap 32 (rs_queue (nt_rx t)) = (b, q')" by fastforce
  have b: "length b \<le> 32" "spsc_contents cap (rs_queue (nt_rx t)) = b @ spsc_contents cap q'"
    using spsc.pop_batch_contents [OF q, of 32] spsc.pop_batch_limit [OF q, of 32] pop by simp_all
  show ?thesis
    by (rule net_quiet_inv [OF inv worker_pop_inv [OF rx]])
      (use True pop b in \<open>simp_all add: worker_pop_def in_flight_def pushing_def\<close>)
qed (use inv in \<open>simp add: worker_pop_def\<close>)

text \<open>Handing back the oldest frame.\<close>

lemma frames_inv_release:
  assumes fr: "frames_inv nr port s taken v k" and k: "v < k" and nr: "0 < nr"
    and s': "rs_status s' = (rs_status s)(v mod nr := TP_STATUS_KERNEL)" "rs_mem s' = rs_mem s" "rs_mac s' = rs_mac s"
  shows "frames_inv nr port s' taken (Suc v) k"
proof -
  have other: "g mod nr \<noteq> v mod nr" if "Suc v \<le> g" "g < length taken" for g
    using fr that mod_window_inj [of g nr v v] by (auto simp: frames_inv_def)
  have "holds port s' (g mod nr) (taken ! g)" if "k \<le> g" "g < length taken" for g
  proof (rule holds_memory)
    show "holds port s (g mod nr) (taken ! g)" "rs_status s' (g mod nr) = TP_STATUS_USER"
      using fr that k other [of g] by (simp_all add: frames_inv_def s')
  qed (simp_all add: s')
  moreover have "\<exists>g. Suc v \<le> g \<and> g < length taken \<and> i = g mod nr" if "i < nr" "rs_status s' i = TP_STATUS_USER" for i
  proof -
    have i: "i \<noteq> v mod nr" "rs_status s i = TP_STATUS_USER" using that by (auto simp: s' split: if_splits)
    have "\<forall>i < nr. rs_status s i = TP_STATUS_USER \<longrightarrow> (\<exists>g. v \<le> g \<and> g < length taken \<and> i = g mod nr)"
      using fr by (simp add: frames_inv_def)
    with i(2) that(1) obtain g where g: "v \<le> g" "g < length taken" "i = g mod nr" by blast
    have "g \<noteq> v" using g(3) i(1) by fast
    with g show ?thesis by (intro exI [of _ g]) simp
  qed
  ultimately show ?thesis using fr k other by (simp add: frames_inv_def s')
qed

lemma net_handle_inv:
  assumes inv: "net_inv cap nr port env e0 t" and nr: "0 < nr"
  shows "net_inv cap nr port env e0 (net_handle env t)"
proof (cases "rs_batch (nt_rx t)")
  case Nil
  then have "worker_handle (nt_rx t) = nt_rx t" by (simp add: worker_handle_def)
  with inv Nil show ?thesis by (simp add: net_handle_def)
next
  case (Cons p ps)
  define s where "s = nt_rx t"
  define s' where "s' = worker_handle s"
  have b: "rs_batch s = p # ps" using Cons by (simp add: s_def)
  have fl: "in_flight cap s = p # in_flight cap s'" "pushing s' = pushing s" "rs_seen s' = rs_seen s @ [view (rs_mem s) p]"
    "rs_captured s' = rs_captured s" "rs_capture s' = rs_capture s" "rs_lapped s' = rs_lapped s" "rs_batch s' = ps"
    "rs_frame_idx s' = rs_frame_idx s" "rs_mem s' = rs_mem s" "rs_mac s' = rs_mac s"
    by (simp_all add: s'_def worker_handle_def b in_flight_def pushing_def)
  have I: "rx_inv cap nr s" "packets_inv cap nr s (nt_taken t)" using inv by (simp_all add: net_inv_def s_def Let_def)
  let ?v = "length (rs_seen s)" let ?k = "?v + length (in_flight cap s @ pushing s)"
  have "map rp_hdr (p # in_flight cap s' @ pushing s) = map (\<lambda>g. Some (g mod nr)) (?v # [Suc ?v ..< ?k])"
    using I(2) by (simp add: packets_inv_def fl upt_conv_Cons del: upt_Suc)
  then have hdr: "rp_hdr p = Some (?v mod nr)" and
    hdrs: "map rp_hdr (in_flight cap s' @ pushing s) = map (\<lambda>g. Some (g mod nr)) [Suc ?v ..< ?k]"
    by simp_all
  have st: "rs_status s' = (rs_status s)(?v mod nr := TP_STATUS_KERNEL)"
    by (simp add: s'_def worker_handle_def b hdr release_frame_def)
  have fr: "frames_inv nr port s (nt_taken t) ?v ?k" using inv by (simp add: net_inv_def s_def Let_def)
  have "frames_inv nr port s' (nt_taken t) (Suc ?v) ?k"
    by (rule frames_inv_release [OF fr _ nr st]) (simp_all add: fl)
  moreover have "rx_inv cap nr s'" unfolding s'_def by (rule worker_handle_inv [OF I(1)])
  moreover have "engine_handle env (view (rs_mem s) p) (engine_run env (rs_seen s) e0) = engine_run env (rs_seen s') e0"
    by (simp add: engine_run_def fl)
  ultimately show ?thesis
    using inv hdrs I(2) Cons
    unfolding net_inv_def packets_inv_def net_handle_def s_def [symmetric] Let_def
    by (simp add: s'_def [symmetric] fl(2-10) fl(1))
qed

lemma net_run_inv:
  assumes "net_inv cap nr port env e0 t" "pow2_capacity nr" "cap + 32 \<le> nr" "list_all arrival_ok acts"
  shows "net_inv cap nr port env e0 (net_run cap nr port env acts t)"
  using assms(1,4)
proof (induction acts arbitrary: t)
  case (Cons a acts)
  have pos: "0 < nr" using assms(3) by simp
  have "net_inv cap nr port env e0 (net_act cap nr port env a t)"
    using Cons.prems assms(2,3) pos
    by (cases a) (simp_all add: net_arrive_inv net_receive_inv net_pop_inv net_handle_inv arrival_ok_def)
  with Cons show ?case by (simp add: net_run_def)
qed (simp add: net_run_def)

text \<open>Nothing is on its way any more: no batch, queue, push or waiting frame.\<close>

definition net_drained :: "nat \<Rightarrow> nat \<Rightarrow> rx_state \<Rightarrow> bool" where
  "net_drained cap nr s \<longleftrightarrow> rs_batch s = [] \<and> spsc_contents cap (rs_queue s) = [] \<and> pushing s = [] \<and>
     list_all (\<lambda>i. rs_status s i = TP_STATUS_KERNEL) [0 ..< nr]"

lemma net_inv_seen:
  assumes inv: "net_inv cap nr port env e0 t" and nr: "0 < nr"
  defines "s \<equiv> nt_rx t"
  shows "carries (rs_seen s) (take (length (rs_seen s)) (nt_taken t))"
    and "nt_engine t = engine_run env (rs_seen s) e0"
    and "net_drained cap nr s \<Longrightarrow> length (rs_seen s) = length (nt_taken t)"
proof -
  let ?v = "length (rs_seen s)" let ?k = "?v + length (in_flight cap s @ pushing s)"
  have fr: "frames_inv nr port s (nt_taken t) ?v ?k" and pk: "packets_inv cap nr s (nt_taken t)" and
    rx: "rx_inv cap nr s" and sh: "list_all (\<lambda>d. length d \<le> 512) (nt_taken t)"
    using inv by (simp_all add: net_inv_def s_def Let_def)
  show "nt_engine t = engine_run env (rs_seen s) e0" using inv by (simp add: net_inv_def s_def Let_def)
  have "map pkt_bytes (rs_captured s @ map (\<lambda>_. rs_capture s) (pushing s)) = map Some (take ?k (nt_taken t))"
    using pk by (simp add: packets_inv_def)
  from arg_cong [OF this, of "take ?v"] rx
  have bytes: "map pkt_bytes (rs_seen s) = map Some (take ?v (nt_taken t))"
    by (simp add: rx_inv_def take_map min_def)
  have short: "take 512 d = d" if "d \<in> set (take ?v (nt_taken t))" for d
    using that sh by (auto simp: list_all_iff dest: in_set_takeD)
  from bytes have "list_all2 (\<lambda>pkt d. pkt_bytes pkt = Some d) (rs_seen s) (take ?v (nt_taken t))"
    by (auto simp: list_all2_conv_all_nth list_eq_iff_nth_eq)
  then show "carries (rs_seen s) (take ?v (nt_taken t))"
    unfolding carries_def by (rule list.rel_mono_strong) (simp add: short)
  show "?v = length (nt_taken t)" if "net_drained cap nr s"
  proof (rule ccontr)
    assume "?v \<noteq> length (nt_taken t)"
    with fr have "?v < length (nt_taken t)" by (simp add: frames_inv_def)
    with fr have "rs_status s (?v mod nr) = TP_STATUS_USER" by (simp add: frames_inv_def)
    with that nr show False by (simp add: net_drained_def list_all_iff)
  qed
qed

subsection \<open>Example: one datagram\<close>

definition sample_datagram :: datagram where
  "sample_datagram = \<lparr>dg_start = 66, dg_macs = replicate 12 (CHR 0x02),
     dg_iph = CHR 0x45 # replicate 8 (CHR 0x00) @ CHR 0x11 # replicate 10 (CHR 0x00), dg_src = [CHR 0x00, CHR 0x01],
     dg_csum = [CHR 0x00, CHR 0x00], dg_payload = sample_line, dg_rest = (\<lambda>_. CHR 0x00)\<rparr>"

definition sample_net_acts :: "net_action list" where
  "sample_net_acts = [Arrive sample_datagram, Receive False 5, Receive False 6, Engine_Pop, Engine_Handle]"

lemma sample_datagram_ok: "datagram_ok sample_datagram"
  using synthetic_message_parses [of 1] sample_line_text(3)
  by (simp add: datagram_ok_def sample_datagram_def ip_header_ok_def header_sizes nth_append sample_line_def)

lemma one_datagram_seen:
  assumes t_def: "t = net_run 4 64 port env sample_net_acts (net_init (replicate 4 p) mem e)"
  shows "length (rs_seen (nt_rx t)) = 1 \<and> nt_taken t = [sample_line]"
proof -
  define s1 where "s1 = kernel_step 64 0 66 (slot_bytes port sample_datagram) (rx_init (replicate 4 p) mem)"
  have "holds port s1 0 (dg_payload sample_datagram)"
    unfolding s1_def using holds_arrival [OF sample_datagram_ok, of 0 64 "rx_init (replicate 4 p) mem" port]
    by (simp add: rx_init_def sample_datagram_def)
  then obtain a len where h: "strip_headers (unat port) (rs_mem s1) (rs_mac s1 0) = Some (a, len)"
    by (auto simp: holds_def)
  have s1: "rs_status s1 0 = TP_STATUS_USER" "rs_pc s1 = RX_Top" "rs_frame_idx s1 = 0" "rs_queue s1 = spsc_init (replicate 4 p)"
    "rs_batch s1 = []" "rs_seen s1 = []"
    by (simp_all add: s1_def kernel_step_def rx_init_def)
  have t1: "net_arrive 64 port sample_datagram (net_init (replicate 4 p) mem e) =
      \<lparr>nt_rx = s1, nt_next = 1, nt_engine = e, nt_taken = [sample_line]\<rparr>"
  proof -
    have "rs_status (rx_init (replicate 4 p) mem) 0 = TP_STATUS_KERNEL" by (simp add: rx_init_def)
    moreover have "dg_start sample_datagram = 66" "dg_payload sample_datagram = sample_line" by (simp_all add: sample_datagram_def)
    ultimately show ?thesis by (simp add: net_arrive_def net_init_def flip: s1_def)
  qed
  define pk where "pk = \<lparr>rp_cycles = 5, rp_len = len, rp_payload = a, rp_hdr = Some 0\<rparr>"
  define s2 where "s2 = rx_step 4 64 port True False 5 s1"
  have s2: "rs_pc s2 = RX_Push pk" "rs_queue s2 = spsc_init (replicate 4 p)" "rs_batch s2 = []" "rs_seen s2 = []"
    using s1 h by (simp_all add: s2_def rx_step_def rx_frame_def pk_def Let_def)
  define s3 where "s3 = rx_step 4 64 port True False 6 s2"
  have s3: "rs_queue s3 = snd (spsc_push 4 pk (spsc_init (replicate 4 p)))" "rs_batch s3 = []" "rs_seen s3 = []"
    using s2 by (simp_all add: s3_def rx_step_def rx_push_def advance_def split_beta Let_def)
  have "fst (spsc_pop_batch 4 32 (rs_queue s3)) = [pk]"
    by (simp add: s3 spsc_init_def spsc_push_def spsc_pop_batch_def replicate_four Let_def)
  with s3 have "rs_batch (worker_pop 4 s3) = [pk]" "rs_seen (worker_pop 4 s3) = []" by (simp_all add: worker_pop_def split_beta)
  then show ?thesis
    unfolding t_def sample_net_acts_def net_run_def
    by (simp add: t1 net_handle_def worker_handle_def flip: s2_def s3_def)
qed

end
