(* ===== verification/Worker_Reports.thy ===== *)
theory Worker_Reports
  imports Matching_Worker Fix_Worker Top_Of_Book Performance_Monitor
begin

text \<open>
  The whole \<open>run\<close> of each worker: the settings of its thread, the line that announces it, the main loop, and after it
  the report (\<open>FixWorker\<close> and \<open>MatchingWorker\<close>), which also takes \<open>g_running\<close> down. The console lines are the strings
  given to \<open>log_info\<close>. Doubles and their renderings are arguments, as is the measured duration.
\<close>

record 'd report_ops =
  ro_doubles :: "'d doubles"
  ro_per_thousand :: "'d \<Rightarrow> 'd"
  ro_to_size :: "'d \<Rightarrow> u64"

text \<open>What is left when \<open>run\<close> returns: the console, the process, the worker's loop and the flag \<open>g_running\<close>.\<close>

record ('s) run_result =
  rr_console :: "string list"
  rr_process :: process
  rr_loop :: "(FixMessagePacket, 's) loop_state"
  rr_stops :: bool

definition report_rule :: string where
  "report_rule = replicate 52 (CHR ''='')"

text \<open>The lines both reports end with; \<open>throughput\<close> is rendered by the caller.\<close>

definition latency_lines :: "'d report_ops \<Rightarrow> WorkerStats \<Rightarrow> string list" where
  "latency_lines ops st =
     (let D = ro_doubles ops; avg = mean_latency D (ucast (processed st)) (total_latency_ns st)
      in [''Minimum Latency          : '' @ dec_string (unat (if min_latency_ns st = -1 then 0 else min_latency_ns st)) @ '' ns'',
          ''Average Latency          : '' @ d_fixed D 2 avg @ '' ns ('' @ d_fixed D 2 (ro_per_thousand ops avg) @ '' us)'',
          ''Maximum Latency          : '' @ dec_string (unat (max_latency_ns st)) @ '' ns'', report_rule, []])"

definition fw_report_lines :: "'d report_ops \<Rightarrow> 'd \<Rightarrow> FixWorker \<Rightarrow> string list" where
  "fw_report_lines ops duration_sec w =
     (let D = ro_doubles ops; st = fw_stats w;
          throughput = ro_to_size ops (d_div D (d_of_u64 D (ucast (processed st))) duration_sec)
      in [[], report_rule, ''               PERFORMANCE REPORT                   '', report_rule,
          ''Total Messages Processed : '' @ dec_string (unat (processed st)),
          ''Total Execution Time     : '' @ d_fixed D 4 duration_sec @ '' seconds'',
          ''Throughput               : '' @ dec_string (unat throughput) @ '' msgs/sec''] @ latency_lines ops st)"

definition mw_report_lines :: "'d report_ops \<Rightarrow> 'd \<Rightarrow> 'c MatchingWorker \<Rightarrow> string list" where
  "mw_report_lines ops duration_sec w =
     (let D = ro_doubles ops; st = mw_stats w;
          (ingested, approved, rejected, trades, volume) = mw_report w;
          throughput = (if d_positive D duration_sec
                        then ro_to_size ops (d_div D (d_of_u64 D (ucast (processed st))) duration_sec) else 0)
      in [[], report_rule, ''        ORDER MATCHING ENGINE PERFORMANCE REPORT   '', report_rule,
          ''Total Messages Ingested  : '' @ dec_string (unat ingested),
          ''Risk Approved Orders     : '' @ dec_string (unat approved),
          ''Risk Rejected Orders     : '' @ dec_string (unat rejected),
          ''Total Matched Trades     : '' @ dec_string (unat trades),
          ''Total Matched Volume     : '' @ dec_string (unat volume) @ '' shares'',
          ''Total Execution Time     : '' @ d_fixed D 4 duration_sec @ '' seconds'',
          ''Throughput               : '' @ dec_string (unat throughput) @ '' msgs/sec''] @ latency_lines ops st)"

text \<open>The line logged on the exit of the loop that finds the consumer done and the queue empty.\<close>

definition exit_line :: "string \<Rightarrow> string \<Rightarrow> exit_reason \<Rightarrow> string list" where
  "exit_line worker loop r =
     (if r = DRAINED then [''['' @ worker @ ''] Queue is empty and consumer finished. Exiting '' @ loop @ '' loop.''] else [])"

text \<open>The three \<open>run\<close> methods; \<open>None\<close> is a loop that has not been left.\<close>

definition fw_run ::
  "'d report_ops \<Rightarrow> machine \<Rightarrow> nat \<Rightarrow> int \<Rightarrow> string \<Rightarrow> 'd \<Rightarrow> fix_worker_env \<Rightarrow> FixMessagePacket loop_obs list \<Rightarrow>
     FixMessagePacket spsc \<Rightarrow> FixWorker \<Rightarrow> process \<Rightarrow> FixWorker run_result option" where
  "fw_run ops mc self cpu_pin log_filename duration_sec env obs q w proc =
     (let proc' = apply_realtime_thread_settings mc self cpu_pin 80 (Some ''hft_fix_wkr'') proc;
          (r, st) = fw_loop env obs q w
      in map_option (\<lambda>r. \<lparr>rr_console =
             [''[FixWorker] Parser engine initialized and waiting for queue items. Log: '' @ log_filename] @
             exit_line ''FixWorker'' ''worker'' r @ fw_report_lines ops duration_sec (w_state st),
           rr_process = proc', rr_loop = st, rr_stops = True\<rparr>) r)"

definition mw_run ::
  "'d report_ops \<Rightarrow> machine \<Rightarrow> nat \<Rightarrow> int \<Rightarrow> string \<Rightarrow> 'd \<Rightarrow> worker_env \<Rightarrow> FixMessagePacket loop_obs list \<Rightarrow>
     FixMessagePacket spsc \<Rightarrow> 'c MatchingWorker \<Rightarrow> process \<Rightarrow> 'c MatchingWorker run_result option" where
  "mw_run ops mc self cpu_pin log_filename duration_sec env obs q w proc =
     (let proc' = apply_realtime_thread_settings mc self cpu_pin 80 (Some ''hft_matcher'') proc;
          (r, st) = mw_loop env obs q w
      in map_option (\<lambda>r. \<lparr>rr_console =
             [''[MatchingWorker] Order Matching Engine initialized. Logging to: '' @ log_filename] @
             exit_line ''MatchingWorker'' ''matching'' r @ mw_report_lines ops duration_sec (w_state st),
           rr_process = proc', rr_loop = st, rr_stops = True\<rparr>) r)"

definition oe_run ::
  "machine \<Rightarrow> nat \<Rightarrow> int \<Rightarrow> string \<Rightarrow> worker_env \<Rightarrow> FixMessagePacket loop_obs list \<Rightarrow>
     FixMessagePacket spsc \<Rightarrow> (nat \<Rightarrow> frame_status) \<Rightarrow> process \<Rightarrow> OrderBookEngine run_result option" where
  "oe_run mc self cpu_pin log_filename env obs q frames proc =
     (let proc' = apply_realtime_thread_settings mc self cpu_pin 80 (Some ''hft_ob_engine'') proc;
          (r, st) = engine_loop env obs q frames
      in map_option (\<lambda>r. \<lparr>rr_console =
             [''[HftOrderBookEngine] Modern C++20 Order Book Engine initialized. Logging to: '' @ log_filename] @
             exit_line ''HftOrderBookEngine'' ''matching'' r,
           rr_process = proc', rr_loop = st, rr_stops = False\<rparr>) r)"

subsection \<open>The matching report accounts for every message\<close>

lemma evaluate_order_counts:
  "m_rejected_count (snd (evaluate_order fmt2 m ord ref)) =
     m_rejected_count m + (if risk_status (fst (evaluate_order fmt2 m ord ref)) = APPROVED then 0 else 1)"
  by (simp add: evaluate_order_def risk_reject_def Let_def)

lemma admit_packet_rejections:
  assumes "admit_packet label fmt2 ts ord g = (v, g')"
  shows "m_rejected_count (g_risk_mgr g') = m_rejected_count (g_risk_mgr g) + (if v = V_REJECTED then 1 else 0)"
proof -
  have gap: "g_risk_mgr (detect_gap l t o' h) = g_risk_mgr h" for l t o' h
    by (auto simp: detect_gap_def queue_log_def Let_def split: prod.split)
  have risk: "m_rejected_count (g_risk_mgr (snd (check_risk fmt2 ts ord h))) =
      m_rejected_count (g_risk_mgr h) + (if fst (check_risk fmt2 ts ord h) then 0 else 1)" for h
    by (simp add: check_risk_def queue_log_def Let_def split_beta evaluate_order_counts)
  obtain dup g1 where a: "arbitrate ts ord g = (dup, g1)" by fastforce
  then have "g_risk_mgr g1 = g_risk_mgr g"
    by (auto simp: arbitrate_def queue_log_def Let_def split: prod.splits if_splits)
  with assms a risk [of "detect_gap label ts ord g1"] gap show ?thesis
    by (auto simp: admit_packet_def split_beta Let_def split: if_splits)
qed

lemma mw_rejections:
  "m_rejected_count (g_risk_mgr (mw_gate w)) = rejected_count (mw_stats w) \<Longrightarrow>
   m_rejected_count (g_risk_mgr (mw_gate (snd (mw_handle env pkt w)))) = rejected_count (mw_stats (snd (mw_handle env pkt w)))"
proof -
  assume eq: "m_rejected_count (g_risk_mgr (mw_gate w)) = rejected_count (mw_stats w)"
  obtain ord ts where ev: "packet_order env (mw_handled w) pkt = (ord, ts)" by fastforce
  obtain v g where a: "admit_packet mw_gap_label (we_fmt2 env) ts ord (mw_gate w) = (v, g)" by fastforce
  obtain cs clk where c: "evaluate_latency 0 (we_to_ns env (rx_timestamp_cycles pkt)) ts (mw_clock_sync w) = (cs, clk)" by fastforce
  show ?thesis
    using eq admit_packet_rejections [OF a]
    by (cases v) (simp_all add: mw_handle_def ev a c Let_def mw_submit_frame count_latency_def count_verdict_def)
qed

lemma mw_run_rejections:
  "m_rejected_count (g_risk_mgr (mw_gate (handle_all (mw_handle env) pkts (matching_worker_init n clock frames)))) =
   rejected_count (mw_stats (handle_all (mw_handle env) pkts (matching_worker_init n clock frames)))"
proof -
  have "m_rejected_count (g_risk_mgr (mw_gate w)) = rejected_count (mw_stats w) \<Longrightarrow>
      m_rejected_count (g_risk_mgr (mw_gate (handle_all (mw_handle env) pkts w))) =
      rejected_count (mw_stats (handle_all (mw_handle env) pkts w))" for w :: "'a MatchingWorker"
    by (induction pkts arbitrary: w) (simp_all add: handle_all_def mw_rejections)
  then show ?thesis
    by (simp add: matching_worker_init_def set_limits_def risk_manager_init_def worker_stats_init_def)
qed

text \<open>
  The report of the matching worker is exact: after any stream of fewer than 2 to the 32 packets, the ingested messages
  are those that pass arbitration, the rejected orders are those the risk limits refuse, and the approved orders, which the
  code computes by a subtraction, are exactly the rest, without wrap-around.
\<close>

theorem matching_report_exact:
  assumes "length pkts < 2 ^ 32"
  shows "let w = handle_all (mw_handle env) pkts (matching_worker_init n clock frames);
       evs = passed env (arbitrator_init 2048) 0 pkts;
       good = filter (\<lambda>ev. risk_passes default_limits (fst ev)) evs
     in (\<exists>ingested approved rejected trades volume. mw_report w = (ingested, approved, rejected, trades, volume) \<and>
       unat ingested = length evs \<and> unat approved = length good \<and> unat rejected = length evs - length good \<and>
       length good \<le> length evs)"
proof -
  define w where "w = handle_all (mw_handle env) pkts (matching_worker_init n clock frames)"
  define evs where "evs = passed env (arbitrator_init 2048) 0 pkts"
  let ?good = "filter (\<lambda>ev. risk_passes default_limits (fst ev)) evs"
  let ?bad = "filter (\<lambda>ev. \<not> risk_passes default_limits (fst ev)) evs"
  have "stats_for (mw_stats w) (latencies ?good) (latencies ?bad)"
    using gated_matching.run_stats [OF matching_worker_init_simps(2), of n clock frames "[]" "[]" env pkts] stats_for_init
    by (simp add: w_def evs_def handle_all_def latencies_def)
  then have st: "processed (mw_stats w) = of_nat (length ?good + length ?bad)" "rejected_count (mw_stats w) = of_nat (length ?bad)"
    by (simp_all add: stats_for_def latencies_def)
  have split: "length ?good + length ?bad = length evs" by (rule sum_length_filter_compl)
  have evs: "length evs \<le> length pkts"
  proof -
    have "length (fst (filter_run step a xs)) \<le> length xs" for step :: "FeedArbitrator \<Rightarrow> ParsedOrder \<times> u64 \<Rightarrow> bool \<times> FeedArbitrator" and a xs
      by (induction xs arbitrary: a) (simp_all add: Let_def split_beta le_SucI)
    from this [of feed_event "arbitrator_init 2048" "packet_orders env 0 pkts"] show ?thesis
      by (simp add: evs_def passed_def)
  qed
  have u: "unat (processed (mw_stats w)) = length evs" "unat (rejected_count (mw_stats w)) = length ?bad"
    using assms evs split by (simp_all add: st unat_of_nat)
  have "unat (ucast (processed (mw_stats w)) :: u64) = length evs"
    using u(1) assms evs by (simp add: unsigned_ucast_eq take_bit_nat_eq_self)
  then have "unat (ucast (processed (mw_stats w)) - rejected_count (mw_stats w) :: u64) = length ?good"
    using u split by (simp add: unat_sub word_le_nat_alt)
  with u split show ?thesis
    unfolding w_def [symmetric] evs_def [symmetric] Let_def
    using mw_run_rejections [of env pkts n clock frames] by (auto simp: mw_report_def w_def [symmetric])
qed
theorem matching_report_exact_witness:
  "\<exists>ingested approved rejected trades volume.
     mw_report (handle_all (mw_handle sample_env) [sample_packet, sample_packet]
       (matching_worker_init 2 sample_clock (\<lambda>_. TP_STATUS_USER))) = (ingested, approved, rejected, trades, volume) \<and>
     unat ingested = length (passed sample_env (arbitrator_init 2048) 0 [sample_packet, sample_packet])"
  using matching_report_exact [of "[sample_packet, sample_packet]" sample_env 2 sample_clock "\<lambda>_. TP_STATUS_USER"]
  by (auto simp: Let_def)

subsection \<open>The depth deck\<close>

text \<open>
  The hook of \<open>src/order_book_engine_main.cpp\<close>: the statistics and the L1 to L5 deck of the final book, asks from the
  worst of the five down to the best, then bids from the best. \<open>fmt2\<close> renders a scaled price with two decimals.
\<close>

definition ask_rows :: "TopOfBookSnapshot \<Rightarrow> (string \<times> nat \<times> DepthLevel) list" where
  "ask_rows bbo = map (\<lambda>i. (''Ask'', i + 1, ask_depth bbo ! i)) (rev [0 ..< ask_levels_count bbo])"

definition bid_rows :: "TopOfBookSnapshot \<Rightarrow> (string \<times> nat \<times> DepthLevel) list" where
  "bid_rows bbo = map (\<lambda>i. (''Bid'', i + 1, bid_depth bbo ! i)) [0 ..< bid_levels_count bbo]"

definition deck_line :: "(int \<Rightarrow> string) \<Rightarrow> string \<times> nat \<times> DepthLevel \<Rightarrow> string" where
  "deck_line fmt2 row =
     (let (label, n, d) = row
      in ''    '' @ label @ '' L'' @ dec_string n @ '' : $'' @ fmt2 (dl_price d) @ '' | Qty: '' @ dec_string (unat (dl_qty d)) @
         '' | Orders: '' @ dec_string (unat (dl_order_count d)))"

definition order_book_deck :: "(int \<Rightarrow> string) \<Rightarrow> OrderBookEngine \<Rightarrow> string list" where
  "order_book_deck fmt2 e =
     (let b = oe_order_book e; bbo = get_top_of_book_snapshot b; thin = replicate 52 (CHR ''-'')
      in [report_rule, ''    CAPSTONE L1/L2 ORDER BOOK BBO DEPTH SNAPSHOT   '', report_rule, ''  Symbol               : PETR4'',
          ''  Total Trades Matched : '' @ dec_string (unat (z_total_trades b)),
          ''  Total Volume Matched : '' @ dec_string (unat (z_total_volume b)) @ '' shares'', thin,
          ''  Best Bid (Top of Book): $'' @ fmt2 (best_bid_price bbo) @ '' (Qty: '' @ dec_string (unat (best_bid_qty bbo)) @ '')'',
          ''  Best Ask (Top of Book): $'' @ fmt2 (best_ask_price bbo) @ '' (Qty: '' @ dec_string (unat (best_ask_qty bbo)) @ '')'',
          ''  Top-of-Book Spread    : $'' @ fmt2 (spread_price bbo), thin,
          ''             L1 - L5 PRICE DEPTH DECK               '', thin, ''  [ASKS]''] @
         map (deck_line fmt2) (ask_rows bbo) @
         [''  '' @ replicate 50 (CHR ''-''), ''  [BIDS]''] @
         map (deck_line fmt2) (bid_rows bbo) @ [report_rule])"

lemma depth_prices:
  assumes "side_wf bid s" "i < min (level_count s) 5"
  defines "d \<equiv> fill_depth s (min (level_count s) 5) (replicate 5 empty_depth)"
  shows "d ! i = depth_level s i" "\<exists>r \<in> set (side_abs s). r_price r = dl_price (d ! i)"
proof -
  show eq: "d ! i = depth_level s i"
    using fill_depth_nth [of "min (level_count s) 5" "replicate 5 empty_depth" s] assms(2) by (simp add: d_def)
  have "filter (\<lambda>r. r_price r = dl_price (depth_level s i)) (side_abs s) \<noteq> []"
    using side_depth(1) [OF assms(1), of i] assms(2) by simp
  then show "\<exists>r \<in> set (side_abs s). r_price r = dl_price (d ! i)" by (auto simp: eq filter_empty_conv)
qed

text \<open>
  The deck reads as a price ladder: after any packet stream, its rows from top to bottom (asks, then bids) have strictly
  decreasing prices, so no price appears twice, every bid is below every ask, and the two rows next to the divider are the
  best ask and the best bid.
\<close>

theorem deck_is_ladder:
  "let bbo = get_top_of_book_snapshot (oe_order_book (engine_run env pkts (order_book_engine_init frames)))
   in sorted_wrt (\<lambda>x y. dl_price (snd (snd x)) > dl_price (snd (snd y))) (ask_rows bbo @ bid_rows bbo)"
proof -
  define b where "b = oe_order_book (engine_run env pkts (order_book_engine_init frames))"
  have inv: "z_inv b" using engine_run_inv by (simp add: b_def)
  then have wf: "side_wf True (z_bids b)" "side_wf False (z_asks b)" by (simp_all add: z_inv_def)
  let ?s = "get_top_of_book_snapshot b"
  have depth: "bid_depth ?s = fill_depth (z_bids b) (bid_levels_count ?s) (replicate 5 empty_depth)"
    "bid_levels_count ?s = min (level_count (z_bids b)) 5"
    "ask_depth ?s = fill_depth (z_asks b) (ask_levels_count ?s) (replicate 5 empty_depth)"
    "ask_levels_count ?s = min (level_count (z_asks b)) 5"
    by (simp_all add: get_top_of_book_snapshot_def Let_def)
  have bid: "dl_price (bid_depth ?s ! j) < dl_price (bid_depth ?s ! i)" if "i < j" "j < bid_levels_count ?s" for i j
    using side_depth(2) [OF wf(1), of j i] depth_prices(1) [OF wf(1)] that by (simp add: depth place_before_def)
  have ask: "dl_price (ask_depth ?s ! i) < dl_price (ask_depth ?s ! j)" if "i < j" "j < ask_levels_count ?s" for i j
    using side_depth(2) [OF wf(2), of j i] depth_prices(1) [OF wf(2)] that by (simp add: depth place_before_def)
  have cross: "dl_price (bid_depth ?s ! i) < dl_price (ask_depth ?s ! j)"
    if "i < bid_levels_count ?s" "j < ask_levels_count ?s" for i j
  proof -
    have "i < min (level_count (z_bids b)) 5" "j < min (level_count (z_asks b)) 5" using that by (simp_all only: depth)
    then obtain x y where "x \<in> set (side_abs (z_bids b))" "r_price x = dl_price (bid_depth ?s ! i)"
      "y \<in> set (side_abs (z_asks b))" "r_price y = dl_price (ask_depth ?s ! j)"
      using depth_prices(2) [OF wf(1)] depth_prices(2) [OF wf(2)] unfolding depth by blast
    then show ?thesis using inv by (metis z_inv_def uncrossed_def z_abs_def lob.select_convs)
  qed
  show ?thesis
    unfolding b_def [symmetric] Let_def ask_rows_def bid_rows_def sorted_wrt_append sorted_wrt_map sorted_wrt_rev
    using bid ask cross by (auto simp: sorted_wrt_iff_nth_less)
qed

end
