(* ===== verification/Entry_Points.thy ===== *)
theory Entry_Points
  imports Engine_Launcher Engine_Run Worker_Reports Tsc_Clock
begin

text \<open>
  \<open>EngineLauncher::run\<close> from the command line to its exit status, and the three programs that call it: \<open>src/main.cpp\<close>,
  \<open>src/matching_main.cpp\<close> and \<open>src/order_book_engine_main.cpp\<close>, each a title, a worker factory and a hook that prints after
  the run. What the threads do (theory \<open>Engine_Run\<close>) is an argument: from the messages the producer loaded and the worker the
  factory made to the worker, the telemetry and the duration they leave. An exception of the producer's constructor is not
  caught.
\<close>

datatype exit_status = EXIT_SUCCESS | EXIT_FAILURE | TERMINATED

text \<open>What the run of the threads leaves behind.\<close>

record ('w, 'd) session =
  se_worker :: 'w
  se_metrics :: WorkerMetrics
  se_rx :: u64
  se_duration_sec :: 'd
  se_process :: process

record launcher_exit =
  le_status :: exit_status
  le_stdout :: "string list"
  le_console :: "string list"
  le_process :: process

definition print_usage :: "string \<Rightarrow> string \<Rightarrow> string list" where
  "print_usage prog_name banner_title =
     [report_rule, ''  '' @ banner_title, report_rule, ''Usage:'',
      ''  '' @ prog_name @ '' <rx_interface> [tx_interface] <port> <source_file_or_count> [options]'', [],
      ''Positional Arguments:'',
      ''  <rx_interface>          Receiver NIC to bind (e.g., '' @ [CHR 0x27] @ ''veth1'' @ [CHR 0x27] @ '', '' @ [CHR 0x27] @ ''lo'' @
        [CHR 0x27] @ '', '' @ [CHR 0x27] @ ''enp4s0'' @ [CHR 0x27] @ '')'',
      ''  [tx_interface]          Optional Transmitter NIC for producer (e.g., '' @ [CHR 0x27] @ ''veth0'' @ [CHR 0x27] @ '')'',
      ''  <port>                  UDP port number (e.g., 8888)'',
      ''  <source_file_or_count>  Input message file path (.data or .txt) or message count'', [],
      ''Options:'',
      ''  --help, -h              Display this usage help message and exit'',
      ''  --rx-iface=<nic>        Explicit Receiver NIC for AF_XDP / socket consumer'',
      ''  --tx-iface=<nic>        Explicit Transmitter NIC for UDP producer'',
      ''  --direct-queue          Enable direct in-memory SPSC queue injection (0% loss)'',
      ''  --pin-cores             Enable real-time thread core pinning and affinity'',
      ''  --protocol=<type>       Explicit protocol override: FIX | OUCH | SBE'',
      ''  --queue-id=<id>         AF_XDP hardware queue ID (default 0)'', [],
      ''Examples:'',
      ''  '' @ prog_name @ '' veth1 veth0 8888 ./fix_messages_1m.data --pin-cores'',
      ''  '' @ prog_name @ '' lo 8888 sbe_messages_500k.data --direct-queue'', report_rule]"

text \<open>The lines the launcher logs before it starts the threads.\<close>

definition launch_banner :: "string \<Rightarrow> launch_config \<Rightarrow> string list" where
  "launch_banner title c =
     [report_rule, ''  '' @ title,
      ''Rx Interface: '' @ lc_rx_interface c @ '' | Tx Interface: '' @ lc_tx_interface c @ '' | Port: '' @ dec_string (unat (lc_udp_port c)),
      ''Protocol  : '' @ protocol_type_to_string (lc_protocol c),
      ''Source    : '' @ lc_source c @ '' ('' @ dec_string (lc_total_messages c) @ '' msgs)'',
      ''Execution : '' @ (if lc_direct_queue_mode c then ''Direct In-Memory Queue (0% Loss)'' else ''Network Ring Socket''),
      ''CSV File  : '' @ lc_csv_filename c, report_rule]"

text \<open>
  The inputs of a run besides the command line: the machine and its files, the counter and clock readings of the
  calibration, the answers of the kernel to the two allocations and the sizes of the two objects.
\<close>

record 'd launch_env =
  ln_doubles :: "'d doubles"
  ln_one :: 'd
  ln_per_thousand :: "'d \<Rightarrow> 'd"
  ln_machine :: machine
  ln_files :: "string \<Rightarrow> string option"
  ln_cycles :: "u64 \<times> u64"
  ln_clock :: monotonic
  ln_queue_answer :: "nat option \<times> nat option"
  ln_telemetry_answer :: "nat option \<times> nat option"
  ln_queue_size :: u64
  ln_telemetry_size :: u64

definition to_stderr :: "string list \<Rightarrow> process \<Rightarrow> process" where
  "to_stderr lines s = s\<lparr>stderr := stderr s @ lines\<rparr>"

definition launcher_run ::
  "string \<Rightarrow> (launch_config \<Rightarrow> 'w) \<Rightarrow> ('w \<Rightarrow> string list) \<Rightarrow>
     (launch_config \<Rightarrow> string list \<Rightarrow> 'd \<Rightarrow> 'w \<Rightarrow> process \<Rightarrow> ('w, 'd) session) \<Rightarrow>
     'd launch_env \<Rightarrow> string \<Rightarrow> string list \<Rightarrow> process \<Rightarrow> launcher_exit option" where
  "launcher_run title factory post_hook threads ln prog args proc =
     (case launch (ln_files ln) (nat (get_cpu_count (ln_machine ln))) args of
        Help \<Rightarrow> Some \<lparr>le_status = EXIT_SUCCESS, le_stdout = [], le_console = [],
                      le_process = to_stderr (print_usage prog title) proc\<rparr>
      | Missing_Arguments \<Rightarrow>
          Some \<lparr>le_status = EXIT_FAILURE, le_stdout = [], le_console = [],
                le_process = to_stderr ([''[Error] Missing required command line arguments.'', []] @ print_usage prog title) proc\<rparr>
      | Uncaught \<Rightarrow> Some \<lparr>le_status = TERMINATED, le_stdout = [], le_console = [], le_process = proc\<rparr>
      | Launch c \<Rightarrow>
          map_option (\<lambda>(g_cycles_per_ns, _).
            case launcher_memory (ln_machine ln) (ln_queue_answer ln) (ln_telemetry_answer ln)
                   (ln_queue_size ln) (ln_telemetry_size ln) proc of
              (None, proc1) \<Rightarrow> \<lparr>le_status = EXIT_FAILURE, le_stdout = [], le_console = [], le_process = proc1\<rparr>
            | (Some shared, proc1) \<Rightarrow>
                (case load_messages (lc_fix_file_path c) (ln_files ln (lc_fix_file_path c)) of
                   Inl _ \<Rightarrow> \<lparr>le_status = TERMINATED, le_stdout = [], le_console = launch_banner title c, le_process = proc1\<rparr>
                 | Inr loaded_messages \<Rightarrow>
                     (let se = threads c loaded_messages g_cycles_per_ns (factory c) proc1
                      in \<lparr>le_status = EXIT_SUCCESS,
                          le_stdout = post_hook (se_worker se) @
                            launcher_summary (ln_doubles ln) (ln_per_thousand ln) (se_duration_sec se) (se_rx se) (se_metrics se)
                              (lc_csv_filename c),
                          le_console = launch_banner title c,
                          le_process = launcher_release (ln_queue_size ln) (ln_telemetry_size ln) shared (se_process se)\<rparr>)))
          (calibrate_rdtsc (ln_doubles ln) (ln_one ln) (fst (ln_cycles ln)) (snd (ln_cycles ln)) (ln_clock ln)))"

subsection \<open>The programs\<close>

definition fix_main where
  "fix_main frames =
     launcher_run ''HFT FIX ENGINE & ZERO-COPY RX RING BYPASS'' (\<lambda>c. fix_worker_init (lc_total_messages c) frames) (\<lambda>_. [])"

definition matching_main where
  "matching_main clock frames =
     launcher_run ''HFT MULTI-PROTOCOL ORDER MATCHING ENGINE'' (\<lambda>c. matching_worker_init (lc_total_messages c) clock frames)
       (\<lambda>w. [''  Total Trades Matched   : '' @ dec_string (unat (total_trades (mw_matching_engine w)))])"

definition order_book_engine_main where
  "order_book_engine_main fmt2 frames =
     launcher_run ''CAPSTONE C++20 HFT ORDER BOOK & BBO TELEMETRY'' (\<lambda>_. order_book_engine_init frames) (order_book_deck fmt2)"

subsection \<open>Exit status and memory\<close>

text \<open>
  A run whose command line is accepted, whose two objects could be allocated and whose data set, if there is one, could be loaded
  ends with status success, having printed what the hook says of the worker and then the summary; and it restores the address space, provided the kernel chose free
  and disjoint ranges and the threads leave the address space alone.
\<close>

theorem launcher_run_exit:
  assumes "launcher_run title factory post_hook threads ln prog args proc = Some ex"
    and "launch (ln_files ln) (nat (get_cpu_count (ln_machine ln))) args = Launch c"
    and "launcher_memory (ln_machine ln) (ln_queue_answer ln) (ln_telemetry_answer ln)
           (ln_queue_size ln) (ln_telemetry_size ln) proc = (Some (q, t), proc1)"
    and "\<And>cyc w. mem_mapped (se_process (threads c msgs cyc w proc1)) = mem_mapped proc1 \<and>
           mem_objects (se_process (threads c msgs cyc w proc1)) = mem_objects proc1"
    and "{q ..< q + unat (rounded_size (ln_queue_size ln))} \<inter> mem_mapped proc = {}" "q \<notin> mem_objects proc"
    and "{t ..< t + unat (rounded_size (ln_telemetry_size ln))} \<inter>
           (mem_mapped proc \<union> {q ..< q + unat (rounded_size (ln_queue_size ln))}) = {}" "t \<notin> mem_objects proc" "t \<noteq> q"
    and "load_messages (lc_fix_file_path c) (ln_files ln (lc_fix_file_path c)) = Inr msgs"
  shows "le_status ex = EXIT_SUCCESS \<and> mem_mapped (le_process ex) = mem_mapped proc \<and>
    mem_objects (le_process ex) = mem_objects proc \<and> (\<exists>cyc. le_stdout ex =
      post_hook (se_worker (threads c msgs cyc (factory c) proc1)) @
      launcher_summary (ln_doubles ln) (ln_per_thousand ln) (se_duration_sec (threads c msgs cyc (factory c) proc1))
        (se_rx (threads c msgs cyc (factory c) proc1)) (se_metrics (threads c msgs cyc (factory c) proc1)) (lc_csv_filename c))"
proof -
  obtain cyc where ex: "ex = (let se = threads c msgs cyc (factory c) proc1
       in \<lparr>le_status = EXIT_SUCCESS, le_stdout = post_hook (se_worker se) @
             launcher_summary (ln_doubles ln) (ln_per_thousand ln) (se_duration_sec se) (se_rx se) (se_metrics se) (lc_csv_filename c),
           le_console = launch_banner title c,
           le_process = launcher_release (ln_queue_size ln) (ln_telemetry_size ln) (q, t) (se_process se)\<rparr>)"
    using assms(1) by (auto simp: launcher_run_def assms(2,3,10))
  have "mem_mapped (launcher_release qs ts p x) = mem_mapped (launcher_release qs ts p y) \<and>
      mem_objects (launcher_release qs ts p x) = mem_objects (launcher_release qs ts p y)"
    if "mem_mapped x = mem_mapped y" "mem_objects x = mem_objects y" for qs ts p x y
    using that by (simp add: launcher_release_def deallocate_huge_pages_def)
  from this [OF conjunct1 [OF assms(4)] conjunct2 [OF assms(4)]] launcher_memory_restored [OF assms(3) assms(5-9)]
  show ?thesis unfolding ex Let_def by auto
qed

text \<open>
  A data set of fewer than eight bytes ends every program: the exception of the producer's constructor is not caught, no thread
  is started and nothing is printed after the banner.
\<close>

lemma launcher_short_data_set:
  assumes "launcher_run title factory post_hook threads ln prog args proc = Some ex"
    and "launch (ln_files ln) (nat (get_cpu_count (ln_machine ln))) args = Launch c"
    and "launcher_memory (ln_machine ln) (ln_queue_answer ln) (ln_telemetry_answer ln)
           (ln_queue_size ln) (ln_telemetry_size ln) proc = (Some shared, proc1)"
    and "lc_fix_file_path c \<noteq> []" "ln_files ln (lc_fix_file_path c) = Some content" "length content < 8"
  shows "le_status ex = TERMINATED \<and> le_stdout ex = [] \<and> le_console ex = launch_banner title c"
  using assms(1) load_messages_short [OF assms(4,6)] by (auto simp: launcher_run_def assms(2,3,5))

end
