(* ===== verification/Spec2Isabelle.thy ===== *)
theory Spec2Isabelle
  imports Spsc_Concurrent Protocol_Parser Gap_Detector Feed_Arbitrator Reorder_Buffer Risk_Manager
    Recovery_Manager Matching_Engine Order_Book_Refinement Top_Of_Book Matching_Worker Fix_Worker
    Logging_Thread Console_Logger Rx_Udp Af_Xdp Engine_Launcher
    Test_Arena_Results Protocol_Arena Producer_Network Counted_Liveness Network_Run Entry_Points
begin

text \<open>
  A verification development for the HFT FIX engine: a receiver thread captures UDP frames, a
  lock-free queue carries them to a worker thread, and the worker decodes, filters, risk-checks and
  matches the orders they hold.

  \<^bold>\<open>The program\<close>

  \<^item> A producer (\<open>src/src/networking/FixProducer.cpp\<close>) reads a data set and sends its messages over UDP, or
    pushes them straight into the queue.
  \<^item> A receiver (\<open>RxRingConsumer.cpp\<close>, \<open>AfXdpRxConsumer.cpp\<close>, chosen by \<open>RxConsumerFactory.hpp\<close>) strips
    the headers of each frame in place and pushes a \<open>FixMessagePacket\<close>, a pointer into the ring.
  \<^item> The queue is \<open>SPSCQueue.hpp\<close>. A worker pops batches of up to 32 packets.
  \<^item> A worker is \<open>FixWorker\<close> (parse and measure), \<open>MatchingWorker\<close> (multi-symbol \<open>MatchingEngine\<close>) or
    \<open>HftOrderBookEngine\<close> (\<open>ZeroAllocHftOrderBook\<close>). The last two filter by sequence number
    (\<open>SequenceGapDetector\<close>, \<open>FeedArbitrator\<close>) and gate by \<open>PreTradeRiskManager\<close> before the book.
  \<^item> Telemetry counters, a logging thread per worker, the console logger and the performance monitor
    observe the run; \<open>EngineLauncher.hpp\<close> reads the command line and wires everything together.

  \<^bold>\<open>Theories, in dependency order\<close> (paths relative to \<open>src/\<close>)

  \<^item> \<open>Hft_Prelude\<close>: machine integer types, signed wrap-around, decimal rendering, power-of-two index
    masks, ring-slot lemmas on lists; the simp collections the other theories use.
  \<^item> \<open>Spsc_Queue\<close> (\<open>include/hft/common/SPSCQueue.hpp\<close>): the record \<open>spsc\<close> holds the buffer, the two 64-bit
    positions and the two cached positions; one function per operation. \<open>spsc_run_fifo\<close>: any run of
    calls behaves as a bounded queue, across wrap-around of the positions. The locale \<open>bounded_fifo\<close>
    states the contract and the interpretation \<open>spsc\<close> discharges it.
  \<^item> \<open>Spsc_Concurrent\<close>: push and pop as two threads, one step per load, buffer access or store:
    first-in first-out order, no data race on a slot, wait-freedom.
  \<^item> \<open>Mpsc_Queue\<close> (\<open>include/hft/common/MpscQueue.hpp\<close>): each critical section is one function; a wait
    whose predicate is false is a value. Locale \<open>message_channel\<close>, interpretation \<open>mpsc\<close>.
  \<^item> \<open>Fix_Parser\<close>, \<open>Protocol_Parser\<close> (\<open>include/hft/protocol/ParsedOrder.hpp\<close>, \<open>FixParser.hpp\<close>,
    \<open>ProtocolParser.hpp\<close>): the tag=value scanner, the fixed-point price, OUCH and SBE records. The parsers are modelled at
    the level of their accesses: a read outside the payload or a write outside the inline buffer is \<open>None\<close>, and a string
    view is a location. Round trips, exactness of the price, no access outside its range, which orders can be copied.
  \<^item> \<open>Dedup_Filter\<close>: the locales \<open>dedup_filter\<close> and \<open>complete_filter\<close>, what a filter by sequence number
    promises; interpreted by \<open>Gap_Detector\<close> (\<open>SequenceGapDetector.hpp\<close>) and \<open>Feed_Arbitrator\<close>
    (\<open>FeedArbitrator.hpp\<close>).
  \<^item> \<open>Reorder_Buffer\<close> (\<open>SequenceReorderBuffer.hpp\<close>): slots and drain loop; what is emitted is in sequence
    order and nothing in the window is lost.
  \<^item> \<open>Risk_Manager\<close> (\<open>PreTradeRiskManager.hpp\<close>): the verdict, exactly, in wrapping arithmetic.
  \<^item> \<open>Flat_Book\<close>, \<open>Recovery_Manager\<close> (\<open>OrderBookRecoveryManager.hpp\<close>): the fixed array refines a finite map
    (locale \<open>price_ladder\<close>); recovery from a snapshot equals applying the updates in order.
  \<^item> \<open>Limit_Book\<close>: the abstract price-time priority book and the locale \<open>matching_book\<close> that states the
    contract of a concrete book. \<open>Matching_Engine\<close> (\<open>MatchingEngine.hpp\<close>) and \<open>Order_Book\<close> with
    \<open>Order_Book_Refinement\<close> (\<open>ZeroAllocHftOrderBook.hpp\<close>: pools, free lists, pointer arrays, order rings)
    interpret it, so both produce the trades of the abstract book.
  \<^item> \<open>Worker_Types\<close>, \<open>Packet_Gate\<close>, \<open>Worker_Loop\<close>: packets, log messages, telemetry; the stages a packet
    passes before a book (locale \<open>gated_worker\<close>); the main loop (locales \<open>ring_worker\<close> and
    \<open>counting_worker\<close>).
  \<^item> \<open>Order_Book_Engine\<close>, \<open>Top_Of_Book\<close> (\<open>HftOrderBookEngine.cpp\<close>), \<open>Matching_Worker\<close>
    (\<open>MatchingWorker.cpp\<close>), \<open>Fix_Worker\<close> (\<open>FixWorker.cpp\<close>): the handlers, each interpreting the locales
    above; only approved orders reach a book, both engines trade alike, the loop drains the queue.
  \<^item> \<open>Logging_Thread\<close>, \<open>Console_Logger\<close> (\<open>ConsoleLogger.cpp\<close>): threads as step relations; every accepted
    line is printed, in order, before shutdown returns.
  \<^item> \<open>Clock_Synchronizer\<close> (\<open>ClockSynchronizer.hpp\<close>): calibration, conversion and the UTC text.
  \<^item> \<open>Rx_Filter\<close>, \<open>Rx_Ring\<close>, \<open>Rx_Loop\<close>, \<open>Rx_Udp\<close>, \<open>Af_Xdp\<close>: header stripping, set-up of each receiver with
    its clean-up, the receiving loops interleaved with kernel and worker.
  \<^item> \<open>Fix_Producer\<close>, \<open>Producer_Network\<close> (\<open>FixProducer.cpp\<close>): data set (with the state of the stream it is read from, and the
    exception that leaves the constructor for a file of fewer than eight bytes), synthetic orders, direct injection into the
    queue; socket set-up and the sending loops. \<open>Engine_Launcher\<close> (\<open>EngineLauncher.hpp\<close>): command line, configuration and
    the number of messages to expect.
  \<^item> \<open>System_Setup\<close> (\<open>SystemOptimizations.hpp\<close>): thread settings, memory locking and the huge page allocation as functions
    on a state of threads and address space. \<open>Cpu_Benchmark\<close> (\<open>CpuSchedulerBenchmark.hpp\<close>) and \<open>Tsc_Clock\<close>
    (\<open>calibrate_rdtsc\<close> of \<open>Types.hpp\<close>): statistics and calibration over the readings they take.
  \<^item> \<open>Performance_Monitor\<close> (\<open>PerformanceMonitor.cpp\<close>): the sampling loop and the text of the CSV file, which reads back.
  \<^item> \<open>Engine_Run\<close>, \<open>Counted_Run\<close>, \<open>Counted_Liveness\<close>: the threads \<open>EngineLauncher::run\<close> starts and joins, with the three
    global flags, as actions that interleave in any order; the locale \<open>counted_worker\<close> is interpreted by both
    counting workers. The receiver is any of the three receiving loops, with its own limit of idle checks. A direct queue run
    in which no packet reaches the receiver handles the whole data set and can always be completed; with packets that arrive
    when the worker has left, the join of the receiver can wait for ever (\<open>receiver_join_can_hang\<close>).
  \<^item> \<open>Data_Set_Run\<close>: the reference exchange and the lemmas that both matching programs compute it. \<open>Network_Run\<close>: the order
    book engine behind the mapped ring, with the kernel filling the frames. The properties of whole programs are at the
    end of this theory.
  \<^item> \<open>Worker_Reports\<close>: the final reports and the order book deck. \<open>Entry_Points\<close> (\<open>main.cpp\<close>, \<open>matching_main.cpp\<close>,
    \<open>order_book_engine_main.cpp\<close>): the launcher from the command line to the exit status.
  \<^item> \<open>Test_Arena\<close>, \<open>Test_Arena_Results\<close> (\<open>TestArena.cpp\<close>) and \<open>Protocol_Arena\<close> (\<open>protocol_arena_main.cpp\<close>): the scenarios
    and benchmarks the repository ships, with the outcome they have for every input.

  \<^bold>\<open>Modelling conventions\<close>

  Machine integers are words of their C++ width, or integers with the wrap-around written out. C
  strings and buffers are byte lists with the size of the array. What a thread reads from outside it
  (the clock, the queue, a system call, the kernel) is an input of the model: a list of observations
  or an argument. Double arithmetic and the text of a double are function arguments; no property
  depends on their values. Errors and early returns are values of sum or option types.

  \<^bold>\<open>Bounds and fuel\<close>

  Queue capacities and ring sizes are parameters; the properties state the bounds they need (a power
  of two below \<open>2 ^ 63\<close>). The main loops run over the list of observations they make, so they are total:
  \<open>engine_loop_returns\<close> shows that a stop request ends the loop. Matching loops and drain loops have
  measures (resting quantity, occupied slots), no fuel. Runs of threads are sequences of actions of any length;
  \<open>matching_program_finishes\<close> and \<open>direct_run_can_finish\<close> show that every direct queue run without traffic for the receiver
  can be completed.

  \<^bold>\<open>Not modelled\<close>

  \<^item> Memory orders weaker than sequential consistency: threads interleave at their loads and stores, and the
    acquire and release annotations are taken to make those visible in that order.
  \<^item> What pinning, real-time priority, pauses, pacing and prefetching do to time: the calls and their error paths
    are modelled, their effect on the schedule is any interleaving.
  \<^item> \<open>log4cplus\<close> and its layouts, \<open>libxdp\<close> and the kernel behind the system calls: parameters, with the results the
    code tests for.
  \<^item> The values of double arithmetic and the text of a double: parameters.
  \<^item> In runs of threads, two producers inside a push at the same time: the direct queue properties are for a receiver that
    gets no packet. The store of the terminating zero behind a full slot of the reorder buffer.
  \<^item> Reads of a parsed order after the payload is gone, and of the copy of a returned order that the compiler does not elide.
  \<^item> The fallback of \<open>rdtsc\<close> on other processors, the order of static destructors, and constructors and accessors that
    only copy or return a field.
\<close>

section \<open>Whole programs\<close>

text \<open>
  C1. The matching program, from the command line and the bytes of the data set to the books. In direct queue mode, for every
  accepted command line, every data set file the producer can load (at least eight bytes; binary, or text without carriage
  returns) in which a copy of a sequence number arrives before another number of the same arbitration slot, every queue capacity,
  each of the three receiving loops (the mode starts the receiver too) as long as no packet reaches it, every interleaving of the
  threads that is stopped neither by a signal nor by a failed receiver set-up, and all clock readings: once the main thread has
  joined the worker, every symbol's book, the number of trades and the traded volume (the counters modulo \<open>2 ^ 64\<close>) are those
  of the reference exchange over the admitted orders of the file.
\<close>

theorem matching_program_correct:
  assumes "launch fs cpus args = Launch c" "lc_source c \<noteq> []" "fs (lc_source c) = Some content"
    and "is_binary (lc_source c) content \<or> CHR 0x0D \<notin> set content"
    and "load_messages (lc_fix_file_path c) (Some content) = Inr msgs"
    and "copies_in_window [] (map (\<lambda>msg. seq_num (wire_order (lc_protocol c) msg)) msgs)"
    and "spsc_static_assert cap" "length buf = cap" "undisturbed acts" "we_protocol env = lc_protocol c" "traffic = []"
    and "t = counted_run cap (mw_handle env) mw_finished acts
           (counted_start kind msgs buf traffic (matching_worker_init (lc_total_messages c) clock frames))"
    and "et_main (ct_threads t) \<in> {M_Stop, M_Join_Monitor, M_Report}"
  shows "let eng = mw_matching_engine (et_worker (ct_threads t));
             x = exchange_run (admitted_orders (lc_protocol c) msgs)
    in (\<forall>symb. book_abs (book_for eng symb) = ex_books x symb) \<and>
       total_trades eng = of_nat (ex_trades x) \<and> total_volume eng = of_nat (ex_volume x)"
proof -
  have "lc_total_messages c = length msgs"
    using launch_data_set [OF assms(1)] launcher_counts_messages [of fs "lc_source c" content] assms(2-5) by simp
  then have "map (the \<circ> pkt_payload) (et_handled (ct_threads t)) = msgs \<and> list_all is_direct (et_handled (ct_threads t)) \<and>
      ct_left t = [] \<and> et_worker (ct_threads t) = handle_all (mw_handle env) (et_handled (ct_threads t))
        (matching_worker_init (lc_total_messages c) clock frames) \<and> spsc_contents cap (et_queue (ct_threads t)) = []"
    using assms(11-13) by (intro matching_counted.counted_complete [OF assms(7-9)]) simp_all
  then show ?thesis
    using matching_data_set [of "et_handled (ct_threads t)" msgs env "lc_total_messages c" clock frames] assms(6,10)
      direct_carries [of "et_handled (ct_threads t)"]
    by (simp add: exchange_rel_def Let_def)
qed

text \<open>Witness: a file with one order, through a queue of four slots; the order rests in the book.\<close>

theorem matching_program_correct_witness:
  "lob_bids (book_abs (book_for (mw_matching_engine (et_worker (ct_threads
     (counted_run 4 (mw_handle fix_env) mw_finished sample_counted_acts
       (counted_start Ring_Loop [sample_line] (replicate 4 (direct_packet 0 [])) []
         (matching_worker_init 1 sample_clock (\<lambda>_. TP_STATUS_USER))))))) ''PETR4'')) = [sample_resting]"
proof -
  obtain c where c: "launch sample_files 4 sample_args = Launch c" "lc_source c = ''a.txt''" "lc_fix_file_path c = ''a.txt''"
    "lc_protocol c = FIX" "lc_total_messages c = 1" using sample_launch by blast
  have "copies_in_window [] (map (\<lambda>msg. seq_num (wire_order (lc_protocol c) msg)) [sample_line])"
    by (rule copies_in_window_distinct) simp_all
  moreover have "undisturbed sample_counted_acts" by (simp add: undisturbed_def sample_counted_acts_def)
  ultimately show ?thesis
    using matching_program_correct [of sample_files 4 sample_args c "sample_line @ [CHR 0x0A]" "[sample_line]" 4
        "replicate 4 (direct_packet 0 [])" sample_counted_acts fix_env "[]", OF _ _ _ _ _ _ _ _ _ _ _ refl,
        of Ring_Loop sample_clock "\<lambda>_. TP_STATUS_USER"]
      c sample_content sample_counted_stops [of fix_env Ring_Loop sample_line sample_clock "\<lambda>_. TP_STATUS_USER"] sample_exchange
    by (simp add: sample_files_def spsc_static_assert_def fix_env_def sample_admitted Let_def)
qed

text \<open>
  C2. The order book program on a data set. In direct queue mode, for every data set the producer can load (an opened file has
  at least eight bytes) in which a copy of a sequence number arrives before another number of the same arbitration slot, every
  queue capacity, each of the three receiving loops (the mode starts the receiver too) as long as no packet reaches it, every
  interleaving of the threads that is stopped neither by a signal nor by a failed receiver set-up, and all clock readings: once
  the main thread has joined the worker, the zero-allocation book holds exactly what a price-time priority book limited to 64
  prices and 32 orders at a price holds after the admitted orders of the file, its totals count every fill, and the trade
  numbers count sixteen fills of an order at most (all counters modulo \<open>2 ^ 64\<close>).
\<close>

theorem order_book_program_correct:
  assumes "load_messages path content = Inr msgs"
    and "copies_in_window [] (map (\<lambda>msg. seq_num (wire_order (we_protocol env) msg)) msgs)"
    and "spsc_static_assert cap" "length buf = cap" "undisturbed acts" "traffic = []"
    and "s = threads_run cap (engine_handle env) acts (threads_start kind msgs buf traffic (order_book_engine_init frames))"
    and "et_main s \<in> {M_Stop, M_Join_Monitor, M_Report}"
  shows "let book = oe_order_book (et_worker s); (fills, lob) = bounded_run (admitted_orders (we_protocol env) msgs)
    in z_abs book = lob \<and> z_total_trades book = of_nat (sum_list (map length fills)) \<and>
       z_total_volume book = of_nat (sum_list (map fill_sum fills)) \<and>
       oe_trade_counter (et_worker s) = of_nat (sum_list (map (\<lambda>fs. min 16 (length fs)) fills))"
proof -
  have run: "map (the \<circ> pkt_payload) (et_handled s) = msgs" "list_all is_direct (et_handled s)"
    "et_worker s = engine_run env (et_handled s) (order_book_engine_init frames)"
    using direct_run_complete [OF assms(3-5) assms(7) [unfolded assms(6)] assms(8)] by simp_all
  obtain fss lb where b: "bounded_run (admitted_orders (we_protocol env) msgs) = (fss, lb)" by fastforce
  show ?thesis
    using order_book_data_set [OF _ assms(2) b run(3)] direct_carries [OF run(2)] run(1) b by simp
qed

theorem order_book_program_correct_witness:
  "lob_bids (z_abs (oe_order_book (et_worker (threads_run 4 (engine_handle fix_env) one_message_acts
     (one_message_start sample_line))))) = [sample_resting]"
proof -
  let ?s = "threads_run 4 (engine_handle fix_env) one_message_acts (one_message_start sample_line)"
  have "copies_in_window [] (map (\<lambda>msg. seq_num (wire_order (we_protocol fix_env) msg)) [sample_line])"
    by (rule copies_in_window_distinct) simp_all
  moreover have "undisturbed one_message_acts"
    unfolding one_message_acts_def undisturbed_append using idle_turns_undisturbed
    by (simp add: undisturbed_def one_message_early_def)
  ultimately show ?thesis
    using order_book_program_correct [of "''a.txt''" "Some (sample_line @ [CHR 0x0A])" "[sample_line]" fix_env 4
        "replicate 4 (direct_packet 0 [])" one_message_acts "[]" ?s Ring_Loop "\<lambda>_. TP_STATUS_USER"]
      one_message_reaches_stop [of fix_env sample_line] sample_content(3) sample_admitted sample_bounded
    by (simp add: one_message_start_def spsc_static_assert_def fix_env_protocol Let_def)
qed

text \<open>
  C3. The order book program on the network, with the mapped ring: for every sequence of well-formed datagrams with payloads of
  1 to 512 bytes for the port, every interleaving of the kernel, the receiver and the engine while the system runs, every queue
  capacity and a ring (a power of two of frames) with at least 32 frames more than the queue has slots, as long as among the
  datagrams handled every copy of a sequence number comes before another number of the same arbitration slot: the engine's book
  is at every moment the one of the bounded price-time priority book after the admitted orders of the datagrams it has
  handled, which are the first ones the ring took, in order and with their bytes, its totals count every fill (modulo \<open>2 ^ 64\<close>);
  and when nothing is on its way any more these are all the datagrams the ring took.
\<close>

theorem network_program_correct:
  assumes "spsc_static_assert cap" "length buf = cap" "pow2_capacity nr" "cap + 32 \<le> nr" "list_all arrival_ok acts"
    and "t = net_run cap nr port env acts (net_init buf mem (order_book_engine_init frames))"
    and "msgs = take (length (rs_seen (nt_rx t))) (nt_taken t)"
    and "copies_in_window [] (map (\<lambda>msg. seq_num (wire_order (we_protocol env) msg)) msgs)"
  shows "let book = oe_order_book (nt_engine t); (fills, lob) = bounded_run (admitted_orders (we_protocol env) msgs)
    in z_abs book = lob \<and> z_total_trades book = of_nat (sum_list (map length fills)) \<and>
       z_total_volume book = of_nat (sum_list (map fill_sum fills)) \<and>
       (net_drained cap nr (nt_rx t) \<longrightarrow> msgs = nt_taken t)"
proof -
  have inv: "net_inv cap nr port env (order_book_engine_init frames) t"
    unfolding assms(6) by (rule net_run_inv [OF net_inv_init [OF assms(1-3)] assms(3-5)])
  have "0 < nr" using assms(4) by simp
  note seen = net_inv_seen [OF inv this]
  obtain fss lb where b: "bounded_run (admitted_orders (we_protocol env) msgs) = (fss, lb)" by fastforce
  from order_book_data_set [OF seen(1) [folded assms(7)] assms(8) b seen(2)] seen(3) assms(7) b show ?thesis by simp
qed

theorem network_program_correct_witness:
  "lob_bids (z_abs (oe_order_book (nt_engine (net_run 4 64 8888 fix_env sample_net_acts
     (net_init (replicate 4 blank_packet) (\<lambda>_. CHR 0x00) (order_book_engine_init (\<lambda>_. TP_STATUS_USER))))))) = [sample_resting]"
proof -
  let ?t = "net_run 4 64 8888 fix_env sample_net_acts (net_init (replicate 4 blank_packet) (\<lambda>_. CHR 0x00) (order_book_engine_init (\<lambda>_. TP_STATUS_USER)))"
  have seen: "length (rs_seen (nt_rx ?t)) = 1" "nt_taken ?t = [sample_line]" using one_datagram_seen [OF refl] by blast+
  have "copies_in_window [] (map (\<lambda>msg. seq_num (wire_order (we_protocol fix_env) msg)) [sample_line])"
    by (rule copies_in_window_distinct) simp_all
  moreover have "list_all arrival_ok sample_net_acts" by (simp add: sample_net_acts_def arrival_ok_def sample_datagram_ok)
  moreover have "pow2_capacity (64 :: nat)" using pow2_capacity_exp [of 6] by simp
  ultimately show ?thesis
    using network_program_correct [of 4 "replicate 4 blank_packet" 64 sample_net_acts ?t 8888 fix_env "\<lambda>_. CHR 0x00" "\<lambda>_. TP_STATUS_USER" "[sample_line]"]
      seen sample_admitted sample_bounded
    by (simp add: spsc_static_assert_def fix_env_protocol Let_def)
qed

text \<open>
  C12. The matching program can always end: for a data set file the producer can load (at least eight bytes; binary, or text without
  carriage returns), from every point of a direct queue run in which no packet reaches the receiver and that is stopped neither by
  a signal nor by a failed receiver set-up, whatever the threads have done so far, there is a continuation in which the worker
  leaves, all threads are joined and the main thread reaches its report. The launcher's expected number cannot make the
  worker wait for a message that does not come.
\<close>

theorem matching_program_finishes:
  assumes "launch fs cpus args = Launch c" "lc_source c \<noteq> []" "fs (lc_source c) = Some content"
    and "is_binary (lc_source c) content \<or> CHR 0x0D \<notin> set content"
    and "load_messages (lc_fix_file_path c) (Some content) = Inr msgs"
    and "spsc_static_assert cap" "length buf = cap" "undisturbed acts" "traffic = []"
  shows "\<exists>more. undisturbed more \<and>
    et_main (ct_threads (counted_run cap (mw_handle env) mw_finished (acts @ more)
      (counted_start kind msgs buf traffic (matching_worker_init (lc_total_messages c) clock frames)))) = M_Report"
proof -
  have "lc_total_messages c = length msgs"
    using launch_data_set [OF assms(1)] launcher_counts_messages [of fs "lc_source c" content] assms(2-5) by simp
  then show ?thesis unfolding assms(9) by (intro matching_counted.counted_can_finish [OF assms(6-8)]) simp
qed

theorem matching_program_finishes_witness:
  "\<exists>more. et_main (ct_threads (counted_run 4 (mw_handle fix_env) mw_finished ([Producer 5, Worker] @ more)
     (counted_start Udp_Loop [sample_line] (replicate 4 (direct_packet 0 [])) []
       (matching_worker_init 1 sample_clock (\<lambda>_. TP_STATUS_USER))))) = M_Report"
proof -
  obtain c where c: "launch sample_files 4 sample_args = Launch c" "lc_source c = ''a.txt''" "lc_fix_file_path c = ''a.txt''"
    "lc_total_messages c = 1" using sample_launch by blast
  have "\<exists>more. undisturbed more \<and>
    et_main (ct_threads (counted_run 4 (mw_handle fix_env) mw_finished ([Producer 5, Worker] @ more)
      (counted_start Udp_Loop [sample_line] (replicate 4 (direct_packet 0 [])) []
        (matching_worker_init (lc_total_messages c) sample_clock (\<lambda>_. TP_STATUS_USER))))) = M_Report"
    by (rule matching_program_finishes [OF c(1), where content = "sample_line @ [CHR 0x0A]"])
      (use c sample_content in \<open>simp_all add: sample_files_def spsc_static_assert_def undisturbed_def\<close>)
  then show ?thesis unfolding c(4) by blast
qed

end
